(* ===== verification/Nbuf_Prelude.thy ===== *)
theory Nbuf_Prelude
  imports Main "HOL-Library.Word" "HOL-Library.Monad_Syntax"
begin

text \<open>
  Shared ground of the development: the machine types of the C code (LP64, little endian),
  slices of byte blocks (the memory a \<open>char *\<close> of the code points to), \<open>assert\<close> as a
  partial computation, and the facts on words and slices that the component theories use.

  A C function that may abort (a failed \<open>assert\<close>) or read or write outside its memory block
  is a HOL function into \<open>option\<close>: \<open>None\<close> is the abort or the illegal access, \<open>Some\<close> the
  normal return.  An error the C code reports to its caller is part of the returned value.
\<close>

unbundle bit_operations_syntax

named_theorems nbuf_defs \<open>definitions of straight-line code, unfolded together\<close>
named_theorems slice_simps \<open>equations on slices and splices of byte blocks\<close>

type_synonym byte = "8 word"
type_synonym uint16 = "16 word"
type_synonym uint32 = "32 word"
type_synonym uint64 = "64 word"
type_synonym int64 = "64 word"
type_synonym size_t = "64 word"

section \<open>Assertions\<close>

definition assert_ok :: "bool \<Rightarrow> unit option" where
  "assert_ok b = (if b then Some () else None)"

lemma assert_ok_True [simp]: "assert_ok True = Some ()"
  and assert_ok_False [simp]: "assert_ok False = None"
  by (simp_all add: assert_ok_def)

lemma assert_ok_eq_Some [simp]: "assert_ok b = Some u \<longleftrightarrow> b"
  by (cases b) simp_all

section \<open>Slices of byte blocks\<close>

definition seg :: "nat \<Rightarrow> nat \<Rightarrow> 'a list \<Rightarrow> 'a list" where
  "seg i n xs = take n (drop i xs)"

definition splice_at :: "nat \<Rightarrow> 'a list \<Rightarrow> 'a list \<Rightarrow> 'a list" where
  "splice_at i ys xs = take i xs @ ys @ drop (i + length ys) xs"

lemma length_slice [simp]: "i + n \<le> length xs \<Longrightarrow> length (seg i n xs) = n"
  by (simp add: seg_def)

lemma length_slice_le: "length (seg i n xs) \<le> n"
  by (simp add: seg_def)

lemma nth_slice: "i + n \<le> length xs \<Longrightarrow> k < n \<Longrightarrow> seg i n xs ! k = xs ! (i + k)"
  by (simp add: seg_def)

lemma length_splice_at [simp]: "i + length ys \<le> length xs \<Longrightarrow> length (splice_at i ys xs) = length xs"
  by (simp add: splice_at_def)

lemma nth_splice_at:
  "i + length ys \<le> length xs \<Longrightarrow> k < length xs \<Longrightarrow>
    splice_at i ys xs ! k = (if i \<le> k \<and> k < i + length ys then ys ! (k - i) else xs ! k)"
  by (auto simp: splice_at_def nth_append min_def)

lemma slice_splice_same [slice_simps]:
  "i + length ys \<le> length xs \<Longrightarrow> n = length ys \<Longrightarrow> seg i n (splice_at i ys xs) = ys"
  by (simp add: seg_def splice_at_def)

lemma slice_splice_other:
  assumes "i + length ys \<le> length xs" and "j + n \<le> length xs"
    and "j + n \<le> i \<or> i + length ys \<le> j"
  shows "seg j n (splice_at i ys xs) = seg j n xs"
  using assms by (intro nth_equalityI) (auto simp: nth_slice nth_splice_at)

lemma slice_slice: "i + n \<le> m \<Longrightarrow> seg i n (seg j m xs) = seg (j + i) n xs"
  by (simp add: seg_def take_drop min_def add.commute)

lemma slice_append1: "i + n \<le> length xs \<Longrightarrow> seg i n (xs @ ys) = seg i n xs"
  by (simp add: seg_def)

lemma slice_0_length [simp]: "seg 0 (length xs) xs = xs"
  by (simp add: seg_def)

lemma slice_take: "i + n \<le> m \<Longrightarrow> seg i n (take m xs) = seg i n xs"
  by (simp add: seg_def take_drop min_def)

lemma splice_at_splice_at_comm:
  assumes "i + length ys \<le> length xs" and "j + length zs \<le> length xs"
    and "i + length ys \<le> j \<or> j + length zs \<le> i"
  shows "splice_at i ys (splice_at j zs xs) = splice_at j zs (splice_at i ys xs)"
  using assms by (intro nth_equalityI) (auto simp: nth_splice_at)

lemma splice_at_overwrite:
  "i + length ys \<le> length xs \<Longrightarrow> length zs = length ys \<Longrightarrow>
    splice_at i zs (splice_at i ys xs) = splice_at i zs xs"
  by (intro nth_equalityI) (auto simp: nth_splice_at)

section \<open>Words: sums and products that do not wrap\<close>

lemma unat_add_nowrap:
  fixes a b :: "'a::len word"
  assumes "unat a + unat b < 2 ^ LENGTH('a)"
  shows "unat (a + b) = unat a + unat b"
  using assms by (simp add: unat_word_ariths)

lemma unat_mult_nowrap:
  fixes a b :: "'a::len word"
  assumes "unat a * unat b < 2 ^ LENGTH('a)"
  shows "unat (a * b) = unat a * unat b"
  using assms by (simp add: unat_word_ariths)

lemma unat_sub_nowrap:
  fixes a b :: "'a::len word"
  shows "b \<le> a \<Longrightarrow> unat (a - b) = unat a - unat b"
  by (rule unat_sub)

lemma unat_u16_lt: "unat (x :: uint16) < 65536"
proof -
  have "unat x < 2 ^ LENGTH(16)" by (rule unsigned_less)
  then show ?thesis by simp
qed

lemma unat_u32_lt: "unat (x :: uint32) < 4294967296"
proof -
  have "unat x < 2 ^ LENGTH(32)" by (rule unsigned_less)
  then show ?thesis by simp
qed

lemma unat_u64_lt: "unat (x :: uint64) < 18446744073709551616"
proof -
  have "unat x < 2 ^ LENGTH(64)" by (rule unsigned_less)
  then show ?thesis by simp
qed

lemma unat_ucast_16_64 [simp]: "unat (ucast (x :: uint16) :: uint64) = unat x"
  using unat_u16_lt [of x] by (simp add: unsigned_ucast_eq take_bit_nat_def)

lemma unat_ucast_32_64 [simp]: "unat (ucast (x :: uint32) :: uint64) = unat x"
  using unat_u32_lt [of x] by (simp add: unsigned_ucast_eq take_bit_nat_def)

lemma unat_ucast_16_32 [simp]: "unat (ucast (x :: uint16) :: uint32) = unat x"
  using unat_u16_lt [of x] by (simp add: unsigned_ucast_eq take_bit_nat_def)

lemma unat_of_nat_64: "n < 2 ^ 64 \<Longrightarrow> unat (of_nat n :: uint64) = n"
  by (simp add: unat_of_nat take_bit_nat_eq_self)

end
