(* ===== verification/Wire_Int.thy ===== *)
theory Wire_Int
  imports Nbuf_Prelude
begin

text \<open>
  Little-endian integers on a byte block: \<^verbatim>\<open>nbuf_read_int_unsafe\<close> and
  \<^verbatim>\<open>nbuf_write_int_unsafe\<close> of \<^verbatim>\<open>include/nbuf.h\<close>.  A pointer into a block is the block and the
  position it points to; dereferencing it outside the block is \<open>None\<close>.  The branch for
  \<^verbatim>\<open>NBUF_BIG_ENDIAN\<close> swaps the bytes and has the same effect on the wire; it is not modelled.
  The lemmas give the two functions one equation each for the four legal sizes, the round trip
  and the frame.
\<close>

section \<open>Bytes of a number, lowest first\<close>

primrec le_val :: "byte list \<Rightarrow> nat" where
  "le_val [] = 0"
| "le_val (b # bs) = unat b + 256 * le_val bs"

primrec le_enc :: "nat \<Rightarrow> nat \<Rightarrow> byte list" where
  "le_enc 0 v = []"
| "le_enc (Suc n) v = of_nat (v mod 256) # le_enc n (v div 256)"

lemma length_le_enc [simp]: "length (le_enc n v) = n"
  by (induction n arbitrary: v) auto

lemma unat_byte_lt: "unat (b :: byte) < 256"
proof -
  have "unat b < 2 ^ LENGTH(8)" by (rule unsigned_less)
  then show ?thesis by simp
qed

lemma le_val_lt: "le_val bs < 256 ^ length bs"
proof (induction bs)
  case Nil
  then show ?case by simp
next
  case (Cons b bs)
  then have "Suc (le_val bs) \<le> 256 ^ length bs" by simp
  then have "256 * Suc (le_val bs) \<le> 256 * 256 ^ length bs" by (rule mult_le_mono2)
  then show ?case using unat_byte_lt [of b] by simp
qed

lemma le_val_enc: "le_val (le_enc n v) = v mod 256 ^ n"
proof (induction n arbitrary: v)
  case 0
  then show ?case by simp
next
  case (Suc n)
  have "unat (of_nat (v mod 256) :: byte) = v mod 256"
    by (simp add: unat_of_nat take_bit_nat_def)
  then show ?case
    by (simp add: Suc mod_mult2_eq)
qed

lemma le_enc_mod: "le_enc n (v mod 256 ^ n) = le_enc n v"
proof (induction n arbitrary: v)
  case 0
  then show ?case by simp
next
  case (Suc n)
  have "v mod (256 * 256 ^ n) = 256 * (v div 256 mod 256 ^ n) + v mod 256"
    by (rule mod_mult2_eq)
  then have "v mod 256 ^ Suc n mod 256 = v mod 256"
    and "v mod 256 ^ Suc n div 256 = v div 256 mod 256 ^ n"
    by simp_all
  then show ?case using Suc [of "v div 256"] by simp
qed

lemma le_enc_val: "le_enc (length bs) (le_val bs) = bs"
proof (induction bs)
  case Nil
  then show ?case by simp
next
  case (Cons b bs)
  have "(unat b + 256 * le_val bs) mod 256 = unat b"
    and "(unat b + 256 * le_val bs) div 256 = le_val bs"
    using unat_byte_lt [of b] by simp_all
  then show ?case using Cons by simp
qed

section \<open>Dereferencing a pointer into a block\<close>

definition load :: "byte list \<Rightarrow> nat \<Rightarrow> nat \<Rightarrow> byte list option" where
  "load blk p n = (if p + n \<le> length blk then Some (seg p n blk) else None)"

definition store :: "byte list \<Rightarrow> nat \<Rightarrow> byte list \<Rightarrow> byte list option" where
  "store blk p bs = (if p + length bs \<le> length blk then Some (splice_at p bs blk) else None)"

definition nbuf_read_int_unsafe :: "byte list \<Rightarrow> nat \<Rightarrow> size_t \<Rightarrow> int64 option" where
  "nbuf_read_int_unsafe blk ptr sz =
    (if sz = 8 then map_option (\<lambda>bs. of_nat (le_val bs)) (load blk ptr 8)
     else if sz = 4 then map_option (\<lambda>bs. scast (of_nat (le_val bs) :: 32 word)) (load blk ptr 4)
     else if sz = 2 then map_option (\<lambda>bs. scast (of_nat (le_val bs) :: 16 word)) (load blk ptr 2)
     else if sz = 1 then map_option (\<lambda>bs. scast (of_nat (le_val bs) :: 8 word)) (load blk ptr 1)
     else None)"

definition nbuf_write_int_unsafe :: "byte list \<Rightarrow> nat \<Rightarrow> size_t \<Rightarrow> uint64 \<Rightarrow> byte list option" where
  "nbuf_write_int_unsafe blk ptr sz v =
    (if sz = 8 then store blk ptr (le_enc 8 (unat v))
     else if sz = 4 then store blk ptr (le_enc 4 (unat (ucast v :: 32 word)))
     else if sz = 2 then store blk ptr (le_enc 2 (unat (ucast v :: 16 word)))
     else if sz = 1 then store blk ptr (le_enc 1 (unat (ucast v :: 8 word)))
     else None)"

section \<open>One equation for the four sizes\<close>

text \<open>\<open>int_conv sz v\<close> is \<open>v\<close> converted to the signed integer type of \<open>sz\<close> bytes and back to 64 bits.\<close>

definition int_conv :: "size_t \<Rightarrow> uint64 \<Rightarrow> int64" where
  "int_conv sz v =
    (if sz = 4 then scast (ucast v :: 32 word)
     else if sz = 2 then scast (ucast v :: 16 word)
     else if sz = 1 then scast (ucast v :: 8 word)
     else v)"

definition int_size :: "size_t \<Rightarrow> bool" where
  "int_size sz \<longleftrightarrow> sz = 1 \<or> sz = 2 \<or> sz = 4 \<or> sz = 8"

lemma int_sizeE:
  assumes "int_size sz"
  obtains "sz = 1" | "sz = 2" | "sz = 4" | "sz = 8"
  using assms by (auto simp: int_size_def)

lemma int_size_simps [simp]: "int_size 1" "int_size 2" "int_size 4" "int_size 8"
  by (simp_all add: int_size_def)

lemma int_size_unat: "int_size sz \<Longrightarrow> 1 \<le> unat sz \<and> unat sz \<le> 8"
  by (auto elim: int_sizeE)

lemma ucast_of_nat: "LENGTH('b) \<le> LENGTH('a) \<Longrightarrow>
    ucast (of_nat n :: 'a::len word) = (of_nat n :: 'b::len word)"
  by (rule bit_word_eqI) (auto simp: bit_simps)

lemma read_int_eq:
  assumes "int_size sz"
  shows "nbuf_read_int_unsafe blk p sz =
    (if p + unat sz \<le> length blk
     then Some (int_conv sz (of_nat (le_val (seg p (unat sz) blk)))) else None)"
  using assms
  by (cases rule: int_sizeE)
    (simp_all add: nbuf_read_int_unsafe_def int_conv_def load_def ucast_of_nat)

lemma le_enc_ucast:
  fixes v :: "64 word"
  assumes "LENGTH('b) = 8 * n" and "LENGTH('b) \<le> 64"
  shows "le_enc n (unat (ucast v :: 'b::len word)) = le_enc n (unat v)"
proof -
  have "unat (ucast v :: 'b word) = unat v mod 256 ^ n"
    using assms by (simp add: unsigned_ucast_eq take_bit_nat_def power_mult)
  then show ?thesis by (simp add: le_enc_mod)
qed

lemma write_int_eq:
  assumes "int_size sz"
  shows "nbuf_write_int_unsafe blk p sz v =
    (if p + unat sz \<le> length blk
     then Some (splice_at p (le_enc (unat sz) (unat v)) blk) else None)"
  using assms
  by (cases rule: int_sizeE)
    (simp_all add: nbuf_write_int_unsafe_def store_def le_enc_ucast del: le_enc.simps)

section \<open>Round trip, frame and value\<close>

lemma ucast_le_mod:
  assumes "LENGTH('b) = k" and "k \<le> 64"
  shows "ucast (of_nat (unat v mod 2 ^ k) :: 64 word) = (ucast (v :: 64 word) :: 'b::len word)"
proof (rule bit_word_eqI)
  fix n assume "n < LENGTH('b)"
  then show "bit (ucast (of_nat (unat v mod 2 ^ k) :: 64 word) :: 'b word) n
      = bit (ucast v :: 'b word) n"
    using assms by (simp add: bit_simps flip: take_bit_eq_mod)
qed

lemma of_nat_le_val_enc:
  assumes "int_size sz"
  shows "int_conv sz (of_nat (le_val (le_enc (unat sz) (unat v)))) = int_conv sz v"
  using assms
proof (cases rule: int_sizeE)
  case 1
  then show ?thesis using ucast_le_mod [where 'b = 8 and k = 8 and v = v]
    by (simp add: int_conv_def le_val_enc del: le_enc.simps)
next
  case 2
  then show ?thesis using ucast_le_mod [where 'b = 16 and k = 16 and v = v]
    by (simp add: int_conv_def le_val_enc)
next
  case 3
  then show ?thesis using ucast_le_mod [where 'b = 32 and k = 32 and v = v]
    by (simp add: int_conv_def le_val_enc)
next
  case 4
  have "unat v mod 2 ^ 64 = unat v" using unat_u64_lt [of v] by simp
  with 4 show ?thesis by (simp add: int_conv_def le_val_enc)
qed

lemma read_write_int_same:
  assumes "nbuf_write_int_unsafe blk p sz v = Some blk'" and "int_size sz"
  shows "nbuf_read_int_unsafe blk' p sz = Some (int_conv sz v)"
  using assms
  by (auto simp: write_int_eq read_int_eq slice_simps of_nat_le_val_enc split: if_splits)

lemma read_write_int_other:
  assumes "nbuf_write_int_unsafe blk p sz v = Some blk'" and "int_size sz" and "int_size sz'"
    and "q + unat sz' \<le> p \<or> p + unat sz \<le> q"
  shows "nbuf_read_int_unsafe blk' q sz' = nbuf_read_int_unsafe blk q sz'"
  using assms
  by (auto simp: write_int_eq read_int_eq slice_splice_other split: if_splits)

lemma write_int_length:
  "nbuf_write_int_unsafe blk p sz v = Some blk' \<Longrightarrow> length blk' = length blk"
  by (auto simp: nbuf_write_int_unsafe_def store_def split: if_splits)

text \<open>A value that fits the signed type is kept; a value that fits the unsigned one is
  recovered by converting the result to it.\<close>

lemma scast_ucast_fits:
  fixes v :: "64 word"
  assumes "- (2 ^ (LENGTH('b) - 1)) \<le> sint v" and "sint v < 2 ^ (LENGTH('b) - 1)"
    and "LENGTH('b) \<le> 64"
  shows "scast (ucast v :: 'b::len word) = v"
proof -
  have top: "LENGTH('b) - Suc 0 = 63" if "63 < LENGTH('b)"
    using that assms(3) by simp
  have "sint (ucast v :: 'b word) = signed_take_bit (LENGTH('b) - 1) (uint v)"
    by (simp add: signed_ucast_eq)
  also have "\<dots> = signed_take_bit (LENGTH('b) - 1) (sint v)"
    using assms(3) by (auto simp: bit_eq_iff bit_simps min_def top)
  also have "\<dots> = sint v"
    using assms(1,2) by (intro signed_take_bit_int_eq_self) simp_all
  finally have e: "sint (ucast v :: 'b word) = sint v" .
  have "scast (ucast v :: 'b word) = (word_of_int (sint v) :: 64 word)"
    by (simp only: scast_eq e)
  then show ?thesis by simp
qed

lemma int_conv_fits:
  assumes "int_size sz"
    and "- (2 ^ (8 * unat sz - 1)) \<le> sint v" and "sint v < 2 ^ (8 * unat sz - 1)"
  shows "int_conv sz v = v"
  using assms
  by (cases rule: int_sizeE) (simp_all add: int_conv_def scast_ucast_fits)

lemma int_conv_unsigned16: "(ucast (int_conv 2 (ucast w)) :: 16 word) = w"
  and int_conv_unsigned32: "(ucast (int_conv 4 (ucast x)) :: 32 word) = x"
  by (rule bit_word_eqI, auto simp: int_conv_def bit_simps)+

end
