(* ===== verification/Buffer.thy ===== *)
theory Buffer
  imports Wire_Int
begin

text \<open>
  The growable byte buffer \<^verbatim>\<open>struct nbuf_buffer\<close> of \<^verbatim>\<open>include/nbuf.h\<close> and the file helpers of
  \<^verbatim>\<open>lib/util.c\<close>.  The memory block behind \<^verbatim>\<open>base\<close> is the list of its bytes, the empty list
  standing for \<^verbatim>\<open>NULL\<close>.  \<^verbatim>\<open>malloc\<close> and \<^verbatim>\<open>realloc\<close> are governed by an \<open>allocator\<close>: which sizes
  it grants, and the unspecified bytes a fresh block holds.  The lemmas show that
  \<^verbatim>\<open>nbuf_reserve\<close> terminates, makes the room it promises and keeps the contents, for every
  allocator.
\<close>

section \<open>State\<close>

datatype nbuf_ops = NULL_ops | builder_ops

record nbuf_buffer =
  buf_base :: "byte list"
  buf_len :: size_t
  buf_cap :: size_t
  buf_ops :: nbuf_ops

record allocator =
  grants :: "nat \<Rightarrow> bool"
  junk :: "nat \<Rightarrow> byte"

definition malloc_block :: "allocator \<Rightarrow> nat \<Rightarrow> byte list option" where
  "malloc_block al n = (if grants al n then Some (map (junk al) [0..<n]) else None)"

definition realloc_block :: "allocator \<Rightarrow> byte list \<Rightarrow> nat \<Rightarrow> byte list option" where
  "realloc_block al old n =
    (if grants al n then Some (take n old @ map (junk al) [length old..<n]) else None)"

definition NBUF_WORD_SZ :: size_t where "NBUF_WORD_SZ = 4"
definition NBUF_ALIGN :: size_t where "NBUF_ALIGN = 8"
definition NBUF_ALLOC_MIN :: size_t where "NBUF_ALLOC_MIN = 64"

definition NBUF_ROUNDUP :: "size_t \<Rightarrow> size_t \<Rightarrow> size_t" where
  "NBUF_ROUNDUP x n = (x + (n - 1)) div n * n"

section \<open>Operations\<close>

definition nbuf_init_read :: "byte list \<Rightarrow> size_t \<Rightarrow> nbuf_buffer" where
  "nbuf_init_read bytes sz = \<lparr>buf_base = bytes, buf_len = sz, buf_cap = 0, buf_ops = NULL_ops\<rparr>"

definition nbuf_init_write ::
    "allocator \<Rightarrow> byte list option \<Rightarrow> size_t \<Rightarrow> bool \<times> nbuf_buffer" where
  "nbuf_init_write al bytes sz =
    (let blk = (case bytes of Some b \<Rightarrow> Some b
                | None \<Rightarrow> if sz \<noteq> 0 then malloc_block al (unat sz) else None)
     in (blk \<noteq> None,
         \<lparr>buf_base = (case blk of Some b \<Rightarrow> b | None \<Rightarrow> []), buf_len = 0, buf_cap = sz,
          buf_ops = NULL_ops\<rparr>))"

text \<open>The loop of \<^verbatim>\<open>nbuf_reserve\<close>: \<open>None\<close> is its \<^verbatim>\<open>return false\<close> when doubling reaches 0.\<close>

function grow_cap :: "size_t \<Rightarrow> size_t \<Rightarrow> size_t \<Rightarrow> size_t option" where
  "grow_cap l inc c =
    (if inc > c - l
     then (let c' = c * 2 in if c' = 0 then None else grow_cap l inc c')
     else Some c)"
  by pat_completeness auto

text \<open>Each doubling modulo \<open>2 ^ 64\<close> brings the capacity one step closer to 0.\<close>

definition doublings :: "size_t \<Rightarrow> nat" where
  "doublings c = (LEAST k. c * 2 ^ k = 0)"

lemma doublings_double:
  assumes "c * 2 \<noteq> 0"
  shows "doublings c = Suc (doublings (c * 2))"
proof -
  have "(2 :: size_t) ^ 64 = 0" by simp
  then have "c * 2 ^ 64 = 0" by (simp only: mult_zero_right)
  moreover have "c * 2 ^ 0 \<noteq> 0" using assms by auto
  ultimately have "(LEAST k. c * 2 ^ k = 0) = Suc (LEAST k. c * 2 ^ Suc k = 0)"
    by (rule Least_Suc)
  then show ?thesis by (simp add: doublings_def mult.assoc)
qed

termination grow_cap
  by (relation "measure (\<lambda>(l, inc, c). doublings c)") (auto simp: doublings_double)

declare grow_cap.simps [simp del]

definition nbuf_reserve :: "allocator \<Rightarrow> nbuf_buffer \<Rightarrow> size_t \<Rightarrow> (bool \<times> nbuf_buffer) option" where
  "nbuf_reserve al buf inc =
    do { assert_ok (buf_cap buf \<ge> buf_len buf);
         let c0 = (if buf_cap buf = 0 then NBUF_ALLOC_MIN else buf_cap buf);
         Some (case grow_cap (buf_len buf) inc c0 of
            None \<Rightarrow> (False, buf)
          | Some c \<Rightarrow>
              if c > buf_cap buf
              then (case realloc_block al (buf_base buf) (unat c) of
                      None \<Rightarrow> (False, buf)
                    | Some b \<Rightarrow> (True, buf\<lparr>buf_base := b, buf_cap := c\<rparr>))
              else (True, buf)) }"

definition nbuf_clear :: "nbuf_buffer \<Rightarrow> nbuf_buffer" where
  "nbuf_clear buf = buf\<lparr>buf_len := 0\<rparr>"

definition nbuf_free :: "nbuf_buffer \<Rightarrow> nbuf_buffer" where
  "nbuf_free buf = buf\<lparr>buf_base := [], buf_len := 0, buf_cap := 0\<rparr>"

definition nbuf_bounds_check :: "nbuf_buffer \<Rightarrow> size_t \<Rightarrow> size_t \<Rightarrow> bool" where
  "nbuf_bounds_check buf byte_offset sz \<longleftrightarrow>
    byte_offset \<le> buf_len buf \<and> byte_offset + sz \<le> buf_len buf"

definition nbuf_writable :: "nbuf_buffer \<Rightarrow> bool" where
  "nbuf_writable buf \<longleftrightarrow> buf_cap buf \<ge> buf_len buf"

definition nbuf_read_int_safe :: "nbuf_buffer \<Rightarrow> size_t \<Rightarrow> size_t \<Rightarrow> int64 option" where
  "nbuf_read_int_safe buf pos sz =
    do { assert_ok (nbuf_bounds_check buf pos sz);
         nbuf_read_int_unsafe (buf_base buf) (unat pos) sz }"

definition nbuf_write_int_safe ::
    "nbuf_buffer \<Rightarrow> size_t \<Rightarrow> size_t \<Rightarrow> int64 \<Rightarrow> nbuf_buffer option" where
  "nbuf_write_int_safe buf pos sz v =
    do { assert_ok (nbuf_bounds_check buf pos sz);
         b \<leftarrow> nbuf_write_int_unsafe (buf_base buf) (unat pos) sz v;
         Some (buf\<lparr>buf_base := b\<rparr>) }"

section \<open>Files\<close>

text \<open>
  A stream being read is the list of the bytes it still delivers and the error flag that
  \<^verbatim>\<open>ferror\<close> reports at its end.  The result of \<^verbatim>\<open>nbuf_reserve\<close> is ignored, as in the code.
\<close>

fun nbuf_load_file ::
    "allocator \<Rightarrow> nbuf_buffer \<Rightarrow> byte list \<Rightarrow> bool \<Rightarrow> (bool \<times> nbuf_buffer) option" where
  "nbuf_load_file al buf [] err = Some (\<not> err, buf)"
| "nbuf_load_file al buf (ch # rest) err =
    do { (ok, buf1) \<leftarrow> nbuf_reserve al buf 1;
         b \<leftarrow> store (buf_base buf1) (unat (buf_len buf1)) [ch];
         nbuf_load_file al (buf1\<lparr>buf_base := b, buf_len := buf_len buf1 + 1\<rparr>) rest err }"

definition nbuf_save_file :: "nbuf_buffer \<Rightarrow> byte list \<Rightarrow> bool \<Rightarrow> (bool \<times> byte list) option" where
  "nbuf_save_file buf out err =
    do { bs \<leftarrow> load (buf_base buf) 0 (unat (buf_len buf)); Some (\<not> err, out @ bs) }"

section \<open>Well-formed buffers\<close>

text \<open>
  A readable buffer has its valid bytes inside its block; a writable one owns a block of exactly
  its capacity.  No block reaches \<open>2 ^ 63\<close> bytes, the limit \<^verbatim>\<open>PTRDIFF_MAX\<close> of the platform.
\<close>

definition buf_wf :: "nbuf_buffer \<Rightarrow> bool" where
  "buf_wf b \<longleftrightarrow> unat (buf_len b) \<le> length (buf_base b) \<and> length (buf_base b) < 2 ^ 63"

definition buf_wwf :: "nbuf_buffer \<Rightarrow> bool" where
  "buf_wwf b \<longleftrightarrow> length (buf_base b) = unat (buf_cap b) \<and> buf_len b \<le> buf_cap b \<and>
    length (buf_base b) < 2 ^ 63"

lemma buf_wwf_wf: "buf_wwf b \<Longrightarrow> buf_wf b"
  by (simp add: buf_wwf_def buf_wf_def word_le_nat_alt)

lemma length_malloc_block: "malloc_block al n = Some b \<Longrightarrow> length b = n"
  by (auto simp: malloc_block_def split: if_splits)

lemma realloc_block_Some:
  "realloc_block al old n = Some b \<Longrightarrow>
    length b = n \<and> (length old \<le> n \<longrightarrow> take (length old) b = old)"
  by (auto simp: realloc_block_def split: if_splits)

lemma init_write_wwf:
  "nbuf_init_write al None sz = (ok, b) \<Longrightarrow> ok \<Longrightarrow> unat sz < 2 ^ 63 \<Longrightarrow> buf_wwf b"
  by (auto simp: nbuf_init_write_def buf_wwf_def Let_def dest: length_malloc_block
      split: if_splits option.splits)

section \<open>Making room\<close>

lemma grow_cap_Some:
  assumes "l \<le> c" and "c \<noteq> 0" and "unat l + unat inc < 2 ^ 63"
  shows "\<exists>c'. grow_cap l inc c = Some c' \<and> c \<le> c' \<and> unat l + unat inc \<le> unat c' \<and>
    (c' = c \<or> unat c' < 2 * (unat l + unat inc)) \<and> (\<exists>k. unat c' = unat c * 2 ^ k)"
  using assms
proof (induction l inc c rule: grow_cap.induct)
  case (1 l inc c)
  have sub: "unat (c - l) = unat c - unat l" and lc: "unat l \<le> unat c"
    using "1.prems"(1) by (simp_all add: unat_sub_nowrap word_le_nat_alt)
  show ?case
  proof (cases "inc > c - l")
    case False
    then have "unat l + unat inc \<le> unat c"
      using sub lc by (simp add: word_less_nat_alt)
    moreover have "unat c = unat c * 2 ^ 0" by simp
    ultimately show ?thesis
      using False by (subst grow_cap.simps) (auto intro: exI [of _ "0 :: nat"])
  next
    case True
    then have lt: "unat c < unat l + unat inc"
      using sub lc by (simp add: word_less_nat_alt)
    then have dbl: "unat (c * 2) = unat c * 2"
      using "1.prems"(3) by (subst unat_mult_nowrap) simp_all
    have nz: "c * 2 \<noteq> 0"
      using dbl "1.prems"(2) by (metis mult_eq_0_iff unat_0 unat_0_iff zero_neq_numeral)
    have le: "l \<le> c * 2" using lc dbl by (simp add: word_le_nat_alt)
    obtain c' where c': "grow_cap l inc (c * 2) = Some c'" "c * 2 \<le> c'"
      "unat l + unat inc \<le> unat c'" "c' = c * 2 \<or> unat c' < 2 * (unat l + unat inc)"
      "\<exists>k. unat c' = unat (c * 2) * 2 ^ k"
      using "1.IH" [OF True refl nz le nz "1.prems"(3)] by blast
    from c'(5) obtain k where "unat c' = unat (c * 2) * 2 ^ k" by blast
    then have "unat c' = unat c * 2 ^ Suc k" using dbl by simp
    then have "\<exists>k. unat c' = unat c * 2 ^ k" by blast
    moreover have "grow_cap l inc c = Some c'"
      using True nz c'(1) by (subst grow_cap.simps) simp
    moreover have "c \<le> c'" using c'(2) dbl by (simp add: word_le_nat_alt)
    moreover have "unat c' < 2 * (unat l + unat inc)" using c'(4) lt dbl by auto
    ultimately show ?thesis using c'(3) by blast
  qed
qed

text \<open>What a successful reservation leaves: room for \<open>n\<close> more bytes, the old bytes in place.\<close>

definition reserved :: "nbuf_buffer \<Rightarrow> nat \<Rightarrow> nbuf_buffer \<Rightarrow> bool" where
  "reserved b n b' \<longleftrightarrow> buf_wwf b' \<and> buf_len b' = buf_len b \<and> buf_ops b' = buf_ops b \<and>
    buf_cap b \<le> buf_cap b' \<and> unat (buf_len b) + n \<le> length (buf_base b') \<and>
    take (length (buf_base b)) (buf_base b') = buf_base b"

lemma reserve_cases:
  assumes "buf_wwf b" and "unat (buf_len b) + unat inc < 2 ^ 62"
  obtains (ok) b' where "nbuf_reserve al b inc = Some (True, b')" and "reserved b (unat inc) b'"
  | (nomem) "nbuf_reserve al b inc = Some (False, b)" and "\<exists>n. \<not> grants al n"
proof -
  define c0 where "c0 = (if buf_cap b = 0 then NBUF_ALLOC_MIN else buf_cap b)"
  have wf: "length (buf_base b) = unat (buf_cap b)" "buf_len b \<le> buf_cap b"
    "unat (buf_cap b) < 2 ^ 63"
    using assms(1) by (simp_all add: buf_wwf_def)
  have l0: "buf_len b \<le> c0" and c00: "c0 \<noteq> 0"
    using wf(2) by (auto simp: c0_def NBUF_ALLOC_MIN_def)
  have "unat (buf_len b) + unat inc < 2 ^ 63" using assms(2) by simp
  from grow_cap_Some [OF l0 c00 this] obtain c where c: "grow_cap (buf_len b) inc c0 = Some c"
    "c0 \<le> c" "unat (buf_len b) + unat inc \<le> unat c"
    "c = c0 \<or> unat c < 2 * (unat (buf_len b) + unat inc)" by blast
  have cb: "unat c < 2 ^ 63"
    using c(4) assms(2) wf(3) by (auto simp: c0_def NBUF_ALLOC_MIN_def)
  have cap: "buf_cap b \<le> c" using c(2) by (auto simp: c0_def split: if_splits)
  show thesis
  proof (cases "c > buf_cap b")
    case False
    then have "c = buf_cap b" using cap by simp
    then have "reserved b (unat inc) b" using assms(1) c(3) wf by (simp add: reserved_def)
    then show thesis using ok False c(1) wf(2) by (simp add: nbuf_reserve_def flip: c0_def)
  next
    case True
    show thesis
    proof (cases "realloc_block al (buf_base b) (unat c)")
      case None
      then have "\<exists>n. \<not> grants al n" by (auto simp: realloc_block_def split: if_splits)
      with None True show thesis
        using nomem c(1) wf(2) by (simp add: nbuf_reserve_def flip: c0_def)
    next
      case (Some blk)
      let ?b = "b\<lparr>buf_base := blk, buf_cap := c\<rparr>"
      have "length blk = unat c" "take (length (buf_base b)) blk = buf_base b"
        using realloc_block_Some [OF Some] wf(1) cap by (simp_all add: word_le_nat_alt)
      then have "reserved b (unat inc) ?b"
        using c(3) cb wf cap by (simp add: reserved_def buf_wwf_def)
      then show thesis using ok [of ?b] Some True c(1) wf(2)
        by (simp add: nbuf_reserve_def flip: c0_def)
    qed
  qed
qed

section \<open>Checked accesses\<close>

text \<open>In a buffer below \<open>2 ^ 63\<close> bytes the sum in \<^verbatim>\<open>nbuf_bounds_check\<close> does not wrap.\<close>

lemma bounds_check_iff:
  assumes "buf_wf b" and "unat sz < 2 ^ 63"
  shows "nbuf_bounds_check b pos sz \<longleftrightarrow> unat pos + unat sz \<le> unat (buf_len b)"
proof -
  have len: "unat (buf_len b) < 2 ^ 63" using assms(1) by (simp add: buf_wf_def)
  have "unat (pos + sz) = unat pos + unat sz" if "unat pos \<le> unat (buf_len b)"
    using that len assms(2) by (intro unat_add_nowrap) simp
  then show ?thesis by (auto simp: nbuf_bounds_check_def word_le_nat_alt)
qed

lemma int_size_lt: "int_size sz \<Longrightarrow> unat sz < 2 ^ 63"
  using int_size_unat [of sz] by simp

lemma read_safe_eq:
  assumes "buf_wf b" and "int_size sz"
  shows "nbuf_read_int_safe b pos sz =
    (if unat pos + unat sz \<le> unat (buf_len b)
     then Some (int_conv sz (of_nat (le_val (seg (unat pos) (unat sz) (buf_base b)))))
     else None)"
  using assms bounds_check_iff [OF assms(1) int_size_lt [OF assms(2)], of pos]
  by (auto simp: nbuf_read_int_safe_def read_int_eq buf_wf_def)

lemma write_safe_eq:
  assumes "buf_wf b" and "int_size sz"
  shows "nbuf_write_int_safe b pos sz v =
    (if unat pos + unat sz \<le> unat (buf_len b)
     then Some (b\<lparr>buf_base := splice_at (unat pos) (le_enc (unat sz) (unat v)) (buf_base b)\<rparr>)
     else None)"
  using assms bounds_check_iff [OF assms(1) int_size_lt [OF assms(2)], of pos]
  by (auto simp: nbuf_write_int_safe_def write_int_eq buf_wf_def)

section \<open>Loading a file\<close>

definition buf_data :: "nbuf_buffer \<Rightarrow> byte list" where
  "buf_data b = take (unat (buf_len b)) (buf_base b)"

lemma load_file_step:
  assumes "buf_wwf b" and "unat (buf_len b) + 1 < 2 ^ 62" and "\<And>n. grants al n"
  obtains b1 blk where "nbuf_reserve al b 1 = Some (True, b1)"
    and "store (buf_base b1) (unat (buf_len b1)) [ch] = Some blk"
    and "buf_wwf (b1\<lparr>buf_base := blk, buf_len := buf_len b1 + 1\<rparr>)"
    and "buf_data (b1\<lparr>buf_base := blk, buf_len := buf_len b1 + 1\<rparr>) = buf_data b @ [ch]"
    and "unat (buf_len b1 + 1) = unat (buf_len b) + 1"
proof -
  have "unat (buf_len b) + unat (1 :: size_t) < 2 ^ 62" using assms(2) by simp
  then obtain b1 where b1: "nbuf_reserve al b 1 = Some (True, b1)" "reserved b 1 b1"
    by (rule reserve_cases [OF assms(1), of _ al]) (use assms(3) in auto)
  let ?n = "unat (buf_len b)"
  have r: "buf_len b1 = buf_len b" "?n + 1 \<le> length (buf_base b1)"
    "take (length (buf_base b)) (buf_base b1) = buf_base b" "buf_wwf b1"
    using b1(2) by (simp_all add: reserved_def)
  have n: "?n \<le> length (buf_base b)"
    using assms(1) by (simp add: buf_wwf_def word_le_nat_alt)
  have len: "unat (buf_len b + 1) = ?n + 1"
    using assms(2) by (subst unat_add_nowrap) simp_all
  have st: "store (buf_base b1) ?n [ch] = Some (splice_at ?n [ch] (buf_base b1))"
    using r(2) by (simp add: store_def)
  have "take ?n (buf_base b1) = take ?n (buf_base b)"
    using r(3) n by (metis min.absorb1 take_take)
  then have "take (?n + 1) (splice_at ?n [ch] (buf_base b1)) = take ?n (buf_base b) @ [ch]"
    using r(2) n by (simp add: splice_at_def min.absorb2)
  then show thesis
    using that [OF b1(1), of "splice_at ?n [ch] (buf_base b1)"] st len r
    by (simp add: buf_data_def buf_wwf_def word_le_nat_alt)
qed

lemma load_file_appends:
  assumes "buf_wwf b" and "unat (buf_len b) + length bs < 2 ^ 62" and "\<And>n. grants al n"
  shows "\<exists>b'. nbuf_load_file al b bs err = Some (\<not> err, b') \<and> buf_wwf b' \<and>
    buf_data b' = buf_data b @ bs"
  using assms(1,2)
proof (induction bs arbitrary: b)
  case Nil
  then show ?case by simp
next
  case (Cons ch rest)
  have "unat (buf_len b) + 1 < 2 ^ 62" using Cons.prems(2) by simp
  then obtain b1 blk where s: "nbuf_reserve al b 1 = Some (True, b1)"
    "store (buf_base b1) (unat (buf_len b1)) [ch] = Some blk"
    "buf_wwf (b1\<lparr>buf_base := blk, buf_len := buf_len b1 + 1\<rparr>)"
    "buf_data (b1\<lparr>buf_base := blk, buf_len := buf_len b1 + 1\<rparr>) = buf_data b @ [ch]"
    "unat (buf_len b1 + 1) = unat (buf_len b) + 1"
    using load_file_step [OF Cons.prems(1) _ assms(3)] by metis
  show ?case
    using Cons.IH [OF s(3)] Cons.prems(2) s by simp
qed

section \<open>What the buffer promises\<close>

text \<open>
  Claim C35.  Reserving room always terminates: for every allocator \<^verbatim>\<open>nbuf_reserve\<close> returns, and either
  the buffer now has room for \<open>inc\<close> more bytes, with its contents, length and operations kept, or
  it returns \<^verbatim>\<open>false\<close> with the buffer unchanged, which only happens when the allocator refuses.
\<close>

theorem reserve_makes_room:
  assumes "buf_wwf b" and "unat (buf_len b) + unat inc < 2 ^ 62"
  shows "(\<exists>b'. nbuf_reserve al b inc = Some (True, b') \<and> reserved b (unat inc) b') \<or>
    nbuf_reserve al b inc = Some (False, b) \<and> (\<exists>n. \<not> grants al n)"
  using reserve_cases [OF assms, of al] by metis

theorem reserve_makes_room_witness:
  "\<exists>b'. nbuf_reserve \<lparr>grants = (\<lambda>_. True), junk = (\<lambda>_. 0)\<rparr>
      \<lparr>buf_base = [1, 2, 3], buf_len = 2, buf_cap = 3, buf_ops = NULL_ops\<rparr> 5 = Some (True, b') \<and>
    take 3 (buf_base b') = [1, 2, 3] \<and> 7 \<le> length (buf_base b')"
proof -
  let ?b = "\<lparr>buf_base = [1, 2, 3], buf_len = 2, buf_cap = 3, buf_ops = NULL_ops\<rparr>"
  have w: "buf_wwf ?b" by (simp add: buf_wwf_def)
  have l: "unat (buf_len ?b) + unat (5 :: size_t) < 2 ^ 62" by simp
  from reserve_makes_room [OF w l, of "\<lparr>grants = (\<lambda>_. True), junk = (\<lambda>_. 0)\<rparr>"]
  obtain b' where "nbuf_reserve \<lparr>grants = (\<lambda>_. True), junk = (\<lambda>_. 0)\<rparr> ?b 5 = Some (True, b')"
    "reserved ?b 5 b'" by auto
  then show ?thesis by (intro exI [of _ b']) (simp add: reserved_def numeral_3_eq_3)
qed

text \<open>
  Claim C36.  Loading a file: when the allocator grants every request, \<^verbatim>\<open>nbuf_load_file\<close> appends exactly
  the bytes of the stream to the buffer's data and returns whether the stream ended without error.
\<close>

theorem load_file_reads_all:
  assumes "buf_wwf b" and "unat (buf_len b) + length bs < 2 ^ 62" and "\<And>n. grants al n"
  shows "\<exists>b'. nbuf_load_file al b bs err = Some (\<not> err, b') \<and> buf_wwf b' \<and>
    buf_data b' = buf_data b @ bs"
  using assms by (rule load_file_appends)

theorem load_file_reads_all_witness:
  "\<exists>b'. nbuf_load_file \<lparr>grants = (\<lambda>_. True), junk = (\<lambda>_. 0)\<rparr>
      \<lparr>buf_base = [], buf_len = 0, buf_cap = 0, buf_ops = NULL_ops\<rparr> [10, 20] False = Some (True, b') \<and>
    buf_data b' = [10, 20]"
proof -
  let ?b = "\<lparr>buf_base = [], buf_len = 0, buf_cap = 0, buf_ops = NULL_ops\<rparr>"
  have "buf_wwf ?b" by (simp add: buf_wwf_def)
  then show ?thesis
    using load_file_reads_all [of ?b "[10, 20]" "\<lparr>grants = (\<lambda>_. True), junk = (\<lambda>_. 0)\<rparr>" False]
    by (auto simp: buf_data_def simp del: nbuf_load_file.simps)
qed

text \<open>
  \<^verbatim>\<open>nbuf_load_file\<close> drops the result of \<^verbatim>\<open>nbuf_reserve\<close>: when memory for the first byte is refused
  it writes it all the same, outside the block.
\<close>

lemma load_file_unchecked_reserve:
  assumes "\<And>n. \<not> grants al n"
  shows "nbuf_load_file al \<lparr>buf_base = [], buf_len = 0, buf_cap = 0, buf_ops = NULL_ops\<rparr> (ch # bs) err
    = None"
  using assms
  by (simp add: nbuf_reserve_def grow_cap.simps NBUF_ALLOC_MIN_def realloc_block_def store_def)

lemma load_file_unchecked_reserve_witness:
  "nbuf_load_file \<lparr>grants = (\<lambda>_. False), junk = (\<lambda>_. 0)\<rparr>
    \<lparr>buf_base = [], buf_len = 0, buf_cap = 0, buf_ops = NULL_ops\<rparr> [65] False = None"
  by (rule load_file_unchecked_reserve) simp

end
