(* ===== verification/Obj.thy ===== *)
theory Obj
  imports Buffer
begin

text \<open>
  Reading messages in place: \<^verbatim>\<open>struct nbuf_obj\<close> and the readers of \<^verbatim>\<open>include/nbuf.h\<close>
  (\<^verbatim>\<open>nbuf_obj_init\<close>, \<^verbatim>\<open>nbuf_get_elem\<close>, \<^verbatim>\<open>_nbuf_get_ptr\<close>, \<^verbatim>\<open>nbuf_get_int\<close>, \<^verbatim>\<open>nbuf_get_bit\<close>,
  \<^verbatim>\<open>nbuf_get_str\<close>).  An object names its buffer by an address, and the functions take the buffer
  found there as an argument.  The lemmas show that no reader of an object obtained from an
  arbitrary (possibly hostile) buffer leaves the buffer, and exactly when one trips an \<^verbatim>\<open>assert\<close>: the
  cases the code leaves open, each also shown on a concrete buffer.
\<close>

section \<open>Objects\<close>

record nbuf_obj =
  obj_buf :: nat
  obj_base :: size_t
  nelem :: uint32
  ssize :: uint16
  psize :: uint16

text \<open>\<^verbatim>\<open>struct nbuf_obj rr = {buf}\<close>: the other members are zero.\<close>

definition null_obj :: "nat \<Rightarrow> nbuf_obj" where
  "null_obj a = \<lparr>obj_buf = a, obj_base = 0, nelem = 0, ssize = 0, psize = 0\<rparr>"

definition nbuf_ptr_offs :: "nbuf_obj \<Rightarrow> size_t \<Rightarrow> size_t" where
  "nbuf_ptr_offs r i = ucast (ssize r) + i * NBUF_WORD_SZ"

definition nbuf_elemsz :: "nbuf_obj \<Rightarrow> size_t" where
  "nbuf_elemsz r = nbuf_ptr_offs r (ucast (psize r))"

definition nbuf_totalsz :: "nbuf_obj \<Rightarrow> size_t" where
  "nbuf_totalsz r =
    (let elemsz = nbuf_elemsz r
     in if elemsz \<noteq> 0 then elemsz * ucast (nelem r) else ucast ((nelem r + 7) div 8))"

text \<open>The check against corrupted or malicious sizes at the end of \<^verbatim>\<open>nbuf_obj_init\<close>.\<close>

definition obj_size_check :: "nbuf_buffer \<Rightarrow> nbuf_obj \<Rightarrow> nbuf_obj" where
  "obj_size_check buf rr =
    (if nelem rr > 0
     then (let elemsz = nbuf_elemsz rr;
               totalsz = (if elemsz = 0 then ucast ((nelem rr + 7) div 8)
                          else elemsz * ucast (nelem rr))
           in if totalsz = 0 \<or> \<not> nbuf_bounds_check buf (obj_base rr) totalsz
              then rr\<lparr>obj_base := 0, nelem := 0, ssize := 0, psize := 0\<rparr>
              else rr)
     else rr)"

definition nbuf_obj_init :: "nbuf_buffer \<Rightarrow> nbuf_obj \<Rightarrow> size_t \<Rightarrow> nbuf_obj option" where
  "nbuf_obj_init buf rr pos =
    (if \<not> nbuf_bounds_check buf pos 8 then Some rr
     else do {
       hdr \<leftarrow> nbuf_read_int_safe buf pos 8;
       let pos1 = pos + 8;
       let hdr1 = drop_bit 32 hdr;
       Some (obj_size_check buf
         (rr\<lparr>obj_base := pos1, nelem := ucast (hdr AND (push_bit 32 1 - 1)),
             ssize := ucast (hdr1 AND (push_bit 16 1 - 1)),
             psize := ucast (drop_bit 16 hdr1)\<rparr>)) })"

definition nbuf_get_elem :: "nbuf_obj \<Rightarrow> size_t \<Rightarrow> nbuf_obj" where
  "nbuf_get_elem r i =
    (let rr = null_obj (obj_buf r); elemsz = nbuf_elemsz r
     in if i < ucast (nelem r)
        then rr\<lparr>obj_base := obj_base r + (if elemsz = 0 then i div 8 else i * elemsz),
                nelem := 1, ssize := (if elemsz = 0 then 1 else ssize r), psize := psize r\<rparr>
        else rr)"

section \<open>Pointers\<close>

definition nbuf_get_rel_ptr :: "nbuf_buffer \<Rightarrow> nbuf_obj \<Rightarrow> size_t \<Rightarrow> size_t option" where
  "nbuf_get_rel_ptr buf r i =
    (if i \<ge> ucast (psize r) then Some 0
     else nbuf_read_int_safe buf (obj_base r + nbuf_ptr_offs r i) NBUF_WORD_SZ)"

definition nbuf_has_ptr :: "nbuf_buffer \<Rightarrow> nbuf_obj \<Rightarrow> size_t \<Rightarrow> bool option" where
  "nbuf_has_ptr buf r i = map_option (\<lambda>rel. rel \<noteq> 0) (nbuf_get_rel_ptr buf r i)"

definition nbuf_get_ptr_plain :: "nbuf_buffer \<Rightarrow> nbuf_obj \<Rightarrow> size_t \<Rightarrow> nbuf_obj option" where
  "nbuf_get_ptr_plain buf r i =
    do { rel \<leftarrow> nbuf_get_rel_ptr buf r i;
         let rr = null_obj (obj_buf r);
         let pos = rel * NBUF_WORD_SZ;
         if pos \<noteq> 0
         then (let pos1 = pos + (obj_base r + nbuf_ptr_offs r i)
               in if pos1 < buf_len buf then nbuf_obj_init buf rr pos1 else Some rr)
         else Some rr }"

section \<open>Scalars\<close>

text \<open>The remainder by \<^verbatim>\<open>sz\<close> in the \<^verbatim>\<open>assert\<close> is undefined for \<^verbatim>\<open>sz == 0\<close>.\<close>

definition nbuf_get_int :: "nbuf_buffer \<Rightarrow> nbuf_obj \<Rightarrow> size_t \<Rightarrow> size_t \<Rightarrow> int64 option" where
  "nbuf_get_int buf r byte_offset sz =
    do { assert_ok (sz \<noteq> 0 \<and> byte_offset mod sz = 0);
         if byte_offset + sz \<le> ucast (ssize r)
         then nbuf_read_int_safe buf (obj_base r + byte_offset) sz
         else Some 0 }"

text \<open>Floating point numbers travel as their bit patterns through the unions of the code.\<close>

definition nbuf_get_f32 :: "nbuf_buffer \<Rightarrow> nbuf_obj \<Rightarrow> size_t \<Rightarrow> uint32 option" where
  "nbuf_get_f32 buf r byte_offset = map_option ucast (nbuf_get_int buf r byte_offset 4)"

definition nbuf_get_f64 :: "nbuf_buffer \<Rightarrow> nbuf_obj \<Rightarrow> size_t \<Rightarrow> uint64 option" where
  "nbuf_get_f64 buf r byte_offset = nbuf_get_int buf r byte_offset 8"

definition nbuf_get_bit :: "nbuf_buffer \<Rightarrow> nbuf_obj \<Rightarrow> size_t \<Rightarrow> bool option" where
  "nbuf_get_bit buf r bit_offset =
    do { let i = bit_offset div 8;
         let j = bit_offset mod 8;
         v \<leftarrow> nbuf_get_int buf r i 1;
         let b = (ucast v :: 8 word);
         Some (b AND push_bit (unat j) 1 \<noteq> 0) }"

text \<open>
  The part of \<^verbatim>\<open>nbuf_get_str\<close> after it has followed the pointer to \<open>rr\<close>: \<open>rbuf\<close> is the buffer of
  the message, \<open>sbuf\<close> the one \<open>rr\<close> points into.  The result is the memory from the returned
  \<^verbatim>\<open>char *\<close> on and the length.  For a buffer without \<^verbatim>\<open>ops\<close> both buffers are the same.
\<close>

definition nbuf_str_of ::
    "nbuf_buffer \<Rightarrow> nbuf_buffer \<Rightarrow> nbuf_obj \<Rightarrow> (byte list \<times> size_t) option" where
  "nbuf_str_of rbuf sbuf rr =
    (if nelem rr > 0
     then do { assert_ok (nbuf_bounds_check rbuf (obj_base rr + ucast (nelem rr) - 1) 1);
               Some (drop (unat (obj_base rr)) (buf_base sbuf), ucast (nelem rr - 1)) }
     else Some ([0], 0))"

definition nbuf_get_str_plain ::
    "nbuf_buffer \<Rightarrow> nbuf_obj \<Rightarrow> size_t \<Rightarrow> (byte list \<times> size_t) option" where
  "nbuf_get_str_plain buf r i =
    do { rr \<leftarrow> nbuf_get_ptr_plain buf r i; nbuf_str_of buf buf rr }"

section \<open>Sizes as natural numbers\<close>

definition esize :: "nbuf_obj \<Rightarrow> nat" where
  "esize r = unat (ssize r) + 4 * unat (psize r)"

definition obj_bytes :: "nbuf_obj \<Rightarrow> nat" where
  "obj_bytes r = (if esize r = 0 then (unat (nelem r) + 7) div 8 else esize r * unat (nelem r))"

lemma esize_lt: "esize r < 327680"
  using unat_u16_lt [of "ssize r"] unat_u16_lt [of "psize r"] by (simp add: esize_def)

lemma esize_nelem_lt: "esize r * unat (nelem r) < 2 ^ 51"
proof -
  have "esize r * unat (nelem r) \<le> 327680 * 4294967296"
    using esize_lt [of r] unat_u32_lt [of "nelem r"] by (intro mult_le_mono) simp_all
  then show ?thesis by simp
qed

lemma obj_bytes_lt: "obj_bytes r < 2 ^ 51"
  using esize_nelem_lt [of r] unat_u32_lt [of "nelem r"] by (auto simp: obj_bytes_def)

lemma unat_ptr_offs:
  assumes "unat i < 2 ^ 61"
  shows "unat (nbuf_ptr_offs r i) = unat (ssize r) + 4 * unat i"
proof -
  have "unat (i * 4) = unat i * 4"
    using assms by (subst unat_mult_nowrap) simp_all
  then show ?thesis
    using assms unat_u16_lt [of "ssize r"] unfolding nbuf_ptr_offs_def NBUF_WORD_SZ_def
    by (subst unat_add_nowrap) simp_all
qed

lemma unat_elemsz [simp]: "unat (nbuf_elemsz r) = esize r"
  using unat_u16_lt [of "psize r"] by (simp add: nbuf_elemsz_def unat_ptr_offs esize_def)

lemma elemsz_eq_0: "nbuf_elemsz r = 0 \<longleftrightarrow> esize r = 0"
  by (metis unat_0_iff unat_elemsz)

lemma unat_bit_bytes:
  fixes n :: uint32
  assumes "unat n + 7 < 2 ^ 32"
  shows "unat ((n + 7) div 8) = (unat n + 7) div 8"
proof -
  have "unat (n + 7) = unat n + 7" using assms by (subst unat_add_nowrap) simp_all
  then show ?thesis by (simp add: unat_div)
qed

lemma unat_total:
  "esize r \<noteq> 0 \<Longrightarrow> unat (nbuf_elemsz r * ucast (nelem r)) = esize r * unat (nelem r)"
  using esize_nelem_lt [of r] by (subst unat_mult_nowrap) simp_all

lemma unat_totalsz:
  assumes "esize r = 0 \<Longrightarrow> unat (nelem r) + 7 < 2 ^ 32"
  shows "unat (nbuf_totalsz r) = obj_bytes r"
  using assms by (simp add: nbuf_totalsz_def obj_bytes_def elemsz_eq_0 unat_total unat_bit_bytes)

section \<open>The header\<close>

text \<open>The header as \<^verbatim>\<open>spec.txt\<close> lays it out: element count, scalar bytes, pointer words.\<close>

definition wire_header :: "byte list \<Rightarrow> nat \<Rightarrow> nat \<times> nat \<times> nat" where
  "wire_header bs p =
    (le_val (seg p 4 bs), le_val (seg (p + 4) 2 bs), le_val (seg (p + 6) 2 bs))"

lemma le_val_append: "le_val (xs @ ys) = le_val xs + 256 ^ length xs * le_val ys"
  by (induction xs) (simp_all add: algebra_simps)

lemma slice_split: "seg p (m + n) bs = seg p m bs @ seg (p + m) n bs"
  by (simp add: seg_def take_add add.commute)

lemma header_word_split:
  assumes "p + 8 \<le> length bs"
  shows "le_val (seg p 8 bs) = le_val (seg p 4 bs)
    + 2 ^ 32 * (le_val (seg (p + 4) 2 bs) + 2 ^ 16 * le_val (seg (p + 6) 2 bs))"
proof -
  have "seg p 8 bs = seg p 4 bs @ seg (p + 4) 2 bs @ seg (p + 6) 2 bs"
    using slice_split [of p 4 4 bs] slice_split [of "p + 4" 2 2 bs] by (simp add: add.commute)
  then show ?thesis using assms by (simp add: le_val_append)
qed

lemma le_val_slice_lt: "le_val (seg p n bs) < 256 ^ n"
  using le_val_lt [of "seg p n bs"] length_slice_le [of p n bs]
  by (meson le_trans linorder_not_le one_le_numeral power_increasing)

lemma header_fields:
  assumes "p + 8 \<le> length bs" and "hdr = (of_nat (le_val (seg p 8 bs)) :: 64 word)"
  shows "unat (ucast (hdr AND (push_bit 32 1 - 1)) :: uint32) = le_val (seg p 4 bs)"
    and "unat (ucast (drop_bit 32 hdr AND (push_bit 16 1 - 1)) :: uint16) = le_val (seg (p + 4) 2 bs)"
    and "unat (ucast (drop_bit 16 (drop_bit 32 hdr)) :: uint16) = le_val (seg (p + 6) 2 bs)"
proof -
  define a b c where "a = le_val (seg p 4 bs)" and "b = le_val (seg (p + 4) 2 bs)"
    and "c = le_val (seg (p + 6) 2 bs)"
  have lt: "a < 2 ^ 32" "b < 2 ^ 16" "c < 2 ^ 16"
    using le_val_slice_lt [of p 4 bs] le_val_slice_lt [of "p + 4" 2 bs]
      le_val_slice_lt [of "p + 6" 2 bs] by (simp_all add: a_def b_def c_def)
  define k where "k = b + 65536 * c"
  have "le_val (seg p 8 bs) = a + 4294967296 * k"
    using header_word_split [OF assms(1)] by (simp add: a_def b_def c_def k_def)
  moreover have "a + 4294967296 * k < 2 ^ 64" using lt by (simp add: k_def)
  ultimately have h: "unat hdr = a + 4294967296 * k"
    unfolding assms(2) by (metis unat_of_nat_64)
  have m32: "push_bit 32 1 - 1 = (mask 32 :: 64 word)"
    and m16: "push_bit 16 1 - 1 = (mask 16 :: 64 word)"
    by (simp_all add: mask_eq_exp_minus_1)
  have "unat (ucast (hdr AND (push_bit 32 1 - 1)) :: uint32) = unat hdr mod 4294967296"
    unfolding m32
    by (simp add: unsigned_ucast_eq unsigned_take_bit_eq take_bit_nat_def flip: take_bit_eq_mask)
  then show "unat (ucast (hdr AND (push_bit 32 1 - 1)) :: uint32) = le_val (seg p 4 bs)"
    using h lt(1) by (simp flip: a_def)
  have h2: "unat (drop_bit 32 hdr) = k"
    using h lt(1) by (simp add: unat_drop_bit_eq drop_bit_nat_def)
  have "unat (ucast (drop_bit 32 hdr AND (push_bit 16 1 - 1)) :: uint16) = k mod 65536"
    unfolding m16 h2 [symmetric]
    by (simp add: unsigned_ucast_eq unsigned_take_bit_eq take_bit_nat_def flip: take_bit_eq_mask)
  then show "unat (ucast (drop_bit 32 hdr AND (push_bit 16 1 - 1)) :: uint16)
      = le_val (seg (p + 4) 2 bs)"
    using lt(2) by (simp add: k_def flip: b_def)
  have "unat (ucast (drop_bit 16 (drop_bit 32 hdr)) :: uint16) = k div 65536 mod 65536"
    unfolding h2 [symmetric]
    by (simp add: unsigned_ucast_eq unat_drop_bit_eq drop_bit_nat_def take_bit_nat_def
        del: drop_bit_drop_bit)
  then show "unat (ucast (drop_bit 16 (drop_bit 32 hdr)) :: uint16) = le_val (seg (p + 6) 2 bs)"
    using lt(2,3) by (simp add: k_def flip: c_def)
qed

section \<open>Objects inside their buffer\<close>

text \<open>
  \<open>in_bounds\<close>: the elements of the object lie in the valid part of the buffer; for a vector of
  bits the byte count does not wrap in 32 bits.  \<open>obj_safe\<close> is what readers need: an object
  without members, or a non-empty one in bounds.
\<close>

definition in_bounds :: "nbuf_buffer \<Rightarrow> nbuf_obj \<Rightarrow> bool" where
  "in_bounds buf r \<longleftrightarrow> unat (obj_base r) + obj_bytes r \<le> unat (buf_len buf) \<and>
    (esize r = 0 \<longrightarrow> unat (nelem r) + 7 < 2 ^ 32)"

definition obj_ok :: "nbuf_buffer \<Rightarrow> nbuf_obj \<Rightarrow> bool" where
  "obj_ok buf r \<longleftrightarrow> (nelem r \<noteq> 0 \<longrightarrow> in_bounds buf r)"

definition obj_safe :: "nbuf_buffer \<Rightarrow> nbuf_obj \<Rightarrow> bool" where
  "obj_safe buf r \<longleftrightarrow> esize r = 0 \<and> nelem r = 0 \<or> nelem r \<noteq> 0 \<and> in_bounds buf r"

lemma obj_safe_ok: "obj_safe buf r \<Longrightarrow> obj_ok buf r"
  by (auto simp: obj_safe_def obj_ok_def)

lemma null_obj_safe [simp]: "obj_safe buf (null_obj a)"
  by (simp add: obj_safe_def null_obj_def esize_def)

lemma obj_buf_null [simp]: "obj_buf (null_obj a) = a"
  by (simp add: null_obj_def)

lemma null_obj_ok [simp]: "obj_ok buf (null_obj a)"
  by (simp add: obj_safe_ok)

lemma size_check_iff:
  assumes "buf_wf buf" and "nelem r \<noteq> 0"
  defines "t \<equiv> (if nbuf_elemsz r = 0 then ucast ((nelem r + 7) div 8)
    else nbuf_elemsz r * ucast (nelem r)) :: size_t"
  shows "t = 0 \<or> \<not> nbuf_bounds_check buf (obj_base r) t \<longleftrightarrow> \<not> in_bounds buf r"
proof (cases "esize r = 0 \<and> \<not> unat (nelem r) + 7 < 2 ^ 32")
  case True
  have "unat (nelem r + 7) < 8"
    using True unat_u32_lt [of "nelem r"] by (simp add: unat_plus_if')
  then have "unat t = 0" using True by (simp add: t_def elemsz_eq_0 unat_div)
  then have "t = 0" by (simp add: unat_0_iff)
  then show ?thesis using True by (simp add: in_bounds_def)
next
  case False
  then have t: "unat t = obj_bytes r"
    unfolding t_def by (auto simp: obj_bytes_def elemsz_eq_0 unat_total unat_bit_bytes)
  have "0 < unat (nelem r)" using assms(2) by (simp add: unat_gt_0)
  then have "0 < obj_bytes r" by (auto simp: obj_bytes_def)
  then have "t \<noteq> 0" using t by auto
  moreover have "unat t < 2 ^ 63" using t obj_bytes_lt [of r] by simp
  ultimately show ?thesis
    using False t bounds_check_iff [OF assms(1), of t "obj_base r"] by (auto simp: in_bounds_def)
qed

lemma obj_size_check_eq:
  assumes "buf_wf buf"
  shows "obj_size_check buf r =
    (if nelem r = 0 \<or> in_bounds buf r then r else null_obj (obj_buf r))"
proof (cases "nelem r = 0")
  case True
  then show ?thesis by (simp add: obj_size_check_def)
next
  case False
  have "r\<lparr>obj_base := 0, nelem := 0, ssize := 0, psize := 0\<rparr> = null_obj (obj_buf r)"
    by (simp add: null_obj_def)
  then show ?thesis
    using False size_check_iff [OF assms False]
    by (simp only: obj_size_check_def Let_def word_neq_0_conv if_True if_False) simp
qed

text \<open>The object a header describes, before the size check.\<close>

definition header_obj :: "nbuf_buffer \<Rightarrow> nbuf_obj \<Rightarrow> size_t \<Rightarrow> nbuf_obj" where
  "header_obj buf rr pos = (case wire_header (buf_base buf) (unat pos) of
    (n, s, p) \<Rightarrow> rr\<lparr>obj_base := pos + 8, nelem := of_nat n, ssize := of_nat s, psize := of_nat p\<rparr>)"

lemma obj_init_eq:
  assumes wf: "buf_wf buf"
  shows "nbuf_obj_init buf rr pos =
    (if unat pos + 8 \<le> unat (buf_len buf)
     then (let r = header_obj buf rr pos
           in if nelem r = 0 \<or> in_bounds buf r then Some r else Some (null_obj (obj_buf rr)))
     else Some rr)"
proof (cases "unat pos + 8 \<le> unat (buf_len buf)")
  case False
  then show ?thesis using bounds_check_iff [OF wf, of 8 pos] by (simp add: nbuf_obj_init_def)
next
  case True
  define hdr where "hdr = (of_nat (le_val (seg (unat pos) 8 (buf_base buf))) :: 64 word)"
  have rd: "nbuf_read_int_safe buf pos 8 = Some hdr"
    using True wf by (simp add: read_safe_eq hdr_def int_conv_def)
  have len: "unat pos + 8 \<le> length (buf_base buf)" using True wf by (simp add: buf_wf_def)
  note f = header_fields [OF len hdr_def]
  have eqs: "ucast (hdr AND (push_bit 32 1 - 1)) = (of_nat (le_val (seg (unat pos) 4 (buf_base buf))) :: uint32)"
    "ucast (drop_bit 32 hdr AND (push_bit 16 1 - 1)) = (of_nat (le_val (seg (unat pos + 4) 2 (buf_base buf))) :: uint16)"
    "ucast (drop_bit 16 (drop_bit 32 hdr)) = (of_nat (le_val (seg (unat pos + 6) 2 (buf_base buf))) :: uint16)"
    using f by (metis of_nat_unat ucast_id)+
  define r where "r = header_obj buf rr pos"
  have r: "r = rr\<lparr>obj_base := pos + 8, nelem := ucast (hdr AND (push_bit 32 1 - 1)),
      ssize := ucast (drop_bit 32 hdr AND (push_bit 16 1 - 1)),
      psize := ucast (drop_bit 16 (drop_bit 32 hdr))\<rparr>"
    unfolding r_def header_obj_def wire_header_def eqs by simp
  have bc: "nbuf_bounds_check buf pos 8" using True bounds_check_iff [OF wf, of 8 pos] by simp
  have "nbuf_obj_init buf rr pos = Some (obj_size_check buf r)"
    unfolding nbuf_obj_init_def rd Let_def r by (simp add: bc)
  moreover have "obj_buf r = obj_buf rr" by (simp add: r)
  ultimately show ?thesis using True by (simp add: Let_def obj_size_check_eq [OF wf] flip: r_def)
qed

section \<open>Readers stay inside the buffer\<close>

lemma unat_base_add:
  fixes b i :: size_t
  assumes "buf_wf buf" and "unat b + n \<le> unat (buf_len buf)" and "unat i \<le> n"
  shows "unat (b + i) = unat b + unat i"
  using assms by (intro unat_add_nowrap) (simp add: buf_wf_def)

lemma obj_init_ok:
  assumes "buf_wf buf" and "obj_ok buf rr"
  shows "\<exists>r. nbuf_obj_init buf rr pos = Some r \<and> obj_ok buf r \<and> obj_buf r = obj_buf rr"
proof -
  have "obj_buf (header_obj buf rr pos) = obj_buf rr"
    by (simp add: header_obj_def split: prod.splits)
  then show ?thesis
    using assms by (auto simp: obj_init_eq Let_def obj_ok_def null_obj_def)
qed

lemma get_elem_unfold:
  "nbuf_get_elem r i =
    (if unat i < unat (nelem r)
     then \<lparr>obj_buf = obj_buf r,
           obj_base = obj_base r + (if esize r = 0 then i div 8 else i * nbuf_elemsz r),
           nelem = 1, ssize = (if esize r = 0 then 1 else ssize r), psize = psize r\<rparr>
     else null_obj (obj_buf r))"
  by (simp add: nbuf_get_elem_def null_obj_def elemsz_eq_0 word_less_nat_alt Let_def)

lemma unat_elem_offs:
  assumes "esize r \<noteq> 0" and "unat i < unat (nelem r)"
  shows "unat (i * nbuf_elemsz r) = unat i * esize r"
    and "unat i * esize r + esize r \<le> obj_bytes r"
proof -
  have "(unat i + 1) * esize r \<le> unat (nelem r) * esize r"
    using assms(2) by (intro mult_le_mono1) simp
  then show le: "unat i * esize r + esize r \<le> obj_bytes r"
    using assms(1) by (simp add: obj_bytes_def mult.commute)
  then show "unat (i * nbuf_elemsz r) = unat i * esize r"
    using obj_bytes_lt [of r] by (subst unat_mult_nowrap) simp_all
qed

lemma get_elem_safe:
  assumes "buf_wf buf" and "obj_ok buf r"
  shows "obj_safe buf (nbuf_get_elem r i)"
proof (cases "unat i < unat (nelem r)")
  case False
  then show ?thesis by (simp add: get_elem_unfold)
next
  case True
  then have "nelem r \<noteq> 0" by auto
  with assms(2) have b: "unat (obj_base r) + obj_bytes r \<le> unat (buf_len buf)"
    by (simp add: obj_ok_def in_bounds_def)
  let ?e = "nbuf_get_elem r i"
  show ?thesis
  proof (cases "esize r = 0")
    case e: True
    have "psize r = 0" using e by (simp add: esize_def unat_0_iff)
    then have es: "esize ?e = 1" "nelem ?e = 1"
      using True e by (simp_all add: get_elem_unfold esize_def)
    have lt: "unat i div 8 + 1 \<le> obj_bytes r" using True e by (simp add: obj_bytes_def)
    then have "unat (obj_base ?e) = unat (obj_base r) + unat i div 8"
      using True e unat_base_add [OF assms(1) b, of "i div 8"]
      by (simp add: get_elem_unfold unat_div)
    then show ?thesis
      using es lt b by (simp add: obj_safe_def in_bounds_def obj_bytes_def)
  next
    case e: False
    note o = unat_elem_offs [OF e True]
    have es: "esize ?e = esize r" "nelem ?e = 1"
      using True e by (simp_all add: get_elem_unfold esize_def)
    have "unat (obj_base ?e) = unat (obj_base r) + unat i * esize r"
      using True e o unat_base_add [OF assms(1) b, of "i * nbuf_elemsz r"]
      by (simp add: get_elem_unfold)
    then show ?thesis
      using es e o(2) b by (simp add: obj_safe_def in_bounds_def obj_bytes_def)
  qed
qed

text \<open>A field inside the first element of a safe object is inside the buffer.\<close>

lemma safe_field_bounds:
  assumes "buf_wf buf" and "obj_safe buf r" and "unat off + n \<le> esize r" and "0 < n"
  shows "unat (obj_base r + off) = unat (obj_base r) + unat off"
    and "unat (obj_base r) + unat off + n \<le> unat (buf_len buf)"
proof -
  have e: "esize r \<noteq> 0" using assms(3,4) by simp
  then have n0: "nelem r \<noteq> 0" and b: "unat (obj_base r) + obj_bytes r \<le> unat (buf_len buf)"
    using assms(2) by (auto simp: obj_safe_def in_bounds_def)
  have "esize r * 1 \<le> esize r * unat (nelem r)"
    using n0 by (intro mult_le_mono2) (simp add: Suc_le_eq unat_gt_0)
  then have "esize r \<le> obj_bytes r" using e by (simp add: obj_bytes_def)
  then have le: "unat off + n \<le> obj_bytes r" using assms(3) by simp
  then show "unat (obj_base r + off) = unat (obj_base r) + unat off"
    using unat_base_add [OF assms(1) b] by simp
  show "unat (obj_base r) + unat off + n \<le> unat (buf_len buf)" using le b by simp
qed

lemma unat_lt_ptr:
  fixes i :: size_t and p :: uint16
  assumes "i < ucast p"
  shows "unat i < unat p"
  using assms by (simp add: word_less_nat_alt)

text \<open>The position of pointer \<open>i\<close> and that it can be read.\<close>

lemma ptr_position:
  assumes "buf_wf buf" and "obj_safe buf r" and "i < ucast (psize r)"
  shows "unat (obj_base r + nbuf_ptr_offs r i) = unat (obj_base r) + unat (ssize r) + 4 * unat i"
    and "unat (obj_base r) + unat (ssize r) + 4 * unat i + 4 \<le> unat (buf_len buf)"
proof -
  have i: "unat i < unat (psize r)" using assms(3) by (rule unat_lt_ptr)
  then have "unat i < 2 ^ 61" using unat_u16_lt [of "psize r"] by simp
  then have o: "unat (nbuf_ptr_offs r i) = unat (ssize r) + 4 * unat i" by (rule unat_ptr_offs)
  have "unat (nbuf_ptr_offs r i) + 4 \<le> esize r" using o i by (simp add: esize_def)
  from safe_field_bounds [OF assms(1,2) this]
  show "unat (obj_base r + nbuf_ptr_offs r i) = unat (obj_base r) + unat (ssize r) + 4 * unat i"
    and "unat (obj_base r) + unat (ssize r) + 4 * unat i + 4 \<le> unat (buf_len buf)"
    using o by simp_all
qed

lemma get_rel_ptr_eq:
  assumes "buf_wf buf" and "obj_safe buf r"
  shows "nbuf_get_rel_ptr buf r i =
    Some (if i < ucast (psize r)
          then int_conv 4 (of_nat (le_val
            (seg (unat (obj_base r) + unat (ssize r) + 4 * unat i) 4 (buf_base buf))))
          else 0)"
proof (cases "i < ucast (psize r)")
  case True
  then have "\<not> ucast (psize r) \<le> i" by (simp add: not_le)
  then show ?thesis
    using True ptr_position [OF assms True] assms(1)
    by (simp add: nbuf_get_rel_ptr_def NBUF_WORD_SZ_def read_safe_eq)
next
  case False
  then have "ucast (psize r) \<le> i" by (simp add: not_less)
  with False show ?thesis by (simp add: nbuf_get_rel_ptr_def)
qed

lemma get_ptr_ok:
  assumes "buf_wf buf" and "obj_safe buf r"
  shows "\<exists>rr. nbuf_get_ptr_plain buf r i = Some rr \<and> obj_ok buf rr \<and> obj_buf rr = obj_buf r"
  using obj_init_ok [OF assms(1) null_obj_ok, of "obj_buf r"]
  by (simp add: nbuf_get_ptr_plain_def get_rel_ptr_eq [OF assms] Let_def)

lemma get_int_eq:
  assumes "buf_wf buf" and "obj_safe buf r" and "int_size sz" and "off mod sz = 0"
    and "unat off < 2 ^ 63"
  shows "nbuf_get_int buf r off sz =
    Some (if unat off + unat sz \<le> unat (ssize r)
          then int_conv sz (of_nat (le_val (seg (unat (obj_base r) + unat off) (unat sz) (buf_base buf))))
          else 0)"
proof -
  have sz: "sz \<noteq> 0" "0 < unat sz" using assms(3) by (auto elim: int_sizeE)
  have "unat (off + sz) = unat off + unat sz"
    using assms(5) int_size_unat [OF assms(3)] by (intro unat_add_nowrap) simp
  then have le: "off + sz \<le> ucast (ssize r) \<longleftrightarrow> unat off + unat sz \<le> unat (ssize r)"
    by (simp add: word_le_nat_alt)
  show ?thesis
  proof (cases "unat off + unat sz \<le> unat (ssize r)")
    case True
    then have "unat off + unat sz \<le> esize r" by (simp add: esize_def)
    from safe_field_bounds [OF assms(1,2) this sz(2)] show ?thesis
      using True le sz(1) assms(1,3,4) by (simp add: nbuf_get_int_def read_safe_eq)
  next
    case False
    then show ?thesis using le sz(1) assms(4) by (simp add: nbuf_get_int_def)
  qed
qed

lemma bit_of_byte: "(b :: 8 word) AND 2 ^ j \<noteq> 0 \<longleftrightarrow> bit b j"
  using bit_iff_and_push_bit_not_eq_0 [of b j] by simp

lemma get_bit_eq:
  assumes "buf_wf buf" and "obj_safe buf r"
  shows "nbuf_get_bit buf r k =
    Some (unat k div 8 < unat (ssize r) \<and>
          bit (buf_base buf ! (unat (obj_base r) + unat k div 8)) (unat k mod 8))"
proof -
  have lt: "unat (k div 8) < 2 ^ 63" using unat_u64_lt [of k] by (simp add: unat_div)
  have g: "nbuf_get_int buf r (k div 8) 1 = Some (if unat k div 8 < unat (ssize r)
      then int_conv 1 (of_nat (le_val (seg (unat (obj_base r) + unat k div 8) 1 (buf_base buf))))
      else 0)"
    using get_int_eq [OF assms int_size_simps(1) _ lt] by (simp add: unat_div Suc_le_eq)
  show ?thesis
  proof (cases "unat k div 8 < unat (ssize r)")
    case True
    then have "unat (k div 8) + 1 \<le> esize r" by (simp add: unat_div esize_def)
    from safe_field_bounds(2) [OF assms this] assms(1)
    have "unat (obj_base r) + unat k div 8 < length (buf_base buf)"
      by (simp add: buf_wf_def unat_div)
    then have "seg (unat (obj_base r) + unat k div 8) 1 (buf_base buf)
        = [buf_base buf ! (unat (obj_base r) + unat k div 8)]"
      by (simp add: seg_def take_Suc_conv_app_nth)
    then have v: "(ucast (int_conv 1 (of_nat (le_val
        (seg (unat (obj_base r) + unat k div 8) 1 (buf_base buf))))) :: 8 word)
        = buf_base buf ! (unat (obj_base r) + unat k div 8)"
      by (simp add: int_conv_def) (rule bit_word_eqI, simp add: bit_simps)
    then show ?thesis using True
      by (simp add: nbuf_get_bit_def g Let_def bit_of_byte unat_mod)
  next
    case False
    then show ?thesis by (simp add: nbuf_get_bit_def g Let_def)
  qed
qed

text \<open>
  The string check of \<^verbatim>\<open>nbuf_get_str\<close> counts elements as bytes.  That is right for strings, whose
  elements are bytes, and for any object whose elements have at least one byte.
\<close>

lemma str_of_ok:
  assumes "buf_wf buf" and "obj_ok buf rr" and "nelem rr \<noteq> 0 \<longrightarrow> esize rr \<noteq> 0"
  shows "\<exists>s n. nbuf_str_of buf buf rr = Some (s, n) \<and> unat n < length s \<and>
    unat n = unat (nelem rr) - 1"
proof (cases "nelem rr = 0")
  case True
  then show ?thesis by (simp add: nbuf_str_of_def)
next
  case False
  let ?n = "unat (nelem rr)"
  have n: "0 < ?n" using False by (simp add: unat_gt_0)
  have e: "esize rr \<noteq> 0" and b: "unat (obj_base rr) + obj_bytes rr \<le> unat (buf_len buf)"
    using False assms(2,3) by (auto simp: obj_ok_def in_bounds_def)
  have "1 * ?n \<le> esize rr * ?n" using e by (intro mult_le_mono1) simp
  then have le: "?n \<le> obj_bytes rr" using e by (simp add: obj_bytes_def)
  have lt: "unat (obj_base rr) + ?n \<le> unat (buf_len buf)" using le b by simp
  have add: "unat (obj_base rr + ucast (nelem rr)) = unat (obj_base rr) + ?n"
    using unat_base_add [OF assms(1) lt, of "ucast (nelem rr)"] by simp
  have "unat (obj_base rr + ucast (nelem rr) - 1) = unat (obj_base rr) + ?n - 1"
    using add n by (subst unat_sub_nowrap) (simp_all add: word_le_nat_alt)
  then have bc: "nbuf_bounds_check buf (obj_base rr + ucast (nelem rr) - 1) 1"
    using bounds_check_iff [OF assms(1), of 1] lt n by simp
  have m: "unat (nelem rr - 1) = ?n - 1"
    using n by (subst unat_sub_nowrap) (simp_all add: word_le_nat_alt)
  have "?n - 1 < length (buf_base buf) - unat (obj_base rr)"
    using lt n assms(1) unfolding buf_wf_def by linarith
  then show ?thesis using False bc m by (simp add: nbuf_str_of_def word_neq_0_conv)
qed

section \<open>The exact condition under which a reader aborts\<close>

text \<open>
  An object that starts in the buffer, with or without elements: the \<open>n\<close> bytes at \<open>off\<close> can be
  read unless they are past the end.
\<close>

definition past_end :: "nbuf_buffer \<Rightarrow> nbuf_obj \<Rightarrow> nat \<Rightarrow> nat \<Rightarrow> bool" where
  "past_end buf r off n \<longleftrightarrow> unat (buf_len buf) < unat (obj_base r) + off + n"

definition obj_at :: "nbuf_buffer \<Rightarrow> nbuf_obj \<Rightarrow> bool" where
  "obj_at buf r \<longleftrightarrow> obj_ok buf r \<and> unat (obj_base r) \<le> unat (buf_len buf)"

lemma obj_at_inside:
  assumes "obj_at buf r" and "nelem r \<noteq> 0" and "off + n \<le> esize r"
  shows "\<not> past_end buf r off n"
proof -
  have "esize r * 1 \<le> esize r * unat (nelem r)"
    using assms(2) by (intro mult_le_mono2) (simp add: Suc_le_eq unat_gt_0)
  then have "esize r \<le> obj_bytes r" by (auto simp: obj_bytes_def)
  then show ?thesis using assms by (simp add: obj_at_def obj_ok_def in_bounds_def past_end_def)
qed

lemma unat_base_off:
  fixes off :: size_t
  assumes "buf_wf buf" and "obj_at buf r" and "unat off < 2 ^ 63"
  shows "unat (obj_base r + off) = unat (obj_base r) + unat off"
  using assms by (intro unat_add_nowrap) (simp add: buf_wf_def obj_at_def)

lemma get_int_None_iff:
  assumes "buf_wf buf" and "obj_at buf r" and "int_size sz" and "off mod sz = 0"
    and "unat off < 2 ^ 63"
  shows "nbuf_get_int buf r off sz = None \<longleftrightarrow>
    nelem r = 0 \<and> unat off + unat sz \<le> unat (ssize r) \<and> past_end buf r (unat off) (unat sz)"
proof -
  have "unat (off + sz) = unat off + unat sz"
    using assms(5) int_size_unat [OF assms(3)] by (intro unat_add_nowrap) simp
  then have le: "off + sz \<le> ucast (ssize r) \<longleftrightarrow> unat off + unat sz \<le> unat (ssize r)"
    by (simp add: word_le_nat_alt)
  have sz: "sz \<noteq> 0" using assms(3) by (auto elim: int_sizeE)
  have "nelem r = 0" if "past_end buf r (unat off) (unat sz)" "unat off + unat sz \<le> unat (ssize r)"
    using obj_at_inside [OF assms(2)] that by (force simp: esize_def)
  then show ?thesis
    using sz le assms(4) unat_base_off [OF assms(1,2,5)]
    by (auto simp: nbuf_get_int_def read_safe_eq [OF assms(1,3)] past_end_def)
qed

lemma get_bit_None_iff:
  assumes "buf_wf buf" and "obj_at buf r"
  shows "nbuf_get_bit buf r k = None \<longleftrightarrow>
    nelem r = 0 \<and> unat k div 8 < unat (ssize r) \<and> past_end buf r (unat k div 8) 1"
proof -
  have "unat (k div 8) < 2 ^ 63" using unat_u64_lt [of k] by (simp add: unat_div)
  from get_int_None_iff [OF assms int_size_simps(1) _ this] show ?thesis
    by (simp add: nbuf_get_bit_def unat_div Suc_le_eq Let_def bind_eq_None_conv)
qed

lemma unat_ptr_at:
  assumes "buf_wf buf" and "obj_at buf r" and "i < ucast (psize r)"
  shows "unat (obj_base r + nbuf_ptr_offs r i) = unat (obj_base r) + unat (ssize r) + 4 * unat i"
proof -
  have "unat i < 2 ^ 16" using unat_lt_ptr [OF assms(3)] unat_u16_lt [of "psize r"] by simp
  then have "unat (nbuf_ptr_offs r i) = unat (ssize r) + 4 * unat i" by (intro unat_ptr_offs) simp
  moreover from this have "unat (nbuf_ptr_offs r i) < 2 ^ 63"
    using \<open>unat i < 2 ^ 16\<close> unat_u16_lt [of "ssize r"] by simp
  ultimately show ?thesis using unat_base_off [OF assms(1,2)] by simp
qed

lemma get_rel_ptr_None_iff:
  assumes "buf_wf buf" and "obj_at buf r"
  shows "nbuf_get_rel_ptr buf r i = None \<longleftrightarrow>
    nelem r = 0 \<and> unat i < unat (psize r) \<and> past_end buf r (unat (ssize r) + 4 * unat i) 4"
proof (cases "i < ucast (psize r)")
  case True
  then have i: "unat i < unat (psize r)" by (rule unat_lt_ptr)
  have "nelem r = 0" if "past_end buf r (unat (ssize r) + 4 * unat i) 4"
    using obj_at_inside [OF assms(2), of "unat (ssize r) + 4 * unat i" 4] that i by (auto simp: esize_def)
  then show ?thesis
    using True i unat_ptr_at [OF assms True]
    by (auto simp: nbuf_get_rel_ptr_def NBUF_WORD_SZ_def read_safe_eq [OF assms(1)] past_end_def)
next
  case False
  then have "ucast (psize r) \<le> i" by (simp add: not_less)
  with False show ?thesis by (simp add: nbuf_get_rel_ptr_def word_less_nat_alt)
qed

text \<open>Opening a header, whatever it holds, gives an object that starts in the buffer.\<close>

lemma obj_init_at:
  assumes "buf_wf buf"
  shows "\<exists>r. nbuf_obj_init buf (null_obj a) pos = Some r \<and> obj_at buf r \<and> obj_buf r = a"
proof -
  have "unat (obj_base r) \<le> unat (buf_len buf)" if "nbuf_obj_init buf (null_obj a) pos = Some r" for r
  proof (cases "unat pos + 8 \<le> unat (buf_len buf)")
    case True
    then have "unat (pos + 8) = unat pos + 8"
      using assms by (intro unat_add_nowrap [of pos 8, simplified]) (simp add: buf_wf_def)
    then have "unat (obj_base (header_obj buf (null_obj a) pos)) \<le> unat (buf_len buf)"
      using True by (simp add: header_obj_def split: prod.split)
    then show ?thesis
      using that True by (auto simp: obj_init_eq [OF assms] Let_def null_obj_def split: if_splits)
  next
    case False
    then show ?thesis using that by (auto simp: obj_init_eq [OF assms] null_obj_def)
  qed
  then show ?thesis using obj_init_ok [OF assms null_obj_ok, of a pos] by (auto simp: obj_at_def)
qed

lemma get_elem_at:
  assumes "buf_wf buf" and "obj_at buf r"
  shows "obj_at buf (nbuf_get_elem r i)"
proof (cases "unat i < unat (nelem r)")
  case True
  have "obj_safe buf (nbuf_get_elem r i)" using assms by (simp add: get_elem_safe obj_at_def)
  moreover have "nelem (nbuf_get_elem r i) \<noteq> 0" using True by (simp add: get_elem_unfold)
  ultimately show ?thesis by (simp add: obj_at_def obj_ok_def obj_safe_def in_bounds_def)
next
  case False
  then show ?thesis by (simp add: get_elem_unfold obj_at_def) (simp add: null_obj_def)
qed

lemma get_ptr_at:
  assumes "buf_wf buf" and "nbuf_get_ptr_plain buf r i = Some rr"
  shows "obj_at buf rr" and "obj_buf rr = obj_buf r"
proof -
  have n: "obj_at buf (null_obj (obj_buf r))" by (simp add: obj_at_def) (simp add: null_obj_def)
  have init: "obj_at buf rr \<and> obj_buf rr = obj_buf r"
    if "nbuf_obj_init buf (null_obj (obj_buf r)) pos = Some rr" for pos
    using obj_init_at [OF assms(1), of "obj_buf r" pos] that by auto
  have "obj_at buf rr \<and> obj_buf rr = obj_buf r"
    using assms(2) n
    by (auto simp: nbuf_get_ptr_plain_def Let_def Option.bind_eq_Some_conv dest: init split: if_splits)
  then show "obj_at buf rr" and "obj_buf rr = obj_buf r" by simp_all
qed

lemma get_ptr_None_iff:
  assumes "buf_wf buf" and "obj_at buf r"
  shows "nbuf_get_ptr_plain buf r i = None \<longleftrightarrow>
    nelem r = 0 \<and> unat i < unat (psize r) \<and> past_end buf r (unat (ssize r) + 4 * unat i) 4"
proof -
  have "nbuf_get_ptr_plain buf r i = None \<longleftrightarrow> nbuf_get_rel_ptr buf r i = None"
    using obj_init_at [OF assms(1), of "obj_buf r"]
    by (cases "nbuf_get_rel_ptr buf r i") (auto simp: nbuf_get_ptr_plain_def Let_def)
  then show ?thesis by (simp add: get_rel_ptr_None_iff [OF assms])
qed

text \<open>
  The string getter counts elements as bytes: it aborts on a vector of bits whose number of bits,
  counted as bytes, leaves the buffer.
\<close>

lemma str_of_None_iff:
  assumes "buf_wf buf" and "obj_at buf p"
  shows "nbuf_str_of buf buf p = None \<longleftrightarrow>
    nelem p \<noteq> 0 \<and> esize p = 0 \<and> past_end buf p (unat (nelem p) - 1) 1"
proof (cases "nelem p = 0")
  case True
  then show ?thesis by (simp add: nbuf_str_of_def)
next
  case False
  let ?n = "unat (nelem p)"
  have n: "0 < ?n" "?n < 2 ^ 32" using False unat_u32_lt [of "nelem p"] by (simp_all add: unat_gt_0)
  have "unat (obj_base p + ucast (nelem p)) = unat (obj_base p) + ?n"
    using unat_base_off [OF assms, of "ucast (nelem p)"] n by simp
  then have "unat (obj_base p + ucast (nelem p) - 1) = unat (obj_base p) + (?n - 1)"
    using n by (subst unat_sub_nowrap) (simp_all add: word_le_nat_alt)
  then have bc: "nbuf_bounds_check buf (obj_base p + ucast (nelem p) - 1) 1 \<longleftrightarrow> \<not> past_end buf p (?n - 1) 1"
    using bounds_check_iff [OF assms(1), of 1] by (simp add: past_end_def not_less)
  have "\<not> past_end buf p (?n - 1) 1" if "esize p \<noteq> 0"
    using str_of_ok [OF assms(1), of p] that assms(2) False bc
    by (auto simp: nbuf_str_of_def obj_at_def word_neq_0_conv split: if_splits)
  then show ?thesis using False bc by (auto simp: nbuf_str_of_def word_neq_0_conv)
qed

lemma get_str_None_iff:
  assumes "buf_wf buf"
  shows "nbuf_get_str_plain buf r i = None \<longleftrightarrow>
    (case nbuf_get_ptr_plain buf r i of
       None \<Rightarrow> True
     | Some p \<Rightarrow> nelem p \<noteq> 0 \<and> esize p = 0 \<and> past_end buf p (unat (nelem p) - 1) 1)"
  using str_of_None_iff [OF assms get_ptr_at(1) [OF assms]]
  by (auto simp: nbuf_get_str_plain_def split: option.split)

section \<open>Everything that can be reached in a buffer\<close>

text \<open>
  The objects a reader obtains from a buffer whose root it opens at position \<open>pos\<close>: list elements
  of reached objects, and pointees of reached objects, with or without elements.
\<close>

inductive reached :: "nbuf_buffer \<Rightarrow> size_t \<Rightarrow> nbuf_obj \<Rightarrow> bool" for buf pos where
  reached_root: "nbuf_obj_init buf (null_obj a) pos = Some r \<Longrightarrow> reached buf pos r"
| reached_elem: "reached buf pos r \<Longrightarrow> reached buf pos (nbuf_get_elem r i)"
| reached_ptr: "reached buf pos r \<Longrightarrow> nbuf_get_ptr_plain buf r i = Some rr \<Longrightarrow> reached buf pos rr"

inductive_cases reached_nullE: "reached buf pos (null_obj a)"

lemma reached_at:
  assumes "buf_wf buf" and "reached buf pos r"
  shows "obj_at buf r"
  using assms(2)
proof (induction rule: reached.induct)
  case (reached_root a r)
  then show ?case using obj_init_at [OF assms(1), of a pos] by simp
next
  case (reached_elem r i)
  then show ?case using get_elem_at [OF assms(1)] by blast
next
  case (reached_ptr r i rr)
  then show ?case using get_ptr_at(1) [OF assms(1)] by blast
qed

lemma reached_ok: "buf_wf buf \<Longrightarrow> reached buf pos r \<Longrightarrow> obj_ok buf r"
  using reached_at by (simp add: obj_at_def)

text \<open>
  Claim C17.  Reading hostile input: for every object reached from the root of any buffer, exactly
  when each reader trips an \<^verbatim>\<open>assert\<close>.  A scalar, a bit and a pointer do only on an object
  without elements whose header still declares them and puts them past the end of the buffer, so never on
  an object with elements; the string getter does when its pointer does, and on a pointer to a
  vector of bits whose count, taken as a number of bytes, leaves the buffer.
\<close>

theorem reached_reads_are_safe:
  assumes "buf_wf buf" and "reached buf pos r"
  shows "(\<forall>off sz. int_size sz \<and> off mod sz = 0 \<and> unat off < 2 ^ 63 \<longrightarrow>
            (nbuf_get_int buf r off sz = None \<longleftrightarrow>
              nelem r = 0 \<and> unat off + unat sz \<le> unat (ssize r) \<and> past_end buf r (unat off) (unat sz))) \<and>
    (\<forall>k. nbuf_get_bit buf r k = None \<longleftrightarrow>
      nelem r = 0 \<and> unat k div 8 < unat (ssize r) \<and> past_end buf r (unat k div 8) 1) \<and>
    (\<forall>i. let aborts = nelem r = 0 \<and> unat i < unat (psize r) \<and> past_end buf r (unat (ssize r) + 4 * unat i) 4
      in (nbuf_has_ptr buf r i = None \<longleftrightarrow> aborts) \<and> (nbuf_get_ptr_plain buf r i = None \<longleftrightarrow> aborts) \<and>
        (nbuf_get_str_plain buf r i = None \<longleftrightarrow> aborts \<or>
          (\<exists>p. nbuf_get_ptr_plain buf r i = Some p \<and> nelem p \<noteq> 0 \<and> esize p = 0 \<and>
            past_end buf p (unat (nelem p) - 1) 1)))"
proof -
  note at = assms(1) reached_at [OF assms]
  have "nbuf_get_str_plain buf r i = None \<longleftrightarrow> nbuf_get_ptr_plain buf r i = None \<or>
      (\<exists>p. nbuf_get_ptr_plain buf r i = Some p \<and> nelem p \<noteq> 0 \<and> esize p = 0 \<and>
        past_end buf p (unat (nelem p) - 1) 1)" for i
    by (auto simp: get_str_None_iff [OF assms(1)] split: option.splits)
  then show ?thesis
    by (simp add: get_int_None_iff [OF at] get_bit_None_iff [OF at] nbuf_has_ptr_def
        get_rel_ptr_None_iff [OF at] get_ptr_None_iff [OF at] Let_def)
qed

definition demo_buf :: nbuf_buffer where
  "demo_buf = nbuf_init_read [1,0,0,0, 8,0, 0,0, 42,0,0,0, 255,255,255,255] 16"

definition demo_root :: nbuf_obj where
  "demo_root = \<lparr>obj_buf = 0, obj_base = 8, nelem = 1, ssize = 8, psize = 0\<rparr>"

lemma demo_wf: "buf_wf demo_buf"
  by (simp add: demo_buf_def nbuf_init_read_def buf_wf_def)

lemma demo_init: "nbuf_obj_init demo_buf (null_obj 0) 0 = Some demo_root"
  unfolding obj_init_eq [OF demo_wf]
  by (simp add: demo_buf_def nbuf_init_read_def header_obj_def wire_header_def seg_def
      demo_root_def null_obj_def in_bounds_def obj_bytes_def esize_def Let_def)

text \<open>The root of this buffer has no element and declares 8 bytes of scalars past its end.\<close>

definition empty_buf :: nbuf_buffer where
  "empty_buf = nbuf_init_read [0,0,0,0, 8,0, 0,0] 8"

definition empty_root :: nbuf_obj where
  "empty_root = \<lparr>obj_buf = 0, obj_base = 8, nelem = 0, ssize = 8, psize = 0\<rparr>"

lemma empty_wf: "buf_wf empty_buf"
  by (simp add: empty_buf_def nbuf_init_read_def buf_wf_def)

lemma empty_init: "nbuf_obj_init empty_buf (null_obj 0) 0 = Some empty_root"
  unfolding obj_init_eq [OF empty_wf]
  by (simp add: empty_buf_def nbuf_init_read_def header_obj_def wire_header_def seg_def
      empty_root_def null_obj_def in_bounds_def obj_bytes_def esize_def Let_def)

theorem reached_reads_are_safe_witness:
  "nbuf_get_int demo_buf demo_root 4 4 \<noteq> None \<and> nbuf_get_str_plain demo_buf demo_root 0 \<noteq> None \<and>
   nbuf_get_int empty_buf empty_root 0 8 = None"
proof -
  have "nbuf_get_ptr_plain demo_buf demo_root 0 = Some (null_obj 0)"
    by (simp add: nbuf_get_ptr_plain_def nbuf_get_rel_ptr_def demo_root_def Let_def)
  then show ?thesis
    using reached_reads_are_safe [OF demo_wf reached_root [OF demo_init]]
      reached_reads_are_safe [OF empty_wf reached_root [OF empty_init]]
    by (simp add: demo_root_def empty_root_def null_obj_def past_end_def empty_buf_def nbuf_init_read_def Let_def)
qed

text \<open>
  Claim C33.  \<^verbatim>\<open>nbuf_obj_init\<close> decodes the header of \<^verbatim>\<open>spec.txt\<close>: the little-endian count, scalar size and
  pointer count, the elements starting 8 bytes on.  A header whose elements would not fit is
  refused with an empty object, and without room for a header nothing is read.
\<close>

theorem obj_init_decodes_header:
  assumes "buf_wf buf"
  shows "nbuf_obj_init buf rr pos =
    (if unat pos + 8 \<le> unat (buf_len buf)
     then (let r = header_obj buf rr pos
           in if nelem r = 0 \<or> in_bounds buf r then Some r else Some (null_obj (obj_buf rr)))
     else Some rr)"
  using assms by (rule obj_init_eq)

theorem obj_init_decodes_header_witness:
  "buf_wf demo_buf \<and>
   nbuf_obj_init demo_buf (null_obj 0) 9 = Some (null_obj 0)"
  using demo_wf obj_init_decodes_header [OF demo_wf, of "null_obj 0" 9]
  by (simp add: demo_buf_def nbuf_init_read_def)

section \<open>Where a pointer leads\<close>

lemma int_conv4_small:
  assumes "v < 2 ^ 31"
  shows "int_conv 4 (of_nat v) = of_nat v"
proof (rule int_conv_fits)
  have "sint (of_nat v :: 64 word) = int v"
    using assms by (simp add: sint_uint signed_take_bit_int_eq_self uint_nat unat_of_nat_64)
  then show "- (2 ^ (8 * unat (4 :: size_t) - 1)) \<le> sint (of_nat v :: 64 word)"
    and "sint (of_nat v :: 64 word) < 2 ^ (8 * unat (4 :: size_t) - 1)"
    using assms by simp_all
qed simp

lemma get_ptr_eq:
  assumes "buf_wf buf" and "obj_safe buf r"
    and "v = le_val (seg (unat (obj_base r) + unat (ssize r) + 4 * unat i) 4 (buf_base buf))"
    and "v < 2 ^ 31"
  shows "nbuf_get_ptr_plain buf r i =
    (let ptr = unat (obj_base r) + unat (ssize r) + 4 * unat i
     in if unat i < unat (psize r) \<and> v \<noteq> 0 \<and> ptr + 4 * v < unat (buf_len buf)
        then nbuf_obj_init buf (null_obj (obj_buf r)) (of_nat (ptr + 4 * v))
        else Some (null_obj (obj_buf r)))"
proof (cases "i < ucast (psize r)")
  case False
  then show ?thesis
    by (simp add: nbuf_get_ptr_plain_def get_rel_ptr_eq [OF assms(1,2)] word_less_nat_alt Let_def)
next
  case True
  let ?ptr = "unat (obj_base r) + unat (ssize r) + 4 * unat i"
  note ptr = ptr_position [OF assms(1,2) True]
  have len: "unat (buf_len buf) < 2 ^ 63" using assms(1) by (simp add: buf_wf_def)
  have rel: "nbuf_get_rel_ptr buf r i = Some (of_nat v)"
    using True assms(4) by (simp add: get_rel_ptr_eq [OF assms(1,2)] int_conv4_small flip: assms(3))
  have v4: "unat ((of_nat v :: 64 word) * 4) = 4 * v"
    using assms(4) by (subst unat_mult_nowrap) (simp_all add: unat_of_nat_64)
  have pos: "unat ((of_nat v :: 64 word) * 4 + (obj_base r + nbuf_ptr_offs r i)) = ?ptr + 4 * v"
    using ptr len assms(4) v4 by (subst unat_add_nowrap) simp_all
  then have pos': "(of_nat v :: 64 word) * 4 + (obj_base r + nbuf_ptr_offs r i) = of_nat (?ptr + 4 * v)"
    by (metis of_nat_unat ucast_id)
  have z: "(of_nat v :: 64 word) * 4 = 0 \<longleftrightarrow> v = 0"
    using v4 by (metis mult_eq_0_iff unat_0 unat_0_iff zero_neq_numeral)
  have "unat i < unat (psize r)" using True by (rule unat_lt_ptr)
  then show ?thesis
    unfolding nbuf_get_ptr_plain_def rel NBUF_WORD_SZ_def
    using pos z by (simp add: Let_def pos' word_less_nat_alt del: of_nat_add of_nat_mult)
qed

text \<open>
  A pointer field holding \<open>v\<close> leads \<open>v\<close> words (of 4 bytes) past its own position, to
  the header of the pointee; 0, a pointer past the pointer part and a target past the end give
  the empty object.
\<close>

lemma get_ptr_follows_offset:
  assumes "buf_wf buf" and "obj_safe buf r"
    and "v = le_val (seg (unat (obj_base r) + unat (ssize r) + 4 * unat i) 4 (buf_base buf))"
    and "v < 2 ^ 31"
  shows "nbuf_get_ptr_plain buf r i =
    (let ptr = unat (obj_base r) + unat (ssize r) + 4 * unat i
     in if unat i < unat (psize r) \<and> v \<noteq> 0 \<and> ptr + 4 * v < unat (buf_len buf)
        then nbuf_obj_init buf (null_obj (obj_buf r)) (of_nat (ptr + 4 * v))
        else Some (null_obj (obj_buf r)))"
  using assms by (rule get_ptr_eq)

text \<open>A message with one pointer, to the string \<open>hi\<close>.\<close>

definition demo_str_buf :: nbuf_buffer where
  "demo_str_buf = nbuf_init_read
    [1,0,0,0, 0,0, 1,0, 2,0,0,0, 0,0,0,0, 3,0,0,0, 1,0, 0,0, 104,105,0, 0,0,0,0,0] 32"

definition demo_str_root :: nbuf_obj where
  "demo_str_root = \<lparr>obj_buf = 0, obj_base = 8, nelem = 1, ssize = 0, psize = 1\<rparr>"

definition demo_str_obj :: nbuf_obj where
  "demo_str_obj = \<lparr>obj_buf = 0, obj_base = 24, nelem = 3, ssize = 1, psize = 0\<rparr>"

lemmas demo_simps = demo_buf_def demo_root_def demo_str_buf_def demo_str_root_def
  demo_str_obj_def nbuf_init_read_def header_obj_def wire_header_def seg_def null_obj_def
  in_bounds_def obj_bytes_def esize_def Let_def

lemma demo_str_wf: "buf_wf demo_str_buf"
  by (simp add: demo_simps buf_wf_def)

lemma demo_str_safe: "obj_safe demo_str_buf demo_str_root"
  by (simp add: demo_simps obj_safe_def)

lemma demo_str_init: "nbuf_obj_init demo_str_buf (null_obj 0) 16 = Some demo_str_obj"
  unfolding obj_init_eq [OF demo_str_wf] by (simp add: demo_simps)

lemma get_ptr_follows_offset_witness:
  "nbuf_get_ptr_plain demo_str_buf demo_str_root 0 = Some demo_str_obj"
proof -
  have "(2 :: nat) = le_val (seg (unat (obj_base demo_str_root) + unat (ssize demo_str_root)
      + 4 * unat (0 :: size_t)) 4 (buf_base demo_str_buf))"
    by (simp add: demo_simps)
  from get_ptr_follows_offset [OF demo_str_wf demo_str_safe this] demo_str_init
  show ?thesis by (simp add: demo_simps)
qed

text \<open>
  Claim C34.  Reading a string: when the pointee's elements have at least one byte, \<^verbatim>\<open>nbuf_get_str\<close>
  never trips its \<^verbatim>\<open>assert\<close>, and the byte at the returned length, where a string has its NUL,
  is inside the buffer.
\<close>

theorem get_str_stays_inside:
  assumes "buf_wf buf" and "obj_safe buf r" and "nbuf_get_ptr_plain buf r i = Some rr"
    and "nelem rr \<noteq> 0 \<Longrightarrow> esize rr \<noteq> 0"
  shows "\<exists>s n. nbuf_get_str_plain buf r i = Some (s, n) \<and> unat n < length s \<and>
    unat n = unat (nelem rr) - 1"
proof -
  have "obj_ok buf rr" using get_ptr_ok [OF assms(1,2), of i] assms(3) by auto
  from str_of_ok [OF assms(1) this] assms(3,4) show ?thesis
    by (simp add: nbuf_get_str_plain_def)
qed

theorem get_str_stays_inside_witness:
  "\<exists>s n. nbuf_get_str_plain demo_str_buf demo_str_root 0 = Some (s, n) \<and> unat n < length s \<and>
    unat n = 2"
proof -
  have p: "nbuf_get_ptr_plain demo_str_buf demo_str_root 0 = Some demo_str_obj"
    unfolding nbuf_get_ptr_plain_def get_rel_ptr_eq [OF demo_str_wf demo_str_safe]
    using demo_str_init
    by (simp add: demo_simps NBUF_WORD_SZ_def int_conv_def nbuf_ptr_offs_def)
  from get_str_stays_inside [OF demo_str_wf demo_str_safe p] show ?thesis
    by (simp add: demo_simps)
qed

text \<open>
  Elements tile their vector: element \<open>i\<close> starts \<open>i\<close> element sizes after the vector, has
  its layout, and ends where element \<open>i + 1\<close> starts, inside the vector.
\<close>

lemma elements_tile_vector:
  assumes "buf_wf buf" and "obj_ok buf r" and "esize r \<noteq> 0" and "unat i < unat (nelem r)"
  shows "unat (obj_base (nbuf_get_elem r i)) = unat (obj_base r) + unat i * esize r \<and>
    ssize (nbuf_get_elem r i) = ssize r \<and> psize (nbuf_get_elem r i) = psize r \<and>
    nelem (nbuf_get_elem r i) = 1 \<and>
    unat (obj_base (nbuf_get_elem r i)) + esize r \<le> unat (obj_base r) + obj_bytes r"
proof -
  have "nelem r \<noteq> 0" using assms(4) by auto
  then have b: "unat (obj_base r) + obj_bytes r \<le> unat (buf_len buf)"
    using assms(2) by (simp add: obj_ok_def in_bounds_def)
  note o = unat_elem_offs [OF assms(3,4)]
  have "unat (obj_base r + i * nbuf_elemsz r) = unat (obj_base r) + unat i * esize r"
    using o unat_base_add [OF assms(1) b, of "i * nbuf_elemsz r"] by simp
  then show ?thesis using assms(3,4) o by (simp add: get_elem_unfold)
qed

lemma elements_tile_vector_witness:
  "unat (obj_base (nbuf_get_elem demo_str_obj 2)) = 26"
proof -
  have "obj_ok demo_str_buf demo_str_obj" by (simp add: demo_simps obj_ok_def)
  from elements_tile_vector [OF demo_str_wf this, of 2] show ?thesis
    by (simp add: demo_simps)
qed

section \<open>Where the readers leave the specification\<close>

text \<open>
  \<^verbatim>\<open>spec.txt\<close> forbids negative pointers so that messages form no loops, but the reader
  follows them: in this buffer the only pointer of the root leads back to the root.
\<close>

lemma backward_pointer_makes_loop:
  "\<exists>buf r. buf_wf buf \<and> nbuf_obj_init buf (null_obj 0) 0 = Some r \<and> nelem r = 1 \<and>
    nbuf_get_ptr_plain buf r 0 = Some r"
proof -
  define buf where "buf = nbuf_init_read [1,0,0,0, 0,0, 1,0, 254,255,255,255] 12"
  define r where "r = \<lparr>obj_buf = 0, obj_base = 8, nelem = 1, ssize = 0, psize = 1\<rparr>"
  have wf: "buf_wf buf" by (simp add: buf_def nbuf_init_read_def buf_wf_def)
  have i: "nbuf_obj_init buf (null_obj 0) 0 = Some r"
    unfolding obj_init_eq [OF wf] by (simp add: buf_def r_def demo_simps)
  have s: "obj_safe buf r" by (simp add: buf_def r_def demo_simps obj_safe_def)
  have "nbuf_get_ptr_plain buf r 0 = nbuf_obj_init buf (null_obj 0) 0"
    unfolding nbuf_get_ptr_plain_def get_rel_ptr_eq [OF wf s]
    by (simp add: buf_def r_def demo_simps NBUF_WORD_SZ_def int_conv_def nbuf_ptr_offs_def)
  then show ?thesis using wf i by (intro exI [of _ buf] exI [of _ r]) (simp add: r_def)
qed

text \<open>
  A header with no elements but a scalar part passes \<^verbatim>\<open>nbuf_obj_init\<close> unchecked, and reading
  a scalar of that object then trips the \<^verbatim>\<open>assert\<close> of \<^verbatim>\<open>nbuf_read_int_safe\<close>.
\<close>

lemma empty_object_read_aborts:
  "\<exists>buf r. buf_wf buf \<and> nbuf_obj_init buf (null_obj 0) 0 = Some r \<and>
    nbuf_get_int buf r 0 8 = None"
proof -
  have "nbuf_get_int empty_buf empty_root 0 8 = None"
    by (simp add: nbuf_get_int_def read_safe_eq [OF empty_wf])
      (simp add: empty_buf_def empty_root_def nbuf_init_read_def)
  then show ?thesis using empty_wf empty_init by blast
qed

text \<open>
  \<^verbatim>\<open>nbuf_get_str\<close> on a pointer to a vector of bits counts its bits as bytes, so a short buffer
  trips the \<^verbatim>\<open>assert\<close> although the vector itself is in bounds.
\<close>

lemma string_of_bits_aborts:
  "\<exists>buf rr. buf_wf buf \<and> obj_ok buf rr \<and> nbuf_str_of buf buf rr = None"
proof -
  define buf where "buf = nbuf_init_read [16,0,0,0, 0,0, 0,0, 255, 255] 10"
  define rr where "rr = \<lparr>obj_buf = 0, obj_base = 8, nelem = 16, ssize = 0, psize = 0\<rparr>"
  have wf: "buf_wf buf" by (simp add: buf_def nbuf_init_read_def buf_wf_def)
  have "obj_ok buf rr" by (simp add: buf_def rr_def demo_simps obj_ok_def)
  moreover have "nbuf_str_of buf buf rr = None"
    by (simp add: nbuf_str_of_def buf_def rr_def nbuf_init_read_def nbuf_bounds_check_def)
  ultimately show ?thesis using wf by blast
qed

end
