(* ===== verification/Cells.thy ===== *)
theory Cells
  imports Wire_Int
begin

text \<open>
  The interface between a message and the code that fills in its fields.  A scalar field is a
  cell: an integer of \<open>sz\<close> bytes at a byte offset, or a bit at a bit offset (\<^verbatim>\<open>tag0\<close> and \<^verbatim>\<open>tag1\<close> of a
  field descriptor).  The locale states what a store of cells promises: a write reads back, and
  leaves disjoint cells alone.  Its lemma lifts the promise to any sequence of writes to pairwise
  disjoint cells, which is what the generated setters of a message perform.
\<close>

datatype cell = Int_cell size_t size_t | Bit_cell size_t

text \<open>The bits a cell occupies in the scalar part: from \<open>cell_lo\<close> up to, not including, \<open>cell_hi\<close>.\<close>

fun cell_lo :: "cell \<Rightarrow> nat" where
  "cell_lo (Int_cell off sz) = 8 * unat off"
| "cell_lo (Bit_cell k) = unat k"

fun cell_hi :: "cell \<Rightarrow> nat" where
  "cell_hi (Int_cell off sz) = 8 * unat off + 8 * unat sz"
| "cell_hi (Bit_cell k) = unat k + 1"

definition cells_disjoint :: "cell \<Rightarrow> cell \<Rightarrow> bool" where
  "cells_disjoint c d \<longleftrightarrow> cell_hi c \<le> cell_lo d \<or> cell_hi d \<le> cell_lo c"

lemma cells_disjoint_sym: "cells_disjoint c d \<longleftrightarrow> cells_disjoint d c"
  by (auto simp: cells_disjoint_def)

text \<open>A legal cell of a scalar part of \<open>s\<close> bytes.\<close>

fun cell_fits :: "nat \<Rightarrow> cell \<Rightarrow> bool" where
  "cell_fits s (Int_cell off sz) \<longleftrightarrow> int_size sz \<and> off mod sz = 0 \<and> unat off + unat sz \<le> s"
| "cell_fits s (Bit_cell k) \<longleftrightarrow> unat k div 8 < s"

lemma cell_fits_hi: "cell_fits s c \<Longrightarrow> cell_hi c \<le> 8 * s"
  by (cases c) auto

text \<open>What a cell can hold of a value: an integer of its size, or one bit.\<close>

fun cell_norm :: "cell \<Rightarrow> int64 \<Rightarrow> int64" where
  "cell_norm (Int_cell off sz) v = int_conv sz v"
| "cell_norm (Bit_cell k) v = of_bool (v \<noteq> 0)"

fun put_all :: "('s \<Rightarrow> 'c \<Rightarrow> 'v \<Rightarrow> 's option) \<Rightarrow> 's \<Rightarrow> ('c \<times> 'v) list \<Rightarrow> 's option" where
  "put_all put s [] = Some s"
| "put_all put s ((c, v) # cvs) = do { s1 \<leftarrow> put s c v; put_all put s1 cvs }"

locale cell_store =
  fixes get :: "'s \<Rightarrow> 'c \<Rightarrow> 'v option"
    and put :: "'s \<Rightarrow> 'c \<Rightarrow> 'v \<Rightarrow> 's option"
    and inv :: "'s \<Rightarrow> bool"
    and fits :: "'c \<Rightarrow> bool"
    and disj :: "'c \<Rightarrow> 'c \<Rightarrow> bool"
    and norm :: "'c \<Rightarrow> 'v \<Rightarrow> 'v"
  assumes put_total: "inv s \<Longrightarrow> fits c \<Longrightarrow> \<exists>s'. put s c v = Some s' \<and> inv s'"
    and get_same: "inv s \<Longrightarrow> fits c \<Longrightarrow> put s c v = Some s' \<Longrightarrow> get s' c = Some (norm c v)"
    and get_other: "inv s \<Longrightarrow> fits c \<Longrightarrow> fits d \<Longrightarrow> disj c d \<Longrightarrow> put s c v = Some s' \<Longrightarrow>
          get s' d = get s d"
    and disj_sym: "disj c d \<Longrightarrow> disj d c"
begin

lemma put_all_get:
  assumes "inv s" and "\<forall>x \<in> set cvs. fits (fst x)"
    and "sorted_wrt (\<lambda>x y. disj (fst x) (fst y)) cvs"
  shows "\<exists>s'. put_all put s cvs = Some s' \<and> inv s' \<and>
    (\<forall>(c, v) \<in> set cvs. get s' c = Some (norm c v)) \<and>
    (\<forall>d. fits d \<and> (\<forall>(c, v) \<in> set cvs. disj c d) \<longrightarrow> get s' d = get s d)"
  using assms
proof (induction cvs arbitrary: s)
  case Nil
  then show ?case by simp
next
  case (Cons x cvs)
  obtain c v where x: "x = (c, v)" by (cases x)
  have fc: "fits c" using Cons.prems(2) x by auto
  from put_total [OF Cons.prems(1) fc] obtain s1 where s1: "put s c v = Some s1" "inv s1" by blast
  have f: "\<forall>x \<in> set cvs. fits (fst x)" using Cons.prems(2) by simp
  have "sorted_wrt (\<lambda>x y. disj (fst x) (fst y)) cvs" using Cons.prems(3) by simp
  from Cons.IH [OF s1(2) f this] obtain s' where s': "put_all put s1 cvs = Some s'"
    "inv s'" "\<forall>(c, v) \<in> set cvs. get s' c = Some (norm c v)"
    "\<forall>d. fits d \<and> (\<forall>(c, v) \<in> set cvs. disj c d) \<longrightarrow> get s' d = get s1 d" by blast
  have "\<forall>(e, w) \<in> set cvs. disj e c"
    using Cons.prems(3) x by (fastforce intro: disj_sym)
  then have "get s' c = Some (norm c v)"
    using s'(4) fc get_same [OF Cons.prems(1) fc s1(1)] by auto
  moreover have "get s' d = get s d"
    if "fits d" "\<forall>(e, w) \<in> set (x # cvs). disj e d" for d
    using that x s'(4) get_other [OF Cons.prems(1) fc that(1) _ s1(1)] by auto
  ultimately show ?case using s1 s' x by auto
qed

end

end
