(* ===== verification/Obj_Write.thy ===== *)
theory Obj_Write
  imports Obj Cells
begin

text \<open>
  Writing messages in place: \<^verbatim>\<open>_nbuf_create\<close>, \<^verbatim>\<open>nbuf_resize\<close>, \<^verbatim>\<open>nbuf_put_int\<close>, \<^verbatim>\<open>nbuf_put_bit\<close>,
  \<^verbatim>\<open>_nbuf_put_ptr\<close> and \<^verbatim>\<open>nbuf_put_str\<close> of \<^verbatim>\<open>include/nbuf.h\<close>, on a buffer without \<^verbatim>\<open>ops\<close>.  Each
  operation returns the changed buffer.  The lemmas show what a created object looks like on the
  wire, that the writers keep the buffer well formed, that what is written is read back, and where
  creating and resizing go wrong.
\<close>

section \<open>Creating and resizing\<close>

definition memset0 :: "byte list \<Rightarrow> size_t \<Rightarrow> size_t \<Rightarrow> byte list option" where
  "memset0 blk pos n =
    (if unat pos + unat n \<le> length blk
     then Some (splice_at (unat pos) (replicate (unat n) 0) blk) else None)"

definition header_word :: "uint32 \<Rightarrow> uint16 \<Rightarrow> uint16 \<Rightarrow> uint64" where
  "header_word n s p = ucast n OR push_bit 32 (ucast s) OR push_bit 48 (ucast p)"

text \<open>The bytes of a new object: header, elements, padding to the alignment.\<close>

definition create_totalsz :: "uint32 \<Rightarrow> uint16 \<Rightarrow> uint16 \<Rightarrow> size_t \<Rightarrow> size_t" where
  "create_totalsz n s p elemsz =
    NBUF_ROUNDUP (8 + (if s = 0 \<and> p = 0 then ucast ((n + 7) div 8) else ucast n * elemsz))
      NBUF_ALIGN"

text \<open>The part after the reservation: write the header, clear the elements.\<close>

definition create_init ::
    "nbuf_buffer \<Rightarrow> nbuf_obj \<Rightarrow> uint64 \<Rightarrow> size_t \<Rightarrow> (nbuf_obj \<times> nbuf_buffer) option" where
  "create_init buf rr hdr totalsz =
    do { assert_ok (totalsz \<le> buf_cap buf - buf_len buf);
         assert_ok (buf_len buf mod 8 = 0);
         let buf1 = buf\<lparr>buf_len := buf_len buf + totalsz\<rparr>;
         buf2 \<leftarrow> nbuf_write_int_safe buf1 (obj_base rr) 8 hdr;
         let rr1 = rr\<lparr>obj_base := obj_base rr + 8\<rparr>;
         blk \<leftarrow> memset0 (buf_base buf2) (obj_base rr1) (totalsz - 8);
         Some (rr1, buf2\<lparr>buf_base := blk\<rparr>) }"

definition nbuf_create_plain ::
    "allocator \<Rightarrow> nat \<Rightarrow> nbuf_buffer \<Rightarrow> uint32 \<Rightarrow> uint16 \<Rightarrow> uint16 \<Rightarrow> (nbuf_obj \<times> nbuf_buffer) option"
  where
  "nbuf_create_plain al a buf n s p =
    (let hdr = header_word n s p;
         rr = \<lparr>obj_buf = a, obj_base = buf_len buf, nelem = n, ssize = s, psize = p\<rparr>;
         elemsz = nbuf_elemsz rr;
         totalsz = create_totalsz n s p elemsz
     in do {
       assert_ok (buf_len buf \<le> buf_cap buf);
       assert_ok (elemsz < 4294967295);
       assert_ok (elemsz = 0 \<or> (- 1) div elemsz > ucast n);
       assert_ok (p = 0 \<or> elemsz mod NBUF_WORD_SZ = 0);
       (ok, buf1) \<leftarrow> nbuf_reserve al buf totalsz;
       if \<not> ok then Some (rr\<lparr>nelem := 0, ssize := 0, psize := 0\<rparr>, buf1)
       else create_init buf1 rr hdr totalsz })"

text \<open>\<^verbatim>\<open>newend\<close>.\<close>

definition resize_end :: "nbuf_obj \<Rightarrow> size_t \<Rightarrow> size_t" where
  "resize_end r n =
    (let elemsz = nbuf_elemsz r
     in NBUF_ROUNDUP (obj_base r + (if elemsz \<noteq> 0 then n * elemsz else (n + 7) div 8)) NBUF_ALIGN)"

definition nbuf_resize ::
    "allocator \<Rightarrow> nbuf_buffer \<Rightarrow> nbuf_obj \<Rightarrow> size_t \<Rightarrow> (nbuf_obj \<times> nbuf_buffer) option" where
  "nbuf_resize al buf r n =
    (let elemsz = nbuf_elemsz r;
         end0 = obj_base r + (if elemsz \<noteq> 0 then ucast (nelem r) * elemsz
                              else ucast ((nelem r + 7) div 8));
         end = NBUF_ROUNDUP end0 NBUF_ALIGN;
         newend = resize_end r n
     in do {
       assert_ok (n < 4294967295);
       if end \<noteq> buf_len buf then Some (r, buf)
       else do {
         (ok, buf1) \<leftarrow> (if newend > end then nbuf_reserve al buf (newend - end) else Some (True, buf));
         if \<not> ok then Some (r, buf1)
         else do {
           assert_ok (newend \<le> buf_cap buf1);
           blk \<leftarrow> memset0 (buf_base buf1) end (newend - end);
           let r1 = r\<lparr>nelem := ucast n\<rparr>;
           buf2 \<leftarrow> nbuf_write_int_safe (buf1\<lparr>buf_base := blk, buf_len := newend\<rparr>)
                     (obj_base r - NBUF_WORD_SZ * 2) NBUF_WORD_SZ n;
           Some (r1, buf2) } } })"

section \<open>Scalars\<close>

definition nbuf_put_int ::
    "nbuf_buffer \<Rightarrow> nbuf_obj \<Rightarrow> size_t \<Rightarrow> size_t \<Rightarrow> uint64 \<Rightarrow> nbuf_buffer option" where
  "nbuf_put_int buf r byte_offset sz v =
    do { assert_ok (nbuf_writable buf);
         assert_ok (sz \<noteq> 0 \<and> byte_offset mod sz = 0);
         if byte_offset + sz \<le> ucast (ssize r)
         then nbuf_write_int_safe buf (obj_base r + byte_offset) sz v
         else Some buf }"

definition nbuf_put_f32 :: "nbuf_buffer \<Rightarrow> nbuf_obj \<Rightarrow> size_t \<Rightarrow> uint32 \<Rightarrow> nbuf_buffer option" where
  "nbuf_put_f32 buf r byte_offset f = nbuf_put_int buf r byte_offset 4 (scast f)"

definition nbuf_put_f64 :: "nbuf_buffer \<Rightarrow> nbuf_obj \<Rightarrow> size_t \<Rightarrow> uint64 \<Rightarrow> nbuf_buffer option" where
  "nbuf_put_f64 buf r byte_offset f = nbuf_put_int buf r byte_offset 8 f"

definition nbuf_put_bit ::
    "nbuf_buffer \<Rightarrow> nbuf_obj \<Rightarrow> size_t \<Rightarrow> bool \<Rightarrow> nbuf_buffer option" where
  "nbuf_put_bit buf r bit_offset v =
    (let i = bit_offset div 8; j = bit_offset mod 8
     in if i \<ge> ucast (ssize r) then Some buf
        else (let k = obj_base r + i
              in do {
                assert_ok (nbuf_bounds_check buf k 1);
                bs \<leftarrow> load (buf_base buf) (unat k) 1;
                let b = hd bs;
                blk \<leftarrow> store (buf_base buf) (unat k)
                        [if v then b OR push_bit (unat j) 1 else b AND NOT (push_bit (unat j) 1)];
                Some (buf\<lparr>buf_base := blk\<rparr>) }))"

section \<open>Pointers and strings\<close>

text \<open>\<^verbatim>\<open>rel\<close> is signed in its first comparison and converted to \<^verbatim>\<open>size_t\<close> by \<^verbatim>\<open>%\<close> and \<^verbatim>\<open>/\<close>.\<close>

definition nbuf_put_ptr_plain ::
    "nbuf_buffer \<Rightarrow> nbuf_obj \<Rightarrow> size_t \<Rightarrow> nbuf_obj \<Rightarrow> nbuf_buffer option" where
  "nbuf_put_ptr_plain buf r i v =
    do { assert_ok (obj_buf r = obj_buf v);
         if i \<ge> ucast (psize r) then Some buf
         else do {
           let ptr_base = obj_base r + nbuf_ptr_offs r i;
           let hdr_base = obj_base v - NBUF_ALIGN;
           assert_ok (nbuf_bounds_check buf hdr_base NBUF_ALIGN);
           let rel = hdr_base - ptr_base;
           assert_ok (sint rel > 0 \<and> rel mod NBUF_WORD_SZ = 0);
           nbuf_write_int_safe buf ptr_base NBUF_WORD_SZ (rel div NBUF_WORD_SZ) } }"

text \<open>\<^verbatim>\<open>strlen\<close> on the memory from a \<^verbatim>\<open>char *\<close> on: undefined when no NUL follows.\<close>

definition c_strlen :: "byte list \<Rightarrow> nat option" where
  "c_strlen s = (if 0 \<in> set s then Some (length (takeWhile (\<lambda>b. b \<noteq> 0) s)) else None)"

definition str_length :: "byte list \<Rightarrow> size_t \<Rightarrow> size_t option" where
  "str_length s n = (if n + 1 = 0 then map_option of_nat (c_strlen s) else Some n)"

text \<open>The copying part of \<^verbatim>\<open>nbuf_put_str\<close>, into the fresh object \<open>rr\<close> of buffer \<open>buf\<close>.\<close>

definition copy_str :: "nbuf_buffer \<Rightarrow> nbuf_obj \<Rightarrow> byte list \<Rightarrow> size_t \<Rightarrow> nbuf_buffer option" where
  "copy_str buf rr s n =
    do { assert_ok (ucast (nelem rr) = n + 1);
         bs \<leftarrow> load s 0 (unat n);
         blk \<leftarrow> store (buf_base buf) (unat (obj_base rr)) bs;
         blk1 \<leftarrow> store blk (unat (obj_base rr) + unat n) [0];
         Some (buf\<lparr>buf_base := blk1\<rparr>) }"

definition nbuf_put_str_plain ::
    "allocator \<Rightarrow> nbuf_buffer \<Rightarrow> nbuf_obj \<Rightarrow> size_t \<Rightarrow> byte list \<Rightarrow> size_t \<Rightarrow> nbuf_buffer option" where
  "nbuf_put_str_plain al buf r i s n0 =
    do { n \<leftarrow> str_length s n0;
         (rr, buf1) \<leftarrow> nbuf_create_plain al (obj_buf r) buf (ucast (n + 1)) 1 0;
         if nelem rr = 0 then Some buf1
         else do {
           buf2 \<leftarrow> copy_str buf1 rr s n;
           nbuf_put_ptr_plain buf2 r i rr } }"

section \<open>What a created object looks like\<close>

lemma unat_roundup8:
  fixes x :: size_t
  assumes "unat x < 2 ^ 63"
  shows "unat (NBUF_ROUNDUP x NBUF_ALIGN) = (unat x + 7) div 8 * 8"
proof -
  have "unat (x + 7) = unat x + 7" using assms by (subst unat_add_nowrap) simp_all
  moreover have "unat ((x + 7) div 8 * 8) = unat ((x + 7) div 8) * 8"
    using unat_u64_lt [of "x + 7"] by (subst unat_mult_nowrap) (simp_all add: unat_div)
  ultimately show ?thesis by (simp add: NBUF_ROUNDUP_def NBUF_ALIGN_def unat_div)
qed

lemma header_word_fields:
  "ucast (header_word n s p AND (push_bit 32 1 - 1)) = n"
  "ucast (drop_bit 32 (header_word n s p) AND (push_bit 16 1 - 1)) = s"
  "ucast (drop_bit 16 (drop_bit 32 (header_word n s p))) = p"
proof -
  have m: "push_bit 32 1 - 1 = (mask 32 :: 64 word)" "push_bit 16 1 - 1 = (mask 16 :: 64 word)"
    by (simp_all add: mask_eq_exp_minus_1)
  show "ucast (header_word n s p AND (push_bit 32 1 - 1)) = n"
    unfolding m header_word_def by (rule bit_word_eqI) (auto simp: bit_simps)
  show "ucast (drop_bit 32 (header_word n s p) AND (push_bit 16 1 - 1)) = s"
    unfolding m header_word_def
    by (rule bit_word_eqI) (auto simp: bit_simps dest: bit_imp_le_length)
  show "ucast (drop_bit 16 (drop_bit 32 (header_word n s p))) = p"
    unfolding header_word_def
    by (rule bit_word_eqI) (auto simp: bit_simps dest: bit_imp_le_length)
qed

lemma wire_header_written:
  assumes "pos + 8 \<le> length bs" and "seg pos 8 bs = le_enc 8 (unat (header_word n s p))"
  shows "wire_header bs pos = (unat n, unat s, unat p)"
proof -
  have "unat (header_word n s p) mod 256 ^ 8 = unat (header_word n s p)"
    using unat_u64_lt [of "header_word n s p"] by simp
  then have "header_word n s p = of_nat (le_val (seg pos 8 bs))"
    unfolding assms(2) le_val_enc by simp
  from header_fields [OF assms(1) this] show ?thesis
    by (simp only: wire_header_def header_word_fields)
qed

text \<open>\<open>extends b b'\<close>: the buffer has grown from \<open>b\<close> to \<open>b'\<close>, its bytes so far unchanged.\<close>

definition extends :: "nbuf_buffer \<Rightarrow> nbuf_buffer \<Rightarrow> bool" where
  "extends b b' \<longleftrightarrow> buf_wwf b' \<and> buf_len b \<le> buf_len b' \<and> buf_ops b' = buf_ops b \<and>
    take (unat (buf_len b)) (buf_base b') = take (unat (buf_len b)) (buf_base b)"

lemma extends_refl: "buf_wwf b \<Longrightarrow> extends b b"
  by (simp add: extends_def)

lemma extends_trans:
  assumes "extends a b" and "extends b c"
  shows "extends a c"
proof -
  let ?n = "unat (buf_len a)" and ?m = "unat (buf_len b)"
  have le: "?n \<le> ?m" using assms(1) by (simp add: extends_def word_le_nat_alt)
  have "take ?n (buf_base c) = take ?n (take ?m (buf_base c))"
    and "take ?n (buf_base b) = take ?n (take ?m (buf_base b))"
    using le by (simp_all add: min_def)
  moreover have "take ?m (buf_base c) = take ?m (buf_base b)"
    using assms(2) by (simp add: extends_def)
  ultimately have "take ?n (buf_base c) = take ?n (buf_base b)" by simp
  then show ?thesis using assms by (auto simp: extends_def)
qed

text \<open>The object created at the end of buffer \<open>b\<close>, and the buffer \<open>b'\<close> that holds it.\<close>

definition fresh_obj :: "nat \<Rightarrow> nbuf_buffer \<Rightarrow> uint32 \<Rightarrow> uint16 \<Rightarrow> uint16 \<Rightarrow> nbuf_obj" where
  "fresh_obj a b n s p =
    \<lparr>obj_buf = a, obj_base = buf_len b + 8, nelem = n, ssize = s, psize = p\<rparr>"

definition created :: "nbuf_buffer \<Rightarrow> nbuf_obj \<Rightarrow> nbuf_buffer \<Rightarrow> bool" where
  "created b r b' \<longleftrightarrow> extends b b' \<and>
    unat (buf_len b') = (unat (buf_len b) + 8 + obj_bytes r + 7) div 8 * 8 \<and>
    unat (obj_base r) = unat (buf_len b) + 8 \<and>
    wire_header (buf_base b') (unat (buf_len b)) = (unat (nelem r), unat (ssize r), unat (psize r)) \<and>
    (\<forall>k. unat (buf_len b) + 8 \<le> k \<and> k < unat (buf_len b') \<longrightarrow> buf_base b' ! k = 0)"

lemma elemsz_fields:
  "nbuf_elemsz \<lparr>obj_buf = a, obj_base = l, nelem = n, ssize = s, psize = p\<rparr>
    = nbuf_elemsz (fresh_obj a b n s p)"
  by (simp add: nbuf_elemsz_def nbuf_ptr_offs_def fresh_obj_def)

lemma esize_0_iff: "esize r = 0 \<longleftrightarrow> ssize r = 0 \<and> psize r = 0"
  by (simp add: esize_def unat_0_iff)

lemma create_size:
  fixes b :: nbuf_buffer and a :: nat and n :: uint32 and s p :: uint16
  defines "r \<equiv> fresh_obj a b n s p"
  assumes "esize r = 0 \<Longrightarrow> unat n + 7 < 2 ^ 32"
  shows "unat (8 + (if s = 0 \<and> p = 0 then ucast ((n + 7) div 8) else ucast n * nbuf_elemsz r) :: size_t)
    = 8 + obj_bytes r"
proof -
  have f: "nelem r = n" "ssize r = s" "psize r = p" by (simp_all add: r_def fresh_obj_def)
  have "unat (if s = 0 \<and> p = 0 then ucast ((n + 7) div 8) else ucast n * nbuf_elemsz r :: size_t)
      = obj_bytes r"
  proof (cases "esize r = 0")
    case True
    then show ?thesis using assms(2) unat_bit_bytes [of n] f
      by (simp add: obj_bytes_def esize_0_iff)
  next
    case False
    then show ?thesis using unat_total [of r] f
      by (auto simp: obj_bytes_def esize_0_iff mult.commute)
  qed
  then show ?thesis
    using obj_bytes_lt [of r] by (subst unat_add_nowrap) simp_all
qed

lemma create_asserts:
  fixes b :: nbuf_buffer and a :: nat and n :: uint32 and s p :: uint16
  defines "r \<equiv> fresh_obj a b n s p"
  assumes "p \<noteq> 0 \<Longrightarrow> unat s mod 4 = 0"
  shows "nbuf_elemsz r < 4294967295"
    and "nbuf_elemsz r = 0 \<or> (- 1) div nbuf_elemsz r > ucast n"
    and "p = 0 \<or> nbuf_elemsz r mod NBUF_WORD_SZ = 0"
proof -
  show "nbuf_elemsz r < 4294967295"
    using esize_lt [of r] by (simp add: word_less_nat_alt)
  have "unat n < (2 ^ 64 - 1) div 327680" using unat_u32_lt [of n] by simp
  also have "\<dots> \<le> (2 ^ 64 - 1) div esize r" if "esize r \<noteq> 0"
    using that esize_lt [of r] by (intro div_le_mono2) simp_all
  finally have "unat n < (2 ^ 64 - 1) div esize r" if "esize r \<noteq> 0" using that by simp
  moreover have "unat (- 1 :: size_t) = 2 ^ 64 - 1" by (simp add: unsigned_minus_1_eq_mask mask_eq_exp_minus_1)
  ultimately show "nbuf_elemsz r = 0 \<or> (- 1) div nbuf_elemsz r > ucast n"
    by (auto simp: elemsz_eq_0 word_less_nat_alt unat_div)
  have "unat (nbuf_elemsz r mod 4) = 0" if "p \<noteq> 0"
    using assms(2) that by (simp add: unat_mod r_def esize_def fresh_obj_def)
  then show "p = 0 \<or> nbuf_elemsz r mod NBUF_WORD_SZ = 0"
    by (auto simp: NBUF_WORD_SZ_def unat_0_iff)
qed

text \<open>The block after the header has been written and the rest cleared.\<close>

lemma create_block:
  assumes "l + t \<le> length blk" and "8 \<le> t" and "length hdr = 8"
  defines "blk' \<equiv> splice_at (l + 8) (replicate (t - 8) 0) (splice_at l hdr blk)"
  shows "length blk' = length blk" and "take l blk' = take l blk" and "seg l 8 blk' = hdr"
    and "\<And>k. l + 8 \<le> k \<Longrightarrow> k < l + t \<Longrightarrow> blk' ! k = 0"
proof -
  show len: "length blk' = length blk" using assms by simp
  show "take l blk' = take l blk"
    using assms len by (intro nth_equalityI) (auto simp: nth_splice_at)
  have "seg l 8 blk' = seg l 8 (splice_at l hdr blk)"
    unfolding blk'_def using assms by (intro slice_splice_other) simp_all
  also have "\<dots> = hdr" using assms by (intro slice_splice_same) simp_all
  finally show "seg l 8 blk' = hdr" .
  fix k assume "l + 8 \<le> k" "k < l + t"
  then show "blk' ! k = 0"
    unfolding blk'_def using assms by (subst nth_splice_at) auto
qed

text \<open>The sizes for which \<^verbatim>\<open>_nbuf_create\<close> is meant to be called.\<close>

definition creatable :: "nbuf_buffer \<Rightarrow> uint32 \<Rightarrow> uint16 \<Rightarrow> uint16 \<Rightarrow> bool" where
  "creatable b n s p \<longleftrightarrow> buf_wwf b \<and> unat (buf_len b) mod 8 = 0 \<and>
    (p \<noteq> 0 \<longrightarrow> unat s mod 4 = 0) \<and> (s = 0 \<and> p = 0 \<longrightarrow> unat n + 7 < 2 ^ 32) \<and>
    unat (buf_len b) + obj_bytes (fresh_obj 0 b n s p) + 16 \<le> 2 ^ 61"

lemma obj_bytes_fresh: "obj_bytes (fresh_obj a b n s p) = obj_bytes (fresh_obj 0 b n s p)"
  by (simp add: obj_bytes_def esize_def fresh_obj_def)

lemma fresh_obj_sel [simp]:
  "obj_buf (fresh_obj a b n s p) = a" "obj_base (fresh_obj a b n s p) = buf_len b + 8"
  "nelem (fresh_obj a b n s p) = n" "ssize (fresh_obj a b n s p) = s"
  "psize (fresh_obj a b n s p) = p"
  by (simp_all add: fresh_obj_def)

text \<open>What \<^verbatim>\<open>_nbuf_create\<close> does when \<open>totalsz\<close> is \<open>t\<close>, whether or not that is enough for the elements.\<close>

definition appended :: "nbuf_buffer \<Rightarrow> nbuf_obj \<Rightarrow> nat \<Rightarrow> nbuf_buffer \<Rightarrow> bool" where
  "appended b r t b' \<longleftrightarrow> extends b b' \<and> unat (buf_len b') = unat (buf_len b) + t \<and>
    unat (obj_base r) = unat (buf_len b) + 8 \<and>
    wire_header (buf_base b') (unat (buf_len b)) = (unat (nelem r), unat (ssize r), unat (psize r)) \<and>
    (\<forall>k. unat (buf_len b) + 8 \<le> k \<and> k < unat (buf_len b') \<longrightarrow> buf_base b' ! k = 0)"

lemma create_appends:
  assumes wwf: "buf_wwf b" and l8: "unat (buf_len b) mod 8 = 0" and p4: "p \<noteq> 0 \<longrightarrow> unat s mod 4 = 0"
    and T: "unat (create_totalsz n s p (nbuf_elemsz (fresh_obj a b n s p))) = t" and t8: "8 \<le> t"
    and sz: "unat (buf_len b) + t < 2 ^ 62"
  obtains (ok) b' where "nbuf_create_plain al a b n s p = Some (fresh_obj a b n s p, b')"
      and "appended b (fresh_obj a b n s p) t b'"
  | (nomem) "nbuf_create_plain al a b n s p = Some
        (\<lparr>obj_buf = a, obj_base = buf_len b, nelem = 0, ssize = 0, psize = 0\<rparr>, b)"
      and "\<exists>k. \<not> grants al k"
proof -
  define r where "r = fresh_obj a b n s p"
  define l where "l = unat (buf_len b)"
  define T where "T = create_totalsz n s p (nbuf_elemsz r)"
  have T: "unat T = t" using T by (simp add: T_def r_def)
  have lT: "unat (buf_len b) + unat T < 2 ^ 62" using sz T by simp
  have a1: "buf_len b \<le> buf_cap b" using wwf by (simp add: buf_wwf_def)
  have as: "nbuf_elemsz r < 4294967295" "nbuf_elemsz r = 0 \<or> (- 1) div nbuf_elemsz r > ucast n"
    "p = 0 \<or> nbuf_elemsz r mod NBUF_WORD_SZ = 0"
    unfolding r_def by (rule create_asserts, use p4 in blast)+
  let ?rr = "\<lparr>obj_buf = a, obj_base = buf_len b, nelem = n, ssize = s, psize = p\<rparr>"
  have start: "nbuf_create_plain al a b n s p =
      do { (ok, b1) \<leftarrow> nbuf_reserve al b T;
           if \<not> ok then Some (?rr\<lparr>nelem := 0, ssize := 0, psize := 0\<rparr>, b1)
           else create_init b1 ?rr (header_word n s p) T }"
    unfolding nbuf_create_plain_def Let_def elemsz_fields [of a "buf_len b" n s p b, folded r_def]
      T_def
    using as a1 by simp
  show thesis
  proof (cases rule: reserve_cases [OF wwf lT, of al])
    case 2
    then show thesis using nomem start by simp
  next
    case (1 b1)
    then have wf1: "buf_wwf b1" and e1: "buf_len b1 = buf_len b" "buf_ops b1 = buf_ops b"
      and room: "l + t \<le> length (buf_base b1)"
      and pre: "take (length (buf_base b)) (buf_base b1) = buf_base b"
      using T by (simp_all add: reserved_def l_def)
    have cap: "length (buf_base b1) = unat (buf_cap b1)" "length (buf_base b1) < 2 ^ 63"
      using wf1 by (simp_all add: buf_wwf_def)
    have lt: "unat (buf_len b + T) = l + t"
      using sz T by (subst unat_add_nowrap) (simp_all add: l_def)
    have l8': "unat (buf_len b + 8) = l + 8"
      using sz t8 by (subst unat_add_nowrap) (simp_all add: l_def)
    have t8': "unat (T - 8) = t - 8"
      using T t8 by (subst unat_sub_nowrap) (simp_all add: word_le_nat_alt)
    define h where "h = le_enc 8 (unat (header_word n s p))"
    define blk where "blk = splice_at (l + 8) (replicate (t - 8) 0) (splice_at l h (buf_base b1))"
    define b' where "b' = b1\<lparr>buf_base := blk, buf_len := buf_len b + T\<rparr>"
    have g: "T \<le> buf_cap b1 - buf_len b1" "buf_len b1 mod 8 = 0"
    proof -
      have "buf_len b \<le> buf_cap b1" using room cap(1) by (simp add: word_le_nat_alt l_def)
      then show "T \<le> buf_cap b1 - buf_len b1"
        using room cap(1) T e1 by (simp add: word_le_nat_alt unat_sub_nowrap l_def)
      have "unat (buf_len b1 mod 8) = 0" using l8 e1 by (simp add: unat_mod l_def)
      then show "buf_len b1 mod 8 = 0" by (simp add: unat_0_iff)
    qed
    have wf2: "buf_wf (b1\<lparr>buf_len := buf_len b + T\<rparr>)"
      using lt room cap(2) by (simp add: buf_wf_def)
    have w: "nbuf_write_int_safe (b1\<lparr>buf_len := buf_len b + T\<rparr>) (buf_len b) 8 (header_word n s p)
        = Some (b1\<lparr>buf_base := splice_at l h (buf_base b1), buf_len := buf_len b + T\<rparr>)"
      using lt t8 write_safe_eq [OF wf2 int_size_simps(4)]
      by (simp add: e1 h_def l_def)
    have "length (splice_at l h (buf_base b1)) = length (buf_base b1)"
      using room t8 by (simp add: h_def)
    then have m: "memset0 (splice_at l h (buf_base b1)) (buf_len b + 8) (T - 8) = Some blk"
      using room l8' t8' t8 by (simp add: memset0_def blk_def)
    have create: "nbuf_create_plain al a b n s p = Some (r, b')"
      using start 1(1) g w m
      by (simp add: create_init_def Let_def e1 b'_def r_def fresh_obj_def)
    have bl: "length blk = length (buf_base b1)" "take l blk = take l (buf_base b1)"
      "seg l 8 blk = h" "\<And>k. l + 8 \<le> k \<Longrightarrow> k < l + t \<Longrightarrow> blk ! k = 0"
      using create_block [OF room t8, of h] by (simp_all add: blk_def h_def)
    have "l \<le> length (buf_base b)" using wwf by (simp add: buf_wwf_def word_le_nat_alt l_def)
    then have "take l (buf_base b1) = take l (buf_base b)"
      using pre by (metis min.absorb1 take_take)
    then have ext: "extends b b'"
      using bl lt room cap wf1 e1
      by (simp add: extends_def b'_def buf_wwf_def word_le_nat_alt flip: l_def)
    have hdr: "wire_header blk l = (unat n, unat s, unat p)"
      using bl room t8 by (intro wire_header_written) (simp_all add: h_def)
    have "appended b r t b'"
      using ext hdr bl(4) lt l8' by (simp add: appended_def b'_def r_def fresh_obj_def l_def)
    then show thesis using ok create by (simp add: r_def)
  qed
qed

lemma create_cases:
  assumes able: "creatable b n s p"
  obtains (ok) b' where "nbuf_create_plain al a b n s p = Some (fresh_obj a b n s p, b')"
      and "created b (fresh_obj a b n s p) b'"
  | (nomem) "nbuf_create_plain al a b n s p = Some
        (\<lparr>obj_buf = a, obj_base = buf_len b, nelem = 0, ssize = 0, psize = 0\<rparr>, b)"
      and "\<exists>k. \<not> grants al k"
proof -
  define r where "r = fresh_obj a b n s p"
  define l where "l = unat (buf_len b)"
  define t where "t = (8 + obj_bytes r + 7) div 8 * 8"
  have wwf: "buf_wwf b" and l8: "l mod 8 = 0" and sz: "l + obj_bytes r + 16 \<le> 2 ^ 61"
    and p4: "p \<noteq> 0 \<longrightarrow> unat s mod 4 = 0" and n7: "esize r = 0 \<Longrightarrow> unat n + 7 < 2 ^ 32"
    using able obj_bytes_fresh [of a b n s p]
    by (simp_all add: creatable_def l_def r_def esize_0_iff)
  have "unat (8 + (if s = 0 \<and> p = 0 then ucast ((n + 7) div 8)
      else ucast n * nbuf_elemsz r) :: size_t) = 8 + obj_bytes r"
    unfolding r_def by (rule create_size) (use n7 in \<open>simp add: r_def\<close>)
  then have T: "unat (create_totalsz n s p (nbuf_elemsz r)) = t"
    unfolding t_def create_totalsz_def using obj_bytes_lt [of r]
    by (subst unat_roundup8) simp_all
  have t8: "8 \<le> t" "t \<le> obj_bytes r + 15" by (simp_all add: t_def)
  have lt: "unat (buf_len b) + t < 2 ^ 62" using sz t8(2) by (simp flip: l_def)
  have tot: "l + t = (l + 8 + obj_bytes r + 7) div 8 * 8"
    using l8 unfolding t_def by presburger
  show thesis
  proof (cases rule: create_appends [OF wwf l8 [unfolded l_def] p4 T [unfolded r_def] t8(1) lt, of al])
    case (1 b')
    have "created b r b'"
      using 1(2) tot by (simp add: created_def appended_def r_def l_def)
    then show thesis using ok 1(1) by (simp add: r_def)
  next
    case 2
    then show thesis by (rule nomem)
  qed
qed

section \<open>Scalar fields are a store of cells\<close>

lemma obj_safe_len: "buf_len b' = buf_len b \<Longrightarrow> obj_safe b' r = obj_safe b r"
  by (simp add: obj_safe_def in_bounds_def)

lemma put_int_eq:
  assumes "buf_wwf b" and "obj_safe b r" and "int_size sz" and "off mod sz = 0"
    and "unat off < 2 ^ 63"
  shows "nbuf_put_int b r off sz v =
    Some (if unat off + unat sz \<le> unat (ssize r)
          then b\<lparr>buf_base := splice_at (unat (obj_base r) + unat off)
                    (le_enc (unat sz) (unat v)) (buf_base b)\<rparr>
          else b)"
proof -
  have wf: "buf_wf b" using assms(1) by (rule buf_wwf_wf)
  have w: "nbuf_writable b" using assms(1) by (simp add: nbuf_writable_def buf_wwf_def)
  have sz: "sz \<noteq> 0" "0 < unat sz" using assms(3) by (auto elim: int_sizeE)
  have "unat (off + sz) = unat off + unat sz"
    using assms(5) int_size_unat [OF assms(3)] by (intro unat_add_nowrap) simp
  then have le: "off + sz \<le> ucast (ssize r) \<longleftrightarrow> unat off + unat sz \<le> unat (ssize r)"
    by (simp add: word_le_nat_alt)
  show ?thesis
  proof (cases "unat off + unat sz \<le> unat (ssize r)")
    case True
    then have "unat off + unat sz \<le> esize r" by (simp add: esize_def)
    from safe_field_bounds [OF wf assms(2) this sz(2)] show ?thesis
      using True le sz(1) w assms(3,4) wf by (simp add: nbuf_put_int_def write_safe_eq)
  next
    case False
    then show ?thesis using le sz(1) w assms(4) by (simp add: nbuf_put_int_def)
  qed
qed

lemma splice_single: "k < length xs \<Longrightarrow> splice_at k [x] xs = xs[k := x]"
  by (simp add: splice_at_def upd_conv_take_nth_drop)

lemma put_bit_eq:
  assumes "buf_wf b" and "obj_safe b r"
  defines "pos \<equiv> \<lambda>k :: size_t. unat (obj_base r) + unat k div 8"
  shows "nbuf_put_bit b r k v =
    Some (if unat k div 8 < unat (ssize r)
          then b\<lparr>buf_base := (buf_base b)[pos k :=
                   (if v then buf_base b ! pos k OR 2 ^ (unat k mod 8)
                    else buf_base b ! pos k AND NOT (2 ^ (unat k mod 8)))]\<rparr>
          else b)"
proof (cases "unat k div 8 < unat (ssize r)")
  case True
  then have "unat (k div 8) + 1 \<le> esize r" by (simp add: unat_div esize_def)
  note f = safe_field_bounds [OF assms(1,2) this]
  have p: "unat (obj_base r + k div 8) = pos k" using f(1) by (simp add: pos_def unat_div)
  have le: "pos k + 1 \<le> unat (buf_len b)" using f(2) by (simp add: pos_def unat_div)
  then have lt: "pos k < length (buf_base b)" using assms(1) by (simp add: buf_wf_def)
  have bc: "nbuf_bounds_check b (obj_base r + k div 8) 1"
    using bounds_check_iff [OF assms(1), of 1] p le by simp
  have ld: "load (buf_base b) (pos k) (Suc 0) = Some [buf_base b ! pos k]"
    using lt by (simp add: load_def seg_def take_Suc_conv_app_nth)
  have "\<not> ucast (ssize r) \<le> k div 8"
    using True by (simp add: word_le_nat_alt unat_div)
  then show ?thesis using True lt
    by (simp add: nbuf_put_bit_def Let_def p bc ld store_def splice_single unat_mod)
next
  case False
  then have "ucast (ssize r) \<le> k div 8" by (simp add: word_le_nat_alt unat_div)
  then show ?thesis using False by (simp add: nbuf_put_bit_def)
qed

text \<open>The setters and getters of a message field, by the kind of its cell.\<close>

fun get_cell :: "nbuf_obj \<Rightarrow> nbuf_buffer \<Rightarrow> cell \<Rightarrow> int64 option" where
  "get_cell r b (Int_cell off sz) = nbuf_get_int b r off sz"
| "get_cell r b (Bit_cell k) = map_option of_bool (nbuf_get_bit b r k)"

fun put_cell :: "nbuf_obj \<Rightarrow> nbuf_buffer \<Rightarrow> cell \<Rightarrow> int64 \<Rightarrow> nbuf_buffer option" where
  "put_cell r b (Int_cell off sz) v = nbuf_put_int b r off sz v"
| "put_cell r b (Bit_cell k) v = nbuf_put_bit b r k (v \<noteq> 0)"

definition writable_obj :: "nbuf_obj \<Rightarrow> nbuf_buffer \<Rightarrow> bool" where
  "writable_obj r b \<longleftrightarrow> buf_wwf b \<and> obj_safe b r"

text \<open>A cell seen as bytes: where it lies, what it reads there, what a write stores there.\<close>

fun cell_pos :: "nbuf_obj \<Rightarrow> cell \<Rightarrow> nat" where
  "cell_pos r (Int_cell off sz) = unat (obj_base r) + unat off"
| "cell_pos r (Bit_cell k) = unat (obj_base r) + unat k div 8"

fun cell_len :: "cell \<Rightarrow> nat" where
  "cell_len (Int_cell off sz) = unat sz"
| "cell_len (Bit_cell k) = 1"

fun cell_read :: "cell \<Rightarrow> byte list \<Rightarrow> int64" where
  "cell_read (Int_cell off sz) bs = int_conv sz (of_nat (le_val bs))"
| "cell_read (Bit_cell k) bs = of_bool (bit (hd bs) (unat k mod 8))"

fun cell_write :: "cell \<Rightarrow> byte list \<Rightarrow> int64 \<Rightarrow> byte list" where
  "cell_write (Int_cell off sz) bs v = le_enc (unat sz) (unat v)"
| "cell_write (Bit_cell k) bs v =
    [if v \<noteq> 0 then hd bs OR 2 ^ (unat k mod 8) else hd bs AND NOT (2 ^ (unat k mod 8))]"

lemma length_cell_write [simp]: "length (cell_write c bs v) = cell_len c"
  by (cases c) simp_all

lemma cell_in_bounds:
  assumes "writable_obj r b" and "cell_fits (unat (ssize r)) c"
  shows "cell_pos r c + cell_len c \<le> unat (buf_len b)"
    and "cell_pos r c + cell_len c \<le> length (buf_base b)"
proof -
  have wf: "buf_wf b" and safe: "obj_safe b r"
    using assms(1) by (simp_all add: writable_obj_def buf_wwf_wf)
  show "cell_pos r c + cell_len c \<le> unat (buf_len b)"
  proof (cases c)
    case (Int_cell off sz)
    then have "unat off + unat sz \<le> esize r" "0 < unat sz"
      using assms(2) int_size_unat [of sz] by (auto simp: esize_def)
    from safe_field_bounds(2) [OF wf safe this] show ?thesis using Int_cell by simp
  next
    case (Bit_cell k)
    then have "unat (k div 8) + 1 \<le> esize r"
      using assms(2) by (simp add: esize_def unat_div)
    from safe_field_bounds(2) [OF wf safe this] show ?thesis using Bit_cell by (simp add: unat_div)
  qed
  then show "cell_pos r c + cell_len c \<le> length (buf_base b)"
    using wf by (simp add: buf_wf_def)
qed

lemma seg_1: "k < length xs \<Longrightarrow> seg k 1 xs = [xs ! k]"
  by (simp add: seg_def take_Suc_conv_app_nth)

lemma get_cell_eq:
  assumes "writable_obj r b" and "cell_fits (unat (ssize r)) c"
  shows "get_cell r b c = Some (cell_read c (seg (cell_pos r c) (cell_len c) (buf_base b)))"
proof -
  have wf: "buf_wf b" and safe: "obj_safe b r"
    using assms(1) by (simp_all add: writable_obj_def buf_wwf_wf)
  note le = cell_in_bounds [OF assms]
  show ?thesis
  proof (cases c)
    case (Int_cell off sz)
    then have "unat off < 2 ^ 63" using assms(2) unat_u16_lt [of "ssize r"] by simp
    with Int_cell assms(2) show ?thesis by (simp add: get_int_eq [OF wf safe])
  next
    case (Bit_cell k)
    then show ?thesis using assms(2) le
      by (simp add: get_bit_eq [OF wf safe] seg_1 [simplified])
  qed
qed

lemma put_cell_eq:
  assumes "writable_obj r b" and "cell_fits (unat (ssize r)) c"
  shows "put_cell r b c v = Some (b\<lparr>buf_base := splice_at (cell_pos r c)
    (cell_write c (seg (cell_pos r c) (cell_len c) (buf_base b)) v) (buf_base b)\<rparr>)"
proof -
  have wwf: "buf_wwf b" and wf: "buf_wf b" and safe: "obj_safe b r"
    using assms(1) by (simp_all add: writable_obj_def buf_wwf_wf)
  note le = cell_in_bounds [OF assms]
  show ?thesis
  proof (cases c)
    case (Int_cell off sz)
    then have "unat off < 2 ^ 63" using assms(2) unat_u16_lt [of "ssize r"] by simp
    with Int_cell assms(2) show ?thesis by (simp add: put_int_eq [OF wwf safe])
  next
    case (Bit_cell k)
    then show ?thesis using assms(2) le
      by (simp add: put_bit_eq [OF wf safe] seg_1 [simplified] splice_single)
  qed
qed

lemma cell_read_write: "int_size (of_nat (cell_len c)) \<Longrightarrow>
    cell_read c (cell_write c bs v) = cell_norm c v"
  by (cases c) (auto simp: of_nat_le_val_enc bit_simps)

text \<open>Disjoint cells lie in disjoint bytes, or are two bits of the same byte.\<close>

lemma cells_apart:
  assumes "cells_disjoint c d"
  shows "cell_pos r c + cell_len c \<le> cell_pos r d \<or> cell_pos r d + cell_len d \<le> cell_pos r c
    \<or> (\<exists>j k. c = Bit_cell j \<and> d = Bit_cell k \<and> unat j div 8 = unat k div 8
        \<and> unat j mod 8 \<noteq> unat k mod 8)"
proof (cases c)
  case c: (Int_cell off sz)
  show ?thesis
    using assms unfolding c by (cases d) (auto simp: cells_disjoint_def)
next
  case c: (Bit_cell j)
  show ?thesis
  proof (cases d)
    case (Int_cell off sz)
    then show ?thesis using assms unfolding c by (auto simp: cells_disjoint_def)
  next
    case (Bit_cell k)
    have "unat j \<noteq> unat k" using assms Bit_cell c by (auto simp: cells_disjoint_def)
    then have "unat j div 8 = unat k div 8 \<Longrightarrow> unat j mod 8 \<noteq> unat k mod 8"
      by (metis div_mult_mod_eq)
    then show ?thesis using c Bit_cell by (cases "unat j div 8 = unat k div 8") auto
  qed
qed

lemma put_cell_keeps:
  assumes "writable_obj r b" and "cell_fits (unat (ssize r)) c" and "put_cell r b c v = Some b'"
  shows "writable_obj r b'" and "buf_len b' = buf_len b" and "buf_cap b' = buf_cap b"
    and "length (buf_base b') = length (buf_base b)"
  using assms cell_in_bounds(2) [OF assms(1,2)]
  by (auto simp: put_cell_eq writable_obj_def buf_wwf_def obj_safe_def in_bounds_def)

lemma cell_fits_size: "cell_fits s c \<Longrightarrow> int_size (of_nat (cell_len c))"
  by (cases c) simp_all

lemma put_cell_other:
  assumes "writable_obj r b" and "cell_fits (unat (ssize r)) c" and "cell_fits (unat (ssize r)) d"
    and "cells_disjoint c d" and "put_cell r b c v = Some b'"
  shows "get_cell r b' d = get_cell r b d"
proof -
  note k = put_cell_keeps [OF assms(1,2,5)]
  note c = cell_in_bounds(2) [OF assms(1,2)] and d = cell_in_bounds(2) [OF assms(1,3)]
  have b': "buf_base b' = splice_at (cell_pos r c)
      (cell_write c (seg (cell_pos r c) (cell_len c) (buf_base b)) v) (buf_base b)"
    using assms(5) put_cell_eq [OF assms(1,2)] by auto
  have "cell_read d (seg (cell_pos r d) (cell_len d) (buf_base b'))
      = cell_read d (seg (cell_pos r d) (cell_len d) (buf_base b))"
    using cells_apart [OF assms(4), of r]
  proof (elim disjE exE conjE)
    fix i j assume bits: "c = Bit_cell i" "d = Bit_cell j" "unat i div 8 = unat j div 8"
      "unat i mod 8 \<noteq> unat j mod 8"
    then show ?thesis using b' c
      by (auto simp: splice_single seg_1 [simplified] bit_simps)
  qed (use b' c d in \<open>simp_all add: slice_splice_other\<close>)
  then show ?thesis by (simp add: get_cell_eq [OF assms(1,3)] get_cell_eq [OF k(1) assms(3)])
qed

interpretation msg: cell_store "get_cell r" "put_cell r" "writable_obj r"
  "cell_fits (unat (ssize r))" cells_disjoint cell_norm for r
proof unfold_locales
  fix b c v
  assume "writable_obj r b" and "cell_fits (unat (ssize r)) c"
  then show "\<exists>b'. put_cell r b c v = Some b' \<and> writable_obj r b'"
    using put_cell_keeps(1) put_cell_eq by blast
next
  fix b c v b'
  assume a: "writable_obj r b" "cell_fits (unat (ssize r)) c" "put_cell r b c v = Some b'"
  then show "get_cell r b' c = Some (cell_norm c v)"
    using get_cell_eq [OF put_cell_keeps(1) [OF a] a(2)] cell_in_bounds(2) [OF a(1,2)]
    by (auto simp: put_cell_eq slice_splice_same cell_read_write cell_fits_size)
qed (use put_cell_other cells_disjoint_sym in blast)+

section \<open>What is written is read back\<close>

text \<open>A writable one-element message with eight scalar bytes and one pointer, and a demo allocator.\<close>

definition demo_al :: allocator where
  "demo_al = \<lparr>grants = (\<lambda>n. n \<le> 1024), junk = (\<lambda>_. 205)\<rparr>"

definition demo_wbuf :: nbuf_buffer where
  "demo_wbuf = \<lparr>buf_base = replicate 64 0, buf_len = 24, buf_cap = 64, buf_ops = NULL_ops\<rparr>"

definition demo_wobj :: nbuf_obj where
  "demo_wobj = \<lparr>obj_buf = 0, obj_base = 8, nelem = 1, ssize = 8, psize = 1\<rparr>"

lemma demo_writable: "writable_obj demo_wobj demo_wbuf"
  by (simp add: writable_obj_def buf_wwf_def demo_wbuf_def demo_wobj_def obj_safe_def in_bounds_def
      obj_bytes_def esize_def)

text \<open>
  Claim C18.  Filling in the scalar fields of a message: after any sequence of setter calls on
  pairwise disjoint fields that fit the message, every field reads the value that was put in it
  (converted to its width), every other field reads what it read before, and no call aborts.
\<close>

theorem put_fields_read_back:
  assumes "writable_obj r b" and "\<forall>x \<in> set cvs. cell_fits (unat (ssize r)) (fst x)"
    and "sorted_wrt (\<lambda>x y. cells_disjoint (fst x) (fst y)) cvs"
  shows "\<exists>b'. put_all (put_cell r) b cvs = Some b' \<and> writable_obj r b' \<and>
    (\<forall>(c, v) \<in> set cvs. get_cell r b' c = Some (cell_norm c v)) \<and>
    (\<forall>d. cell_fits (unat (ssize r)) d \<and> (\<forall>(c, v) \<in> set cvs. cells_disjoint c d) \<longrightarrow>
      get_cell r b' d = get_cell r b d)"
  using assms by (rule msg.put_all_get)

theorem put_fields_read_back_witness:
  "\<exists>b'. put_all (put_cell demo_wobj) demo_wbuf
      [(Int_cell 0 4, - 5), (Bit_cell 41, 1), (Bit_cell 42, 1), (Int_cell 6 2, 70000)] = Some b' \<and>
    get_cell demo_wobj b' (Int_cell 0 4) = Some (- 5) \<and>
    get_cell demo_wobj b' (Bit_cell 41) = Some 1 \<and>
    get_cell demo_wobj b' (Int_cell 6 2) = Some 4464"
proof -
  let ?cvs = "[(Int_cell 0 4, - 5), (Bit_cell 41, 1), (Bit_cell 42, 1), (Int_cell 6 2, 70000)]"
  have f: "\<forall>x \<in> set ?cvs. cell_fits (unat (ssize demo_wobj)) (fst x)"
    by (simp add: demo_wobj_def)
  have d: "sorted_wrt (\<lambda>x y. cells_disjoint (fst x) (fst y)) ?cvs"
    by (simp add: cells_disjoint_def)
  from put_fields_read_back [OF demo_writable f d] obtain b' where
    "put_all (put_cell demo_wobj) demo_wbuf ?cvs = Some b'"
    "\<forall>(c, v) \<in> set ?cvs. get_cell demo_wobj b' c = Some (cell_norm c v)" by blast
  then show ?thesis by (intro exI [of _ b']) (simp add: int_conv_def)
qed

section \<open>A created object opens again\<close>

lemma created_in_bounds:
  assumes "creatable b n s p" and "created b (fresh_obj a b n s p) b'"
  shows "in_bounds b' (fresh_obj a b n s p)"
proof -
  let ?r = "fresh_obj a b n s p"
  have "unat (obj_base ?r) + obj_bytes ?r
      \<le> (unat (buf_len b) + 8 + obj_bytes ?r + 7) div 8 * 8"
    using assms(2) unfolding created_def by linarith
  then show ?thesis using assms
    by (auto simp: in_bounds_def created_def creatable_def esize_0_iff)
qed

lemma created_wf: "created b r b' \<Longrightarrow> buf_wwf b' \<and> buf_wf b'"
  by (simp add: created_def extends_def buf_wwf_wf)

lemma created_header:
  assumes "created b (fresh_obj a b n s p) b'"
  shows "header_obj b' (null_obj a) (buf_len b) = fresh_obj a b n s p"
  using assms by (simp add: created_def header_obj_def Let_def fresh_obj_def null_obj_def)

lemma created_opens:
  assumes "creatable b n s p" and "created b (fresh_obj a b n s p) b'"
  shows "nbuf_obj_init b' (null_obj a) (buf_len b) = Some (fresh_obj a b n s p)"
proof -
  note bd = created_in_bounds [OF assms]
  have "unat (buf_len b) + 8 \<le> unat (buf_len b')"
    using bd assms(2) unfolding in_bounds_def created_def by linarith
  then show ?thesis
    using bd created_wf [OF assms(2)]
    by (simp add: obj_init_eq created_header [OF assms(2)] Let_def)
qed

lemma cell_read_zeros: "cell_read c (replicate (cell_len c) 0) = 0"
proof -
  have "le_val (replicate n 0) = 0" for n by (induction n) simp_all
  then show ?thesis by (cases c) (simp_all add: int_conv_def)
qed

lemma created_zero:
  assumes "creatable b n s p" and "created b (fresh_obj a b n s p) b'" and "n \<noteq> 0"
    and "cell_fits (unat s) c"
  shows "get_cell (fresh_obj a b n s p) b' c = Some 0"
proof -
  let ?r = "fresh_obj a b n s p"
  have w: "writable_obj ?r b'"
    using created_in_bounds [OF assms(1,2)] created_wf [OF assms(2)] assms(3)
    by (simp add: writable_obj_def obj_safe_def)
  have f: "cell_fits (unat (ssize ?r)) c" using assms(4) by simp
  note le = cell_in_bounds [OF w f]
  have "unat (buf_len b) + 8 \<le> cell_pos ?r c"
    using assms(2) by (cases c) (simp_all add: created_def)
  then have "buf_base b' ! k = 0" if "cell_pos ?r c \<le> k" "k < cell_pos ?r c + cell_len c" for k
    using assms(2) that le unfolding created_def by simp
  then have "seg (cell_pos ?r c) (cell_len c) (buf_base b') = replicate (cell_len c) 0"
    using le(2) by (intro nth_equalityI) (simp_all add: nth_slice)
  then show ?thesis by (simp add: get_cell_eq [OF w f] cell_read_zeros)
qed

text \<open>
  Claim C22.  Creating an object: for sizes that fit in memory \<^verbatim>\<open>_nbuf_create\<close> trips no \<^verbatim>\<open>assert\<close>.  Either it
  appends the object, aligned, leaving all bytes before it in place, such that the object opens
  again from its header with the layout asked for and every scalar of its first element reads 0;
  or the allocator has refused memory, the buffer is unchanged and the object is empty.
\<close>

theorem create_then_open:
  assumes "creatable b n s p"
  shows "(\<exists>b'. nbuf_create_plain al a b n s p = Some (fresh_obj a b n s p, b') \<and> extends b b' \<and>
      unat (buf_len b') mod 8 = 0 \<and>
      nbuf_obj_init b' (null_obj a) (buf_len b) = Some (fresh_obj a b n s p) \<and>
      (n \<noteq> 0 \<longrightarrow> (\<forall>c. cell_fits (unat s) c \<longrightarrow> get_cell (fresh_obj a b n s p) b' c = Some 0))) \<or>
    (\<exists>rr. nbuf_create_plain al a b n s p = Some (rr, b) \<and> nelem rr = 0 \<and> (\<exists>k. \<not> grants al k))"
proof (cases rule: create_cases [OF assms, of al a])
  case (1 b')
  then have "extends b b'" "unat (buf_len b') mod 8 = 0" by (simp_all add: created_def)
  then show ?thesis
    using 1 created_opens [OF assms 1(2)] created_zero [OF assms 1(2)]
    by (intro disjI1 exI [of _ b'] conjI impI allI) simp_all
next
  case 2
  then show ?thesis
    by (intro disjI2 exI [of _ "\<lparr>obj_buf = a, obj_base = buf_len b, nelem = 0, ssize = 0, psize = 0\<rparr>"])
      simp
qed

lemma demo_creatable: "creatable demo_wbuf 3 8 1"
  by (simp add: creatable_def buf_wwf_def demo_wbuf_def obj_bytes_def esize_def)

definition roomy_al :: allocator where
  "roomy_al = \<lparr>grants = (\<lambda>_. True), junk = (\<lambda>_. 205)\<rparr>"

theorem create_then_open_witness:
  "\<exists>b'. nbuf_create_plain roomy_al 0 demo_wbuf 3 8 1
      = Some (\<lparr>obj_buf = 0, obj_base = 32, nelem = 3, ssize = 8, psize = 1\<rparr>, b') \<and>
    get_cell \<lparr>obj_buf = 0, obj_base = 32, nelem = 3, ssize = 8, psize = 1\<rparr> b' (Int_cell 4 4) = Some 0"
proof -
  have r: "fresh_obj 0 demo_wbuf 3 8 1
      = \<lparr>obj_buf = 0, obj_base = 32, nelem = 3, ssize = 8, psize = 1\<rparr>"
    by (simp add: fresh_obj_def demo_wbuf_def)
  have g: "\<not> (\<exists>k. \<not> grants roomy_al k)" by (simp add: roomy_al_def)
  from create_then_open [OF demo_creatable, of roomy_al 0] g obtain b' where
    "nbuf_create_plain roomy_al 0 demo_wbuf 3 8 1 = Some (fresh_obj 0 demo_wbuf 3 8 1, b')"
    "\<forall>c. cell_fits 8 c \<longrightarrow> get_cell (fresh_obj 0 demo_wbuf 3 8 1) b' c = Some 0"
    by auto
  moreover have "cell_fits 8 (Int_cell 4 4)" by simp
  ultimately show ?thesis unfolding r by (metis (no_types))
qed

section \<open>Pointers and strings are read back\<close>

text \<open>Object \<open>v\<close> is stored in the buffer: its header says so and its elements are inside.\<close>

definition stored :: "nbuf_buffer \<Rightarrow> nbuf_obj \<Rightarrow> bool" where
  "stored b v \<longleftrightarrow> 8 \<le> unat (obj_base v) \<and> unat (obj_base v) \<le> unat (buf_len b) \<and>
    wire_header (buf_base b) (unat (obj_base v) - 8)
      = (unat (nelem v), unat (ssize v), unat (psize v)) \<and>
    (nelem v \<noteq> 0 \<longrightarrow> in_bounds b v)"

text \<open>Where pointer \<open>i\<close> of \<open>r\<close> lies.\<close>

definition ptr_pos :: "nbuf_obj \<Rightarrow> size_t \<Rightarrow> nat" where
  "ptr_pos r i = unat (obj_base r) + unat (ssize r) + 4 * unat i"

text \<open>A pointer can name \<open>v\<close>: it points forward, by whole words, at most \<open>2 ^ 31\<close> of them.\<close>

definition pointable :: "nbuf_obj \<Rightarrow> size_t \<Rightarrow> nbuf_obj \<Rightarrow> bool" where
  "pointable r i v \<longleftrightarrow> obj_buf r = obj_buf v \<and> unat i < unat (psize r) \<and>
    ptr_pos r i < unat (obj_base v) - 8 \<and> (unat (obj_base v) - 8 - ptr_pos r i) mod 4 = 0 \<and>
    unat (obj_base v) - 8 - ptr_pos r i < 2 ^ 33"

lemma put_ptr_eq:
  assumes "buf_wwf b" and "obj_safe b r" and "pointable r i v" and "8 \<le> unat (obj_base v)"
    and "unat (obj_base v) \<le> unat (buf_len b)"
  shows "nbuf_put_ptr_plain b r i v = Some (b\<lparr>buf_base := splice_at (ptr_pos r i)
    (le_enc 4 ((unat (obj_base v) - 8 - ptr_pos r i) div 4)) (buf_base b)\<rparr>)"
proof -
  have wf: "buf_wf b" using assms(1) by (rule buf_wwf_wf)
  have len: "unat (buf_len b) < 2 ^ 63" using wf by (simp add: buf_wf_def)
  define d where "d = unat (obj_base v) - 8 - ptr_pos r i"
  have d: "0 < d" "d mod 4 = 0" "d < 2 ^ 33" "unat i < unat (psize r)" "obj_buf r = obj_buf v"
    using assms(3) by (auto simp: pointable_def d_def)
  have i: "i < ucast (psize r)" using d(4) by (simp add: word_less_nat_alt)
  note ptr = ptr_position [OF wf assms(2) i, folded ptr_pos_def]
  have hdr: "unat (obj_base v - 8) = unat (obj_base v) - 8"
    using assms(4) by (subst unat_sub_nowrap) (simp_all add: word_le_nat_alt)
  have rel: "unat (obj_base v - 8 - (obj_base r + nbuf_ptr_offs r i)) = d"
    using d(1) ptr(1) hdr by (subst unat_sub_nowrap) (simp_all add: word_le_nat_alt d_def)
  define w where "w = obj_base v - 8 - (obj_base r + nbuf_ptr_offs r i)"
  have w: "unat w = d" using rel by (simp add: w_def)
  have pos: "0 < sint w"
    using w d by (simp add: sint_uint signed_take_bit_int_eq_self uint_nat)
  have "unat (w mod 4) = 0" using w d by (simp add: unat_mod)
  then have m: "w mod 4 = 0" by (simp add: unat_0_iff)
  have bc: "nbuf_bounds_check b (obj_base v - 8) 8"
    using assms(4,5) hdr bounds_check_iff [OF wf, of 8 "obj_base v - 8"] by simp
  have wd: "unat (w div 4) = d div 4" using w by (simp add: unat_div)
  have wr: "nbuf_write_int_safe b (obj_base r + nbuf_ptr_offs r i) 4 (w div 4)
      = Some (b\<lparr>buf_base := splice_at (ptr_pos r i) (le_enc 4 (d div 4)) (buf_base b)\<rparr>)"
    using ptr wd by (simp add: write_safe_eq [OF wf] del: le_enc.simps)
  have "\<not> ucast (psize r) \<le> i" using i by simp
  then show ?thesis
    unfolding nbuf_put_ptr_plain_def Let_def NBUF_ALIGN_def NBUF_WORD_SZ_def w_def [symmetric]
    using wr bc pos m d(5) by (simp add: d_def)
qed

lemma wire_header_splice:
  assumes "p + length ys \<le> length xs" and "q + 8 \<le> length xs"
    and "q + 8 \<le> p \<or> p + length ys \<le> q"
  shows "wire_header (splice_at p ys xs) q = wire_header xs q"
  using assms by (auto simp: wire_header_def slice_splice_other)

lemma stored_opens:
  assumes "buf_wf b" and "stored b v"
  shows "nbuf_obj_init b (null_obj (obj_buf v)) (obj_base v - 8) = Some v"
proof -
  have "unat (obj_base v - 8) = unat (obj_base v) - 8"
    using assms(2) by (subst unat_sub_nowrap) (simp_all add: word_le_nat_alt stored_def)
  then have "header_obj b (null_obj (obj_buf v)) (obj_base v - 8) = v"
    using assms(2) by (cases v) (simp add: stored_def header_obj_def null_obj_def Let_def)
  then show ?thesis using assms \<open>unat (obj_base v - 8) = _\<close>
    by (auto simp: obj_init_eq [OF assms(1)] stored_def Let_def)
qed

lemma put_get_ptr:
  assumes "buf_wwf b" and "obj_safe b r" and "pointable r i v" and "stored b v"
  shows "\<exists>b'. nbuf_put_ptr_plain b r i v = Some b' \<and> buf_wwf b' \<and> buf_len b' = buf_len b \<and>
    stored b' v \<and> obj_safe b' r \<and> nbuf_get_ptr_plain b' r i = Some v \<and>
    drop (ptr_pos r i + 4) (buf_base b') = drop (ptr_pos r i + 4) (buf_base b) \<and>
    (\<forall>j. j \<noteq> i \<longrightarrow> nbuf_get_rel_ptr b' r j = nbuf_get_rel_ptr b r j)"
proof -
  define h where "h = unat (obj_base v) - 8"
  define d where "d = h - ptr_pos r i"
  define b' where "b' = b\<lparr>buf_base := splice_at (ptr_pos r i) (le_enc 4 (d div 4)) (buf_base b)\<rparr>"
  have d: "ptr_pos r i < h" "d mod 4 = 0" "d < 2 ^ 33" "unat i < unat (psize r)"
    "obj_buf r = obj_buf v" "h = ptr_pos r i + d" "0 < d"
    using assms(3) by (auto simp: pointable_def d_def h_def)
  have s: "8 \<le> unat (obj_base v)" "unat (obj_base v) \<le> unat (buf_len b)"
    using assms(4) by (simp_all add: stored_def)
  have put: "nbuf_put_ptr_plain b r i v = Some b'"
    using put_ptr_eq [OF assms(1,2,3) s] by (simp add: b'_def d_def h_def del: le_enc.simps)
  have len: "unat (buf_len b) \<le> length (buf_base b)"
    using assms(1) by (simp add: buf_wwf_def word_le_nat_alt)
  have four: "4 \<le> d" using d(2,7) by presburger
  have room: "ptr_pos r i + 4 + 8 \<le> h + 8" "h + 8 \<le> length (buf_base b)"
    using d(6) four s len by (simp_all add: h_def)
  have lb: "length (buf_base b') = length (buf_base b)" and bl: "buf_len b' = buf_len b"
    using room by (simp_all add: b'_def)
  have wwf: "buf_wwf b'" using assms(1) lb by (simp add: buf_wwf_def b'_def)
  have safe: "obj_safe b' r" using assms(2) bl obj_safe_len by blast
  have "wire_header (buf_base b') h = wire_header (buf_base b) h"
    unfolding b'_def using room by (simp add: wire_header_splice)
  then have st: "stored b' v"
    using assms(4) bl by (simp add: stored_def in_bounds_def flip: h_def)
  have seg: "seg (ptr_pos r i) 4 (buf_base b') = le_enc 4 (d div 4)"
    unfolding b'_def using room by (simp add: slice_splice_same del: le_enc.simps)
  have v: "d div 4 = le_val (seg (ptr_pos r i) 4 (buf_base b'))"
    using d(3) unfolding seg le_val_enc by simp
  have "4 * (d div 4) = d" using d(2) by presburger
  then have "ptr_pos r i + 4 * (d div 4) = h" using d(6) by simp
  moreover have "of_nat h = obj_base v - 8"
    using s(1) unfolding h_def by (simp add: word_unat_eq_iff unat_of_nat)
  moreover have "h < unat (buf_len b')" using s bl by (simp add: h_def)
  moreover have "d div 4 < 2 ^ 31" using d(3) by simp
  ultimately have get: "nbuf_get_ptr_plain b' r i = Some v"
    using get_ptr_eq [OF buf_wwf_wf [OF wwf] safe, of "d div 4" i, folded ptr_pos_def, OF v] d(4,5)
      stored_opens [OF buf_wwf_wf [OF wwf] st] four
    by (simp add: Let_def del: of_nat_add of_nat_mult)
  have "nbuf_get_rel_ptr b' r j = nbuf_get_rel_ptr b r j" if "j \<noteq> i" for j
  proof (cases "j < ucast (psize r)")
    case True
    have "unat j \<noteq> unat i" using that by (simp add: word_unat_eq_iff)
    then have "ptr_pos r j + 4 \<le> ptr_pos r i \<or> ptr_pos r i + 4 \<le> ptr_pos r j"
      by (auto simp: ptr_pos_def)
    moreover have "ptr_pos r j + 4 \<le> length (buf_base b)"
      using ptr_position(2) [OF buf_wwf_wf [OF assms(1)] assms(2) True] len
      by (simp add: ptr_pos_def)
    ultimately have "seg (ptr_pos r j) 4 (buf_base b') = seg (ptr_pos r j) 4 (buf_base b)"
      unfolding b'_def using room by (simp add: slice_splice_other)
    then show ?thesis
      by (simp add: get_rel_ptr_eq [OF buf_wwf_wf [OF wwf] safe]
          get_rel_ptr_eq [OF buf_wwf_wf [OF assms(1)] assms(2)] ptr_pos_def)
  qed (simp add: get_rel_ptr_eq [OF buf_wwf_wf [OF wwf] safe]
          get_rel_ptr_eq [OF buf_wwf_wf [OF assms(1)] assms(2)])
  moreover have "drop (ptr_pos r i + 4) (buf_base b') = drop (ptr_pos r i + 4) (buf_base b)"
    using room by (simp add: b'_def splice_at_def)
  ultimately show ?thesis using put wwf bl st safe get by blast
qed

text \<open>
  Claim C27.  A pointer that is set is followed: \<^verbatim>\<open>_nbuf_put_ptr\<close> to an object stored further on in
  the buffer trips no \<^verbatim>\<open>assert\<close>, after it \<^verbatim>\<open>_nbuf_get_ptr\<close> returns exactly that object, and the
  other pointers of the message are as before.
\<close>

theorem put_ptr_get_ptr:
  assumes "buf_wwf b" and "obj_safe b r" and "pointable r i v" and "stored b v"
  shows "\<exists>b'. nbuf_put_ptr_plain b r i v = Some b' \<and> buf_wwf b' \<and> buf_len b' = buf_len b \<and>
    nbuf_get_ptr_plain b' r i = Some v \<and>
    (\<forall>j. j \<noteq> i \<longrightarrow> nbuf_get_rel_ptr b' r j = nbuf_get_rel_ptr b r j)"
  using put_get_ptr [OF assms] by blast

definition demo_link_buf :: nbuf_buffer where
  "demo_link_buf = \<lparr>buf_base = [1,0,0,0, 0,0, 1,0, 0,0,0,0, 0,0,0,0, 1,0,0,0, 1,0, 0,0, 7,0,0,0, 0,0,0,0],
    buf_len = 32, buf_cap = 32, buf_ops = NULL_ops\<rparr>"

theorem put_ptr_get_ptr_witness:
  "\<exists>b'. nbuf_put_ptr_plain demo_link_buf demo_str_root 0 (demo_str_obj\<lparr>nelem := 1\<rparr>) = Some b' \<and>
    nbuf_get_ptr_plain b' demo_str_root 0 = Some (demo_str_obj\<lparr>nelem := 1\<rparr>)"
proof -
  have "buf_wwf demo_link_buf" by (simp add: demo_link_buf_def buf_wwf_def)
  moreover have "obj_safe demo_link_buf demo_str_root"
    by (simp add: demo_link_buf_def demo_simps obj_safe_def)
  moreover have "pointable demo_str_root 0 (demo_str_obj\<lparr>nelem := 1\<rparr>)"
    by (simp add: demo_simps pointable_def ptr_pos_def)
  moreover have "stored demo_link_buf (demo_str_obj\<lparr>nelem := 1\<rparr>)"
    by (simp add: demo_link_buf_def demo_simps stored_def)
  ultimately show ?thesis using put_ptr_get_ptr by blast
qed

text \<open>The bytes of a string object after the copy.\<close>

lemma copy_str_eq:
  assumes "unat (nelem rr) = n + 1" and "n \<le> length s"
    and "unat (obj_base rr) + n + 1 \<le> length (buf_base b)" and "n < 2 ^ 32"
  shows "copy_str b rr s (of_nat n) =
    Some (b\<lparr>buf_base := splice_at (unat (obj_base rr)) (take n s @ [0]) (buf_base b)\<rparr>)"
proof -
  let ?p = "unat (obj_base rr)"
  have n: "unat (of_nat n :: size_t) = n" using assms(4) by (simp add: unat_of_nat_64)
  have "unat (of_nat n + 1 :: size_t) = n + 1"
    using assms(4) n by (subst unat_add_nowrap) simp_all
  then have a: "ucast (nelem rr) = of_nat n + (1 :: size_t)"
    using assms(1) by (simp add: word_unat_eq_iff)
  have "splice_at (?p + n) [0] (splice_at ?p (take n s) (buf_base b))
      = splice_at ?p (take n s @ [0]) (buf_base b)"
    using assms(2,3) by (intro nth_equalityI) (auto simp: nth_splice_at nth_append)
  then show ?thesis
    using a n assms(2,3) by (simp add: copy_str_def load_def store_def seg_def min_def)
qed

lemma str_length_eq:
  assumes "n0 = of_nat n \<and> n < 2 ^ 32 - 1 \<or> n0 = - 1 \<and> c_strlen s = Some n"
  shows "str_length s n0 = Some (of_nat n)"
proof -
  have "of_nat n + 1 \<noteq> (0 :: size_t)" if "n < 2 ^ 32 - 1"
  proof -
    have "unat (of_nat (n + 1) :: size_t) = n + 1"
      using that by (intro unat_of_nat_64) simp
    then have "unat (of_nat n + 1 :: size_t) = n + 1" by (simp only: of_nat_add of_nat_1)
    then show ?thesis by (metis Suc_eq_plus1 nat.distinct(1) unat_0)
  qed
  then show ?thesis using assms by (auto simp: str_length_def)
qed

text \<open>The buffer \<open>b2\<close> that holds the new string object \<open>rr\<close> with its bytes.\<close>

lemma string_object:
  assumes "creatable b (of_nat (n + 1)) 1 0" and "n + 1 < 2 ^ 32" and "n \<le> length s"
    and "created b (fresh_obj a b (of_nat (n + 1)) 1 0) b1"
  defines "rr \<equiv> fresh_obj a b (of_nat (n + 1)) 1 0"
  shows "\<exists>b2. copy_str b1 rr s (of_nat n) = Some b2 \<and> extends b b2 \<and> stored b2 rr \<and>
    unat (buf_len b) + 8 + n + 1 \<le> unat (buf_len b2) \<and>
    take (n + 1) (drop (unat (buf_len b) + 8) (buf_base b2)) = take n s @ [0]"
proof -
  let ?l = "unat (buf_len b)"
  have ne: "unat (nelem rr) = n + 1" "esize rr = 1"
    using assms(2)
    by (simp_all add: rr_def unat_of_nat take_bit_nat_eq_self esize_def
        del: of_nat_add of_nat_Suc)
  have ob: "obj_bytes rr = n + 1" using ne by (simp add: obj_bytes_def)
  have ib: "in_bounds b1 rr" unfolding rr_def by (rule created_in_bounds [OF assms(1,4)])
  have base: "unat (obj_base rr) = ?l + 8" using assms(4) by (simp add: created_def rr_def)
  have w1: "buf_wwf b1" using created_wf [OF assms(4)] by simp
  have len1: "unat (buf_len b1) \<le> length (buf_base b1)"
    using w1 by (simp add: buf_wwf_def word_le_nat_alt)
  have top: "?l + 8 + n + 1 \<le> unat (buf_len b1)"
    using ib base ob by (simp add: in_bounds_def)
  define blk where "blk = splice_at (?l + 8) (take n s @ [0]) (buf_base b1)"
  have lb: "length blk = length (buf_base b1)"
    using top len1 assms(3) by (simp add: blk_def)
  have cp: "copy_str b1 rr s (of_nat n) = Some (b1\<lparr>buf_base := blk\<rparr>)"
    using copy_str_eq [OF ne(1) assms(3)] base top len1 assms(2) by (simp add: blk_def)
  have "take ?l blk = take ?l (buf_base b1)"
    using top len1 by (simp add: blk_def splice_at_def)
  then have "extends b (b1\<lparr>buf_base := blk\<rparr>)"
    using assms(4) lb by (simp add: created_def extends_def buf_wwf_def)
  moreover have "wire_header blk ?l = wire_header (buf_base b1) ?l"
    unfolding blk_def using top len1 assms(3) by (intro wire_header_splice) simp_all
  then have "stored (b1\<lparr>buf_base := blk\<rparr>) rr"
    using assms(4) base ib top
    by (simp add: stored_def created_def in_bounds_def rr_def del: of_nat_add of_nat_Suc)
  moreover have "take (n + 1) (drop (?l + 8) blk) = take n s @ [0]"
    using top len1 assms(3) by (simp add: blk_def splice_at_def)
  ultimately show ?thesis using cp top by auto
qed

lemma extends_safe: "extends b b' \<Longrightarrow> obj_safe b r \<Longrightarrow> obj_safe b' r"
  by (auto simp: extends_def obj_safe_def in_bounds_def word_le_nat_alt)

lemma string_read:
  assumes "buf_wf b" and "nbuf_get_ptr_plain b r i = Some rr" and "unat (nelem rr) = n + 1"
    and "n + 1 < 2 ^ 32" and "unat (obj_base rr) + n + 1 \<le> unat (buf_len b)"
  shows "nbuf_get_str_plain b r i = Some (drop (unat (obj_base rr)) (buf_base b), of_nat n)"
proof -
  have len: "unat (buf_len b) < 2 ^ 63" using assms(1) by (simp add: buf_wf_def)
  have "unat (obj_base rr + ucast (nelem rr)) = unat (obj_base rr) + n + 1"
    using assms(3,5) len by (subst unat_add_nowrap) simp_all
  then have "unat (obj_base rr + ucast (nelem rr) - 1) = unat (obj_base rr) + n"
    by (subst unat_sub_nowrap) (simp_all add: word_le_nat_alt)
  then have "nbuf_bounds_check b (obj_base rr + ucast (nelem rr) - 1) 1"
    using assms(5) bounds_check_iff [OF assms(1), of 1] by simp
  moreover have "unat (nelem rr - 1) = n"
    using assms(3) by (subst unat_sub_nowrap) (simp_all add: word_le_nat_alt)
  then have "ucast (nelem rr - 1) = (of_nat n :: size_t)"
    using assms(4) by (simp add: word_unat_eq_iff unat_of_nat_64)
  moreover have "nelem rr > 0" using assms(3) by (simp add: word_less_nat_alt)
  ultimately show ?thesis by (simp add: nbuf_get_str_plain_def assms(2) nbuf_str_of_def)
qed

lemma take_drop_same_suffix:
  assumes "drop m xs = drop m ys" and "m \<le> k"
  shows "drop k xs = drop k ys"
  using arg_cong [OF assms(1), of "drop (k - m)"] assms(2) by simp

text \<open>
  Claim C28.  A string that is set is read back: \<^verbatim>\<open>nbuf_put_str\<close> with an explicit length or up to the
  NUL trips no \<^verbatim>\<open>assert\<close>, and \<^verbatim>\<open>nbuf_get_str\<close> then returns the length and the bytes, closed by a
  NUL; only when memory is refused is the buffer left as it was.
\<close>

theorem put_str_get_str:
  assumes "creatable b (of_nat (n + 1)) 1 0" and "obj_safe b r"
    and "n0 = of_nat n \<and> n < 2 ^ 32 - 1 \<or> n0 = - 1 \<and> c_strlen s = Some n"
    and "n < 2 ^ 32 - 1" and "n \<le> length s"
    and "pointable r i (fresh_obj (obj_buf r) b (of_nat (n + 1)) 1 0)"
  shows "(\<exists>b' t. nbuf_put_str_plain al b r i s n0 = Some b' \<and>
      nbuf_get_str_plain b' r i = Some (t, of_nat n) \<and> take (n + 1) t = take n s @ [0]) \<or>
    nbuf_put_str_plain al b r i s n0 = Some b \<and> (\<exists>k. \<not> grants al k)"
proof -
  define rr where "rr = fresh_obj (obj_buf r) b (of_nat (n + 1)) 1 0"
  have n1: "n + 1 < 2 ^ 32" using assms(4) by simp
  have "ucast (of_nat (n + 1) :: size_t) = (of_nat (n + 1) :: uint32)"
    by (rule ucast_of_nat) simp
  then have nn: "ucast (of_nat n + 1 :: size_t) = (of_nat (n + 1) :: uint32)"
    by (simp only: of_nat_add of_nat_1)
  have start: "nbuf_put_str_plain al b r i s n0 =
      do { (r1, b1) \<leftarrow> nbuf_create_plain al (obj_buf r) b (of_nat (n + 1)) 1 0;
           if nelem r1 = 0 then Some b1
           else do { b2 \<leftarrow> copy_str b1 r1 s (of_nat n); nbuf_put_ptr_plain b2 r i r1 } }"
    by (simp only: nbuf_put_str_plain_def str_length_eq [OF assms(3)] nn bind.simps)
  have ne: "unat (nelem rr) = n + 1"
    using n1 by (simp add: rr_def unat_of_nat take_bit_nat_eq_self del: of_nat_add of_nat_Suc)
  show ?thesis
  proof (cases rule: create_cases [OF assms(1), of al "obj_buf r"])
    case (2)
    then show ?thesis using start by simp
  next
    case (1 b1)
    obtain b2 where b2: "copy_str b1 rr s (of_nat n) = Some b2" "extends b b2" "stored b2 rr"
      "unat (buf_len b) + 8 + n + 1 \<le> unat (buf_len b2)"
      "take (n + 1) (drop (unat (buf_len b) + 8) (buf_base b2)) = take n s @ [0]"
      using string_object [OF assms(1) n1 assms(5) 1(2)] unfolding rr_def by blast
    have w: "buf_wwf b2" using b2(2) by (simp add: extends_def)
    have base: "unat (obj_base rr) = unat (buf_len b) + 8"
      using 1(2) by (simp add: created_def rr_def)
    obtain b' where b': "nbuf_put_ptr_plain b2 r i rr = Some b'" "buf_wwf b'"
      "buf_len b' = buf_len b2" "nbuf_get_ptr_plain b' r i = Some rr"
      "drop (ptr_pos r i + 4) (buf_base b') = drop (ptr_pos r i + 4) (buf_base b2)"
      using put_get_ptr [OF w extends_safe [OF b2(2) assms(2)] assms(6) b2(3) [unfolded rr_def]]
      unfolding rr_def by blast
    have "nelem rr \<noteq> 0" using ne by (metis Suc_eq_plus1 nat.distinct(1) unat_0)
    then have put: "nbuf_put_str_plain al b r i s n0 = Some b'"
      using start 1(1) b2(1) b'(1) unfolding rr_def [symmetric] by simp
    have get: "nbuf_get_str_plain b' r i
        = Some (drop (unat (obj_base rr)) (buf_base b'), of_nat n)"
      by (rule string_read [OF buf_wwf_wf [OF b'(2)] b'(4) ne n1]) (use base b2(4) b'(3) in simp)
    have "ptr_pos r i < unat (buf_len b) + 8 - 8"
      using assms(6) base unfolding rr_def [symmetric] pointable_def by metis
    then have "ptr_pos r i + 4 \<le> unat (buf_len b) + 8" by simp
    from take_drop_same_suffix [OF b'(5) this]
    have "take (n + 1) (drop (unat (obj_base rr)) (buf_base b')) = take n s @ [0]"
      using b2(5) base by (simp only:)
    then have "\<exists>t. nbuf_get_str_plain b' r i = Some (t, of_nat n) \<and> take (n + 1) t = take n s @ [0]"
      using get by blast
    then show ?thesis using put by blast
  qed
qed

theorem put_str_get_str_witness:
  "\<exists>b' t. nbuf_put_str_plain roomy_al demo_wbuf demo_wobj 0 [104, 105, 33] 2 = Some b' \<and>
    nbuf_get_str_plain b' demo_wobj 0 = Some (t, 2) \<and> take 3 t = [104, 105, 0]"
proof -
  have c: "creatable demo_wbuf (of_nat (2 + 1)) 1 0"
    by (simp add: creatable_def buf_wwf_def demo_wbuf_def obj_bytes_def esize_def)
  have p: "pointable demo_wobj 0 (fresh_obj (obj_buf demo_wobj) demo_wbuf (of_nat (2 + 1)) 1 0)"
    by (simp add: pointable_def ptr_pos_def demo_wobj_def demo_wbuf_def)
  have s: "obj_safe demo_wbuf demo_wobj" using demo_writable by (simp add: writable_obj_def)
  have g: "\<not> (\<exists>k. \<not> grants roomy_al k)" by (simp add: roomy_al_def)
  have t: "take 2 [104, 105, 33] @ [0] = ([104, 105, 0] :: byte list)" by simp
  from put_str_get_str [OF c s, of 2 "[104, 105, 33]" 0 roomy_al] p g show ?thesis
    unfolding t by simp
qed

section \<open>Resizing\<close>

text \<open>The first byte after an object of \<open>n\<close> elements, rounded up to the alignment.\<close>

definition obj_end :: "nbuf_obj \<Rightarrow> nat" where
  "obj_end r = (unat (obj_base r) + obj_bytes r + 7) div 8 * 8"

lemma unat_resize_end:
  fixes m :: size_t
  assumes "unat m < 2 ^ 32" and "esize r = 0 \<Longrightarrow> unat m + 7 < 2 ^ 32" and "unat (obj_base r) < 2 ^ 62"
  shows "unat (resize_end r m) = obj_end (r\<lparr>nelem := ucast m\<rparr>)"
proof -
  let ?r = "r\<lparr>nelem := ucast m\<rparr>"
  have e: "esize ?r = esize r" "nbuf_elemsz ?r = nbuf_elemsz r" "obj_base ?r = obj_base r"
    by (simp_all add: esize_def nbuf_elemsz_def nbuf_ptr_offs_def)
  have m: "unat (ucast m :: uint32) = unat m"
    using assms(1) by (simp add: unsigned_ucast_eq take_bit_nat_def)
  have u: "ucast (nelem ?r) = m"
    using m by (simp add: word_unat_eq_iff)
  have "unat (if nbuf_elemsz r \<noteq> 0 then m * nbuf_elemsz r else (m + 7) div 8) = obj_bytes ?r"
  proof (cases "esize r = 0")
    case True
    then have "unat (m + 7) = unat m + 7" using assms(2) by (subst unat_add_nowrap) simp_all
    then show ?thesis using True m by (simp add: obj_bytes_def e elemsz_eq_0 unat_div)
  next
    case False
    then show ?thesis using unat_total [of ?r] m u
      by (simp add: obj_bytes_def e elemsz_eq_0 mult.commute)
  qed
  then have "unat (obj_base r + (if nbuf_elemsz r \<noteq> 0 then m * nbuf_elemsz r else (m + 7) div 8))
      = unat (obj_base r) + obj_bytes ?r"
    using obj_bytes_lt [of ?r] assms(3) by (subst unat_add_nowrap) simp_all
  then show ?thesis
    unfolding resize_end_def Let_def
    using obj_bytes_lt [of ?r] assms(3) by (subst unat_roundup8) (simp_all add: obj_end_def)
qed

text \<open>The end of an object that is the last of its buffer.\<close>

lemma resize_old_end:
  assumes "obj_end r = unat (buf_len b)" and "esize r = 0 \<Longrightarrow> unat (nelem r) + 7 < 2 ^ 32"
    and "unat (obj_base r) < 2 ^ 62"
  shows "NBUF_ROUNDUP (obj_base r + (if nbuf_elemsz r \<noteq> 0 then ucast (nelem r) * nbuf_elemsz r
      else ucast ((nelem r + 7) div 8))) NBUF_ALIGN = buf_len b"
proof -
  have "ucast ((nelem r + 7) div 8) = (ucast (nelem r) + 7) div (8 :: size_t)" if "esize r = 0"
  proof -
    have lt: "unat (nelem r) + 7 < 2 ^ 32" using assms(2) that by simp
    moreover have "unat (ucast (nelem r) + 7 :: size_t) = unat (nelem r) + 7"
      using lt by (subst unat_add_nowrap) simp_all
    ultimately show ?thesis
      using unat_bit_bytes [OF lt] unat_div [of "ucast (nelem r) + 7" "8 :: size_t"]
      by (simp add: word_unat_eq_iff del: unat_div)
  qed
  then have "NBUF_ROUNDUP (obj_base r + (if nbuf_elemsz r \<noteq> 0 then ucast (nelem r) * nbuf_elemsz r
      else ucast ((nelem r + 7) div 8))) NBUF_ALIGN = resize_end r (ucast (nelem r))"
    by (simp add: resize_end_def elemsz_eq_0 Let_def)
  moreover have "ucast (ucast (nelem r) :: size_t) = nelem r"
    by (rule bit_word_eqI) (simp add: bit_simps)
  then have "unat (resize_end r (ucast (nelem r))) = unat (buf_len b)"
    using unat_resize_end [of "ucast (nelem r)" r] assms unat_u32_lt [of "nelem r"] by simp
  ultimately show ?thesis by (simp add: word_unat_eq_iff)
qed

text \<open>What growing the last object to \<open>r'\<close> leaves.\<close>

definition grown :: "nbuf_buffer \<Rightarrow> nbuf_obj \<Rightarrow> nbuf_buffer \<Rightarrow> bool" where
  "grown b r' b' \<longleftrightarrow> buf_wwf b' \<and> stored b' r' \<and> unat (buf_len b') = obj_end r' \<and>
    take (unat (obj_base r') - 8) (buf_base b') = take (unat (obj_base r') - 8) (buf_base b) \<and>
    (\<forall>k. unat (obj_base r') \<le> k \<and> k < unat (buf_len b) \<longrightarrow> buf_base b' ! k = buf_base b ! k) \<and>
    (\<forall>k. unat (buf_len b) \<le> k \<and> k < unat (buf_len b') \<longrightarrow> buf_base b' ! k = 0)"

lemma obj_bytes_mono:
  assumes "unat (nelem r) \<le> unat m"
  shows "obj_bytes r \<le> obj_bytes (r\<lparr>nelem := m\<rparr>)"
proof -
  have "esize (r\<lparr>nelem := m\<rparr>) = esize r" by (simp add: esize_def)
  then show ?thesis using assms by (auto simp: obj_bytes_def intro: div_le_mono)
qed

text \<open>Rewriting the element count in the header of a stored object.\<close>

lemma header_count_written:
  assumes "p + 8 \<le> length bs" and "wire_header bs p = (n0, s, q)" and "n < 2 ^ 32"
  shows "wire_header (splice_at p (le_enc 4 n) bs) p = (n, s, q)"
  using assms by (auto simp: wire_header_def slice_splice_same slice_splice_other le_val_enc
      simp del: le_enc.simps)

lemma resize_write:
  assumes "stored b r" and "unat (obj_base r) \<le> l" and "l \<le> length blk"
    and "length blk < 2 ^ 63" and "unat n < 2 ^ 32" and "buf_len c = of_nat l" and "buf_base c = blk"
    and "wire_header blk (unat (obj_base r) - 8) = (unat (nelem r), unat (ssize r), unat (psize r))"
  shows "nbuf_write_int_safe c (obj_base r - NBUF_WORD_SZ * 2) NBUF_WORD_SZ n
      = Some (c\<lparr>buf_base := splice_at (unat (obj_base r) - 8) (le_enc 4 (unat n)) blk\<rparr>)"
proof -
  have "unat (obj_base r - 8) = unat (obj_base r) - 8"
    using assms(1) by (subst unat_sub_nowrap) (simp_all add: word_le_nat_alt stored_def)
  moreover have "unat (buf_len c) = l" using assms(3,4,6) by (simp add: unat_of_nat_64)
  moreover have "buf_wf c" using assms(3,4,7) calculation by (simp add: buf_wf_def)
  ultimately show ?thesis
    using assms(1,2,7) by (simp add: write_safe_eq NBUF_WORD_SZ_def stored_def del: le_enc.simps)
qed

lemma nth_eq_if_take_eq: "take n xs = take n ys \<Longrightarrow> k < n \<Longrightarrow> xs ! k = ys ! k"
  by (metis nth_take)

lemma resize_block:
  assumes wwf: "buf_wwf b" and st: "stored b r" and n: "unat n < 2 ^ 32 - 1"
    and b1: "reserved b t b1"
    and sz: "unat (buf_len b) + t = obj_end (r\<lparr>nelem := ucast n\<rparr>)"
    and z: "esize r = 0 \<Longrightarrow> unat n + 7 < 2 ^ 32"
  defines "blk \<equiv> splice_at (unat (buf_len b)) (replicate t 0) (buf_base b1)"
  defines "b' \<equiv> b1\<lparr>buf_base := splice_at (unat (obj_base r) - 8) (le_enc 4 (unat n)) blk,
    buf_len := of_nat (unat (buf_len b) + t)\<rparr>"
  shows "grown b (r\<lparr>nelem := ucast n\<rparr>) b'"
    and "wire_header blk (unat (obj_base r) - 8) = (unat (nelem r), unat (ssize r), unat (psize r))"
    and "length blk = length (buf_base b1)"
proof -
  let ?l = "unat (buf_len b)" and ?h = "unat (obj_base r) - 8" and ?r = "r\<lparr>nelem := ucast n\<rparr>"
  have f: "buf_wwf b1" "?l + t \<le> length (buf_base b1)"
    "take (length (buf_base b)) (buf_base b1) = buf_base b" "length (buf_base b1) < 2 ^ 63"
    using b1 by (auto simp: reserved_def buf_wwf_def)
  have l: "?l \<le> length (buf_base b)" using wwf by (simp add: buf_wwf_def word_le_nat_alt)
  have h: "?h + 8 \<le> ?l" "unat (obj_base r) = ?h + 8" using st by (simp_all add: stored_def)
  show lb: "length blk = length (buf_base b1)" using f(2) by (simp add: blk_def)
  have old: "blk ! k = buf_base b ! k" if "k < ?l" for k
  proof -
    have "buf_base b1 ! k = buf_base b ! k"
      using that l f(3) by (metis less_le_trans nth_take)
    then show ?thesis using that f(2) by (simp add: blk_def nth_splice_at)
  qed
  have tk: "take m blk = take m (buf_base b)" if "m \<le> ?l" for m
    using that old l lb f(2) by (intro nth_equalityI) auto
  have "wire_header (take ?l blk) ?h = wire_header (take ?l (buf_base b)) ?h" by (simp add: tk)
  then have "wire_header blk ?h = wire_header (buf_base b) ?h"
    using h(1) by (simp add: wire_header_def slice_take)
  then show hd: "wire_header blk ?h = (unat (nelem r), unat (ssize r), unat (psize r))"
    using st by (simp add: stored_def)
  have len': "unat (of_nat (?l + t) :: size_t) = ?l + t"
    using f(2,4) by (intro unat_of_nat_64) simp
  have b': "buf_base b' = splice_at ?h (le_enc 4 (unat n)) blk" "unat (buf_len b') = ?l + t"
    "buf_cap b' = buf_cap b1"
    using len' by (simp_all add: b'_def del: of_nat_add)
  have room: "?h + 4 \<le> length blk" "?l + t \<le> length blk" using h lb f(2) l by simp_all
  have w': "buf_wwf b'"
    using f(1,2) b' room lb by (simp add: buf_wwf_def word_le_nat_alt)
  have nw: "unat (ucast n :: uint32) = unat n"
    using n by (simp add: unsigned_ucast_eq take_bit_nat_def)
  have hd': "wire_header (buf_base b') ?h = (unat n, unat (ssize r), unat (psize r))"
    unfolding b'(1) using hd h room n by (intro header_count_written) simp_all
  have "unat (obj_base r) + obj_bytes ?r \<le> obj_end ?r" by (simp add: obj_end_def)
  then have "in_bounds b' ?r"
    using sz b'(2) z nw by (simp add: in_bounds_def esize_def)
  then have st': "stored b' ?r"
    using st hd' nw b'(2) h by (simp add: stored_def)
  have tk': "take ?h (buf_base b') = take ?h (buf_base b)"
    unfolding b'(1) using tk [of ?h] h room l by (simp add: splice_at_def min_def)
  have keep: "buf_base b' ! k = blk ! k" if "?h + 8 \<le> k" "k < ?l + t" for k
    unfolding b'(1) using that room by (simp add: nth_splice_at)
  moreover have "blk ! k = 0" if "?l \<le> k" "k < ?l + t" for k
    using that f(2) by (simp add: blk_def nth_splice_at)
  ultimately show "grown b ?r b'"
    using w' st' sz b'(2) tk' old h by (simp add: grown_def)
qed

text \<open>The last object of a buffer, and the sizes it can grow to.\<close>

definition growable :: "nbuf_buffer \<Rightarrow> nbuf_obj \<Rightarrow> size_t \<Rightarrow> bool" where
  "growable b r n \<longleftrightarrow> buf_wwf b \<and> stored b r \<and> obj_end r = unat (buf_len b) \<and>
    unat (nelem r) \<le> unat n \<and> unat n < 2 ^ 32 - 1 \<and> (esize r = 0 \<longrightarrow> unat n + 7 < 2 ^ 32) \<and>
    unat (obj_base r) + obj_bytes (r\<lparr>nelem := ucast n\<rparr>) + 16 \<le> 2 ^ 61"

lemma growable_ends:
  assumes "growable b r n"
  shows "NBUF_ROUNDUP (obj_base r + (if nbuf_elemsz r \<noteq> 0 then ucast (nelem r) * nbuf_elemsz r
      else ucast ((nelem r + 7) div 8))) NBUF_ALIGN = buf_len b"
    and "unat (resize_end r n) = obj_end (r\<lparr>nelem := ucast n\<rparr>)"
    and "unat (buf_len b) \<le> obj_end (r\<lparr>nelem := ucast n\<rparr>)"
    and "obj_end (r\<lparr>nelem := ucast n\<rparr>) < 2 ^ 62"
proof -
  have g: "obj_end r = unat (buf_len b)" "unat (nelem r) \<le> unat n" "unat n < 2 ^ 32 - 1"
    "esize r = 0 \<Longrightarrow> unat n + 7 < 2 ^ 32"
    "unat (obj_base r) + obj_bytes (r\<lparr>nelem := ucast n\<rparr>) + 16 \<le> 2 ^ 61"
    using assms by (simp_all add: growable_def)
  have base: "unat (obj_base r) < 2 ^ 62" using g(5) by simp
  have nw: "unat (ucast n :: uint32) = unat n"
    using g(3) by (simp add: unsigned_ucast_eq take_bit_nat_def)
  have "unat (nelem r) + 7 < 2 ^ 32" if "esize r = 0" using g(2,4) that by simp
  then show "NBUF_ROUNDUP (obj_base r + (if nbuf_elemsz r \<noteq> 0 then ucast (nelem r) * nbuf_elemsz r
      else ucast ((nelem r + 7) div 8))) NBUF_ALIGN = buf_len b"
    by (intro resize_old_end) (use g(1) base in simp_all)
  show "unat (resize_end r n) = obj_end (r\<lparr>nelem := ucast n\<rparr>)"
    using g base by (intro unat_resize_end) simp_all
  have "obj_bytes r \<le> obj_bytes (r\<lparr>nelem := ucast n\<rparr>)"
    using nw g(2) by (intro obj_bytes_mono) simp
  then have "obj_end r \<le> obj_end (r\<lparr>nelem := ucast n\<rparr>)"
    by (simp add: obj_end_def div_le_mono)
  then show "unat (buf_len b) \<le> obj_end (r\<lparr>nelem := ucast n\<rparr>)" using g(1) by simp
  have "obj_end (r\<lparr>nelem := ucast n\<rparr>) \<le> unat (obj_base r) + obj_bytes (r\<lparr>nelem := ucast n\<rparr>) + 7"
    by (simp add: obj_end_def)
  then show "obj_end (r\<lparr>nelem := ucast n\<rparr>) < 2 ^ 62" using g(5) by simp
qed

lemma resize_reserve:
  assumes "buf_wwf b" and "unat (buf_len b) \<le> unat e" and "unat e < 2 ^ 62"
  obtains (ok) b1 where "(if e > buf_len b then nbuf_reserve al b (e - buf_len b)
        else Some (True, b)) = Some (True, b1)" and "reserved b (unat e - unat (buf_len b)) b1"
  | (nomem) "(if e > buf_len b then nbuf_reserve al b (e - buf_len b)
        else Some (True, b)) = Some (False, b)" and "\<exists>k. \<not> grants al k"
proof (cases "e > buf_len b")
  case True
  then have d: "unat (e - buf_len b) = unat e - unat (buf_len b)"
    by (subst unat_sub_nowrap) simp_all
  then have "unat (buf_len b) + unat (e - buf_len b) < 2 ^ 62" using assms by simp
  from reserve_cases [OF assms(1) this, of al] show thesis
    using True d ok nomem by (cases) auto
next
  case False
  then have "unat e = unat (buf_len b)" using assms(2) by (simp add: word_less_nat_alt)
  then have "reserved b (unat e - unat (buf_len b)) b"
    using assms(1) by (simp add: reserved_def buf_wwf_def word_le_nat_alt)
  then show thesis using ok False by simp
qed

text \<open>
  Claim C31.  Growing the last object of a buffer: \<^verbatim>\<open>nbuf_resize\<close> trips no \<^verbatim>\<open>assert\<close>; the object gets the
  new element count, in memory and in its header, the bytes it had are kept and the bytes added
  are zero; only when memory is refused is everything left as it was.
\<close>

theorem resize_grows:
  assumes "growable b r n"
  shows "(\<exists>b'. nbuf_resize al b r n = Some (r\<lparr>nelem := ucast n\<rparr>, b') \<and>
      grown b (r\<lparr>nelem := ucast n\<rparr>) b') \<or>
    nbuf_resize al b r n = Some (r, b) \<and> (\<exists>k. \<not> grants al k)"
proof -
  define e where "e = resize_end r n"
  note ends = growable_ends [OF assms, folded e_def]
  note old = ends(1)
  have g: "buf_wwf b" "stored b r" "unat n < 2 ^ 32 - 1" "esize r = 0 \<Longrightarrow> unat n + 7 < 2 ^ 32"
    using assms by (simp_all add: growable_def)
  have n: "n < 4294967295" using g(3) by (simp add: word_less_nat_alt)
  define t where "t = unat e - unat (buf_len b)"
  have t: "unat (buf_len b) + t = obj_end (r\<lparr>nelem := ucast n\<rparr>)" using ends by (simp add: t_def)
  have te: "unat (e - buf_len b) = t" using ends(2,3) unfolding t_def
    by (subst unat_sub_nowrap) (simp_all add: word_le_nat_alt)
  have le: "unat (buf_len b) \<le> unat e" and lt: "unat e < 2 ^ 62" using ends by simp_all
  note def = nbuf_resize_def [of al b r n, unfolded Let_def old e_def [symmetric]]
  show ?thesis
  proof (cases rule: resize_reserve [OF g(1) le lt, of al])
    case nomem: 2
    then show ?thesis using n by (simp add: def)
  next
    case ok: (1 b1)
    note b1 = ok(2) [folded t_def]
    note rb = resize_block [OF g(1,2,3) b1 t g(4)]
    have f: "unat (buf_len b) + t \<le> length (buf_base b1)" "length (buf_base b1) = unat (buf_cap b1)"
      "length (buf_base b1) < 2 ^ 63"
      using b1 by (auto simp: reserved_def buf_wwf_def)
    have cap: "e \<le> buf_cap b1" using f(1,2) t ends(2) by (simp add: word_le_nat_alt)
    have m: "memset0 (buf_base b1) (buf_len b) (e - buf_len b)
        = Some (splice_at (unat (buf_len b)) (replicate t 0) (buf_base b1))"
      using f(1) te by (simp add: memset0_def)
    have el: "e = of_nat (unat (buf_len b) + t)"
      using ends(2) t by (metis of_nat_unat ucast_id)
    have base: "unat (obj_base r) \<le> unat (buf_len b) + t" using g(2) by (simp add: stored_def)
    define c where "c = b1\<lparr>buf_base := splice_at (unat (buf_len b)) (replicate t 0) (buf_base b1),
      buf_len := e\<rparr>"
    have w: "nbuf_write_int_safe c (obj_base r - NBUF_WORD_SZ * 2) NBUF_WORD_SZ n
      = Some (c\<lparr>buf_base := splice_at (unat (obj_base r) - 8) (le_enc 4 (unat n)) (buf_base c)\<rparr>)"
      by (rule resize_write [OF g(2) base])
        (use rb(2,3) f g(3) el in \<open>simp_all add: c_def del: of_nat_add\<close>)
    define b' where "b' = c\<lparr>buf_base := splice_at (unat (obj_base r) - 8) (le_enc 4 (unat n))
      (buf_base c)\<rparr>"
    have "b' = b1\<lparr>buf_base := splice_at (unat (obj_base r) - 8) (le_enc 4 (unat n))
        (splice_at (unat (buf_len b)) (replicate t 0) (buf_base b1)),
        buf_len := of_nat (unat (buf_len b) + t)\<rparr>"
      unfolding el [symmetric] by (cases b1) (simp add: b'_def c_def)
    then have gr: "grown b (r\<lparr>nelem := ucast n\<rparr>) b'" using rb(1) by simp
    have "nbuf_resize al b r n = Some (r\<lparr>nelem := ucast n\<rparr>, b')"
      using n ok(1) cap m w by (simp add: def c_def [symmetric] b'_def)
    then show ?thesis using gr by blast
  qed
qed

definition demo_gbuf :: nbuf_buffer where
  "demo_gbuf = nbuf_init_read [2,0,0,0, 4,0, 0,0, 7,0,0,0, 9,0,0,0] 16\<lparr>buf_cap := 16\<rparr>"

definition demo_gobj :: nbuf_obj where
  "demo_gobj = \<lparr>obj_buf = 0, obj_base = 8, nelem = 2, ssize = 4, psize = 0\<rparr>"

theorem resize_grows_witness:
  "\<exists>b'. nbuf_resize roomy_al demo_gbuf demo_gobj 5 = Some (demo_gobj\<lparr>nelem := 5\<rparr>, b') \<and>
    unat (buf_len b') = 32 \<and> buf_base b' ! 12 = 9 \<and> buf_base b' ! 20 = 0"
proof -
  have "growable demo_gbuf demo_gobj 5"
    by (simp add: growable_def demo_gbuf_def demo_gobj_def demo_simps stored_def obj_end_def buf_wwf_def)
  from resize_grows [OF this, of roomy_al] obtain b' where
    "nbuf_resize roomy_al demo_gbuf demo_gobj 5 = Some (demo_gobj\<lparr>nelem := 5\<rparr>, b')"
    "grown demo_gbuf (demo_gobj\<lparr>nelem := 5\<rparr>) b'"
    by (auto simp: roomy_al_def)
  then show ?thesis
    by (intro exI [of _ b'])
      (simp add: grown_def obj_end_def demo_gobj_def demo_gbuf_def obj_bytes_def esize_def
        nbuf_init_read_def)
qed

text \<open>The last object of a buffer, and a smaller number of elements.\<close>

definition shrinkable :: "nbuf_buffer \<Rightarrow> nbuf_obj \<Rightarrow> size_t \<Rightarrow> bool" where
  "shrinkable b r n \<longleftrightarrow> buf_wwf b \<and> stored b r \<and> obj_end r = unat (buf_len b) \<and>
    unat n < unat (nelem r) \<and> unat (buf_len b) < 2 ^ 62"

text \<open>
  Claim C38.  Shrinking the last object of a buffer: \<^verbatim>\<open>nbuf_resize\<close> clears \<^verbatim>\<open>newend - end\<close> bytes also when
  \<^verbatim>\<open>newend\<close> is smaller, where the difference is a huge \<^verbatim>\<open>size_t\<close>.  So it works exactly when the end of the
  object stays on the same 8-byte boundary: then the count is lowered, in memory and in the header, and
  nothing else changes.  Otherwise the bytes to clear are past any block, whatever the allocator does.
\<close>

theorem resize_shrink_overruns:
  assumes "shrinkable b r n"
  shows "if obj_end (r\<lparr>nelem := ucast n\<rparr>) = obj_end r
     then nbuf_resize al b r n = Some (r\<lparr>nelem := ucast n\<rparr>,
       b\<lparr>buf_base := splice_at (unat (obj_base r) - 8) (le_enc 4 (unat n)) (buf_base b)\<rparr>)
     else nbuf_resize al b r n = None \<and>
       length (buf_base b) < unat (buf_len b) + unat (resize_end r n - buf_len b)"
proof -
  let ?r = "r\<lparr>nelem := ucast n\<rparr>" and ?e = "resize_end r n"
  have g: "buf_wwf b" "stored b r" "obj_end r = unat (buf_len b)" "unat n < unat (nelem r)"
    "unat (buf_len b) < 2 ^ 62"
    using assms by (simp_all add: shrinkable_def)
  have n: "unat n < 2 ^ 32 - 1" "n < 4294967295"
    using g(4) unat_u32_lt [of "nelem r"] by (simp_all add: word_less_nat_alt)
  have "nelem r \<noteq> 0" using g(4) by auto
  then have "in_bounds b r" and base: "unat (obj_base r) \<le> unat (buf_len b)" using g(2) by (simp_all add: stored_def)
  then have z: "esize r = 0 \<Longrightarrow> unat (nelem r) + 7 < 2 ^ 32" by (simp add: in_bounds_def)
  have old: "NBUF_ROUNDUP (obj_base r + (if nbuf_elemsz r \<noteq> 0 then ucast (nelem r) * nbuf_elemsz r
      else ucast ((nelem r + 7) div 8))) NBUF_ALIGN = buf_len b"
    using g(3,5) z base by (intro resize_old_end) simp_all
  have e: "unat ?e = obj_end ?r" using n(1) z g(4,5) base by (intro unat_resize_end) force+
  have nw: "unat (ucast n :: uint32) = unat n"
    using n(1) by (simp add: unsigned_ucast_eq take_bit_nat_def)
  have "obj_bytes ?r \<le> obj_bytes r" using obj_bytes_mono [of ?r "nelem r"] nw g(4) by simp
  then have le: "unat ?e \<le> unat (buf_len b)" using e g(3) by (simp add: obj_end_def div_le_mono flip: g(3))
  have len: "length (buf_base b) = unat (buf_cap b)" "unat (buf_len b) \<le> length (buf_base b)"
    "length (buf_base b) < 2 ^ 63"
    using g(1) by (simp_all add: buf_wwf_def word_le_nat_alt)
  have cap: "\<not> buf_len b < ?e" "?e \<le> buf_cap b" using le len by (simp_all add: word_le_nat_alt not_less)
  note def = nbuf_resize_def [of al b r n, unfolded Let_def old]
  show ?thesis
  proof (cases "obj_end ?r = obj_end r")
    case True
    then have eq: "?e = buf_len b" using e g(3) by (simp add: word_unat_eq_iff)
    have "splice_at (unat (buf_len b)) [] (buf_base b) = buf_base b" by (simp add: splice_at_def)
    then have m: "memset0 (buf_base b) (buf_len b) (?e - buf_len b) = Some (buf_base b)"
      using eq len by (simp add: memset0_def)
    have b: "b\<lparr>buf_base := buf_base b, buf_len := buf_len b\<rparr> = b" by simp
    have "nbuf_write_int_safe b (obj_base r - NBUF_WORD_SZ * 2) NBUF_WORD_SZ n
        = Some (b\<lparr>buf_base := splice_at (unat (obj_base r) - 8) (le_enc 4 (unat n)) (buf_base b)\<rparr>)"
      by (rule resize_write [OF g(2) base]) (use len n(1) g(2) in \<open>simp_all add: stored_def\<close>)
    then show ?thesis using True n(2) cap m eq b by (simp add: def)
  next
    case False
    then have lt: "unat ?e < unat (buf_len b)" using e g(3) le by simp
    then have "unat (?e - buf_len b) = unat ?e + 2 ^ 64 - unat (buf_len b)" by (simp add: unat_sub_if')
    then have over: "length (buf_base b) < unat (buf_len b) + unat (?e - buf_len b)" using len lt by simp
    then have "memset0 (buf_base b) (buf_len b) (?e - buf_len b) = None" by (simp add: memset0_def)
    then show ?thesis using False n(2) cap over by (simp add: def)
  qed
qed

theorem resize_shrink_overruns_witness:
  "nbuf_resize roomy_al demo_gbuf demo_gobj 1 = Some (demo_gobj\<lparr>nelem := 1\<rparr>,
     demo_gbuf\<lparr>buf_base := splice_at 0 (le_enc 4 1) (buf_base demo_gbuf)\<rparr>) \<and>
   nbuf_resize roomy_al demo_gbuf demo_gobj 0 = None"
proof -
  have s: "shrinkable demo_gbuf demo_gobj n" if "unat n < 2" for n
    using that
    by (simp add: shrinkable_def demo_gbuf_def demo_gobj_def demo_simps stored_def obj_end_def buf_wwf_def)
  have e: "obj_end demo_gobj = 16" "obj_end (demo_gobj\<lparr>nelem := 1\<rparr>) = 16" "obj_end (demo_gobj\<lparr>nelem := 0\<rparr>) = 8"
    by (simp_all add: demo_gobj_def obj_end_def obj_bytes_def esize_def)
  show ?thesis
    using resize_shrink_overruns [OF s, of 1 roomy_al] resize_shrink_overruns [OF s, of 0 roomy_al] e
    by (simp add: demo_gobj_def del: le_enc.simps)
qed

text \<open>
  Claim C40.  Vectors of nearly \<open>2 ^ 32\<close> bits: \<^verbatim>\<open>_nbuf_create\<close> computes their byte count in 32 bits, where it
  wraps.  In any buffer of aligned length, when memory is granted, it returns the object with all its bits,
  but has made room for the header only:
  the elements start where the buffer ends, and the header it has written is one that \<^verbatim>\<open>nbuf_obj_init\<close>
  refuses.
\<close>

theorem create_bits_wraps:
  assumes "buf_wwf b" and "unat (buf_len b) mod 8 = 0" and "unat (buf_len b) + 8 < 2 ^ 62"
    and "2 ^ 32 \<le> unat n + 7" and "\<forall>k. grants al k"
  shows "\<exists>b'. nbuf_create_plain al a b n 0 0 = Some (fresh_obj a b n 0 0, b') \<and> extends b b' \<and>
    unat (buf_len b') = unat (buf_len b) + 8 \<and> obj_base (fresh_obj a b n 0 0) = buf_len b' \<and>
    wire_header (buf_base b') (unat (buf_len b)) = (unat n, 0, 0) \<and>
    nbuf_obj_init b' (null_obj a) (buf_len b) = Some (null_obj a)"
proof -
  let ?r = "fresh_obj a b n 0 0"
  have e: "nbuf_elemsz ?r = 0" "esize ?r = 0" by (simp_all add: elemsz_eq_0 esize_def)
  have "unat (n + 7) = unat n + 7 - 2 ^ 32"
    using assms(4) unat_u32_lt [of n] by (simp add: unat_plus_if')
  then have "unat ((n + 7) div 8) = 0" using unat_u32_lt [of n] by (simp add: unat_div)
  then have "(n + 7) div 8 = 0" by (simp add: unat_0_iff)
  then have T: "unat (create_totalsz n 0 0 (nbuf_elemsz ?r)) = 8"
    by (simp add: create_totalsz_def NBUF_ROUNDUP_def NBUF_ALIGN_def)
  have c: "(0 :: uint16) \<noteq> 0 \<longrightarrow> unat (0 :: uint16) mod 4 = 0" "(8 :: nat) \<le> 8" by simp_all
  show ?thesis
  proof (cases rule: create_appends [OF assms(1,2) c(1) T c(2) assms(3), of al])
    case (1 b')
    then have b': "extends b b'" "unat (buf_len b') = unat (buf_len b) + 8" "unat (obj_base ?r) = unat (buf_len b) + 8"
      "wire_header (buf_base b') (unat (buf_len b)) = (unat n, 0, 0)"
      by (simp_all add: appended_def)
    have wf: "buf_wf b'" using b'(1) by (simp add: extends_def buf_wwf_wf)
    have h: "header_obj b' (null_obj a) (buf_len b) = ?r"
      using b'(4) by (simp add: header_obj_def fresh_obj_def null_obj_def)
    have "n \<noteq> 0" using assms(4) by auto
    moreover have "\<not> in_bounds b' ?r" using e(2) assms(4) by (simp add: in_bounds_def)
    ultimately have "nbuf_obj_init b' (null_obj a) (buf_len b) = Some (null_obj a)"
      using b'(2) by (simp add: obj_init_eq [OF wf] h Let_def)
    moreover have "obj_base ?r = buf_len b'" using b'(2,3) by (metis word_unat_eq_iff)
    ultimately show ?thesis using 1(1) b' by blast
  qed (use assms(5) in auto)
qed

theorem create_bits_wraps_witness:
  "\<exists>b'. nbuf_create_plain roomy_al 0 demo_wbuf 4294967290 0 0 = Some (fresh_obj 0 demo_wbuf 4294967290 0 0, b') \<and>
    unat (buf_len b') = 32"
proof -
  have "buf_wwf demo_wbuf" "unat (buf_len demo_wbuf) = 24" by (simp_all add: buf_wwf_def demo_wbuf_def)
  then show ?thesis
    using create_bits_wraps [of demo_wbuf 4294967290 roomy_al 0] by (auto simp: roomy_al_def)
qed

end
