(* ===== verification/Builder.thy ===== *)
theory Builder
  imports Obj_Write
begin

text \<open>
  The builder of \<^verbatim>\<open>lib/pool.c\<close>: every object lives in a buffer of its own, a pool lists those
  buffers, and pointers hold indices into the pool until \<^verbatim>\<open>nbuf_serialize\<close> lays the objects out.
  Here buffers have addresses: a \<open>world\<close> maps an address to the \<^verbatim>\<open>struct nbuf_buffer\<close> found there
  and hands out fresh addresses to \<^verbatim>\<open>malloc\<close>; 0 is \<^verbatim>\<open>NULL\<close>.  The addresses the code keeps in the
  bytes of the pool and of \<^verbatim>\<open>struct objmeta\<close> are kept there as eight little-endian bytes.
\<close>

section \<open>State\<close>

record world =
  bufs :: "nat \<Rightarrow> nbuf_buffer option"
  next_addr :: nat

definition put_buf :: "world \<Rightarrow> nat \<Rightarrow> nbuf_buffer \<Rightarrow> world" where
  "put_buf w a b = w\<lparr>bufs := (bufs w)(a \<mapsto> b)\<rparr>"

definition free_buf :: "world \<Rightarrow> nat \<Rightarrow> world" where
  "free_buf w a = w\<lparr>bufs := (bufs w)(a := None)\<rparr>"

text \<open>\<^verbatim>\<open>malloc(sizeof (struct nbuf_buffer))\<close>: an address not in use.\<close>

definition malloc_buf :: "allocator \<Rightarrow> world \<Rightarrow> (nat \<times> world) option" where
  "malloc_buf al w =
    (if grants al 32 then Some (next_addr w, w\<lparr>next_addr := Suc (next_addr w)\<rparr>) else None)"

text \<open>\<^verbatim>\<open>struct objmeta\<close>, the first 16 bytes of the buffer of an object.\<close>

record objmeta =
  meta_pool :: nat
  meta_offset :: uint32
  meta_id :: uint32

definition load_addr :: "byte list \<Rightarrow> nat \<Rightarrow> nat option" where
  "load_addr blk p = map_option le_val (load blk p 8)"

definition getpool :: "nbuf_buffer \<Rightarrow> nat option" where
  "getpool buf = load_addr (buf_base buf) 0"

definition getobj :: "world \<Rightarrow> nat \<Rightarrow> nbuf_obj option" where
  "getobj w x = do { buf \<leftarrow> bufs w x; nbuf_obj_init buf (null_obj x) (NBUF_ROUNDUP 16 NBUF_ALIGN) }"

definition getmeta :: "nbuf_buffer \<Rightarrow> objmeta option" where
  "getmeta buf =
    do { bs \<leftarrow> load (buf_base buf) 0 16;
         Some \<lparr>meta_pool = le_val (seg 0 8 bs), meta_offset = of_nat (le_val (seg 8 4 bs)),
               meta_id = of_nat (le_val (seg 12 4 bs))\<rparr> }"

definition set_meta_pool :: "nbuf_buffer \<Rightarrow> nat \<Rightarrow> nbuf_buffer option" where
  "set_meta_pool buf a = do { blk \<leftarrow> store (buf_base buf) 0 (le_enc 8 a); Some (buf\<lparr>buf_base := blk\<rparr>) }"

definition set_meta_offset :: "nbuf_buffer \<Rightarrow> uint32 \<Rightarrow> nbuf_buffer option" where
  "set_meta_offset buf v =
    do { blk \<leftarrow> store (buf_base buf) 8 (le_enc 4 (unat v)); Some (buf\<lparr>buf_base := blk\<rparr>) }"

definition set_meta_id :: "nbuf_buffer \<Rightarrow> uint32 \<Rightarrow> nbuf_buffer option" where
  "set_meta_id buf v =
    do { blk \<leftarrow> store (buf_base buf) 12 (le_enc 4 (unat v)); Some (buf\<lparr>buf_base := blk\<rparr>) }"

definition getbuffer :: "nbuf_buffer \<Rightarrow> size_t \<Rightarrow> nat option" where
  "getbuffer pool i =
    do { assert_ok ((i + 1) * 8 < buf_len pool); load_addr (buf_base pool) (8 * unat (i + 1)) }"

definition putbuffer :: "nbuf_buffer \<Rightarrow> size_t \<Rightarrow> nat \<Rightarrow> nbuf_buffer option" where
  "putbuffer pool i x =
    do { assert_ok ((i + 1) * 8 < buf_len pool);
         blk \<leftarrow> store (buf_base pool) (8 * unat (i + 1)) (le_enc 8 x);
         Some (pool\<lparr>buf_base := blk\<rparr>) }"

definition buffercount :: "nbuf_buffer \<Rightarrow> size_t" where
  "buffercount pool = buf_len pool div 8 - 1"

section \<open>The operations of \<^verbatim>\<open>builder_ops\<close>\<close>

definition builder_get_ptr :: "world \<Rightarrow> nbuf_obj \<Rightarrow> size_t \<Rightarrow> nbuf_obj option" where
  "builder_get_ptr w r i =
    do { buf \<leftarrow> bufs w (obj_buf r);
         pa \<leftarrow> getpool buf;
         let rr = null_obj (obj_buf r);
         if i \<ge> ucast (psize r) then Some rr
         else do {
           j \<leftarrow> nbuf_read_int_safe buf (obj_base r + nbuf_ptr_offs r i) NBUF_WORD_SZ;
           if j = 0 then Some rr
           else do {
             pool \<leftarrow> bufs w pa;
             assert_ok (sint j > 0 \<and> j < buffercount pool);
             x \<leftarrow> getbuffer pool j;
             getobj w x } } }"

definition builder_put_ptr :: "world \<Rightarrow> nbuf_obj \<Rightarrow> size_t \<Rightarrow> nbuf_obj \<Rightarrow> world option" where
  "builder_put_ptr w r i v =
    do { buf \<leftarrow> bufs w (obj_buf r);
         pa \<leftarrow> getpool buf;
         vbuf \<leftarrow> bufs w (obj_buf v);
         meta \<leftarrow> getmeta vbuf;
         assert_ok (pa = meta_pool meta);
         pool \<leftarrow> bufs w pa;
         assert_ok (ucast (meta_id meta) < buffercount pool);
         buf1 \<leftarrow> nbuf_write_int_safe buf (obj_base r + nbuf_ptr_offs r i) NBUF_WORD_SZ
                   (ucast (meta_id meta));
         Some (put_buf w (obj_buf r) buf1) }"

text \<open>\<^verbatim>\<open>create\<close> after the room in the pool and the new buffer at \<open>x\<close> have been obtained.\<close>

definition builder_fill ::
    "allocator \<Rightarrow> world \<Rightarrow> nat \<Rightarrow> nat \<Rightarrow> nbuf_buffer \<Rightarrow> uint32 \<Rightarrow> uint16 \<Rightarrow> uint16 \<Rightarrow>
      (nbuf_obj \<times> world) option" where
  "builder_fill al w pa x b n s p =
    do { (ob, b1) \<leftarrow> nbuf_create_plain al x (b\<lparr>buf_len := buf_len b + 16\<rparr>) n s p;
         pool \<leftarrow> bufs w pa;
         let oid = (ucast (buffercount pool) :: uint32);
         b2 \<leftarrow> set_meta_pool b1 pa;
         b3 \<leftarrow> set_meta_id b2 oid;
         pool1 \<leftarrow> putbuffer (pool\<lparr>buf_len := buf_len pool + 8\<rparr>) (ucast oid) x;
         Some (ob, put_buf (put_buf w x b3) pa pool1) }"

definition builder_create ::
    "allocator \<Rightarrow> world \<Rightarrow> nat \<Rightarrow> uint32 \<Rightarrow> uint16 \<Rightarrow> uint16 \<Rightarrow> (nbuf_obj \<times> world) option" where
  "builder_create al w a n s p =
    do { buf \<leftarrow> bufs w a;
         pa \<leftarrow> getpool buf;
         pool \<leftarrow> bufs w pa;
         (ok, pool1) \<leftarrow> nbuf_reserve al pool 8;
         let w1 = put_buf w pa pool1;
         if \<not> ok then Some (null_obj 0, w1)
         else (case malloc_buf al w1 of
             None \<Rightarrow> Some (null_obj 0, w1)
           | Some (x, w2) \<Rightarrow>
             do { (ok2, b) \<leftarrow> nbuf_reserve al
                    \<lparr>buf_base = [], buf_len = 0, buf_cap = 0, buf_ops = builder_ops\<rparr>
                    (NBUF_ROUNDUP 16 NBUF_ALIGN);
                  if \<not> ok2 then Some (null_obj 0, free_buf w2 x)
                  else builder_fill al w2 pa x b n s p }) }"

section \<open>Starting and freeing a builder\<close>

definition nbuf_init_builder :: "allocator \<Rightarrow> world \<Rightarrow> nat \<Rightarrow> size_t \<Rightarrow> (bool \<times> world) option" where
  "nbuf_init_builder al w a sz =
    do { old \<leftarrow> bufs w a;
         (ok, b) \<leftarrow> nbuf_reserve al (old\<lparr>buf_base := [], buf_len := 0, buf_cap := 0\<rparr>) ((sz + 1) * 8);
         if \<not> ok then Some (False, put_buf w a b)
         else do {
           blk \<leftarrow> store (buf_base b) 0 (le_enc 8 a);
           Some (True, put_buf w a (b\<lparr>buf_base := blk, buf_len := buf_len b + 8,
                                       buf_ops := builder_ops\<rparr>)) } }"

fun free_buffers :: "nbuf_buffer \<Rightarrow> world \<Rightarrow> nat list \<Rightarrow> world option" where
  "free_buffers pool w [] = Some w"
| "free_buffers pool w (i # ids) =
    do { x \<leftarrow> getbuffer pool (of_nat i);
         b \<leftarrow> bufs w x;
         free_buffers pool (free_buf w x) ids }"

definition nbuf_free_builder :: "world \<Rightarrow> nat \<Rightarrow> world option" where
  "nbuf_free_builder w a =
    do { buf \<leftarrow> bufs w a;
         pa \<leftarrow> getpool buf;
         assert_ok (pa = a);
         w1 \<leftarrow> free_buffers buf w [0..<unat (buffercount buf)];
         Some (put_buf w1 a (nbuf_free buf)) }"

section \<open>Serializing\<close>

text \<open>The first pass: every object gets its offset, in words.\<close>

fun place_objects :: "nbuf_buffer \<Rightarrow> world \<Rightarrow> size_t \<Rightarrow> nat list \<Rightarrow> (world \<times> size_t) option" where
  "place_objects pool w cursor [] = Some (w, cursor)"
| "place_objects pool w cursor (i # ids) =
    do { x \<leftarrow> getbuffer pool (of_nat i);
         ob \<leftarrow> getobj w x;
         b \<leftarrow> bufs w x;
         b1 \<leftarrow> set_meta_offset b (ucast (cursor div NBUF_WORD_SZ));
         place_objects pool (put_buf w x b1)
           (NBUF_ROUNDUP (cursor + 8 + nbuf_totalsz ob) NBUF_ALIGN) ids }"

text \<open>The value written for the pointer \<open>oid\<close> found in object \<open>i\<close> when the output is at \<open>cursor\<close>.\<close>

definition resolve :: "nbuf_buffer \<Rightarrow> world \<Rightarrow> nat \<Rightarrow> size_t \<Rightarrow> size_t \<Rightarrow> size_t option" where
  "resolve pool w i cursor oid =
    (if oid \<noteq> 0
     then do { assert_ok (oid > of_nat i \<and> oid < buffercount pool);
               x \<leftarrow> getbuffer pool oid;
               b \<leftarrow> bufs w x;
               meta \<leftarrow> getmeta b;
               Some (ucast (meta_offset meta) - cursor div NBUF_WORD_SZ) }
     else Some 0)"

fun copy_ptrs ::
    "(size_t \<Rightarrow> size_t \<Rightarrow> size_t option) \<Rightarrow> byte list \<Rightarrow> nat \<Rightarrow> nat \<Rightarrow> byte list \<times> size_t \<Rightarrow>
      (byte list \<times> size_t) option" where
  "copy_ptrs rs blk src 0 st = Some st"
| "copy_ptrs rs blk src (Suc k) (out, cursor) =
    do { oid \<leftarrow> nbuf_read_int_unsafe blk src NBUF_WORD_SZ;
         rel \<leftarrow> rs cursor oid;
         out1 \<leftarrow> nbuf_write_int_unsafe out (unat cursor) NBUF_WORD_SZ rel;
         copy_ptrs rs blk (src + 4) k (out1, cursor + NBUF_WORD_SZ) }"

text \<open>\<^verbatim>\<open>memcpy(output + cursor, src, n); cursor += n;\<close>\<close>

definition copy_bytes ::
    "byte list \<Rightarrow> nat \<Rightarrow> nat \<Rightarrow> byte list \<times> size_t \<Rightarrow> (byte list \<times> size_t) option" where
  "copy_bytes blk src n = (\<lambda>(out, cursor).
    do { bs \<leftarrow> load blk src n;
         out1 \<leftarrow> store out (unat cursor) bs;
         Some (out1, cursor + of_nat n) })"

fun copy_elems ::
    "(size_t \<Rightarrow> size_t \<Rightarrow> size_t option) \<Rightarrow> byte list \<Rightarrow> nat \<Rightarrow> nat \<Rightarrow> nat \<Rightarrow> nat \<Rightarrow>
      byte list \<times> size_t \<Rightarrow> (byte list \<times> size_t) option" where
  "copy_elems rs blk s p src 0 st = Some st"
| "copy_elems rs blk s p src (Suc j) st =
    do { st1 \<leftarrow> copy_bytes blk src s st;
         st2 \<leftarrow> copy_ptrs rs blk (src + s) p st1;
         copy_elems rs blk s p (src + s + 4 * p) j st2 }"

function pad_out :: "byte list \<times> size_t \<Rightarrow> (byte list \<times> size_t) option" where
  "pad_out (out, cursor) =
    (if cursor mod NBUF_ALIGN = 0 then Some (out, cursor)
     else do { out1 \<leftarrow> store out (unat cursor) [0]; pad_out (out1, cursor + 1) })"
  by pat_completeness auto

lemma unat_mod_8: "unat (c mod 8 :: size_t) = unat c mod 8"
  by (simp add: unat_mod)

lemma unat_Suc_mod_8: "unat (c + 1 :: size_t) mod 8 = (unat c + 1) mod 8"
proof -
  have "unat (c + 1) = (unat c + 1) mod 2 ^ 64" by (simp add: unat_word_ariths)
  moreover have "(unat c + 1) mod 2 ^ 64 mod 8 = (unat c + 1) mod 8"
    by (rule mod_mod_cancel) (simp add: dvd_def exI [of _ "2 ^ 61"])
  ultimately show ?thesis by simp
qed

lemma pad_step: "m < 8 \<Longrightarrow> m \<noteq> 0 \<Longrightarrow> (8 - (m + 1) mod 8) mod 8 < (8 - m) mod (8 :: nat)"
  by (cases "m = 7") (simp_all add: mod_less)

termination pad_out
proof (relation "measure (\<lambda>(out, cursor). (8 - unat cursor mod 8) mod 8)")
  fix out out1 :: "byte list" and cursor :: size_t
  assume "cursor mod NBUF_ALIGN \<noteq> 0"
  then have "cursor mod 8 \<noteq> 0" by (simp only: NBUF_ALIGN_def not_False_eq_True)
  then have "unat cursor mod 8 \<noteq> 0" using unat_mod_8 [of cursor] by (metis unat_0_iff)
  moreover have "unat cursor mod 8 < 8" by simp
  ultimately show "((out1, cursor + 1), out, cursor)
      \<in> measure (\<lambda>(out, cursor). (8 - unat cursor mod 8) mod 8)"
    using pad_step [of "unat cursor mod 8"]
    by (simp add: unat_Suc_mod_8 mod_Suc_eq)
qed simp

declare pad_out.simps [simp del]

text \<open>The second pass: copy one object, its header first.\<close>

definition copy_object ::
    "nbuf_buffer \<Rightarrow> world \<Rightarrow> nat \<Rightarrow> byte list \<times> size_t \<Rightarrow> (byte list \<times> size_t) option" where
  "copy_object pool w i = (\<lambda>(out, cursor).
    do { x \<leftarrow> getbuffer pool (of_nat i);
         ob \<leftarrow> getobj w x;
         b \<leftarrow> bufs w x;
         meta \<leftarrow> getmeta b;
         assert_ok (cursor = ucast (meta_offset meta) * NBUF_WORD_SZ);
         let src = unat (obj_base ob);
         assert_ok (8 \<le> src);
         st1 \<leftarrow> copy_bytes (buf_base b) (src - 8) 8 (out, cursor);
         st2 \<leftarrow> (if psize ob = 0 then copy_bytes (buf_base b) src (unat (nbuf_totalsz ob)) st1
                 else copy_elems (resolve pool w i) (buf_base b) (unat (ssize ob)) (unat (psize ob))
                        src (unat (nelem ob)) st1);
         pad_out st2 })"

fun copy_objects ::
    "nbuf_buffer \<Rightarrow> world \<Rightarrow> nat list \<Rightarrow> byte list \<times> size_t \<Rightarrow> (byte list \<times> size_t) option" where
  "copy_objects pool w [] st = Some st"
| "copy_objects pool w (i # ids) st =
    do { st1 \<leftarrow> copy_object pool w i st; copy_objects pool w ids st1 }"

definition nbuf_serialize :: "allocator \<Rightarrow> world \<Rightarrow> nat \<Rightarrow> (bool \<times> world) option" where
  "nbuf_serialize al w a =
    do { pool \<leftarrow> bufs w a;
         pa \<leftarrow> getpool pool;
         assert_ok (pa = a);
         let ids = [0..<unat (buffercount pool)];
         (w1, total) \<leftarrow> place_objects pool w 0 ids;
         case malloc_block al (unat total) of
           None \<Rightarrow> Some (False, w1)
         | Some output \<Rightarrow>
           do { (out, cursor) \<leftarrow> copy_objects pool w1 ids (output, 0);
                w2 \<leftarrow> nbuf_free_builder w1 a;
                Some (True, put_buf w2 a
                  \<lparr>buf_base = out, buf_len = cursor, buf_cap = cursor, buf_ops = NULL_ops\<rparr>) } }"

section \<open>The dispatching operations of \<^verbatim>\<open>include/nbuf.h\<close>\<close>

definition nbuf_get_ptr :: "world \<Rightarrow> nbuf_obj \<Rightarrow> size_t \<Rightarrow> nbuf_obj option" where
  "nbuf_get_ptr w r i =
    do { buf \<leftarrow> bufs w (obj_buf r);
         if buf_ops buf = builder_ops then builder_get_ptr w r i else nbuf_get_ptr_plain buf r i }"

definition nbuf_put_ptr :: "world \<Rightarrow> nbuf_obj \<Rightarrow> size_t \<Rightarrow> nbuf_obj \<Rightarrow> world option" where
  "nbuf_put_ptr w r i v =
    do { buf \<leftarrow> bufs w (obj_buf r);
         if buf_ops buf = builder_ops then builder_put_ptr w r i v
         else do { buf1 \<leftarrow> nbuf_put_ptr_plain buf r i v; Some (put_buf w (obj_buf r) buf1) } }"

definition nbuf_create ::
    "allocator \<Rightarrow> world \<Rightarrow> nat \<Rightarrow> uint32 \<Rightarrow> uint16 \<Rightarrow> uint16 \<Rightarrow> (nbuf_obj \<times> world) option" where
  "nbuf_create al w a n s p =
    do { buf \<leftarrow> bufs w a;
         if buf_ops buf = builder_ops then builder_create al w a n s p
         else do { (r, buf1) \<leftarrow> nbuf_create_plain al a buf n s p; Some (r, put_buf w a buf1) } }"

definition nbuf_get_str :: "world \<Rightarrow> nbuf_obj \<Rightarrow> size_t \<Rightarrow> (byte list \<times> size_t) option" where
  "nbuf_get_str w r i =
    do { rr \<leftarrow> nbuf_get_ptr w r i;
         rbuf \<leftarrow> bufs w (obj_buf r);
         sbuf \<leftarrow> bufs w (obj_buf rr);
         nbuf_str_of rbuf sbuf rr }"

definition nbuf_put_str ::
    "allocator \<Rightarrow> world \<Rightarrow> nbuf_obj \<Rightarrow> size_t \<Rightarrow> byte list \<Rightarrow> size_t \<Rightarrow> world option" where
  "nbuf_put_str al w r i s n0 =
    do { n \<leftarrow> str_length s n0;
         (rr, w1) \<leftarrow> nbuf_create al w (obj_buf r) (ucast (n + 1)) 1 0;
         if nelem rr = 0 then Some w1
         else do {
           b \<leftarrow> bufs w1 (obj_buf rr);
           b1 \<leftarrow> copy_str b rr s n;
           nbuf_put_ptr (put_buf w1 (obj_buf rr) b1) r i rr } }"

section \<open>Well-formed builders\<close>

text \<open>
  \<open>pool_ok w pa ads\<close>: the pool at address \<open>pa\<close> lists the buffers at the addresses \<open>ads\<close>, after its
  own address.  \<open>node w pa i x\<close>: the buffer at \<open>x\<close> belongs to that pool under the index \<open>i\<close> and holds
  one object, its header after the 16 bytes of \<^verbatim>\<open>struct objmeta\<close>.
\<close>

definition pool_ok :: "world \<Rightarrow> nat \<Rightarrow> nat list \<Rightarrow> bool" where
  "pool_ok w pa ads \<longleftrightarrow> (\<exists>pool. bufs w pa = Some pool \<and> buf_wwf pool \<and> buf_ops pool = builder_ops \<and>
    unat (buf_len pool) = 8 * (length ads + 1) \<and> le_val (seg 0 8 (buf_base pool)) = pa \<and>
    (\<forall>i < length ads. le_val (seg (8 * (i + 1)) 8 (buf_base pool)) = ads ! i))"

definition obj_in :: "nbuf_buffer \<Rightarrow> nat \<Rightarrow> nbuf_obj" where
  "obj_in b x = header_obj b (null_obj x) 16"

definition node_buf :: "nbuf_buffer \<Rightarrow> nat \<Rightarrow> nat \<Rightarrow> nat \<Rightarrow> bool" where
  "node_buf b pa i x \<longleftrightarrow> buf_wwf b \<and> buf_ops b = builder_ops \<and> 24 \<le> unat (buf_len b) \<and>
    le_val (seg 0 8 (buf_base b)) = pa \<and> le_val (seg 12 4 (buf_base b)) = i \<and>
    stored b (obj_in b x)"

definition node :: "world \<Rightarrow> nat \<Rightarrow> nat \<Rightarrow> nat \<Rightarrow> bool" where
  "node w pa i x \<longleftrightarrow> (\<exists>b. bufs w x = Some b \<and> node_buf b pa i x)"

definition builder_ok :: "world \<Rightarrow> nat \<Rightarrow> nat list \<Rightarrow> bool" where
  "builder_ok w pa ads \<longleftrightarrow> pool_ok w pa ads \<and> (\<forall>i < length ads. node w pa i (ads ! i)) \<and>
    distinct (pa # ads) \<and> (\<forall>x \<in> set (pa # ads). 0 < x \<and> x < next_addr w) \<and>
    next_addr w < 2 ^ 64 \<and> length ads < 2 ^ 31"

text \<open>\<open>r\<close> is (part of) the object with index \<open>i\<close>.\<close>

definition part_of :: "world \<Rightarrow> nat list \<Rightarrow> nat \<Rightarrow> nbuf_obj \<Rightarrow> bool" where
  "part_of w ads i r \<longleftrightarrow> i < length ads \<and> obj_buf r = ads ! i \<and> 24 \<le> unat (obj_base r) \<and>
    (\<exists>b. bufs w (ads ! i) = Some b \<and> obj_safe b r)"

lemma obj_in_sel [simp]: "obj_buf (obj_in b x) = x" "unat (obj_base (obj_in b x)) = 24"
  "obj_base (obj_in b x) = 24"
  by (simp_all add: obj_in_def header_obj_def null_obj_def Let_def case_prod_beta)

lemma roundup_meta: "NBUF_ROUNDUP 16 NBUF_ALIGN = 16"
  by (simp add: NBUF_ROUNDUP_def NBUF_ALIGN_def)

lemma load_addr_eq: "p + 8 \<le> length blk \<Longrightarrow> load_addr blk p = Some (le_val (seg p 8 blk))"
  by (simp add: load_addr_def load_def)

lemma poolE:
  assumes "pool_ok w pa ads" and "length ads < 2 ^ 31"
  obtains pool where "bufs w pa = Some pool" "buf_wwf pool" "buf_ops pool = builder_ops"
    "unat (buf_len pool) = 8 * (length ads + 1)" "getpool pool = Some pa"
    "buffercount pool = of_nat (length ads)"
    "\<And>i. i < length ads \<Longrightarrow> getbuffer pool (of_nat i) = Some (ads ! i)"
    "8 * (length ads + 1) \<le> length (buf_base pool)"
proof -
  from assms(1) obtain pool where p: "bufs w pa = Some pool" "buf_wwf pool"
    "buf_ops pool = builder_ops" "unat (buf_len pool) = 8 * (length ads + 1)"
    "le_val (seg 0 8 (buf_base pool)) = pa"
    "\<And>i. i < length ads \<Longrightarrow> le_val (seg (8 * (i + 1)) 8 (buf_base pool)) = ads ! i"
    by (auto simp: pool_ok_def)
  have len: "8 * (length ads + 1) \<le> length (buf_base pool)"
    using p(2,4) by (simp add: buf_wwf_def word_le_nat_alt)
  have gp: "getpool pool = Some pa"
    using len p(5) by (simp add: getpool_def load_addr_eq)
  have "unat (buf_len pool div 8) = length ads + 1" using p(4) by (simp add: unat_div)
  then have "buf_len pool div 8 = of_nat (length ads + 1)" by (metis of_nat_unat ucast_id)
  then have bc: "buffercount pool = of_nat (length ads)" by (simp add: buffercount_def)
  have gb: "getbuffer pool (of_nat i) = Some (ads ! i)" if "i < length ads" for i
  proof -
    have i1: "unat (of_nat i + 1 :: size_t) = i + 1"
      using that assms(2) unat_of_nat_64 [of "i + 1"] by (simp add: add.commute)
    then have "unat ((of_nat i + 1) * 8 :: size_t) = (i + 1) * 8"
      using that assms(2) by (subst unat_mult_nowrap) simp_all
    then show ?thesis
      using i1 that len p(4,6) by (simp add: getbuffer_def word_less_nat_alt load_addr_eq)
  qed
  show thesis using that [OF p(1-4) gp bc gb len] .
qed

lemma node_bufE:
  assumes "node_buf b pa i x" and "i < 2 ^ 32"
  obtains "buf_wwf b" "buf_wf b" "buf_ops b = builder_ops" "24 \<le> length (buf_base b)"
    "getpool b = Some pa"
    "\<exists>off. getmeta b = Some \<lparr>meta_pool = pa, meta_offset = off, meta_id = of_nat i\<rparr>"
    "nbuf_obj_init b (null_obj x) (NBUF_ROUNDUP 16 NBUF_ALIGN) = Some (obj_in b x)"
proof -
  have n: "buf_wwf b" "buf_ops b = builder_ops" "24 \<le> unat (buf_len b)"
    "le_val (seg 0 8 (buf_base b)) = pa" "le_val (seg 12 4 (buf_base b)) = i"
    "stored b (obj_in b x)"
    using assms by (simp_all add: node_buf_def)
  have wf: "buf_wf b" using n(1) by (rule buf_wwf_wf)
  have len: "24 \<le> length (buf_base b)" using n(3) wf by (simp add: buf_wf_def)
  then have "getpool b = Some pa" "\<exists>off. getmeta b = Some \<lparr>meta_pool = pa, meta_offset = off, meta_id = of_nat i\<rparr>"
    using n(4,5) by (simp_all add: getpool_def load_addr_eq getmeta_def load_def slice_slice)
  moreover have "nbuf_obj_init b (null_obj x) (NBUF_ROUNDUP 16 NBUF_ALIGN) = Some (obj_in b x)"
    using stored_opens [OF wf n(6)] by (simp add: roundup_meta)
  ultimately show thesis using that n wf len by blast
qed

text \<open>Writing behind the first 24 bytes of a node keeps it a node, with the same object.\<close>

lemma obj_in_splice:
  assumes "24 \<le> p" and "p + length ys \<le> length (buf_base b)"
  shows "obj_in (b\<lparr>buf_base := splice_at p ys (buf_base b)\<rparr>) x = obj_in b x"
  using assms by (simp add: obj_in_def header_obj_def wire_header_splice)

lemma node_buf_splice:
  assumes "node_buf b pa i x" and "24 \<le> p" and "p + length ys \<le> length (buf_base b)"
  shows "node_buf (b\<lparr>buf_base := splice_at p ys (buf_base b)\<rparr>) pa i x"
proof -
  have "stored (b\<lparr>buf_base := splice_at p ys (buf_base b)\<rparr>) (obj_in b x)"
    using assms by (simp add: node_buf_def stored_def in_bounds_def wire_header_splice)
  then show ?thesis
    using assms obj_in_splice [OF assms(2,3)]
    by (simp add: node_buf_def buf_wwf_def slice_splice_other)
qed

lemma bufs_put_buf [simp]: "bufs (put_buf w a b) x = (if x = a then Some b else bufs w x)"
  and next_addr_put_buf [simp]: "next_addr (put_buf w a b) = next_addr w"
  by (simp_all add: put_buf_def)

lemma builder_ok_update:
  assumes "builder_ok w pa ads" and "i < length ads" and "node_buf b pa i (ads ! i)"
  shows "builder_ok (put_buf w (ads ! i) b) pa ads"
proof -
  have d: "distinct (pa # ads)" using assms(1) by (simp add: builder_ok_def)
  then have "pool_ok (put_buf w (ads ! i) b) pa ads"
    using assms(1,2) by (auto simp: builder_ok_def pool_ok_def)
  moreover have "node (put_buf w (ads ! i) b) pa j (ads ! j)" if "j < length ads" for j
  proof (cases "j = i")
    case True
    then show ?thesis using assms(3) by (simp add: node_def)
  next
    case False
    then have "ads ! j \<noteq> ads ! i" using d that assms(2) by (simp add: nth_eq_iff_index_eq)
    then show ?thesis using assms(1) that by (simp add: builder_ok_def node_def)
  qed
  ultimately show ?thesis using assms(1) by (simp add: builder_ok_def)
qed

text \<open>A part of an object, where its pointers lie.\<close>

lemma part_ptr:
  assumes "builder_ok w pa ads" and "part_of w ads i r" and "unat k < unat (psize r)"
  obtains b where "bufs w (obj_buf r) = Some b" "obj_buf r = ads ! i" "i < length ads"
    "node_buf b pa i (ads ! i)" "obj_safe b r"
    "unat (obj_base r + nbuf_ptr_offs r k) = ptr_pos r k" "24 \<le> ptr_pos r k"
    "ptr_pos r k + 4 \<le> unat (buf_len b)" "ptr_pos r k + 4 \<le> length (buf_base b)"
proof -
  from assms(2) obtain b where b: "i < length ads" "obj_buf r = ads ! i" "24 \<le> unat (obj_base r)"
    "bufs w (ads ! i) = Some b" "obj_safe b r" by (auto simp: part_of_def)
  from assms(1) b(1,4) have n: "node_buf b pa i (ads ! i)"
    by (auto simp: builder_ok_def node_def)
  then have wf: "buf_wf b" by (simp add: node_buf_def buf_wwf_wf)
  have k: "k < ucast (psize r)" using assms(3) by (simp add: word_less_nat_alt)
  note p = ptr_position [OF wf b(5) k, folded ptr_pos_def]
  have "ptr_pos r k + 4 \<le> length (buf_base b)" using p(2) wf by (simp add: buf_wf_def)
  moreover have "24 \<le> ptr_pos r k" using b(3) by (simp add: ptr_pos_def)
  ultimately show thesis using that b n p by metis
qed

text \<open>The write itself, wherever in the buffer the pointer would lie.\<close>

lemma builder_put_ptr_at:
  assumes "builder_ok w pa ads" and i: "i < length ads" "obj_buf r = ads ! i"
    and b: "bufs w (ads ! i) = Some b" and q: "unat (obj_base r + nbuf_ptr_offs r k) = q"
    and le: "q + 4 \<le> unat (buf_len b)" and j: "j < length ads" "obj_buf v = ads ! j"
  shows "builder_put_ptr w r k v = Some (put_buf w (ads ! i)
    (b\<lparr>buf_base := splice_at q (le_enc 4 j) (buf_base b)\<rparr>))"
proof -
  have ok: "pool_ok w pa ads" "length ads < 2 ^ 31" "node w pa j (ads ! j)" "node_buf b pa i (ads ! i)"
    using assms by (auto simp: builder_ok_def node_def)
  obtain pool where pool: "bufs w pa = Some pool" "buffercount pool = of_nat (length ads)"
    by (rule poolE [OF ok(1,2)])
  obtain vb where vb: "bufs w (ads ! j) = Some vb" "node_buf vb pa j (ads ! j)"
    using ok(3) by (auto simp: node_def)
  have i32: "i < 2 ^ 32" and j32: "j < 2 ^ 32" using i(1) j(1) ok(2) by simp_all
  obtain off where vm: "getmeta vb = Some \<lparr>meta_pool = pa, meta_offset = off, meta_id = of_nat j\<rparr>"
    using node_bufE [OF vb(2) j32] by blast
  have wf: "buf_wf b" and gp: "getpool b = Some pa" using node_bufE [OF ok(4) i32] by blast+
  have uj: "unat (of_nat j :: uint32) = j"
    using j32 by (simp add: unat_of_nat take_bit_nat_eq_self)
  have "ucast (of_nat j :: uint32) < (of_nat (length ads) :: size_t)"
    using j(1) ok(2) uj by (simp add: word_less_nat_alt unat_of_nat_64)
  moreover have "nbuf_write_int_safe b (obj_base r + nbuf_ptr_offs r k) 4 (ucast (of_nat j :: uint32))
      = Some (b\<lparr>buf_base := splice_at q (le_enc 4 j) (buf_base b)\<rparr>)"
    using q le uj by (simp add: write_safe_eq [OF wf] del: le_enc.simps)
  ultimately show ?thesis
    using b i(2) gp vb(1) vm pool j(2)
    by (simp add: builder_put_ptr_def NBUF_WORD_SZ_def del: le_enc.simps)
qed

lemma builder_put_ptr_eq:
  assumes "builder_ok w pa ads" and "part_of w ads i r" and "unat k < unat (psize r)"
    and "j < length ads" and "obj_buf v = ads ! j" and "bufs w (ads ! i) = Some b"
  shows "builder_put_ptr w r k v = Some (put_buf w (ads ! i)
    (b\<lparr>buf_base := splice_at (ptr_pos r k) (le_enc 4 j) (buf_base b)\<rparr>))"
proof -
  obtain b0 where b: "bufs w (obj_buf r) = Some b0" "obj_buf r = ads ! i" "i < length ads"
    "node_buf b0 pa i (ads ! i)" "obj_safe b0 r"
    "unat (obj_base r + nbuf_ptr_offs r k) = ptr_pos r k" "24 \<le> ptr_pos r k"
    "ptr_pos r k + 4 \<le> unat (buf_len b0)" "ptr_pos r k + 4 \<le> length (buf_base b0)"
    by (rule part_ptr [OF assms(1,2,3)])
  then have "ptr_pos r k + 4 \<le> unat (buf_len b)" using assms(6) by simp
  from builder_put_ptr_at [OF assms(1) b(3,2) assms(6) b(6) this assms(4,5)] show ?thesis .
qed

lemma builder_get_ptr_eq:
  assumes "builder_ok w pa ads" and "part_of w ads i r" and "unat k < unat (psize r)"
    and "bufs w (ads ! i) = Some b" and "le_val (seg (ptr_pos r k) 4 (buf_base b)) = j"
    and "0 < j" and "j < length ads"
  shows "builder_get_ptr w r k = getobj w (ads ! j)"
proof -
  have ok: "pool_ok w pa ads" "length ads < 2 ^ 31"
    using assms(1) by (simp_all add: builder_ok_def)
  obtain b0 where b: "bufs w (obj_buf r) = Some b0" "obj_buf r = ads ! i" "i < length ads"
    "node_buf b0 pa i (ads ! i)" "obj_safe b0 r"
    "unat (obj_base r + nbuf_ptr_offs r k) = ptr_pos r k" "24 \<le> ptr_pos r k"
    "ptr_pos r k + 4 \<le> unat (buf_len b0)" "ptr_pos r k + 4 \<le> length (buf_base b0)"
    by (rule part_ptr [OF assms(1,2,3)])
  have bb: "b0 = b" using b(1,2) assms(4) by simp
  obtain pool where pool: "bufs w pa = Some pool" "buffercount pool = of_nat (length ads)"
    "getbuffer pool (of_nat j) = Some (ads ! j)"
    using poolE [OF ok] assms(7) by metis
  have i32: "i < 2 ^ 32" using b(3) ok(2) by simp
  have wf: "buf_wf b" and gp: "getpool b = Some pa" using node_bufE [OF b(4) i32] bb by blast+
  have j31: "j < 2 ^ 31" using assms(7) ok(2) by simp
  have rd: "nbuf_read_int_safe b (obj_base r + nbuf_ptr_offs r k) 4 = Some (of_nat j)"
    using b(6,8) bb assms(5) int_conv4_small [OF j31] by (simp add: read_safe_eq [OF wf])
  have uj: "unat (of_nat j :: size_t) = j" using j31 by (simp add: unat_of_nat_64)
  have "sint (of_nat j :: size_t) = int j"
    using j31 uj by (simp add: sint_uint signed_take_bit_int_eq_self uint_nat)
  then have s: "sint (of_nat j :: size_t) > 0" using assms(6) by simp
  have nz: "(of_nat j :: size_t) \<noteq> 0" using uj assms(6) by (metis less_numeral_extra(3) unat_0)
  have lt: "(of_nat j :: size_t) < of_nat (length ads)"
    using uj assms(7) ok(2) by (simp add: word_less_nat_alt unat_of_nat_64)
  have "\<not> ucast (psize r) \<le> k" using assms(3) by (simp add: word_le_nat_alt)
  then show ?thesis
    using b(1,2) bb gp rd nz s lt pool
    by (simp add: builder_get_ptr_def NBUF_WORD_SZ_def Let_def)
qed

lemma builder_get_ptr_zero:
  assumes "builder_ok w pa ads" and "part_of w ads i r" and "unat k < unat (psize r)"
    and "bufs w (ads ! i) = Some b" and "le_val (seg (ptr_pos r k) 4 (buf_base b)) = 0"
  shows "builder_get_ptr w r k = Some (null_obj (obj_buf r))"
proof -
  obtain b0 where b: "bufs w (obj_buf r) = Some b0" "obj_buf r = ads ! i" "i < length ads"
    "node_buf b0 pa i (ads ! i)" "unat (obj_base r + nbuf_ptr_offs r k) = ptr_pos r k"
    "ptr_pos r k + 4 \<le> unat (buf_len b0)"
    by (rule part_ptr [OF assms(1,2,3)]) blast
  have bb: "b0 = b" using b(1,2) assms(4) by simp
  have "i < 2 ^ 32" using b(3) assms(1) by (simp add: builder_ok_def)
  then have gp: "getpool b = Some pa" and wf: "buf_wf b" using node_bufE [OF b(4)] bb by blast+
  have "nbuf_read_int_safe b (obj_base r + nbuf_ptr_offs r k) 4 = Some 0"
    using b(5,6) bb assms(5) int_conv4_small [of 0] by (simp add: read_safe_eq [OF wf])
  then show ?thesis
    using b(1,2) bb gp by (simp add: builder_get_ptr_def NBUF_WORD_SZ_def Let_def)
qed

definition node_obj :: "world \<Rightarrow> nat \<Rightarrow> nbuf_obj" where
  "node_obj w x = (case bufs w x of Some b \<Rightarrow> obj_in b x | None \<Rightarrow> null_obj x)"

lemma getobj_node:
  assumes "builder_ok w pa ads" and "j < length ads"
  shows "getobj w (ads ! j) = Some (node_obj w (ads ! j))"
proof -
  obtain b where b: "bufs w (ads ! j) = Some b" "node_buf b pa j (ads ! j)"
    using assms by (auto simp: builder_ok_def node_def)
  have "j < 2 ^ 32" using assms by (simp add: builder_ok_def)
  then show ?thesis
    using node_bufE [OF b(2)] b(1) by (metis (no_types, lifting) bind.bind_lunit getobj_def node_obj_def option.simps(5))
qed

lemma builder_put_get:
  assumes ok: "builder_ok w pa ads" and r: "part_of w ads i r" and k: "unat k < unat (psize r)"
    and j: "0 < j" "j < length ads"
  shows "\<exists>w'. builder_put_ptr w r k (node_obj w (ads ! j)) = Some w' \<and> builder_ok w' pa ads \<and>
    builder_get_ptr w' r k = Some (node_obj w (ads ! j)) \<and>
    (\<forall>x. node_obj w' x = node_obj w x) \<and> (\<forall>m q. part_of w ads m q \<longrightarrow> part_of w' ads m q) \<and>
    next_addr w' = next_addr w"
proof -
  obtain b where b: "bufs w (obj_buf r) = Some b" "obj_buf r = ads ! i" "i < length ads"
    "node_buf b pa i (ads ! i)" "obj_safe b r"
    "unat (obj_base r + nbuf_ptr_offs r k) = ptr_pos r k" "24 \<le> ptr_pos r k"
    "ptr_pos r k + 4 \<le> unat (buf_len b)" "ptr_pos r k + 4 \<le> length (buf_base b)"
    by (rule part_ptr [OF ok r k])
  have bi: "bufs w (ads ! i) = Some b" using b(1,2) by simp
  define b' where "b' = b\<lparr>buf_base := splice_at (ptr_pos r k) (le_enc 4 j) (buf_base b)\<rparr>"
  define w' where "w' = put_buf w (ads ! i) b'"
  have "obj_buf (node_obj w (ads ! j)) = ads ! j"
    by (simp add: node_obj_def split: option.split)
  from builder_put_ptr_eq [OF ok r k j(2) this bi]
  have put: "builder_put_ptr w r k (node_obj w (ads ! j)) = Some w'"
    by (simp add: w'_def b'_def)
  have room: "ptr_pos r k + length (le_enc 4 j) \<le> length (buf_base b)"
    using b(9) by (simp del: le_enc.simps)
  have nb: "node_buf b' pa i (ads ! i)"
    unfolding b'_def by (rule node_buf_splice [OF b(4,7) room])
  have ok': "builder_ok w' pa ads" unfolding w'_def by (rule builder_ok_update [OF ok b(3) nb])
  have "obj_in b' (ads ! i) = obj_in b (ads ! i)"
    unfolding b'_def by (rule obj_in_splice [OF b(7) room])
  then have same: "node_obj w' x = node_obj w x" for x
    using bi by (auto simp: node_obj_def w'_def)
  have "obj_safe b' q = obj_safe b q" for q by (rule obj_safe_len) (simp add: b'_def)
  then have part: "part_of w' ads m q" if "part_of w ads m q" for m q
    using that bi by (cases "ads ! m = ads ! i") (simp_all add: part_of_def w'_def)
  have j32: "j < 256 ^ 4" using j(2) ok by (simp add: builder_ok_def)
  have "le_val (seg (ptr_pos r k) 4 (buf_base b')) = j"
    using room j32 by (simp add: b'_def slice_splice_same le_val_enc del: le_enc.simps)
  then have "builder_get_ptr w' r k = getobj w' (ads ! j)"
    by (intro builder_get_ptr_eq [OF ok' part [OF r] k _ _ j]) (simp_all add: w'_def)
  then have "builder_get_ptr w' r k = Some (node_obj w (ads ! j))"
    using getobj_node [OF ok' j(2)] same by simp
  then show ?thesis using put ok' same part by (auto simp: w'_def)
qed

text \<open>
  Claim C20.  In a builder, setting a pointer of an object (or of an element of it) to any object but
  the root trips no \<^verbatim>\<open>assert\<close>, keeps the builder well formed with all its objects as they were, and
  following the pointer then gives that object.
\<close>

theorem builder_ptr_read_back:
  assumes "builder_ok w pa ads" and "part_of w ads i r" and "unat k < unat (psize r)"
    and "0 < j" and "j < length ads"
  shows "\<exists>w'. builder_put_ptr w r k (node_obj w (ads ! j)) = Some w' \<and> builder_ok w' pa ads \<and>
    builder_get_ptr w' r k = Some (node_obj w (ads ! j)) \<and>
    (\<forall>x. node_obj w' x = node_obj w x)"
  using builder_put_get [OF assms] by blast

section \<open>Creating objects in a builder\<close>

lemma wire_header_splice_below:
  "p + length ys \<le> length xs \<Longrightarrow> p + length ys \<le> q \<Longrightarrow> q + 8 \<le> length xs \<Longrightarrow>
    wire_header (splice_at p ys xs) q = wire_header xs q"
  by (intro wire_header_splice) simp_all

lemma node_created:
  assumes able: "creatable b n s p" and len: "buf_len b = 16" and op: "buf_ops b = builder_ops"
    and cr: "created b (fresh_obj x b n s p) b1" and pa: "pa < 2 ^ 64" and i: "i < 2 ^ 32"
  defines "blk \<equiv> splice_at 12 (le_enc 4 i) (splice_at 0 (le_enc 8 pa) (buf_base b1))"
  shows "set_meta_pool b1 pa = Some (b1\<lparr>buf_base := splice_at 0 (le_enc 8 pa) (buf_base b1)\<rparr>)"
    and "set_meta_id (b1\<lparr>buf_base := splice_at 0 (le_enc 8 pa) (buf_base b1)\<rparr>) (of_nat i)
      = Some (b1\<lparr>buf_base := blk\<rparr>)"
    and "node_buf (b1\<lparr>buf_base := blk\<rparr>) pa i x"
    and "obj_in (b1\<lparr>buf_base := blk\<rparr>) x = fresh_obj x b n s p"
proof -
  let ?r = "fresh_obj x b n s p"
  have c: "buf_wwf b1" "unat (buf_len b1) \<le> length (buf_base b1)" "buf_ops b1 = builder_ops"
    "24 \<le> unat (buf_len b1)" "wire_header (buf_base b1) 16 = (unat n, unat s, unat p)"
    "unat (obj_base ?r) = 24"
    using cr len op buf_wwf_wf [of b1]
    by (auto simp: created_def extends_def buf_wf_def)
  then have l24: "24 \<le> length (buf_base b1)" by simp
  have ui: "unat (of_nat i :: uint32) = i" using i by (simp add: unat_of_nat take_bit_nat_eq_self)
  show "set_meta_pool b1 pa = Some (b1\<lparr>buf_base := splice_at 0 (le_enc 8 pa) (buf_base b1)\<rparr>)"
    using l24 by (simp add: set_meta_pool_def store_def del: le_enc.simps)
  show "set_meta_id (b1\<lparr>buf_base := splice_at 0 (le_enc 8 pa) (buf_base b1)\<rparr>) (of_nat i)
      = Some (b1\<lparr>buf_base := blk\<rparr>)"
    using l24 ui by (simp add: set_meta_id_def store_def blk_def del: le_enc.simps)
  have lb: "length blk = length (buf_base b1)" using l24 by (simp add: blk_def)
  have h: "wire_header blk 16 = (unat n, unat s, unat p)"
    using c(5) l24 unfolding blk_def by (simp add: wire_header_splice_below)
  show oi: "obj_in (b1\<lparr>buf_base := blk\<rparr>) x = ?r"
    using h len by (simp add: obj_in_def header_obj_def fresh_obj_def null_obj_def Let_def)
  have "in_bounds b1 ?r" by (rule created_in_bounds [OF able cr])
  then have st: "stored (b1\<lparr>buf_base := blk\<rparr>) ?r"
    using h c(4,6) by (simp add: stored_def in_bounds_def)
  have "le_val (seg 12 4 blk) = i"
    using l24 i unfolding blk_def by (simp add: slice_splice_same le_val_enc del: le_enc.simps)
  moreover have "seg 0 8 blk = seg 0 8 (splice_at 0 (le_enc 8 pa) (buf_base b1))"
    using l24 unfolding blk_def by (intro slice_splice_other) simp_all
  then have "le_val (seg 0 8 blk) = pa"
    using l24 pa by (simp add: slice_splice_same le_val_enc del: le_enc.simps)
  ultimately show "node_buf (b1\<lparr>buf_base := blk\<rparr>) pa i x"
    using c lb st oi by (simp add: node_buf_def buf_wwf_def)
qed

text \<open>The layouts \<^verbatim>\<open>create\<close> is meant to be called with.\<close>

definition layout_ok :: "uint32 \<Rightarrow> uint16 \<Rightarrow> uint16 \<Rightarrow> bool" where
  "layout_ok n s p \<longleftrightarrow> (p \<noteq> 0 \<longrightarrow> unat s mod 4 = 0) \<and> (s = 0 \<and> p = 0 \<longrightarrow> unat n + 7 < 2 ^ 32)"

lemma new_node:
  assumes lay: "layout_ok n s p" and al: "\<And>k. grants al k" and pa: "pa < 2 ^ 64" and i: "i < 2 ^ 32"
  defines "b0 \<equiv> \<lparr>buf_base = [], buf_len = 0, buf_cap = 0, buf_ops = builder_ops\<rparr>"
  shows "\<exists>b b1 b2 b3. nbuf_reserve al b0 (NBUF_ROUNDUP 16 NBUF_ALIGN) = Some (True, b) \<and>
    nbuf_create_plain al x (b\<lparr>buf_len := buf_len b + 16\<rparr>) n s p
      = Some (\<lparr>obj_buf = x, obj_base = 24, nelem = n, ssize = s, psize = p\<rparr>, b1) \<and>
    set_meta_pool b1 pa = Some b2 \<and> set_meta_id b2 (of_nat i) = Some b3 \<and>
    node_buf b3 pa i x \<and>
    obj_in b3 x = \<lparr>obj_buf = x, obj_base = 24, nelem = n, ssize = s, psize = p\<rparr>"
proof -
  have w0: "buf_wwf b0" by (simp add: b0_def buf_wwf_def)
  have "unat (buf_len b0) + unat (16 :: size_t) < 2 ^ 62" by (simp add: b0_def)
  then obtain b where b: "nbuf_reserve al b0 16 = Some (True, b)" "reserved b0 16 b"
    using reserve_cases [OF w0, of 16 al] al by auto
  then have f: "buf_wwf b" "buf_len b = 0" "buf_ops b = builder_ops" "16 \<le> length (buf_base b)"
    by (simp_all add: reserved_def b0_def)
  let ?b = "b\<lparr>buf_len := buf_len b + 16\<rparr>"
  have able: "creatable ?b n s p"
    using f lay obj_bytes_lt [of "fresh_obj 0 ?b n s p"]
    by (auto simp: creatable_def buf_wwf_def word_le_nat_alt layout_ok_def)
  have base: "fresh_obj x ?b n s p = \<lparr>obj_buf = x, obj_base = 24, nelem = n, ssize = s, psize = p\<rparr>"
    using f by (simp add: fresh_obj_def)
  show ?thesis
  proof (cases rule: create_cases [OF able, of al x])
    case (2)
    then show ?thesis using al by simp
  next
    case (1 b1)
    have l16: "buf_len ?b = 16" "buf_ops ?b = builder_ops" using f by simp_all
    from node_created [OF able l16 1(2) pa i] show ?thesis
      using 1(1) b(1) unfolding base roundup_meta b0_def [symmetric] by blast
  qed
qed

lemma pool_extended:
  assumes pool: "pool_ok w pa ads" and l: "length ads + 1 < 2 ^ 31" and al: "\<And>k. grants al k"
    and x: "x < 2 ^ 64"
  shows "\<exists>p0 p1 p2. bufs w pa = Some p0 \<and> nbuf_reserve al p0 8 = Some (True, p1) \<and>
    buffercount p1 = of_nat (length ads) \<and>
    putbuffer (p1\<lparr>buf_len := buf_len p1 + 8\<rparr>) (of_nat (length ads)) x = Some p2 \<and>
    buf_wwf p2 \<and> buf_ops p2 = builder_ops \<and> unat (buf_len p2) = 8 * (length (ads @ [x]) + 1) \<and>
    le_val (seg 0 8 (buf_base p2)) = pa \<and>
    (\<forall>i < length (ads @ [x]). le_val (seg (8 * (i + 1)) 8 (buf_base p2)) = (ads @ [x]) ! i)"
proof -
  from pool obtain p0 where p: "bufs w pa = Some p0" "buf_wwf p0" "buf_ops p0 = builder_ops"
    "unat (buf_len p0) = 8 * (length ads + 1)" "le_val (seg 0 8 (buf_base p0)) = pa"
    "\<And>i. i < length ads \<Longrightarrow> le_val (seg (8 * (i + 1)) 8 (buf_base p0)) = ads ! i"
    by (auto simp: pool_ok_def)
  have "unat (buf_len p0) + unat (8 :: size_t) < 2 ^ 62" using p(4) l by simp
  then obtain p1 where r: "nbuf_reserve al p0 8 = Some (True, p1)" "reserved p0 8 p1"
    using reserve_cases [OF p(2), of 8 al] al by auto
  then have f: "buf_wwf p1" "buf_len p1 = buf_len p0" "buf_ops p1 = builder_ops"
    "unat (buf_len p0) + 8 \<le> length (buf_base p1)"
    "take (length (buf_base p0)) (buf_base p1) = buf_base p0"
    using p(3) by (simp_all add: reserved_def)
  let ?L = "8 * (length ads + 1)"
  have l0: "?L \<le> length (buf_base p0)" using p(2,4) by (simp add: buf_wwf_def word_le_nat_alt)
  have old: "seg q 8 (buf_base p1) = seg q 8 (buf_base p0)" if "q + 8 \<le> ?L" for q
    using that l0 slice_take [of q 8 "length (buf_base p0)" "buf_base p1"] f(5) by simp
  have "unat (buf_len p1 div 8) = length ads + 1" using p(4) f(2) by (simp add: unat_div)
  then have "buf_len p1 div 8 = of_nat (length ads + 1)" by (metis of_nat_unat ucast_id)
  then have bc: "buffercount p1 = of_nat (length ads)" by (simp add: buffercount_def)
  define p2 where "p2 = p1\<lparr>buf_len := buf_len p1 + 8, buf_base := splice_at ?L (le_enc 8 x) (buf_base p1)\<rparr>"
  have len8: "unat (buf_len p1 + 8) = ?L + 8"
    using p(4) f(2) l by (subst unat_add_nowrap) simp_all
  have i1: "unat (of_nat (length ads) + 1 :: size_t) = length ads + 1"
    using l unat_of_nat_64 [of "length ads + 1"] by (simp add: add.commute)
  then have i8: "unat ((of_nat (length ads) + 1) * 8 :: size_t) = ?L"
    using l by (subst unat_mult_nowrap) simp_all
  have room: "?L + length (le_enc 8 x) \<le> length (buf_base p1)"
    using f(4) p(4) by (simp del: le_enc.simps)
  have pb: "putbuffer (p1\<lparr>buf_len := buf_len p1 + 8\<rparr>) (of_nat (length ads)) x = Some p2"
    using i1 i8 len8 room
    by (simp add: putbuffer_def word_less_nat_alt store_def p2_def del: le_enc.simps)
  have wf: "buf_wwf p2"
    using f(1) room len8 by (simp add: p2_def buf_wwf_def word_le_nat_alt)
  have keep: "seg q 8 (buf_base p2) = seg q 8 (buf_base p0)" if "q + 8 \<le> ?L" for q
    using that room old [OF that] by (simp add: p2_def slice_splice_other)
  have new: "le_val (seg ?L 8 (buf_base p2)) = x"
    using room x by (simp add: p2_def slice_splice_same le_val_enc del: le_enc.simps)
  have "le_val (seg (8 * (i + 1)) 8 (buf_base p2)) = (ads @ [x]) ! i"
    if "i < length (ads @ [x])" for i
  proof (cases "i = length ads")
    case False
    then have "i < length ads" using that by simp
    then show ?thesis using keep [of "8 * (i + 1)"] p(6) by (simp add: nth_append)
  qed (use new in simp)
  moreover have "le_val (seg 0 8 (buf_base p2)) = pa" using keep [of 0] p(5) by simp
  moreover have "buf_ops p2 = builder_ops" "unat (buf_len p2) = 8 * (length (ads @ [x]) + 1)"
    using f(3) len8 by (simp_all add: p2_def)
  ultimately show ?thesis using p(1) r(1) bc pb wf by blast
qed

lemma builder_getpool:
  assumes "builder_ok w pa ads" and "a \<in> set (pa # ads)"
  shows "\<exists>b. bufs w a = Some b \<and> getpool b = Some pa \<and> buf_ops b = builder_ops"
proof (cases "a = pa")
  case True
  have "pool_ok w pa ads" "length ads < 2 ^ 31" using assms(1) by (simp_all add: builder_ok_def)
  from poolE [OF this] True show ?thesis by metis
next
  case False
  then obtain i where i: "i < length ads" "a = ads ! i"
    using assms(2) by (auto simp: in_set_conv_nth)
  then obtain b where b: "bufs w a = Some b" "node_buf b pa i a"
    using assms(1) by (auto simp: builder_ok_def node_def)
  have "i < 2 ^ 32" using i assms(1) by (simp add: builder_ok_def)
  from node_bufE [OF b(2) this] b(1) show ?thesis by metis
qed

lemma builder_create_ok:
  assumes ok: "builder_ok w pa ads" and a: "a \<in> set (pa # ads)" and lay: "layout_ok n s p"
    and al: "\<And>k. grants al k" and room: "length ads + 1 < 2 ^ 31" "next_addr w + 1 < 2 ^ 64"
  defines "x \<equiv> next_addr w"
  defines "r \<equiv> \<lparr>obj_buf = x, obj_base = 24, nelem = n, ssize = s, psize = p\<rparr>"
  shows "\<exists>w'. builder_create al w a n s p = Some (r, w') \<and> builder_ok w' pa (ads @ [x]) \<and>
    node_obj w' x = r \<and> (\<forall>y \<in> set ads. bufs w' y = bufs w y) \<and> next_addr w' = Suc x"
proof -
  obtain b where b: "bufs w a = Some b" "getpool b = Some pa" using builder_getpool [OF ok a] by blast
  have o: "pool_ok w pa ads" "distinct (pa # ads)" "\<And>y. y \<in> set (pa # ads) \<Longrightarrow> 0 < y \<and> y < x"
    using ok by (auto simp: builder_ok_def x_def)
  have x64: "x < 2 ^ 64" and xn: "x \<noteq> pa" "x \<notin> set ads" using room(2) o(3) by (auto simp: x_def)
  have pa64: "pa < 2 ^ 64" using o(3) [of pa] x64 by simp
  obtain p0 p1 p2 where p: "bufs w pa = Some p0" "nbuf_reserve al p0 8 = Some (True, p1)"
    "buffercount p1 = of_nat (length ads)"
    "putbuffer (p1\<lparr>buf_len := buf_len p1 + 8\<rparr>) (of_nat (length ads)) x = Some p2"
    "buf_wwf p2" "buf_ops p2 = builder_ops" "unat (buf_len p2) = 8 * (length (ads @ [x]) + 1)"
    "le_val (seg 0 8 (buf_base p2)) = pa"
    "\<forall>i < length (ads @ [x]). le_val (seg (8 * (i + 1)) 8 (buf_base p2)) = (ads @ [x]) ! i"
    using pool_extended [OF o(1) room(1) al x64] by blast
  have i32: "length ads < 2 ^ 32" using room(1) by simp
  obtain b0 b1 b2 b3 where n: "nbuf_reserve al
        \<lparr>buf_base = [], buf_len = 0, buf_cap = 0, buf_ops = builder_ops\<rparr> (NBUF_ROUNDUP 16 NBUF_ALIGN)
      = Some (True, b0)"
    "nbuf_create_plain al x (b0\<lparr>buf_len := buf_len b0 + 16\<rparr>) n s p = Some (r, b1)"
    "set_meta_pool b1 pa = Some b2" "set_meta_id b2 (of_nat (length ads)) = Some b3"
    "node_buf b3 pa (length ads) x" "obj_in b3 x = r"
    using new_node [OF lay al pa64 i32] unfolding r_def by blast
  have "ucast (of_nat (length ads) :: size_t) = (of_nat (length ads) :: uint32)"
    by (rule ucast_of_nat) simp
  moreover have "ucast (of_nat (length ads) :: uint32) = (of_nat (length ads) :: size_t)"
    using i32 by (simp add: word_unat_eq_iff unat_of_nat take_bit_nat_eq_self)
  ultimately have cast: "ucast (buffercount p1) = (of_nat (length ads) :: uint32)"
    "ucast (ucast (buffercount p1) :: uint32) = (of_nat (length ads) :: size_t)"
    using p(3) by simp_all
  define w2 where "w2 = (put_buf w pa p1)\<lparr>next_addr := Suc x\<rparr>"
  define w' where "w' = put_buf (put_buf w2 x b3) pa p2"
  have m: "malloc_buf al (put_buf w pa p1) = Some (x, w2)"
    using al by (simp add: malloc_buf_def w2_def x_def)
  have "bufs w2 pa = Some p1" by (simp add: w2_def)
  then have "builder_fill al w2 pa x b0 n s p = Some (r, w')"
    using n cast p(4) by (simp add: builder_fill_def Let_def w'_def)
  then have cr: "builder_create al w a n s p = Some (r, w')"
    using b p(1,2) m n(1) by (simp add: builder_create_def)
  have w': "bufs w' pa = Some p2" "bufs w' x = Some b3" "next_addr w' = Suc x"
    using xn by (simp_all add: w'_def w2_def)
  have keep: "bufs w' y = bufs w y" if "y \<in> set ads" for y
  proof -
    have "y \<noteq> pa" "y \<noteq> x" using that o(2) xn by auto
    then show ?thesis by (simp add: w'_def w2_def)
  qed
  have "pool_ok w' pa (ads @ [x])" using p(5-9) w'(1) by (simp add: pool_ok_def)
  moreover have "node w' pa i ((ads @ [x]) ! i)" if "i < length (ads @ [x])" for i
  proof (cases "i = length ads")
    case True
    then show ?thesis using n(5) w'(2) by (simp add: node_def)
  next
    case False
    then have "i < length ads" using that by simp
    then show ?thesis using ok keep by (simp add: builder_ok_def node_def nth_append)
  qed
  moreover have "0 < x" using o(3) [of pa] by simp
  ultimately have "builder_ok w' pa (ads @ [x])"
    using o(2,3) xn room w'(3) x_def by (auto simp: builder_ok_def less_SucI)
  moreover have "node_obj w' x = r" using w'(2) n(6) by (simp add: node_obj_def)
  ultimately show ?thesis using cr keep w'(3) by blast
qed

text \<open>
  Claim C21.  Creating an object in a builder, with memory granted: \<^verbatim>\<open>create\<close> trips no \<^verbatim>\<open>assert\<close>, the new
  object is the last of the pool and opens with the layout asked for, the builder stays well formed
  and the buffers of all other objects are untouched.
\<close>

theorem builder_create_appends:
  assumes "builder_ok w pa ads" and "a \<in> set (pa # ads)" and "layout_ok n s p"
    and "\<And>k. grants al k" and "length ads + 1 < 2 ^ 31" and "next_addr w + 1 < 2 ^ 64"
  shows "\<exists>r w'. builder_create al w a n s p = Some (r, w') \<and>
    nelem r = n \<and> ssize r = s \<and> psize r = p \<and>
    builder_ok w' pa (ads @ [next_addr w]) \<and> getobj w' (next_addr w) = Some r \<and>
    (\<forall>y \<in> set ads. bufs w' y = bufs w y)"
proof -
  let ?r = "\<lparr>obj_buf = next_addr w, obj_base = 24, nelem = n, ssize = s, psize = p\<rparr>"
  obtain w' where w': "builder_create al w a n s p = Some (?r, w')"
    "builder_ok w' pa (ads @ [next_addr w])" "node_obj w' (next_addr w) = ?r"
    "\<forall>y \<in> set ads. bufs w' y = bufs w y"
    using builder_create_ok [OF assms] by blast
  have "length ads < length (ads @ [next_addr w])" by simp
  from getobj_node [OF w'(2) this] have "getobj w' (next_addr w) = Some ?r" using w'(3) by simp
  then show ?thesis using w' by (intro exI [of _ ?r] exI [of _ w']) simp
qed

section \<open>Starting a builder\<close>

lemma init_builder_ok:
  assumes "bufs w a = Some old" and "0 < a" and "a < next_addr w" and "next_addr w < 2 ^ 64"
    and "\<And>k. grants al k" and "unat sz < 2 ^ 32"
  shows "\<exists>w'. nbuf_init_builder al w a sz = Some (True, w') \<and> builder_ok w' a [] \<and>
    next_addr w' = next_addr w"
proof -
  let ?b = "old\<lparr>buf_base := [], buf_len := 0, buf_cap := 0\<rparr>"
  have w: "buf_wwf ?b" by (simp add: buf_wwf_def)
  have s1: "unat (sz + 1) = unat sz + 1" using assms(6) by (subst unat_add_nowrap) simp_all
  then have s: "unat ((sz + 1) * 8) = 8 * (unat sz + 1)"
    using assms(6) by (subst unat_mult_nowrap) simp_all
  then have "unat (buf_len ?b) + unat ((sz + 1) * 8) < 2 ^ 62" using assms(6) by simp
  then obtain b where b: "nbuf_reserve al ?b ((sz + 1) * 8) = Some (True, b)"
    "reserved ?b (unat ((sz + 1) * 8)) b"
    using reserve_cases [OF w, of "(sz + 1) * 8" al] assms(5) by metis
  then have f: "buf_wwf b" "buf_len b = 0" "8 \<le> length (buf_base b)"
    using s by (simp_all add: reserved_def)
  define b' where "b' = b\<lparr>buf_base := splice_at 0 (le_enc 8 a) (buf_base b), buf_len := buf_len b + 8,
    buf_ops := builder_ops\<rparr>"
  have a64: "a < 256 ^ 8" using assms(3,4) by simp
  have st: "store (buf_base b) 0 (le_enc 8 a) = Some (buf_base b')"
    using f(3) by (simp add: store_def b'_def del: le_enc.simps)
  have "buf_wwf b'" "unat (buf_len b') = 8" "buf_ops b' = builder_ops"
    using f by (simp_all add: b'_def buf_wwf_def word_le_nat_alt del: le_enc.simps)
  moreover have "le_val (seg 0 8 (buf_base b')) = a"
    using f(3) a64 by (simp add: b'_def slice_splice_same le_val_enc del: le_enc.simps)
  ultimately have "builder_ok (put_buf w a b') a []"
    using assms(2-4) by (simp add: builder_ok_def pool_ok_def)
  moreover have "nbuf_init_builder al w a sz = Some (True, put_buf w a b')"
    using assms(1) b(1) st by (simp add: nbuf_init_builder_def b'_def)
  ultimately show ?thesis by auto
qed

text \<open>
  Starting a builder, with memory granted, gives an empty well-formed builder.
\<close>

lemma init_builder_starts_empty:
  assumes "bufs w a = Some old" and "0 < a" and "a < next_addr w" and "next_addr w < 2 ^ 64"
    and "\<And>k. grants al k" and "unat sz < 2 ^ 32"
  shows "\<exists>w'. nbuf_init_builder al w a sz = Some (True, w') \<and> builder_ok w' a []"
  using init_builder_ok [OF assms] by blast

text \<open>A world with one buffer on the stack, and a builder with two objects made in it.\<close>

definition demo_world :: world where
  "demo_world = \<lparr>bufs = (\<lambda>_. None)(1 := Some (nbuf_init_read [] 0)), next_addr = 2\<rparr>"

lemma roomy_grants: "grants roomy_al k"
  by (simp add: roomy_al_def)

lemma init_builder_starts_empty_witness:
  "\<exists>w'. nbuf_init_builder roomy_al demo_world 1 4 = Some (True, w') \<and> builder_ok w' 1 []"
  using init_builder_starts_empty [of demo_world 1 "nbuf_init_read [] 0" roomy_al 4] roomy_grants
  by (simp add: demo_world_def)

lemma demo_builder_1:
  "\<exists>w. builder_ok w 1 [2] \<and> next_addr w = 3 \<and>
    node_obj w 2 = \<lparr>obj_buf = 2, obj_base = 24, nelem = 2, ssize = 4, psize = 1\<rparr>"
proof -
  obtain w0 where w0: "builder_ok w0 1 []" "next_addr w0 = 2"
    using init_builder_ok [of demo_world 1 "nbuf_init_read [] 0" roomy_al 4] roomy_grants
    by (auto simp: demo_world_def)
  have l: "layout_ok 2 4 1" by (simp add: layout_ok_def)
  have "1 \<in> set [1]" by simp
  from builder_create_ok [OF w0(1) this l, of roomy_al] w0(2) roomy_grants show ?thesis by auto
qed

lemma demo_builder_2:
  "\<exists>w. builder_ok w 1 [2, 3] \<and> next_addr w = 4 \<and>
    node_obj w 2 = \<lparr>obj_buf = 2, obj_base = 24, nelem = 2, ssize = 4, psize = 1\<rparr> \<and>
    node_obj w 3 = \<lparr>obj_buf = 3, obj_base = 24, nelem = 3, ssize = 1, psize = 0\<rparr>"
proof -
  obtain w where w: "builder_ok w 1 [2]" "next_addr w = 3"
    "node_obj w 2 = \<lparr>obj_buf = 2, obj_base = 24, nelem = 2, ssize = 4, psize = 1\<rparr>"
    using demo_builder_1 by blast
  have l: "layout_ok 3 1 0" by (simp add: layout_ok_def)
  have a: "2 \<in> set [1, 2]" by simp
  obtain w' where w': "builder_ok w' 1 ([2] @ [3])" "next_addr w' = 4" "bufs w' 2 = bufs w 2"
    "node_obj w' 3 = \<lparr>obj_buf = 3, obj_base = 24, nelem = 3, ssize = 1, psize = 0\<rparr>"
    using builder_create_ok [OF w(1) a l, of roomy_al] w(2) roomy_grants by auto
  have "node_obj w' 2 = node_obj w 2" using w'(3) by (simp add: node_obj_def)
  then show ?thesis using w w' by auto
qed

lemma node_part_of:
  assumes "builder_ok w pa ads" and "i < length ads" and "nelem (node_obj w (ads ! i)) \<noteq> 0"
  shows "part_of w ads i (node_obj w (ads ! i))"
proof -
  obtain b where b: "bufs w (ads ! i) = Some b" "node_buf b pa i (ads ! i)"
    using assms(1,2) by (auto simp: builder_ok_def node_def)
  then have "node_obj w (ads ! i) = obj_in b (ads ! i)" by (simp add: node_obj_def)
  then show ?thesis
    using assms(2,3) b by (auto simp: part_of_def node_buf_def stored_def obj_safe_def)
qed

theorem builder_create_appends_witness:
  "\<exists>r w w'. builder_ok w 1 [2] \<and> builder_create roomy_al w 2 7 4 1 = Some (r, w') \<and> nelem r = 7 \<and>
    getobj w' 3 = Some r"
proof -
  obtain w where w: "builder_ok w 1 [2]" "next_addr w = 3" using demo_builder_1 by blast
  have a: "2 \<in> set [1, 2]" and l: "layout_ok 7 4 1" by (simp_all add: layout_ok_def)
  from builder_create_appends [OF w(1) a l, of roomy_al] w roomy_grants show ?thesis by auto
qed

theorem builder_ptr_read_back_witness:
  "\<exists>w w' r. builder_ok w 1 [2, 3] \<and> builder_put_ptr w r 0 (node_obj w 3) = Some w' \<and>
    builder_get_ptr w' r 0 = Some (node_obj w 3)"
proof -
  obtain w where w: "builder_ok w 1 [2, 3]"
    "node_obj w 2 = \<lparr>obj_buf = 2, obj_base = 24, nelem = 2, ssize = 4, psize = 1\<rparr>"
    using demo_builder_2 by blast
  have p: "part_of w [2, 3] 0 (node_obj w 2)"
    using node_part_of [OF w(1), of 0] w(2) by simp
  have k: "unat (0 :: size_t) < unat (psize (node_obj w 2))" using w(2) by simp
  from builder_ptr_read_back [OF w(1) p k, of 1] w(1) show ?thesis by auto
qed

text \<open>
  Claim C39.  The root of a builder has index 0, which in a pointer means none: after a pointer has been
  set to the root it reads as the empty object.
\<close>

theorem pointer_to_root_is_lost:
  assumes "builder_ok w pa ads" and "part_of w ads i r" and "unat k < unat (psize r)"
    and "obj_buf v = ads ! 0"
  shows "\<exists>w'. builder_put_ptr w r k v = Some w' \<and> builder_get_ptr w' r k = Some (null_obj (obj_buf r))"
proof -
  obtain b where b: "bufs w (obj_buf r) = Some b" "obj_buf r = ads ! i" "i < length ads"
    "node_buf b pa i (ads ! i)" "obj_safe b r"
    "unat (obj_base r + nbuf_ptr_offs r k) = ptr_pos r k" "24 \<le> ptr_pos r k"
    "ptr_pos r k + 4 \<le> unat (buf_len b)" "ptr_pos r k + 4 \<le> length (buf_base b)"
    by (rule part_ptr [OF assms(1-3)])
  define b' where "b' = b\<lparr>buf_base := splice_at (ptr_pos r k) (le_enc 4 0) (buf_base b)\<rparr>"
  have "0 < length ads" and bi: "bufs w (ads ! i) = Some b" using b(1-3) by auto
  from builder_put_ptr_eq [OF assms(1-3) this(1) assms(4) this(2)]
  have put: "builder_put_ptr w r k v = Some (put_buf w (ads ! i) b')" by (simp only: b'_def)
  have room: "ptr_pos r k + length (le_enc 4 0) \<le> length (buf_base b)" using b(9) by simp
  have nb: "node_buf b' pa i (ads ! i)" unfolding b'_def by (rule node_buf_splice [OF b(4,7) room])
  let ?w = "put_buf w (ads ! i) b'"
  have "obj_safe b' r" using b(5) obj_safe_len [of b' b r] by (simp add: b'_def)
  then have part: "part_of ?w ads i r" using assms(2) by (simp add: part_of_def)
  have "le_val (seg (ptr_pos r k) 4 (buf_base b')) = 0"
    using room by (simp add: b'_def slice_splice_same le_val_enc del: le_enc.simps)
  then have "builder_get_ptr ?w r k = Some (null_obj (obj_buf r))"
    by (intro builder_get_ptr_zero [OF builder_ok_update [OF assms(1) b(3) nb] part assms(3)]) simp_all
  then show ?thesis using put by blast
qed

theorem pointer_to_root_is_lost_witness:
  "\<exists>w w' r. builder_ok w 1 [2, 3] \<and> builder_put_ptr w r 0 (node_obj w 2) = Some w' \<and>
    builder_get_ptr w' r 0 = Some (null_obj 2)"
proof -
  obtain w where w: "builder_ok w 1 [2, 3]"
    "node_obj w 2 = \<lparr>obj_buf = 2, obj_base = 24, nelem = 2, ssize = 4, psize = 1\<rparr>"
    using demo_builder_2 by blast
  have p: "part_of w [2, 3] 0 (node_obj w 2)"
    using node_part_of [OF w(1), of 0] w(2) by simp
  have k: "unat (0 :: size_t) < unat (psize (node_obj w 2))" using w(2) by simp
  from pointer_to_root_is_lost [OF w(1) p k, of "node_obj w 2"] obtain w' where
    "builder_put_ptr w (node_obj w 2) 0 (node_obj w 2) = Some w'"
    "builder_get_ptr w' (node_obj w 2) 0 = Some (null_obj (obj_buf (node_obj w 2)))"
    using w(2) by auto
  then show ?thesis using w by (metis nbuf_obj.select_convs(1))
qed

text \<open>
  \<^verbatim>\<open>put_ptr\<close> of the builder lacks the guard of \<^verbatim>\<open>_nbuf_put_ptr\<close>: for an index past the pointer
  part it writes over whatever follows the element, where \<^verbatim>\<open>_nbuf_put_ptr\<close> leaves the buffer alone.
\<close>

lemma builder_put_ptr_unguarded:
  assumes "builder_ok w pa ads" and "part_of w ads i r" and "bufs w (ads ! i) = Some b"
    and "unat (psize r) \<le> unat k" and "unat k < 2 ^ 32"
    and "ptr_pos r k + 4 \<le> unat (buf_len b)" and "j < length ads" and "obj_buf v = ads ! j"
  shows "builder_put_ptr w r k v = Some (put_buf w (ads ! i)
      (b\<lparr>buf_base := splice_at (ptr_pos r k) (le_enc 4 j) (buf_base b)\<rparr>)) \<and>
    nbuf_put_ptr_plain b r k (v\<lparr>obj_buf := obj_buf r\<rparr>) = Some b"
proof
  have i: "i < length ads" "obj_buf r = ads ! i" and len: "unat (buf_len b) < 2 ^ 63"
    using assms(1-3) by (auto simp: part_of_def builder_ok_def node_def node_buf_def buf_wwf_def
        word_le_nat_alt)
  have "unat (nbuf_ptr_offs r k) = unat (ssize r) + 4 * unat k"
    using assms(5) by (intro unat_ptr_offs) simp
  moreover have "unat (obj_base r + nbuf_ptr_offs r k) = unat (obj_base r) + unat (nbuf_ptr_offs r k)"
    using assms(6) len calculation by (intro unat_add_nowrap) (simp add: ptr_pos_def)
  ultimately have "unat (obj_base r + nbuf_ptr_offs r k) = ptr_pos r k" by (simp add: ptr_pos_def)
  from builder_put_ptr_at [OF assms(1) i assms(3) this assms(6-8)]
  show "builder_put_ptr w r k v = Some (put_buf w (ads ! i)
      (b\<lparr>buf_base := splice_at (ptr_pos r k) (le_enc 4 j) (buf_base b)\<rparr>))" .
  have "ucast (psize r) \<le> k" using assms(4) by (simp add: word_le_nat_alt)
  then show "nbuf_put_ptr_plain b r k (v\<lparr>obj_buf := obj_buf r\<rparr>) = Some b"
    by (simp add: nbuf_put_ptr_plain_def)
qed

lemma builder_put_ptr_unguarded_witness:
  "\<exists>w b. bufs w 2 = Some b \<and> psize (nbuf_get_elem (obj_in b 2) 0) = 1 \<and>
    builder_put_ptr w (nbuf_get_elem (obj_in b 2) 0) 1 (node_obj w 3) = Some (put_buf w 2
      (b\<lparr>buf_base := splice_at (unat (obj_base (nbuf_get_elem (obj_in b 2) 1))) (le_enc 4 1) (buf_base b)\<rparr>))"
proof -
  obtain w where w: "builder_ok w 1 [2, 3]"
    "node_obj w 2 = \<lparr>obj_buf = 2, obj_base = 24, nelem = 2, ssize = 4, psize = 1\<rparr>"
    using demo_builder_2 by blast
  then obtain b where b: "bufs w ([2, 3] ! 0) = Some b" "node_buf b 1 0 2"
    by (auto simp: builder_ok_def node_def)
  have o: "obj_in b 2 = \<lparr>obj_buf = 2, obj_base = 24, nelem = 2, ssize = 4, psize = 1\<rparr>"
    using w(2) b by (simp add: node_obj_def)
  define r where "r = \<lparr>obj_buf = 2, obj_base = 24, nelem = 1, ssize = 4, psize = 1\<rparr>"
  have e: "nbuf_get_elem (obj_in b 2) 0 = r" "unat (obj_base (nbuf_get_elem (obj_in b 2) 1)) = 32"
    unfolding o r_def by (simp_all add: nbuf_get_elem_def nbuf_elemsz_def nbuf_ptr_offs_def
        NBUF_WORD_SZ_def null_obj_def)
  have len: "40 \<le> unat (buf_len b)"
    using b(2) unfolding node_buf_def o by (simp add: stored_def in_bounds_def obj_bytes_def esize_def)
  then have p: "part_of w [2, 3] 0 r"
    using b by (simp add: part_of_def obj_safe_def in_bounds_def obj_bytes_def esize_def r_def)
  have q: "ptr_pos r 1 = 32" by (simp add: ptr_pos_def r_def)
  have v: "obj_buf (node_obj w 3) = [2, 3] ! 1" by (simp add: node_obj_def split: option.split)
  have "builder_put_ptr w r 1 (node_obj w 3) = Some (put_buf w ([2, 3] ! 0)
      (b\<lparr>buf_base := splice_at (ptr_pos r 1) (le_enc 4 1) (buf_base b)\<rparr>))"
    using builder_put_ptr_unguarded [OF w(1) p b(1), of 1 1 "node_obj w 3"] len q v
    by (simp add: r_def)
  then show ?thesis unfolding q using b(1) e by (intro exI [of _ w] exI [of _ b]) (simp add: r_def)
qed

end
