(* ===== verification/Serialize.thy ===== *)
theory Serialize
  imports Builder
begin

text \<open>
  \<^verbatim>\<open>nbuf_serialize\<close> refines the builder: the bytes it produces, read in place by the functions of
  \<^verbatim>\<open>include/nbuf.h\<close>, show the same objects, the same scalars and the same links.  The image of an
  object is given by a function on its bytes; the loops of the code are shown to write exactly the
  images, one after the other, and the images are then read back.
\<close>

section \<open>Writing one piece after the other\<close>

lemma splice_splice_append:
  assumes "p + length ys + length zs \<le> length xs"
  shows "splice_at (p + length ys) zs (splice_at p ys xs) = splice_at p (ys @ zs) xs"
  using assms by (intro nth_equalityI) (auto simp: nth_splice_at nth_append)

lemma splice_Nil [simp]: "splice_at p [] xs = xs"
  by (simp add: splice_at_def)

lemma splice_all: "length ys = length xs \<Longrightarrow> splice_at 0 ys xs = ys"
  by (simp add: splice_at_def)

text \<open>\<open>writes f p ys\<close>: from position \<open>p\<close> on, \<open>f\<close> puts \<open>ys\<close> into any output with room for it.\<close>

definition writes ::
    "(byte list \<times> size_t \<Rightarrow> (byte list \<times> size_t) option) \<Rightarrow> nat \<Rightarrow> byte list \<Rightarrow> bool" where
  "writes f p ys \<longleftrightarrow> (\<forall>out. p + length ys \<le> length out \<longrightarrow> length out < 2 ^ 63 \<longrightarrow>
    f (out, of_nat p) = Some (splice_at p ys out, of_nat (p + length ys)))"

lemma writesD: "writes f p ys \<Longrightarrow> p + length ys \<le> length out \<Longrightarrow> length out < 2 ^ 63 \<Longrightarrow>
    f (out, of_nat p) = Some (splice_at p ys out, of_nat (p + length ys))"
  by (simp add: writes_def)

lemma writes_Nil: "writes Some p []"
  by (simp add: writes_def)

lemma writes_bind:
  assumes "writes f p ys" and "writes g (p + length ys) zs"
  shows "writes (\<lambda>st. do { st1 \<leftarrow> f st; g st1 }) p (ys @ zs)"
  unfolding writes_def
proof (intro allI impI)
  fix out :: "byte list" assume a: "p + length (ys @ zs) \<le> length out" "length out < 2 ^ 63"
  have b: "p + length ys + length zs \<le> length (splice_at p ys out)" using a by simp
  have "length (splice_at p ys out) = length out" using a by (intro length_splice_at) simp
  then show "(do { st1 \<leftarrow> f (out, of_nat p); g st1 })
      = Some (splice_at p (ys @ zs) out, of_nat (p + length (ys @ zs)))"
    using writesD [OF assms(1)] writesD [OF assms(2) b] a
    by (simp add: splice_splice_append add.assoc del: of_nat_add)
qed

lemma writes_copy_bytes:
  "src + n \<le> length blk \<Longrightarrow> writes (copy_bytes blk src n) p (seg src n blk)"
  by (simp add: writes_def copy_bytes_def load_def store_def unat_of_nat_64)

primrec ptr_img :: "(nat \<Rightarrow> nat \<Rightarrow> nat) \<Rightarrow> byte list \<Rightarrow> nat \<Rightarrow> nat \<Rightarrow> nat \<Rightarrow> byte list" where
  "ptr_img rv blk p src 0 = []"
| "ptr_img rv blk p src (Suc k) =
    le_enc 4 (rv p (le_val (seg src 4 blk))) @ ptr_img rv blk (p + 4) (src + 4) k"

lemma length_ptr_img [simp]: "length (ptr_img rv blk p src k) = 4 * k"
  by (induction k arbitrary: p src) (simp_all del: le_enc.simps)

text \<open>The code resolves the pointers of a block as \<open>rv\<close> says, for those in the given places.\<close>

definition resolves ::
    "(size_t \<Rightarrow> size_t \<Rightarrow> size_t option) \<Rightarrow> (nat \<Rightarrow> nat \<Rightarrow> nat) \<Rightarrow> byte list \<Rightarrow> nat \<Rightarrow> nat \<Rightarrow> bool" where
  "resolves rs rv blk p src \<longleftrightarrow>
    (let v = le_val (seg src 4 blk)
     in rs (of_nat p) (int_conv 4 (of_nat v)) = Some (of_nat (rv p v)) \<and> rv p v < 2 ^ 32)"

lemma write_word_eq:
  "v < 2 ^ 64 \<Longrightarrow> nbuf_write_int_unsafe out q 4 (of_nat v) =
    (if q + 4 \<le> length out then Some (splice_at q (le_enc 4 v) out) else None)"
  using write_int_eq [OF int_size_simps(3), of out q "of_nat v"] unat_of_nat_64 [of v]
  by (simp del: le_enc.simps)

lemma writes_word:
  assumes "resolves rs rv blk p src" and "src + 4 \<le> length blk"
  shows "writes (\<lambda>(out, cursor). do { oid \<leftarrow> nbuf_read_int_unsafe blk src NBUF_WORD_SZ;
      rel \<leftarrow> rs cursor oid;
      out1 \<leftarrow> nbuf_write_int_unsafe out (unat cursor) NBUF_WORD_SZ rel;
      Some (out1, cursor + NBUF_WORD_SZ) }) p (le_enc 4 (rv p (le_val (seg src 4 blk))))"
proof -
  let ?v = "rv p (le_val (seg src 4 blk))"
  have v: "rs (of_nat p) (int_conv 4 (of_nat (le_val (seg src 4 blk)))) = Some (of_nat ?v)" "?v < 2 ^ 64"
    using assms(1) by (simp_all add: resolves_def Let_def)
  have rd: "nbuf_read_int_unsafe blk src 4 = Some (int_conv 4 (of_nat (le_val (seg src 4 blk))))"
    using assms(2) by (simp add: read_int_eq)
  show ?thesis
    unfolding writes_def NBUF_WORD_SZ_def
    using v rd write_word_eq [OF v(2)] by (simp add: unat_of_nat_64 add.commute del: le_enc.simps)
qed

lemma writes_copy_ptrs:
  assumes "\<And>m. m < k \<Longrightarrow> resolves rs rv blk (p + 4 * m) (src + 4 * m)"
    and "src + 4 * k \<le> length blk"
  shows "writes (copy_ptrs rs blk src k) p (ptr_img rv blk p src k)"
  using assms
proof (induction k arbitrary: p src)
  case 0
  have "copy_ptrs rs blk src 0 = Some" by (rule ext) simp
  then show ?case by (simp add: writes_Nil)
next
  case (Suc k)
  have r0: "resolves rs rv blk p src" using Suc.prems(1) [of 0] by simp
  have w1: "writes (\<lambda>(out, cursor). do { oid \<leftarrow> nbuf_read_int_unsafe blk src NBUF_WORD_SZ;
      rel \<leftarrow> rs cursor oid;
      out1 \<leftarrow> nbuf_write_int_unsafe out (unat cursor) NBUF_WORD_SZ rel;
      Some (out1, cursor + NBUF_WORD_SZ) }) p (le_enc 4 (rv p (le_val (seg src 4 blk))))"
    using Suc.prems(2) by (intro writes_word [OF r0]) simp
  have "writes (copy_ptrs rs blk (src + 4) k) (p + 4) (ptr_img rv blk (p + 4) (src + 4) k)"
    using Suc.prems(1) [of "Suc _"] Suc.prems(2) by (intro Suc.IH) (simp_all add: algebra_simps)
  then have w2: "writes (copy_ptrs rs blk (src + 4) k)
      (p + length (le_enc 4 (rv p (le_val (seg src 4 blk))))) (ptr_img rv blk (p + 4) (src + 4) k)"
    by (simp del: le_enc.simps)
  have "copy_ptrs rs blk src (Suc k) = (\<lambda>st. do { st1 \<leftarrow> (\<lambda>(out, cursor).
      do { oid \<leftarrow> nbuf_read_int_unsafe blk src NBUF_WORD_SZ; rel \<leftarrow> rs cursor oid;
      out1 \<leftarrow> nbuf_write_int_unsafe out (unat cursor) NBUF_WORD_SZ rel;
      Some (out1, cursor + NBUF_WORD_SZ) }) st; copy_ptrs rs blk (src + 4) k st1 })"
    by (rule ext) (auto simp: bind_assoc)
  then show ?case using writes_bind [OF w1 w2] by (simp del: le_enc.simps)
qed

primrec elem_img ::
    "(nat \<Rightarrow> nat \<Rightarrow> nat) \<Rightarrow> byte list \<Rightarrow> nat \<Rightarrow> nat \<Rightarrow> nat \<Rightarrow> nat \<Rightarrow> nat \<Rightarrow> byte list" where
  "elem_img rv blk s k p src 0 = []"
| "elem_img rv blk s k p src (Suc j) =
    seg src s blk @ ptr_img rv blk (p + s) (src + s) k
      @ elem_img rv blk s k (p + s + 4 * k) (src + s + 4 * k) j"

lemma length_elem_img:
  "src + (s + 4 * k) * j \<le> length blk \<Longrightarrow> length (elem_img rv blk s k p src j) = (s + 4 * k) * j"
  by (induction j arbitrary: p src) (simp_all add: algebra_simps)

lemma writes_copy_elems:
  assumes "\<And>m l. m < j \<Longrightarrow> l < k \<Longrightarrow>
      resolves rs rv blk (p + (s + 4 * k) * m + s + 4 * l) (src + (s + 4 * k) * m + s + 4 * l)"
    and "src + (s + 4 * k) * j \<le> length blk"
  shows "writes (copy_elems rs blk s k src j) p (elem_img rv blk s k p src j)"
  using assms
proof (induction j arbitrary: p src)
  case 0
  have "copy_elems rs blk s k src 0 = Some" by (rule ext) simp
  then show ?case by (simp add: writes_Nil)
next
  case (Suc j)
  have len: "src + s + 4 * k + (s + 4 * k) * j \<le> length blk"
    using Suc.prems(2) by (simp add: algebra_simps)
  then have ls: "length (seg src s blk) = s" by simp
  have w1: "writes (copy_bytes blk src s) p (seg src s blk)"
    using len by (intro writes_copy_bytes) simp
  have w2: "writes (copy_ptrs rs blk (src + s) k) (p + length (seg src s blk))
      (ptr_img rv blk (p + s) (src + s) k)"
    unfolding ls using Suc.prems(1) [of 0] len by (intro writes_copy_ptrs) (simp_all add: add.assoc)
  have "writes (copy_elems rs blk s k (src + s + 4 * k) j) (p + s + 4 * k)
      (elem_img rv blk s k (p + s + 4 * k) (src + s + 4 * k) j)"
  proof (rule Suc.IH)
    show "resolves rs rv blk (p + s + 4 * k + (s + 4 * k) * m + s + 4 * l)
        (src + s + 4 * k + (s + 4 * k) * m + s + 4 * l)" if "m < j" "l < k" for m l
      using Suc.prems(1) [of "Suc m" l] that by (simp add: algebra_simps)
  qed (use len in simp)
  then have w3: "writes (copy_elems rs blk s k (src + s + 4 * k) j)
      (p + length (seg src s blk) + length (ptr_img rv blk (p + s) (src + s) k))
      (elem_img rv blk s k (p + s + 4 * k) (src + s + 4 * k) j)" by (simp add: ls)
  have "copy_elems rs blk s k src (Suc j) = (\<lambda>st. do { st1 \<leftarrow> copy_bytes blk src s st;
      st2 \<leftarrow> copy_ptrs rs blk (src + s) k st1; copy_elems rs blk s k (src + s + 4 * k) j st2 })"
    by (rule ext) simp
  then show ?case
    using writes_bind [OF w1 writes_bind [OF w2]] w3 by simp
qed

text \<open>Padding to the alignment.\<close>

lemma writes_pad: "writes pad_out p (replicate ((8 - p mod 8) mod 8) 0)"
proof (induction "(8 - p mod 8) mod 8" arbitrary: p)
  case 0
  then have "p mod 8 = 0" by (cases "p mod 8 = 0") simp_all
  then show ?case
    by (auto simp: writes_def pad_out.simps NBUF_ALIGN_def word_unat_eq_iff unat_mod unat_of_nat_64)
next
  case (Suc m)
  have nz: "p mod 8 \<noteq> 0" using Suc.hyps(2) by (cases "p mod 8 = 0") simp_all
  have "m = 7 - p mod 8" using Suc.hyps(2) nz by (simp add: mod_less)
  then have m: "m = (8 - (p + 1) mod 8) mod 8"
    using nz by (cases "p mod 8 = 7") (simp_all add: mod_Suc)
  note IH = Suc.hyps(1) [OF m, folded m]
  have "writes pad_out p ([0] @ replicate m 0)"
    unfolding writes_def
  proof (intro allI impI)
    fix out :: "byte list"
    assume a: "p + length ([0] @ replicate m 0) \<le> length out" "length out < 2 ^ 63"
    have up: "unat (of_nat p :: size_t) = p" using a by (simp add: unat_of_nat_64)
    then have "unat (of_nat p mod 8 :: size_t) \<noteq> 0" using nz by (simp add: unat_mod)
    then have "\<not> (of_nat p mod NBUF_ALIGN = 0)" unfolding NBUF_ALIGN_def by (metis unat_0)
    then have "pad_out (out, of_nat p) = pad_out (splice_at p [0] out, of_nat (p + 1))"
      using a up by (subst pad_out.simps) (simp add: store_def add.commute)
    also have "\<dots> = Some (splice_at (p + 1) (replicate m 0) (splice_at p [0] out), of_nat (p + 1 + m))"
      using a by (subst writesD [OF IH]) (simp_all del: of_nat_add)
    also have "splice_at (p + 1) (replicate m 0) (splice_at p [0] out)
        = splice_at p ([0] @ replicate m 0) out"
      using a splice_splice_append [of p "[0]" "replicate m 0" out] by simp
    finally show "pad_out (out, of_nat p)
        = Some (splice_at p ([0] @ replicate m 0) out, of_nat (p + length ([0] @ replicate m 0)))"
      by simp
  qed
  then show ?case using Suc.hyps(2) [symmetric] by simp
qed

section \<open>Images of objects\<close>

text \<open>The bytes of an object on the wire with its header and padding, and where objects start.\<close>

definition obj_sz :: "nbuf_obj \<Rightarrow> nat" where
  "obj_sz r = (8 + obj_bytes r + 7) div 8 * 8"

primrec offs :: "world \<Rightarrow> nat list \<Rightarrow> nat \<Rightarrow> nat" where
  "offs w ads 0 = 0"
| "offs w ads (Suc i) = offs w ads i + obj_sz (node_obj w (ads ! i))"

lemma obj_sz_mod [simp]: "obj_sz r mod 8 = 0"
  by (simp add: obj_sz_def)

lemma offs_mod: "offs w ads i mod 8 = 0"
  by (induction i) (simp_all add: mod_add_eq [symmetric])

lemma offs_mono: "i \<le> j \<Longrightarrow> offs w ads i \<le> offs w ads j"
  by (induction j) (auto simp: le_Suc_eq)

lemma obj_sz_bounds: "8 + obj_bytes r \<le> obj_sz r" "obj_sz r \<le> obj_bytes r + 15"
  by (simp_all add: obj_sz_def)

lemma offs_step: "i < j \<Longrightarrow> offs w ads i + obj_sz (node_obj w (ads ! i)) \<le> offs w ads j"
  using offs_mono [of "Suc i" j w ads] by simp

section \<open>The first pass\<close>

definition with_offset :: "nbuf_buffer \<Rightarrow> nat \<Rightarrow> nbuf_buffer" where
  "with_offset b v = b\<lparr>buf_base := splice_at 8 (le_enc 4 v) (buf_base b)\<rparr>"

lemma with_offset_node:
  assumes "node_buf b pa i x"
  shows "node_buf (with_offset b v) pa i x" and "obj_in (with_offset b v) x = obj_in b x"
    and "buf_len (with_offset b v) = buf_len b" and "buf_ops (with_offset b v) = buf_ops b"
    and "\<And>p n. 12 \<le> p \<Longrightarrow> p + n \<le> length (buf_base b) \<Longrightarrow>
      seg p n (buf_base (with_offset b v)) = seg p n (buf_base b)"
    and "length (buf_base (with_offset b v)) = length (buf_base b)"
proof -
  have f: "buf_wwf b" "24 \<le> unat (buf_len b)" "stored b (obj_in b x)"
    using assms by (simp_all add: node_buf_def)
  have l: "24 \<le> length (buf_base b)"
    using f(1,2) by (simp add: buf_wwf_def word_le_nat_alt)
  show s: "seg p n (buf_base (with_offset b v)) = seg p n (buf_base b)"
    if "12 \<le> p" "p + n \<le> length (buf_base b)" for p n
    using that l by (simp add: with_offset_def slice_splice_other del: le_enc.simps)
  show ln: "length (buf_base (with_offset b v)) = length (buf_base b)"
    using l by (simp add: with_offset_def del: le_enc.simps)
  have h: "wire_header (buf_base (with_offset b v)) 16 = wire_header (buf_base b) 16"
    using l by (simp add: wire_header_def s)
  then show oi: "obj_in (with_offset b v) x = obj_in b x"
    by (simp add: obj_in_def header_obj_def)
  show bl: "buf_len (with_offset b v) = buf_len b" "buf_ops (with_offset b v) = buf_ops b"
    by (simp_all add: with_offset_def)
  have "stored (with_offset b v) (obj_in b x)"
    using f(3) h bl by (simp add: stored_def in_bounds_def)
  moreover have "seg 0 8 (buf_base (with_offset b v)) = seg 0 8 (buf_base b)"
    using l by (simp add: with_offset_def slice_splice_other del: le_enc.simps)
  moreover have "buf_cap (with_offset b v) = buf_cap b" by (simp add: with_offset_def)
  ultimately show "node_buf (with_offset b v) pa i x"
    using assms oi bl ln l s [of 12 4] by (simp add: node_buf_def buf_wwf_def)
qed

lemma with_offset_meta:
  assumes "node_buf b pa i x" and "v < 2 ^ 32" and "i < 2 ^ 32"
  shows "getmeta (with_offset b v)
    = Some \<lparr>meta_pool = pa, meta_offset = of_nat v, meta_id = of_nat i\<rparr>"
    and "set_meta_offset b (of_nat v) = Some (with_offset b v)"
proof -
  have l: "24 \<le> length (buf_base b)"
    using assms(1) by (simp add: node_buf_def buf_wwf_def word_le_nat_alt)
  have uv: "unat (of_nat v :: uint32) = v"
    using assms(2) by (simp add: unat_of_nat take_bit_nat_eq_self)
  have "node_buf (with_offset b v) pa i x" by (rule with_offset_node(1) [OF assms(1)])
  then obtain off where m: "getmeta (with_offset b v)
      = Some \<lparr>meta_pool = pa, meta_offset = off, meta_id = of_nat i\<rparr>"
    using node_bufE assms(3) by metis
  have "24 \<le> length (buf_base (with_offset b v))" using l with_offset_node(6) [OF assms(1)] by simp
  then have "off = of_nat (le_val (seg 8 4 (buf_base (with_offset b v))))"
    using m by (auto simp: getmeta_def load_def slice_slice)
  moreover have "le_val (seg 8 4 (buf_base (with_offset b v))) = v"
    using l assms(2) by (simp add: with_offset_def slice_splice_same le_val_enc del: le_enc.simps)
  ultimately show "getmeta (with_offset b v)
      = Some \<lparr>meta_pool = pa, meta_offset = of_nat v, meta_id = of_nat i\<rparr>"
    using m by simp
  show "set_meta_offset b (of_nat v) = Some (with_offset b v)"
    using l uv by (simp add: set_meta_offset_def store_def with_offset_def del: le_enc.simps)
qed

text \<open>\<open>placed w w' ads m\<close>: \<open>w'\<close> is \<open>w\<close> with the offsets of the first \<open>m\<close> objects filled in.\<close>

definition placed :: "world \<Rightarrow> world \<Rightarrow> nat list \<Rightarrow> nat \<Rightarrow> bool" where
  "placed w w' ads m \<longleftrightarrow>
    (\<forall>i < length ads. bufs w' (ads ! i) = (if i < m
       then map_option (\<lambda>b. with_offset b (offs w ads i div 4)) (bufs w (ads ! i))
       else bufs w (ads ! i))) \<and>
    (\<forall>x. x \<notin> set ads \<longrightarrow> bufs w' x = bufs w x) \<and> next_addr w' = next_addr w"

lemma placed_0: "placed w w ads 0"
  by (simp add: placed_def)

lemma placed_ok:
  assumes ok: "builder_ok w pa ads" and pl: "placed w w' ads m"
  shows "builder_ok w' pa ads" and "\<And>i. i < length ads \<Longrightarrow> node_obj w' (ads ! i) = node_obj w (ads ! i)"
proof -
  have nb: "\<exists>b. bufs w (ads ! i) = Some b \<and> node_buf b pa i (ads ! i)" if "i < length ads" for i
    using ok that by (auto simp: builder_ok_def node_def)
  have "pa \<notin> set ads" using ok by (simp add: builder_ok_def)
  then have "bufs w' pa = bufs w pa" using pl by (simp add: placed_def)
  then have "pool_ok w' pa ads" using ok by (simp add: builder_ok_def pool_ok_def)
  moreover have "node w' pa i (ads ! i)" if "i < length ads" for i
    using nb [OF that] pl that with_offset_node(1) by (auto simp: placed_def node_def)
  ultimately show "builder_ok w' pa ads" using ok pl by (simp add: builder_ok_def placed_def)
  show "node_obj w' (ads ! i) = node_obj w (ads ! i)" if "i < length ads" for i
    using nb [OF that] pl that with_offset_node(2) by (auto simp: placed_def node_obj_def)
qed

lemma placed_step:
  assumes "builder_ok w pa ads" and "placed w w' ads m" and "m < length ads"
    and "bufs w (ads ! m) = Some b"
  shows "placed w (put_buf w' (ads ! m) (with_offset b (offs w ads m div 4))) ads (Suc m)"
proof -
  have d: "distinct ads" using assms(1) by (simp add: builder_ok_def)
  show ?thesis
    using assms(2-4) d by (auto simp: placed_def less_Suc_eq nth_eq_iff_index_eq)
qed

lemma node_obj_in_bounds:
  assumes "builder_ok w pa ads" and "i < length ads"
  obtains b where "bufs w (ads ! i) = Some b" "node_buf b pa i (ads ! i)"
    "node_obj w (ads ! i) = obj_in b (ads ! i)"
    "24 + obj_bytes (node_obj w (ads ! i)) \<le> length (buf_base b)"
    "unat (nbuf_totalsz (node_obj w (ads ! i))) = obj_bytes (node_obj w (ads ! i))"
    "24 \<le> length (buf_base b)"
proof -
  obtain b where b: "bufs w (ads ! i) = Some b" "node_buf b pa i (ads ! i)"
    using assms by (auto simp: builder_ok_def node_def)
  have o: "node_obj w (ads ! i) = obj_in b (ads ! i)" using b(1) by (simp add: node_obj_def)
  have st: "stored b (obj_in b (ads ! i))" "buf_wwf b" "24 \<le> unat (buf_len b)"
    using b(2) by (simp_all add: node_buf_def)
  have l: "unat (buf_len b) \<le> length (buf_base b)"
    using st(2) by (simp add: buf_wwf_def word_le_nat_alt)
  have "obj_bytes (node_obj w (ads ! i)) = 0" if "nelem (node_obj w (ads ! i)) = 0"
    using that by (simp add: obj_bytes_def)
  then have i1: "24 + obj_bytes (node_obj w (ads ! i)) \<le> length (buf_base b)"
    using st(1,3) l o by (cases "nelem (node_obj w (ads ! i)) = 0") (auto simp: stored_def in_bounds_def)
  have i2: "unat (nbuf_totalsz (node_obj w (ads ! i))) = obj_bytes (node_obj w (ads ! i))"
    using st(1) o by (intro unat_totalsz) (auto simp: stored_def in_bounds_def)
  show thesis using that [OF b o i1 i2] l st(3) by simp
qed

lemma unat_add3_offs:
  assumes "offs w ads i + obj_sz r \<le> t" and "t < 2 ^ 33" and "unat m = obj_bytes r"
  shows "NBUF_ROUNDUP (of_nat (offs w ads i) + 8 + m) NBUF_ALIGN = of_nat (offs w ads i + obj_sz r)"
proof -
  let ?o = "offs w ads i"
  have lt: "?o + 8 + obj_bytes r < 2 ^ 63" using assms(1,2) obj_sz_bounds [of r] by simp
  have e: "of_nat ?o + 8 + m = of_nat (?o + 8 + obj_bytes r)"
    using assms(3) by (simp flip: assms(3))
  have "unat (NBUF_ROUNDUP (of_nat ?o + 8 + m) NBUF_ALIGN) = (?o + 8 + obj_bytes r + 7) div 8 * 8"
    unfolding e using lt by (subst unat_roundup8) (simp_all add: unat_of_nat_64 del: of_nat_add)
  also have "\<dots> = ?o + obj_sz r"
  proof -
    obtain k where k: "?o = 8 * k" using offs_mod [of w ads i] by (metis mod_0_imp_dvd dvdE)
    have "(8 * k + (obj_bytes r + 15)) div 8 = k + (obj_bytes r + 15) div 8"
      by (rule div_mult_self4) simp
    then show ?thesis unfolding k obj_sz_def by (simp add: algebra_simps)
  qed
  finally show ?thesis by (metis of_nat_unat ucast_id)
qed

lemma place_objects_eq:
  assumes ok: "builder_ok w pa ads" and tot: "offs w ads (length ads) < 2 ^ 33"
    and pool: "bufs w pa = Some pool"
  shows "placed w w' ads m \<Longrightarrow> m \<le> length ads \<Longrightarrow>
    \<exists>w1. place_objects pool w' (of_nat (offs w ads m)) [m..<length ads]
      = Some (w1, of_nat (offs w ads (length ads))) \<and> placed w w1 ads (length ads)"
proof (induction "length ads - m" arbitrary: m w')
  case 0
  then have "m = length ads" by simp
  then show ?case using 0 by simp
next
  case (Suc k)
  then have m: "m < length ads" by simp
  have l31: "length ads < 2 ^ 31" and po: "pool_ok w pa ads" using ok by (simp_all add: builder_ok_def)
  have gb: "getbuffer pool (of_nat m) = Some (ads ! m)"
    using poolE [OF po l31] pool m by (metis option.inject)
  obtain b where b: "bufs w (ads ! m) = Some b" "node_buf b pa m (ads ! m)"
    "unat (nbuf_totalsz (node_obj w (ads ! m))) = obj_bytes (node_obj w (ads ! m))"
    by (rule node_obj_in_bounds [OF ok m]) blast
  note ok' = placed_ok [OF ok Suc.prems(1)]
  have go: "getobj w' (ads ! m) = Some (node_obj w (ads ! m))"
    using getobj_node [OF ok'(1) m] ok'(2) [OF m] by simp
  have b': "bufs w' (ads ! m) = Some b" using Suc.prems(1) m b(1) by (simp add: placed_def)
  have step: "offs w ads m + obj_sz (node_obj w (ads ! m)) \<le> offs w ads (length ads)"
    by (rule offs_step [OF m])
  have lt: "offs w ads m < 2 ^ 33" using step tot by simp
  have "unat (of_nat (offs w ads m) div 4 :: size_t) = offs w ads m div 4"
    using lt by (simp add: unat_div unat_of_nat_64)
  then have "of_nat (offs w ads m) div 4 = (of_nat (offs w ads m div 4) :: size_t)"
    by (metis of_nat_unat ucast_id)
  then have cast: "ucast (of_nat (offs w ads m) div NBUF_WORD_SZ :: size_t)
      = (of_nat (offs w ads m div 4) :: uint32)"
    unfolding NBUF_WORD_SZ_def by (simp add: ucast_of_nat)
  have v32: "offs w ads m div 4 < 2 ^ 32" "m < 2 ^ 32" using lt m l31 by simp_all
  have so: "set_meta_offset b (ucast (of_nat (offs w ads m) div NBUF_WORD_SZ :: size_t))
      = Some (with_offset b (offs w ads m div 4))"
    unfolding cast by (rule with_offset_meta(2) [OF b(2) v32])
  note pl = placed_step [OF ok Suc.prems(1) m b(1)]
  have nx: "NBUF_ROUNDUP (of_nat (offs w ads m) + 8 + nbuf_totalsz (node_obj w (ads ! m))) NBUF_ALIGN
      = of_nat (offs w ads (Suc m))"
    using unat_add3_offs [OF step tot b(3)] by simp
  have up: "[m..<length ads] = m # [Suc m..<length ads]" using m by (rule upt_conv_Cons)
  have "k = length ads - Suc m" "Suc m \<le> length ads" using Suc.hyps(2) m by simp_all
  from Suc.hyps(1) [OF this(1) pl this(2)] show ?case
    unfolding up using gb go b' so nx by simp
qed

section \<open>The second pass\<close>

text \<open>The words from position \<open>p\<close> of the output to object \<open>v\<close>; index 0 is no pointer.\<close>

definition rel_words :: "world \<Rightarrow> nat list \<Rightarrow> nat \<Rightarrow> nat \<Rightarrow> nat" where
  "rel_words w ads p v = (if v = 0 then 0 else offs w ads v div 4 - p div 4)"

definition obj_img :: "(nat \<Rightarrow> nat \<Rightarrow> nat) \<Rightarrow> byte list \<Rightarrow> nat \<Rightarrow> nbuf_obj \<Rightarrow> byte list" where
  "obj_img rv blk p r = seg 16 8 blk @
    (if psize r = 0 then seg 24 (obj_bytes r) blk
     else elem_img rv blk (unat (ssize r)) (unat (psize r)) (p + 8) 24 (unat (nelem r))) @
    replicate ((8 - (p + 8 + obj_bytes r) mod 8) mod 8) 0"

text \<open>Pointer slot \<open>k\<close> of element \<open>j\<close> of an object, counted from the start of its elements.\<close>

definition slot_at :: "nbuf_obj \<Rightarrow> nat \<Rightarrow> nat \<Rightarrow> nat" where
  "slot_at r j k = esize r * j + unat (ssize r) + 4 * k"

text \<open>
  What \<^verbatim>\<open>nbuf_serialize\<close> asserts of the builder: pointers lead from an object to one created later,
  and pointers are aligned.
\<close>

definition serializable :: "world \<Rightarrow> nat list \<Rightarrow> bool" where
  "serializable w ads \<longleftrightarrow> offs w ads (length ads) < 2 ^ 33 \<and>
    (\<forall>i < length ads. \<forall>b. bufs w (ads ! i) = Some b \<longrightarrow>
      (let r = node_obj w (ads ! i)
       in (psize r \<noteq> 0 \<longrightarrow> unat (ssize r) mod 4 = 0) \<and>
          (\<forall>j < unat (nelem r). \<forall>k < unat (psize r).
            let v = le_val (seg (24 + slot_at r j k) 4 (buf_base b))
            in v = 0 \<or> i < v \<and> v < length ads)))"

lemma pad_total: "x + (8 - x mod 8) mod 8 = (x + 7) div 8 * (8 :: nat)"
proof -
  define q m where "q = x div 8" and "m = x mod 8"
  have x: "x = 8 * q + m" "m < 8" by (simp_all add: q_def m_def)
  have "(8 * q + (m + 7)) div 8 = q + (m + 7) div 8" by (rule div_mult_self4) simp
  then have d: "(x + 7) div 8 = q + (m + 7) div 8" unfolding x(1) by (simp only: add.assoc)
  have mm: "x mod 8 = m" by (simp add: m_def)
  show ?thesis
  proof (cases "m = 0")
    case True
    then show ?thesis unfolding d mm using x by simp
  next
    case False
    have "(m + 7) div 8 = 1" using False x(2) by (intro div_nat_eqI) simp_all
    then show ?thesis unfolding d mm using x False by simp
  qed
qed

lemma slot_in_obj:
  assumes "j < unat (nelem r)" and "k < unat (psize r)"
  shows "slot_at r j k + 4 \<le> esize r * unat (nelem r)" and "esize r \<noteq> 0"
    and "obj_bytes r = esize r * unat (nelem r)"
proof -
  have "esize r * j + esize r \<le> esize r * unat (nelem r)"
    using assms(1) by (metis Suc_leI mult_Suc_right add.commute mult_le_mono2)
  moreover have "unat (ssize r) + 4 * k + 4 \<le> esize r" using assms(2) by (simp add: esize_def)
  ultimately show "slot_at r j k + 4 \<le> esize r * unat (nelem r)" by (simp add: slot_at_def)
  show "esize r \<noteq> 0" using assms(2) by (simp add: esize_def)
  then show "obj_bytes r = esize r * unat (nelem r)" by (simp add: obj_bytes_def)
qed

lemma resolve_eq:
  assumes ok: "builder_ok w pa ads" and pl: "placed w w1 ads (length ads)"
    and pool: "bufs w1 pa = Some pool" and tot: "offs w ads (length ads) < 2 ^ 33"
    and p: "p + 4 \<le> offs w ads (Suc i)" and v: "v = 0 \<or> i < v \<and> v < length ads"
  shows "resolve pool w1 i (of_nat p) (int_conv 4 (of_nat v)) = Some (of_nat (rel_words w ads p v))"
    and "rel_words w ads p v < 2 ^ 31"
proof -
  have l31: "length ads < 2 ^ 31" using ok by (simp add: builder_ok_def)
  have v31: "v < 2 ^ 31" using v l31 by auto
  have ov: "offs w ads v < 2 ^ 33"
    using v offs_mono [of v "length ads" w ads] tot by auto
  then have "offs w ads v div 4 < 2 ^ 31" by simp
  then show "rel_words w ads p v < 2 ^ 31" by (simp add: rel_words_def less_imp_diff_less)
  have ic: "int_conv 4 (of_nat v) = of_nat v" using v31 by (rule int_conv4_small)
  show "resolve pool w1 i (of_nat p) (int_conv 4 (of_nat v)) = Some (of_nat (rel_words w ads p v))"
  proof (cases "v = 0")
    case True
    then show ?thesis using ic by (simp add: resolve_def rel_words_def)
  next
    case False
    then have vi: "i < v" "v < length ads" using v by auto
    note ok1 = placed_ok [OF ok pl]
    have po: "pool_ok w1 pa ads" using ok1(1) by (simp add: builder_ok_def)
    have pg: "getbuffer pool (of_nat v) = Some (ads ! v)" "buffercount pool = of_nat (length ads)"
      using poolE [OF po l31] pool vi(2) by (metis option.inject)+
    obtain b where b: "bufs w (ads ! v) = Some b" "node_buf b pa v (ads ! v)"
      using ok vi(2) by (auto simp: builder_ok_def node_def)
    have b1: "bufs w1 (ads ! v) = Some (with_offset b (offs w ads v div 4))"
      using pl b(1) vi(2) by (simp add: placed_def)
    have o32: "offs w ads v div 4 < 2 ^ 32" and v32: "v < 2 ^ 32" using ov v31 by simp_all
    note meta = with_offset_meta(1) [OF b(2) o32 v32]
    have un: "unat (of_nat v :: size_t) = v" "unat (of_nat i :: size_t) = i"
      "unat (of_nat (length ads) :: size_t) = length ads" "unat (of_nat p :: size_t) = p"
      using v31 vi l31 p offs_mono [of "Suc i" "length ads" w ads] tot
      by (simp_all add: unat_of_nat_64 del: offs.simps)
    have nz: "(of_nat v :: size_t) \<noteq> 0" using un(1) False by (metis unat_0)
    have as: "(of_nat v :: size_t) > of_nat i \<and> (of_nat v :: size_t) < of_nat (length ads)"
      using un vi by (simp add: word_less_nat_alt)
    have pv: "p \<le> offs w ads v" using p offs_mono [of "Suc i" v w ads] vi(1) by simp
    have c: "unat (ucast (of_nat (offs w ads v div 4) :: uint32) :: size_t) = offs w ads v div 4"
      using o32 by (simp add: unat_of_nat take_bit_nat_eq_self)
    have d: "unat (of_nat p div NBUF_WORD_SZ :: size_t) = p div 4"
      using un(4) by (simp add: unat_div NBUF_WORD_SZ_def)
    have "unat (ucast (of_nat (offs w ads v div 4) :: uint32) - of_nat p div NBUF_WORD_SZ :: size_t)
        = offs w ads v div 4 - p div 4"
      using c d pv by (subst unat_sub_nowrap) (simp_all add: word_le_nat_alt div_le_mono)
    then have "ucast (of_nat (offs w ads v div 4) :: uint32) - of_nat p div NBUF_WORD_SZ
        = (of_nat (rel_words w ads p v) :: size_t)"
      using False by (metis of_nat_unat rel_words_def ucast_id)
    then show ?thesis
      using ic nz as pg b1 meta by (simp add: resolve_def)
  qed
qed

lemma length_obj_img:
  assumes "24 + obj_bytes r \<le> length blk" and "p mod 8 = 0"
  shows "length (obj_img rv blk p r) = obj_sz r"
proof -
  have e: "psize r \<noteq> 0 \<Longrightarrow> obj_bytes r = (unat (ssize r) + 4 * unat (psize r)) * unat (nelem r)"
    by (auto simp: obj_bytes_def esize_def unat_0_iff)
  have "(p + 8 + obj_bytes r) mod 8 = (8 + obj_bytes r) mod 8"
    using assms(2) by (metis mod_add_left_eq add.assoc add_0)
  then have "length (obj_img rv blk p r) = 8 + obj_bytes r + (8 - (8 + obj_bytes r) mod 8) mod 8"
    using assms e by (auto simp: obj_img_def length_elem_img)
  then show ?thesis by (simp only: pad_total obj_sz_def)
qed

text \<open>Pointers of an object are resolved at the places where they are copied.\<close>

lemma serializable_resolves:
  assumes ok: "builder_ok w pa ads" and pl: "placed w w1 ads (length ads)"
    and pool: "bufs w1 pa = Some pool" and ser: "serializable w ads" and i: "i < length ads"
    and b: "bufs w (ads ! i) = Some b"
  defines "r \<equiv> node_obj w (ads ! i)"
  assumes j: "j < unat (nelem r)" and k: "k < unat (psize r)"
    and blk: "24 + obj_bytes r \<le> length blk"
    and same: "\<And>q n. 24 \<le> q \<Longrightarrow> q + n \<le> length blk \<Longrightarrow> seg q n blk = seg q n (buf_base b)"
  shows "resolves (resolve pool w1 i) (rel_words w ads) blk
    (offs w ads i + 8 + slot_at r j k) (24 + slot_at r j k)"
proof -
  note s = slot_in_obj [OF j k]
  have tot: "offs w ads (length ads) < 2 ^ 33" using ser by (simp add: serializable_def)
  have p: "offs w ads i + 8 + slot_at r j k + 4 \<le> offs w ads (Suc i)"
    using s obj_sz_bounds(1) [of r] by (simp add: r_def)
  let ?v = "le_val (seg (24 + slot_at r j k) 4 (buf_base b))"
  have v: "?v = 0 \<or> i < ?v \<and> ?v < length ads"
    using ser i b j k unfolding serializable_def r_def Let_def by blast
  have "seg (24 + slot_at r j k) 4 blk = seg (24 + slot_at r j k) 4 (buf_base b)"
    using s blk by (intro same) simp_all
  then show ?thesis
    using resolve_eq [OF ok pl pool tot p v] by (simp add: resolves_def Let_def)
qed

lemma writes_copy_object:
  assumes ok: "builder_ok w pa ads" and pl: "placed w w1 ads (length ads)"
    and pool: "bufs w1 pa = Some pool" and ser: "serializable w ads" and i: "i < length ads"
    and b: "bufs w (ads ! i) = Some b"
  defines "r \<equiv> node_obj w (ads ! i)" and "b1 \<equiv> with_offset b (offs w ads i div 4)"
  shows "writes (copy_object pool w1 i) (offs w ads i)
      (obj_img (rel_words w ads) (buf_base b1) (offs w ads i) r)"
proof -
  let ?blk = "buf_base b1" and ?p = "offs w ads i"
  have l31: "length ads < 2 ^ 31" using ok by (simp add: builder_ok_def)
  note ok1 = placed_ok [OF ok pl]
  have po: "pool_ok w1 pa ads" using ok1(1) by (simp add: builder_ok_def)
  have gb: "getbuffer pool (of_nat i) = Some (ads ! i)"
    using poolE [OF po l31] pool i by (metis option.inject)
  have go: "getobj w1 (ads ! i) = Some r" using getobj_node [OF ok1(1) i] ok1(2) [OF i] by (simp add: r_def)
  obtain b0 where b0: "bufs w (ads ! i) = Some b0" "node_buf b0 pa i (ads ! i)"
    "node_obj w (ads ! i) = obj_in b0 (ads ! i)"
    "24 + obj_bytes (node_obj w (ads ! i)) \<le> length (buf_base b0)"
    "unat (nbuf_totalsz (node_obj w (ads ! i))) = obj_bytes (node_obj w (ads ! i))"
    by (rule node_obj_in_bounds [OF ok i])
  then have n: "node_buf b pa i (ads ! i)" "24 + obj_bytes r \<le> length (buf_base b)"
    "unat (nbuf_totalsz r) = obj_bytes r" "unat (obj_base r) = 24"
    using b by (simp_all add: r_def)
  have lblk: "length ?blk = length (buf_base b)"
    unfolding b1_def by (rule with_offset_node(6) [OF n(1)])
  have same: "seg q m ?blk = seg q m (buf_base b)" if "24 \<le> q" "q + m \<le> length ?blk" for q m
    using that unfolding lblk unfolding b1_def by (intro with_offset_node(5) [OF n(1)]) simp_all
  have l1: "24 + obj_bytes r \<le> length ?blk" using n(2) lblk by simp
  have bw1: "bufs w1 (ads ! i) = Some b1" using pl b i by (simp add: placed_def b1_def)
  have tot: "?p < 2 ^ 33"
    using ser offs_mono [of i "length ads" w ads] i by (simp add: serializable_def)
  have o32: "?p div 4 < 2 ^ 32" and i32: "i < 2 ^ 32" using tot i l31 by simp_all
  note meta = with_offset_meta(1) [OF n(1) o32 i32, folded b1_def]
  have "unat (ucast (of_nat (?p div 4) :: uint32) * NBUF_WORD_SZ :: size_t) = ?p div 4 * 4"
    using o32 unfolding NBUF_WORD_SZ_def
    by (subst unat_mult_nowrap) (simp_all add: unat_of_nat take_bit_nat_eq_self)
  also have "?p div 4 * 4 = ?p"
  proof -
    have "8 dvd ?p" using offs_mod [of w ads i] by (rule mod_0_imp_dvd)
    then have "4 dvd ?p" by (rule dvd_trans [rotated]) simp
    then show ?thesis by simp
  qed
  finally have cur: "of_nat ?p = ucast (of_nat (?p div 4) :: uint32) * NBUF_WORD_SZ"
    by (metis of_nat_unat ucast_id)
  define body where "body = (if psize r = 0 then seg 24 (obj_bytes r) ?blk
    else elem_img (rel_words w ads) ?blk (unat (ssize r)) (unat (psize r)) (?p + 8) 24 (unat (nelem r)))"
  define f where "f = (if psize r = 0 then copy_bytes ?blk 24 (unat (nbuf_totalsz r))
    else copy_elems (resolve pool w1 i) ?blk (unat (ssize r)) (unat (psize r)) 24 (unat (nelem r)))"
  have e: "psize r \<noteq> 0 \<Longrightarrow> obj_bytes r = (unat (ssize r) + 4 * unat (psize r)) * unat (nelem r)"
    by (auto simp: obj_bytes_def esize_def unat_0_iff)
  have lb: "length body = obj_bytes r" using l1 e by (auto simp: body_def length_elem_img)
  have fw: "writes f (?p + 8) body"
  proof (cases "psize r = 0")
    case True
    then show ?thesis using l1 n(3) by (simp add: f_def body_def writes_copy_bytes)
  next
    case False
    have "resolves (resolve pool w1 i) (rel_words w ads) ?blk
        (?p + 8 + (unat (ssize r) + 4 * unat (psize r)) * m + unat (ssize r) + 4 * l)
        (24 + (unat (ssize r) + 4 * unat (psize r)) * m + unat (ssize r) + 4 * l)"
      if "m < unat (nelem r)" "l < unat (psize r)" for m l
      using serializable_resolves [OF ok pl pool ser i b, folded r_def, OF that l1 same]
      by (simp add: slot_at_def esize_def add.assoc)
    then show ?thesis using False l1 e by (simp add: f_def body_def writes_copy_elems)
  qed
  have hw: "writes (copy_bytes ?blk 16 8) ?p (seg 16 8 ?blk)" and lh: "length (seg 16 8 ?blk) = 8"
    using l1 by (simp_all add: writes_copy_bytes)
  have "writes (\<lambda>st. do { st1 \<leftarrow> f st; pad_out st1 }) (?p + length (seg 16 8 ?blk))
      (body @ replicate ((8 - (?p + 8 + obj_bytes r) mod 8) mod 8) 0)"
    unfolding lh by (rule writes_bind [OF fw]) (use writes_pad [of "?p + 8 + obj_bytes r"] lb in simp)
  from writes_bind [OF hw this]
  have all: "writes (\<lambda>st. do { st1 \<leftarrow> copy_bytes ?blk 16 8 st; st2 \<leftarrow> f st1; pad_out st2 }) ?p
      (obj_img (rel_words w ads) ?blk ?p r)"
    by (simp add: obj_img_def body_def)
  have "copy_object pool w1 i (out, of_nat ?p)
      = do { st1 \<leftarrow> copy_bytes ?blk 16 8 (out, of_nat ?p); st2 \<leftarrow> f st1; pad_out st2 }" for out
    using gb go bw1 meta cur n(4) by (simp add: copy_object_def f_def Let_def)
  then show ?thesis using all by (simp add: writes_def)
qed

section \<open>The whole output\<close>

definition wire_obj :: "world \<Rightarrow> nat list \<Rightarrow> nat \<Rightarrow> byte list" where
  "wire_obj w ads i = obj_img (rel_words w ads)
    (case bufs w (ads ! i) of Some b \<Rightarrow> buf_base (with_offset b (offs w ads i div 4)) | None \<Rightarrow> [])
    (offs w ads i) (node_obj w (ads ! i))"

definition wire_from :: "world \<Rightarrow> nat list \<Rightarrow> nat \<Rightarrow> byte list" where
  "wire_from w ads m = concat (map (wire_obj w ads) [m..<length ads])"

lemma length_wire_obj:
  assumes "builder_ok w pa ads" and "i < length ads"
  shows "length (wire_obj w ads i) = obj_sz (node_obj w (ads ! i))"
proof -
  obtain b where b: "bufs w (ads ! i) = Some b" "node_buf b pa i (ads ! i)"
    "24 + obj_bytes (node_obj w (ads ! i)) \<le> length (buf_base b)"
    by (rule node_obj_in_bounds [OF assms]) blast
  then show ?thesis
    using with_offset_node(6) [OF b(2)] offs_mod by (simp add: wire_obj_def length_obj_img)
qed

lemma length_wire_from:
  assumes "builder_ok w pa ads"
  shows "m \<le> length ads \<Longrightarrow> offs w ads m + length (wire_from w ads m) = offs w ads (length ads)"
proof (induction "length ads - m" arbitrary: m)
  case 0
  then show ?case by (simp add: wire_from_def)
next
  case (Suc k)
  then have m: "m < length ads" by simp
  have "wire_from w ads m = wire_obj w ads m @ wire_from w ads (Suc m)"
    using m by (simp add: wire_from_def upt_conv_Cons)
  moreover have "k = length ads - Suc m" using Suc.hyps(2) by simp
  from Suc.hyps(1) [OF this] m
  have "offs w ads (Suc m) + length (wire_from w ads (Suc m)) = offs w ads (length ads)" by simp
  ultimately show ?case using length_wire_obj [OF assms m] by simp
qed

lemma writes_copy_objects:
  assumes ok: "builder_ok w pa ads" and pl: "placed w w1 ads (length ads)"
    and pool: "bufs w1 pa = Some pool" and ser: "serializable w ads"
  shows "m \<le> length ads \<Longrightarrow>
    writes (copy_objects pool w1 [m..<length ads]) (offs w ads m) (wire_from w ads m)"
proof (induction "length ads - m" arbitrary: m)
  case 0
  then have e: "[m..<length ads] = []" by simp
  have "copy_objects pool w1 [] = Some" by (rule ext) simp
  then show ?case unfolding wire_from_def e by (simp add: writes_Nil)
next
  case (Suc k)
  then have m: "m < length ads" by simp
  have u: "[m..<length ads] = m # [Suc m..<length ads]" using m by (rule upt_conv_Cons)
  obtain b where b: "bufs w (ads ! m) = Some b"
    using ok m by (auto simp: builder_ok_def node_def)
  have w1: "writes (copy_object pool w1 m) (offs w ads m) (wire_obj w ads m)"
    using writes_copy_object [OF ok pl pool ser m b] by (simp add: wire_obj_def b)
  have "writes (copy_objects pool w1 [Suc m..<length ads]) (offs w ads (Suc m)) (wire_from w ads (Suc m))"
    using Suc.hyps m by (intro Suc.hyps(1)) simp_all
  then have w2: "writes (copy_objects pool w1 [Suc m..<length ads])
      (offs w ads m + length (wire_obj w ads m)) (wire_from w ads (Suc m))"
    using length_wire_obj [OF ok m] by simp
  have "copy_objects pool w1 [m..<length ads]
      = (\<lambda>st. do { st1 \<leftarrow> copy_object pool w1 m st; copy_objects pool w1 [Suc m..<length ads] st1 })"
    unfolding u by (rule ext) simp
  then show ?case using writes_bind [OF w1 w2] by (simp add: wire_from_def u)
qed

lemma free_buffers_Some:
  assumes gb: "\<And>i. i < length ads \<Longrightarrow> getbuffer pool (of_nat i) = Some (ads ! i)"
    and d: "distinct ads"
  shows "m \<le> length ads \<Longrightarrow> (\<And>i. m \<le> i \<Longrightarrow> i < length ads \<Longrightarrow> bufs w (ads ! i) \<noteq> None) \<Longrightarrow>
    \<exists>w'. free_buffers pool w [m..<length ads] = Some w' \<and> next_addr w' = next_addr w \<and>
      (\<forall>x. bufs w' x = (if x \<in> set (drop m ads) then None else bufs w x))"
proof (induction "length ads - m" arbitrary: m w)
  case 0
  then have e: "[m..<length ads] = []" "drop m ads = []" by simp_all
  show ?case unfolding e by simp
next
  case (Suc k)
  then have m: "m < length ads" by simp
  have u: "[m..<length ads] = m # [Suc m..<length ads]" using m by (rule upt_conv_Cons)
  obtain b where b: "bufs w (ads ! m) = Some b" using Suc.prems(2) [of m] m by auto
  have "\<exists>w'. free_buffers pool (free_buf w (ads ! m)) [Suc m..<length ads] = Some w' \<and>
      next_addr w' = next_addr (free_buf w (ads ! m)) \<and>
      (\<forall>x. bufs w' x = (if x \<in> set (drop (Suc m) ads) then None else bufs (free_buf w (ads ! m)) x))"
  proof (rule Suc.hyps(1))
    show "k = length ads - Suc m" "Suc m \<le> length ads" using Suc.hyps(2) m by simp_all
    show "bufs (free_buf w (ads ! m)) (ads ! i) \<noteq> None" if "Suc m \<le> i" "i < length ads" for i
      using Suc.prems(2) [of i] d m that by (simp add: free_buf_def nth_eq_iff_index_eq)
  qed
  then obtain w' where w':
    "free_buffers pool (free_buf w (ads ! m)) [Suc m..<length ads] = Some w'"
    "next_addr w' = next_addr (free_buf w (ads ! m))"
    "\<forall>x. bufs w' x = (if x \<in> set (drop (Suc m) ads) then None else bufs (free_buf w (ads ! m)) x)"
    by blast
  have "drop m ads = ads ! m # drop (Suc m) ads" using m by (simp add: Cons_nth_drop_Suc)
  then show ?case unfolding u using gb [OF m] b w' by (auto simp: free_buf_def)
qed

lemma free_builder_Some:
  assumes "builder_ok w pa ads"
  shows "\<exists>w'. nbuf_free_builder w pa = Some w' \<and> (\<forall>x \<in> set ads. bufs w' x = None) \<and>
    (\<exists>b. bufs w' pa = Some b \<and> buf_base b = [] \<and> buf_len b = 0 \<and> buf_cap b = 0) \<and>
    (\<forall>x. x \<notin> set (pa # ads) \<longrightarrow> bufs w' x = bufs w x)"
proof -
  have o: "pool_ok w pa ads" "length ads < 2 ^ 31" "distinct (pa # ads)"
    using assms by (simp_all add: builder_ok_def)
  obtain pool where p: "bufs w pa = Some pool" "getpool pool = Some pa"
    "buffercount pool = of_nat (length ads)"
    "\<And>i. i < length ads \<Longrightarrow> getbuffer pool (of_nat i) = Some (ads ! i)"
    using poolE [OF o(1,2)] by metis
  have un: "unat (buffercount pool) = length ads" using p(3) o(2) by (simp add: unat_of_nat_64)
  have "\<And>i. i < length ads \<Longrightarrow> bufs w (ads ! i) \<noteq> None"
    using assms by (auto simp: builder_ok_def node_def)
  then obtain w' where w': "free_buffers pool w [0..<length ads] = Some w'"
    "\<forall>x. bufs w' x = (if x \<in> set ads then None else bufs w x)"
    using free_buffers_Some [OF p(4), of 0 w] o(3) by auto
  then have "nbuf_free_builder w pa = Some (put_buf w' pa (nbuf_free pool))"
    using p(1,2) un by (simp add: nbuf_free_builder_def)
  then show ?thesis using w'(2) o(3) by (auto simp: nbuf_free_def)
qed

lemma serialize_eq:
  assumes ok: "builder_ok w pa ads" and ser: "serializable w ads" and al: "\<And>k. grants al k"
  shows "\<exists>w'. nbuf_serialize al w pa = Some (True, w') \<and> (\<forall>x \<in> set ads. bufs w' x = None) \<and>
    bufs w' pa = Some \<lparr>buf_base = wire_from w ads 0, buf_len = of_nat (offs w ads (length ads)),
      buf_cap = of_nat (offs w ads (length ads)), buf_ops = NULL_ops\<rparr>"
proof -
  let ?t = "offs w ads (length ads)"
  have o: "pool_ok w pa ads" "length ads < 2 ^ 31" "distinct (pa # ads)"
    using ok by (simp_all add: builder_ok_def)
  obtain pool where p: "bufs w pa = Some pool" "getpool pool = Some pa"
    "buffercount pool = of_nat (length ads)"
    using poolE [OF o(1,2)] by metis
  have un: "unat (buffercount pool) = length ads" using p(3) o(2) by (simp add: unat_of_nat_64)
  have tot: "?t < 2 ^ 33" using ser by (simp add: serializable_def)
  obtain w1 where w1: "place_objects pool w 0 [0..<length ads] = Some (w1, of_nat ?t)"
    "placed w w1 ads (length ads)"
    using place_objects_eq [OF ok tot p(1) placed_0] by auto
  have ut: "unat (of_nat ?t :: size_t) = ?t" using tot by (simp add: unat_of_nat_64)
  obtain out where out: "malloc_block al ?t = Some out" "length out = ?t"
    using al by (auto simp: malloc_block_def)
  have p1: "bufs w1 pa = Some pool" using w1(2) o(3) p(1) by (simp add: placed_def)
  have lw: "length (wire_from w ads 0) = ?t" using length_wire_from [OF ok, of 0] by simp
  have "copy_objects pool w1 [0..<length ads] (out, of_nat (offs w ads 0))
      = Some (splice_at (offs w ads 0) (wire_from w ads 0) out, of_nat (offs w ads 0 + length (wire_from w ads 0)))"
    using writes_copy_objects [OF ok w1(2) p1 ser, of 0] lw out(2) tot by (intro writesD) simp_all
  then have cp: "copy_objects pool w1 [0..<length ads] (out, 0) = Some (wire_from w ads 0, of_nat ?t)"
    using lw out(2) by (simp add: splice_all)
  obtain w2 where w2: "nbuf_free_builder w1 pa = Some w2" "\<forall>x \<in> set ads. bufs w2 x = None"
    using free_builder_Some [OF placed_ok(1) [OF ok w1(2)]] by blast
  show ?thesis
    using p w1(1) un ut out(1) cp w2 o(3) by (auto simp: nbuf_serialize_def)
qed

section \<open>Reading the output\<close>

lemma seg_append2: "seg (length xs + i) n (xs @ ys) = seg i n ys"
  by (simp add: seg_def)

lemma wire_split:
  assumes ok: "builder_ok w pa ads" and i: "i < length ads"
  shows "\<exists>xs ys. wire_from w ads 0 = xs @ wire_obj w ads i @ ys \<and> length xs = offs w ads i"
proof -
  have "wire_from w ads 0 = concat (map (wire_obj w ads) [0..<i]) @ wire_obj w ads i @ wire_from w ads (Suc i)"
  proof -
    have "[0..<length ads] = [0..<i] @ i # [Suc i..<length ads]"
      using i upt_add_eq_append [of 0 i "length ads - i"] by (simp add: upt_conv_Cons)
    then show ?thesis by (simp add: wire_from_def)
  qed
  moreover have "length (concat (map (wire_obj w ads) [0..<m])) = offs w ads m" if "m \<le> length ads" for m
    using that by (induction m) (simp_all add: length_wire_obj [OF ok])
  ultimately show ?thesis using i by (metis less_imp_le_nat)
qed

lemma wire_seg:
  assumes ok: "builder_ok w pa ads" and i: "i < length ads"
    and q: "q + m \<le> obj_sz (node_obj w (ads ! i))"
  shows "seg (offs w ads i + q) m (wire_from w ads 0) = seg q m (wire_obj w ads i)"
proof -
  obtain xs ys where s: "wire_from w ads 0 = xs @ wire_obj w ads i @ ys" "length xs = offs w ads i"
    using wire_split [OF ok i] by blast
  have "q + m \<le> length (wire_obj w ads i)" using q length_wire_obj [OF ok i] by simp
  then show ?thesis using s seg_append2 [of xs q m] by (simp add: slice_append1)
qed

lemma seg_elem_scalar:
  "m < j \<Longrightarrow> q + n \<le> s \<Longrightarrow> src + (s + 4 * k) * j \<le> length blk \<Longrightarrow>
    seg ((s + 4 * k) * m + q) n (elem_img rv blk s k p src j) = seg (src + (s + 4 * k) * m + q) n blk"
proof (induction j arbitrary: m p src)
  case 0
  then show ?case by simp
next
  case (Suc j)
  have len: "src + s + 4 * k + (s + 4 * k) * j \<le> length blk" using Suc.prems(3) by (simp add: algebra_simps)
  let ?A = "seg src s blk" and ?B = "ptr_img rv blk (p + s) (src + s) k"
    and ?C = "elem_img rv blk s k (p + s + 4 * k) (src + s + 4 * k) j"
  have la: "length ?A = s" and lab: "length (?A @ ?B) = s + 4 * k" using len by simp_all
  show ?case
  proof (cases m)
    case 0
    then show ?thesis using Suc.prems(2) la by (simp add: slice_append1 slice_slice)
  next
    case (Suc m')
    have "seg ((s + 4 * k) * m + q) n ((?A @ ?B) @ ?C) = seg ((s + 4 * k) * m' + q) n ?C"
      unfolding Suc using seg_append2 [of "?A @ ?B" "(s + 4 * k) * m' + q" n ?C]
      unfolding lab by (simp add: algebra_simps)
    also have "\<dots> = seg (src + s + 4 * k + (s + 4 * k) * m' + q) n blk"
      using Suc Suc.prems len by (intro Suc.IH) simp_all
    finally show ?thesis unfolding Suc by (simp add: algebra_simps)
  qed
qed

lemma seg_ptr_img:
  "l < k \<Longrightarrow> seg (4 * l) 4 (ptr_img rv blk p src k)
    = le_enc 4 (rv (p + 4 * l) (le_val (seg (src + 4 * l) 4 blk)))"
proof (induction k arbitrary: l p src)
  case 0
  then show ?case by simp
next
  case (Suc k)
  let ?A = "le_enc 4 (rv p (le_val (seg src 4 blk)))" and ?B = "ptr_img rv blk (p + 4) (src + 4) k"
  have la: "length ?A = 4" by (simp del: le_enc.simps)
  show ?case
  proof (cases l)
    case 0
    have "seg 0 4 (?A @ ?B) = ?A" using la by (simp add: seg_def)
    then show ?thesis using 0 by (simp del: le_enc.simps)
  next
    case (Suc l')
    have "seg (4 * l) 4 (?A @ ?B) = seg (4 * l') 4 ?B"
      using seg_append2 [of ?A "4 * l'" 4 ?B] unfolding la Suc by simp
    also have "\<dots> = le_enc 4 (rv (p + 4 + 4 * l') (le_val (seg (src + 4 + 4 * l') 4 blk)))"
      using Suc Suc.prems by (intro Suc.IH) simp
    finally show ?thesis unfolding Suc by (simp add: algebra_simps del: le_enc.simps)
  qed
qed

lemma seg_elem_ptr:
  "m < j \<Longrightarrow> l < k \<Longrightarrow> src + (s + 4 * k) * j \<le> length blk \<Longrightarrow>
    seg ((s + 4 * k) * m + s + 4 * l) 4 (elem_img rv blk s k p src j)
    = le_enc 4 (rv (p + (s + 4 * k) * m + s + 4 * l)
        (le_val (seg (src + (s + 4 * k) * m + s + 4 * l) 4 blk)))"
proof (induction j arbitrary: m p src)
  case 0
  then show ?case by simp
next
  case (Suc j)
  have len: "src + s + 4 * k + (s + 4 * k) * j \<le> length blk" using Suc.prems(3) by (simp add: algebra_simps)
  let ?A = "seg src s blk" and ?B = "ptr_img rv blk (p + s) (src + s) k"
    and ?C = "elem_img rv blk s k (p + s + 4 * k) (src + s + 4 * k) j"
  have la: "length ?A = s" and lb: "length ?B = 4 * k" using len by simp_all
  show ?case
  proof (cases m)
    case 0
    have "seg (s + 4 * l) 4 (?A @ ?B @ ?C) = seg (4 * l) 4 (?B @ ?C)"
      using seg_append2 [of ?A "4 * l" 4 "?B @ ?C"] unfolding la .
    also have "\<dots> = seg (4 * l) 4 ?B" using Suc.prems(2) lb by (intro slice_append1) simp
    finally show ?thesis using 0 seg_ptr_img [OF Suc.prems(2)] by (simp del: le_enc.simps)
  next
    case (Suc m')
    have "seg ((s + 4 * k) * m + s + 4 * l) 4 ((?A @ ?B) @ ?C) = seg ((s + 4 * k) * m' + s + 4 * l) 4 ?C"
      unfolding Suc using seg_append2 [of "?A @ ?B" "(s + 4 * k) * m' + s + 4 * l" 4 ?C] la lb
      by (simp add: algebra_simps)
    also have "\<dots> = le_enc 4 (rv (p + s + 4 * k + (s + 4 * k) * m' + s + 4 * l)
        (le_val (seg (src + s + 4 * k + (s + 4 * k) * m' + s + 4 * l) 4 blk)))"
      using Suc Suc.prems len by (intro Suc.IH) simp_all
    finally show ?thesis unfolding Suc by (simp add: algebra_simps del: le_enc.simps)
  qed
qed

text \<open>The bytes of object \<open>i\<close> in the output, compared with its buffer \<open>b\<close>.\<close>

lemma wire_bytes:
  assumes ok: "builder_ok w pa ads" and i: "i < length ads" and b: "bufs w (ads ! i) = Some b"
  defines "r \<equiv> node_obj w (ads ! i)" and "out \<equiv> wire_from w ads 0"
  shows "wire_header out (offs w ads i) = (unat (nelem r), unat (ssize r), unat (psize r))"
    and "psize r = 0 \<Longrightarrow> q + m \<le> obj_bytes r \<Longrightarrow>
      seg (offs w ads i + 8 + q) m out = seg (24 + q) m (buf_base b)"
    and "psize r \<noteq> 0 \<Longrightarrow> j < unat (nelem r) \<Longrightarrow> q + m \<le> unat (ssize r) \<Longrightarrow>
      seg (offs w ads i + 8 + (esize r * j + q)) m out = seg (24 + (esize r * j + q)) m (buf_base b)"
    and "j < unat (nelem r) \<Longrightarrow> k < unat (psize r) \<Longrightarrow>
      seg (offs w ads i + 8 + slot_at r j k) 4 out = le_enc 4 (rel_words w ads
        (offs w ads i + 8 + slot_at r j k) (le_val (seg (24 + slot_at r j k) 4 (buf_base b))))"
proof -
  let ?p = "offs w ads i"
  define blk where "blk = buf_base (with_offset b (?p div 4))"
  obtain b0 where b0: "bufs w (ads ! i) = Some b0" "node_buf b0 pa i (ads ! i)"
    "node_obj w (ads ! i) = obj_in b0 (ads ! i)"
    "24 + obj_bytes (node_obj w (ads ! i)) \<le> length (buf_base b0)"
    by (rule node_obj_in_bounds [OF ok i])
  then have n: "node_buf b pa i (ads ! i)" "24 + obj_bytes r \<le> length (buf_base b)"
    "r = obj_in b (ads ! i)" using b by (simp_all add: r_def)
  have lblk: "length blk = length (buf_base b)" unfolding blk_def by (rule with_offset_node(6) [OF n(1)])
  have same: "seg q m blk = seg q m (buf_base b)" if "12 \<le> q" "q + m \<le> length (buf_base b)" for q m
    using that unfolding blk_def by (rule with_offset_node(5) [OF n(1)])
  have wo: "wire_obj w ads i = obj_img (rel_words w ads) blk ?p r"
    by (simp add: wire_obj_def b blk_def r_def)
  define pad :: "byte list" where "pad = replicate ((8 - (?p + 8 + obj_bytes r) mod 8) mod 8) 0"
  define body where "body = (if psize r = 0 then seg 24 (obj_bytes r) blk
     else elem_img (rel_words w ads) blk (unat (ssize r)) (unat (psize r)) (?p + 8) 24 (unat (nelem r)))"
  have img: "wire_obj w ads i = seg 16 8 blk @ body @ pad"
    by (simp add: wo obj_img_def body_def pad_def)
  have l8: "length (seg 16 8 blk) = 8" using n(2) lblk by simp
  note sz = obj_sz_bounds(1) [of r]
  have hd: "seg (?p + q) m out = seg (16 + q) m (buf_base b)" if "q + m \<le> 8" for q m
  proof -
    have "seg (?p + q) m out = seg q m (wire_obj w ads i)"
      unfolding out_def using that sz by (intro wire_seg [OF ok i]) (simp add: r_def)
    also have "\<dots> = seg q m (seg 16 8 blk)" unfolding img using that l8 by (intro slice_append1) simp
    also have "\<dots> = seg (16 + q) m (buf_base b)" using that n(2) by (simp add: slice_slice same)
    finally show ?thesis .
  qed
  have "stored b r" using n(1,3) by (simp add: node_buf_def)
  then have "wire_header (buf_base b) 16 = (unat (nelem r), unat (ssize r), unat (psize r))"
    using n(3) by (simp add: stored_def)
  then show "wire_header out ?p = (unat (nelem r), unat (ssize r), unat (psize r))"
    using hd [of 0 4] hd [of 4 2] hd [of 6 2] by (simp add: wire_header_def add.commute)
  have ee: "esize r = unat (ssize r) + 4 * unat (psize r)" by (simp add: esize_def)
  have e: "psize r \<noteq> 0 \<Longrightarrow> obj_bytes r = (unat (ssize r) + 4 * unat (psize r)) * unat (nelem r)"
    by (auto simp: obj_bytes_def esize_def unat_0_iff)
  have lb: "length body = obj_bytes r" using n(2) lblk e by (auto simp: body_def length_elem_img)
  have bd: "seg (?p + 8 + q) m out = seg q m body" if "q + m \<le> obj_bytes r" for q m
  proof -
    have "seg (?p + (8 + q)) m out = seg (8 + q) m (wire_obj w ads i)"
      unfolding out_def using that sz by (intro wire_seg [OF ok i]) (simp add: r_def)
    also have "\<dots> = seg q m (body @ pad)"
      unfolding img using seg_append2 [of "seg 16 8 blk" q m "body @ pad"] unfolding l8 .
    also have "\<dots> = seg q m body" using that lb by (intro slice_append1) simp
    finally show ?thesis by (simp add: add.assoc)
  qed
  show "seg (?p + 8 + q) m out = seg (24 + q) m (buf_base b)"
    if "psize r = 0" "q + m \<le> obj_bytes r"
    using that bd [OF that(2)] n(2) by (simp add: body_def slice_slice same)
  have el: "esize r * j + esize r \<le> obj_bytes r" if "psize r \<noteq> 0" "j < unat (nelem r)" for j
  proof -
    have "esize r * Suc j \<le> esize r * unat (nelem r)" using that(2) by (intro mult_le_mono2) simp
    then show ?thesis using e [OF that(1)] ee by simp
  qed
  have len: "24 + (unat (ssize r) + 4 * unat (psize r)) * unat (nelem r) \<le> length blk" if "psize r \<noteq> 0"
    using n(2) lblk e [OF that] by simp
  show "seg (?p + 8 + (esize r * j + q)) m out = seg (24 + (esize r * j + q)) m (buf_base b)"
    if "psize r \<noteq> 0" "j < unat (nelem r)" "q + m \<le> unat (ssize r)"
  proof -
    have le: "esize r * j + q + m \<le> obj_bytes r" using el [OF that(1,2)] that(3) ee by simp
    have "seg (esize r * j + q) m body = seg (24 + (esize r * j + q)) m blk"
      using seg_elem_scalar [OF that(2,3) len [OF that(1)]] that(1) by (simp add: body_def ee add.assoc)
    also have "\<dots> = seg (24 + (esize r * j + q)) m (buf_base b)" using le n(2) by (intro same) simp_all
    finally show ?thesis using bd [OF le] by simp
  qed
  show "seg (?p + 8 + slot_at r j k) 4 out = le_enc 4 (rel_words w ads
        (?p + 8 + slot_at r j k) (le_val (seg (24 + slot_at r j k) 4 (buf_base b))))"
    if "j < unat (nelem r)" "k < unat (psize r)"
  proof -
    note s = slot_in_obj [OF that]
    have p0: "psize r \<noteq> 0" using that(2) by auto
    have sa: "slot_at r j k = (unat (ssize r) + 4 * unat (psize r)) * j + unat (ssize r) + 4 * k"
      by (simp add: slot_at_def ee)
    have "seg (slot_at r j k) 4 body = le_enc 4 (rel_words w ads (?p + 8 + slot_at r j k)
        (le_val (seg (24 + slot_at r j k) 4 blk)))"
      using seg_elem_ptr [OF that len [OF p0], of "rel_words w ads" "?p + 8"] p0
      by (simp add: body_def sa add.assoc del: le_enc.simps)
    moreover have "seg (24 + slot_at r j k) 4 blk = seg (24 + slot_at r j k) 4 (buf_base b)"
      using s n(2) by (intro same) simp_all
    ultimately show ?thesis using bd [of "slot_at r j k" 4] s by (simp del: le_enc.simps)
  qed
qed

section \<open>The output shows the builder\<close>

definition wire_buf :: "world \<Rightarrow> nat list \<Rightarrow> nbuf_buffer" where
  "wire_buf w ads = \<lparr>buf_base = wire_from w ads 0, buf_len = of_nat (offs w ads (length ads)),
     buf_cap = of_nat (offs w ads (length ads)), buf_ops = NULL_ops\<rparr>"

text \<open>Object \<open>i\<close> as it is read from the output at address \<open>pa\<close>.\<close>

definition image_obj :: "world \<Rightarrow> nat list \<Rightarrow> nat \<Rightarrow> nat \<Rightarrow> nbuf_obj" where
  "image_obj w ads pa i =
    (node_obj w (ads ! i))\<lparr>obj_buf := pa, obj_base := of_nat (offs w ads i + 8)\<rparr>"

lemma wire_buf_facts:
  assumes ok: "builder_ok w pa ads" and ser: "serializable w ads"
  shows "unat (buf_len (wire_buf w ads)) = offs w ads (length ads)"
    and "length (buf_base (wire_buf w ads)) = offs w ads (length ads)"
    and "buf_wwf (wire_buf w ads)" and "buf_wf (wire_buf w ads)"
proof -
  have t: "offs w ads (length ads) < 2 ^ 33" using ser by (simp add: serializable_def)
  then show l: "unat (buf_len (wire_buf w ads)) = offs w ads (length ads)"
    by (simp add: wire_buf_def unat_of_nat_64)
  show m: "length (buf_base (wire_buf w ads)) = offs w ads (length ads)"
    using length_wire_from [OF ok, of 0] by (simp add: wire_buf_def)
  have "buf_cap (wire_buf w ads) = buf_len (wire_buf w ads)" by (simp add: wire_buf_def)
  then show "buf_wwf (wire_buf w ads)" using t l m by (simp add: buf_wwf_def)
  then show "buf_wf (wire_buf w ads)" by (rule buf_wwf_wf)
qed

lemma image_obj_facts:
  assumes ok: "builder_ok w pa ads" and ser: "serializable w ads" and i: "i < length ads"
  shows "unat (obj_base (image_obj w ads pa i)) = offs w ads i + 8"
    and "obj_bytes (image_obj w ads pa i) = obj_bytes (node_obj w (ads ! i))"
    and "esize (image_obj w ads pa i) = esize (node_obj w (ads ! i))"
    and "stored (wire_buf w ads) (image_obj w ads pa i)"
    and "obj_ok (wire_buf w ads) (image_obj w ads pa i)"
proof -
  let ?r = "node_obj w (ads ! i)" and ?m = "image_obj w ads pa i"
  have t: "offs w ads (length ads) < 2 ^ 33" using ser by (simp add: serializable_def)
  have step: "offs w ads i + obj_sz ?r \<le> offs w ads (length ads)" by (rule offs_step [OF i])
  show base: "unat (obj_base ?m) = offs w ads i + 8"
  proof -
    have "unat (of_nat (offs w ads i + 8) :: size_t) = offs w ads i + 8"
      using step obj_sz_bounds(1) [of ?r] t by (intro unat_of_nat_64) simp
    then show ?thesis by (simp add: image_obj_def del: of_nat_add)
  qed
  show e: "esize ?m = esize ?r" "obj_bytes ?m = obj_bytes ?r"
    by (simp_all add: image_obj_def esize_def obj_bytes_def)
  obtain b where b: "bufs w (ads ! i) = Some b" "node_buf b pa i (ads ! i)"
    "?r = obj_in b (ads ! i)"
    by (rule node_obj_in_bounds [OF ok i]) blast
  then have st: "stored b ?r" by (simp add: node_buf_def)
  have ib: "nelem ?m \<noteq> 0 \<longrightarrow> in_bounds (wire_buf w ads) ?m"
    using st base e step obj_sz_bounds(1) [of ?r] wire_buf_facts(1) [OF ok ser]
    by (auto simp: stored_def in_bounds_def image_obj_def)
  then show "obj_ok (wire_buf w ads) ?m" by (simp add: obj_ok_def)
  have "offs w ads i + 8 \<le> offs w ads (length ads)" using step obj_sz_bounds(1) [of ?r] by simp
  then show "stored (wire_buf w ads) ?m"
    using ib base wire_bytes(1) [OF ok i b(1)] wire_buf_facts(1) [OF ok ser]
    by (simp add: stored_def wire_buf_def image_obj_def)
qed

lemma image_opens:
  assumes "builder_ok w pa ads" and "serializable w ads" and "i < length ads"
  shows "nbuf_obj_init (wire_buf w ads) (null_obj pa) (of_nat (offs w ads i)) = Some (image_obj w ads pa i)"
proof -
  note f = image_obj_facts [OF assms]
  have "unat (obj_base (image_obj w ads pa i) - 8) = offs w ads i"
    using f(1) by (subst unat_sub_nowrap) (simp_all add: word_le_nat_alt)
  then have "obj_base (image_obj w ads pa i) - 8 = of_nat (offs w ads i)"
    by (metis of_nat_unat ucast_id)
  then show ?thesis
    using stored_opens [OF wire_buf_facts(4) [OF assms(1,2)] f(4)]
    by (simp add: image_obj_def)
qed

text \<open>Where the elements of an object lie, relative to it.\<close>

definition elem_off :: "nbuf_obj \<Rightarrow> nat \<Rightarrow> nat" where
  "elem_off r j = (if esize r = 0 then j div 8 else esize r * j)"

lemma get_elem_facts:
  assumes "buf_wf b" and "obj_ok b r" and "unat j < unat (nelem r)"
  shows "unat (obj_base (nbuf_get_elem r j)) = unat (obj_base r) + elem_off r (unat j)"
    and "ssize (nbuf_get_elem r j) = (if esize r = 0 then 1 else ssize r)"
    and "psize (nbuf_get_elem r j) = psize r" and "obj_buf (nbuf_get_elem r j) = obj_buf r"
    and "elem_off r (unat j) + unat (ssize (nbuf_get_elem r j)) \<le> obj_bytes r"
proof -
  have "nelem r \<noteq> 0" using assms(3) by auto
  then have bd: "unat (obj_base r) + obj_bytes r \<le> unat (buf_len b)"
    using assms(2) by (simp add: obj_ok_def in_bounds_def)
  show "ssize (nbuf_get_elem r j) = (if esize r = 0 then 1 else ssize r)"
    "psize (nbuf_get_elem r j) = psize r" "obj_buf (nbuf_get_elem r j) = obj_buf r"
    using assms(3) by (simp_all add: get_elem_unfold)
  show le: "elem_off r (unat j) + unat (ssize (nbuf_get_elem r j)) \<le> obj_bytes r"
    using assms(3) unat_elem_offs(2) [of r j]
    by (auto simp: get_elem_unfold elem_off_def obj_bytes_def esize_def mult.commute)
  show "unat (obj_base (nbuf_get_elem r j)) = unat (obj_base r) + elem_off r (unat j)"
  proof (cases "esize r = 0")
    case True
    then show ?thesis
      using assms(3) le unat_base_add [OF assms(1) bd, of "j div 8"]
      by (simp add: get_elem_unfold elem_off_def unat_div)
  next
    case False
    then show ?thesis
      using assms(3) unat_elem_offs [OF False assms(3)] unat_base_add [OF assms(1) bd, of "j * nbuf_elemsz r"]
      by (simp add: get_elem_unfold elem_off_def mult.commute)
  qed
qed

text \<open>Where a cell lies within the element.\<close>

fun cell_off :: "cell \<Rightarrow> nat" where
  "cell_off (Int_cell off sz) = unat off"
| "cell_off (Bit_cell k) = unat k div 8"

lemma cell_pos_off: "cell_pos r c = unat (obj_base r) + cell_off c"
  by (cases c) simp_all

lemma cell_fits_off: "cell_fits s c \<Longrightarrow> cell_off c + cell_len c \<le> s"
  by (cases c) auto

lemma node_elem:
  assumes ok: "builder_ok w pa ads" and i: "i < length ads"
    and j: "unat j < unat (nelem (node_obj w (ads ! i)))"
  obtains b where "bufs w (ads ! i) = Some b" "writable_obj (nbuf_get_elem (node_obj w (ads ! i)) j) b"
    "part_of w ads i (nbuf_get_elem (node_obj w (ads ! i)) j)"
    "unat (obj_base (nbuf_get_elem (node_obj w (ads ! i)) j)) = 24 + elem_off (node_obj w (ads ! i)) (unat j)"
    "buf_wf b" "obj_ok b (node_obj w (ads ! i))"
proof -
  let ?r = "node_obj w (ads ! i)"
  obtain b where b: "bufs w (ads ! i) = Some b" "node_buf b pa i (ads ! i)" "?r = obj_in b (ads ! i)"
    by (rule node_obj_in_bounds [OF ok i]) blast
  then have f: "buf_wwf b" "buf_wf b" "obj_ok b ?r" "unat (obj_base ?r) = 24" "obj_buf ?r = ads ! i"
    by (auto simp: node_buf_def buf_wwf_wf stored_def obj_ok_def)
  have s: "obj_safe b (nbuf_get_elem ?r j)" by (rule get_elem_safe [OF f(2,3)])
  note g = get_elem_facts [OF f(2,3) j]
  show thesis
    using that [OF b(1)] f s g(1,4) i b(1) by (simp add: writable_obj_def part_of_def)
qed

lemma image_scalars:
  assumes ok: "builder_ok w pa ads" and ser: "serializable w ads" and i: "i < length ads"
    and j: "unat j < unat (nelem (node_obj w (ads ! i)))" and b: "bufs w (ads ! i) = Some b"
    and c: "cell_fits (unat (ssize (nbuf_get_elem (node_obj w (ads ! i)) j))) c"
  shows "get_cell (nbuf_get_elem (image_obj w ads pa i) j) (wire_buf w ads) c
    = get_cell (nbuf_get_elem (node_obj w (ads ! i)) j) b c"
proof -
  let ?r = "node_obj w (ads ! i)" and ?m = "image_obj w ads pa i" and ?R = "wire_buf w ads"
  obtain b0 where b0: "bufs w (ads ! i) = Some b0" "writable_obj (nbuf_get_elem ?r j) b0"
    "unat (obj_base (nbuf_get_elem ?r j)) = 24 + elem_off ?r (unat j)" "buf_wf b0" "obj_ok b0 ?r"
    by (rule node_elem [OF ok i j]) blast
  then have w: "writable_obj (nbuf_get_elem ?r j) b"
    and base: "unat (obj_base (nbuf_get_elem ?r j)) = 24 + elem_off ?r (unat j)"
    using b by simp_all
  note m = image_obj_facts [OF ok ser i] and R = wire_buf_facts [OF ok ser]
  have jm: "unat j < unat (nelem ?m)" using j by (simp add: image_obj_def)
  note gm = get_elem_facts [OF R(4) m(5) jm] and gr = get_elem_facts [OF b0(4,5) j]
  have wm: "writable_obj (nbuf_get_elem ?m j) ?R"
    using get_elem_safe [OF R(4) m(5)] R(3) by (simp add: writable_obj_def)
  have sm: "ssize (nbuf_get_elem ?m j) = ssize (nbuf_get_elem ?r j)"
    using gm(2) gr(2) m(3) by (simp add: image_obj_def)
  have eo: "elem_off ?m (unat j) = elem_off ?r (unat j)" using m(3) by (simp add: elem_off_def)
  have le: "cell_off c + cell_len c \<le> unat (ssize (nbuf_get_elem ?r j))" by (rule cell_fits_off [OF c])
  have "seg (offs w ads i + 8 + (elem_off ?r (unat j) + cell_off c)) (cell_len c) (buf_base ?R)
      = seg (24 + (elem_off ?r (unat j) + cell_off c)) (cell_len c) (buf_base b)"
  proof (cases "psize ?r = 0")
    case True
    then show ?thesis using wire_bytes(2) [OF ok i b] gr(5) le by (simp add: wire_buf_def)
  next
    case False
    then have "esize ?r \<noteq> 0" by (simp add: esize_def unat_0_iff)
    then show ?thesis using wire_bytes(3) [OF ok i b False j] le gr(2)
      by (simp add: wire_buf_def elem_off_def)
  qed
  then have "seg (cell_pos (nbuf_get_elem ?m j) c) (cell_len c) (buf_base ?R)
      = seg (cell_pos (nbuf_get_elem ?r j) c) (cell_len c) (buf_base b)"
    using gm(1) m(1) base eo by (simp add: cell_pos_off add.assoc)
  then show ?thesis
    using get_cell_eq [OF wm] get_cell_eq [OF w c] c sm by simp
qed

text \<open>Both pointers are unset, or they lead to the same object.\<close>

definition same_target :: "world \<Rightarrow> nat list \<Rightarrow> nat \<Rightarrow> nbuf_obj option \<Rightarrow> nbuf_obj option \<Rightarrow> bool" where
  "same_target w ads pa x y \<longleftrightarrow>
    (\<exists>a. x = Some (null_obj a)) \<and> y = Some (null_obj pa) \<or>
    (\<exists>v < length ads. x = Some (node_obj w (ads ! v)) \<and> y = Some (image_obj w ads pa v))"

lemma image_links:
  assumes ok: "builder_ok w pa ads" and ser: "serializable w ads" and i: "i < length ads"
    and j: "unat j < unat (nelem (node_obj w (ads ! i)))"
    and k: "unat k < unat (psize (node_obj w (ads ! i)))"
  shows "same_target w ads pa (builder_get_ptr w (nbuf_get_elem (node_obj w (ads ! i)) j) k)
    (nbuf_get_ptr_plain (wire_buf w ads) (nbuf_get_elem (image_obj w ads pa i) j) k)"
proof -
  let ?r = "node_obj w (ads ! i)" and ?m = "image_obj w ads pa i" and ?R = "wire_buf w ads"
  let ?e = "nbuf_get_elem ?r j" and ?f = "nbuf_get_elem ?m j"
  let ?s = "slot_at ?r (unat j) (unat k)"
  obtain b where b: "bufs w (ads ! i) = Some b" "part_of w ads i ?e"
    "unat (obj_base ?e) = 24 + elem_off ?r (unat j)" "buf_wf b" "obj_ok b ?r"
    by (rule node_elem [OF ok i j]) blast
  note m = image_obj_facts [OF ok ser i] and R = wire_buf_facts [OF ok ser]
  have jm: "unat j < unat (nelem ?m)" using j by (simp add: image_obj_def)
  note gm = get_elem_facts [OF R(4) m(5) jm] and gr = get_elem_facts [OF b(4,5) j]
  note sl = slot_in_obj [OF j k]
  have e0: "esize ?r \<noteq> 0" using sl(2) .
  have pe: "ptr_pos ?e k = 24 + ?s"
    using b(3) gr(2) e0 by (simp add: ptr_pos_def slot_at_def elem_off_def)
  have ssz: "ssize ?f = ssize ?r" "psize ?f = psize ?r" "obj_buf ?f = pa"
    using gm(2-4) m(3) e0 by (simp_all add: image_obj_def)
  have pf: "ptr_pos ?f k = offs w ads i + 8 + ?s"
    using gm(1) m(1,3) ssz e0 by (simp add: ptr_pos_def slot_at_def elem_off_def)
  have safe: "obj_safe ?R ?f" by (rule get_elem_safe [OF R(4) m(5)])
  have ke: "unat k < unat (psize ?e)" using k gr(3) by simp
  define v where "v = le_val (seg (24 + ?s) 4 (buf_base b))"
  have t: "offs w ads (length ads) < 2 ^ 33" and v: "v = 0 \<or> i < v \<and> v < length ads"
    and s4: "unat (ssize ?r) mod 4 = 0"
    using ser i b(1) j k unfolding serializable_def v_def Let_def
    by (auto simp: unat_gt_0 [symmetric])
  define d where "d = rel_words w ads (ptr_pos ?f k) v"
  have le: "ptr_pos ?f k + 4 \<le> offs w ads (Suc i)"
    using sl obj_sz_bounds(1) [of ?r] by (simp add: pf)
  have "d < 2 ^ 31"
  proof (cases "v = 0")
    case False
    then have "offs w ads v < 2 ^ 33" using v offs_mono [of v "length ads" w ads] t by simp
    then have "offs w ads v div 4 < 2 ^ 31" by simp
    then show ?thesis by (simp add: d_def rel_words_def less_imp_diff_less)
  qed (simp add: d_def rel_words_def)
  have sg: "d = le_val (seg (ptr_pos ?f k) 4 (buf_base ?R))"
    using wire_bytes(4) [OF ok i b(1) j k] \<open>d < 2 ^ 31\<close>
    by (simp add: wire_buf_def pf d_def v_def le_val_enc del: le_enc.simps)
  note gp = get_ptr_eq [OF R(4) safe, of d k, folded ptr_pos_def, OF sg \<open>d < 2 ^ 31\<close>, unfolded ssz Let_def]
  show ?thesis
  proof (cases "v = 0")
    case True
    then have "d = 0" by (simp add: d_def rel_words_def)
    then have "nbuf_get_ptr_plain ?R ?f k = Some (null_obj pa)" using gp by simp
    moreover have "builder_get_ptr w ?e k = Some (null_obj (obj_buf ?e))"
      using True pe by (intro builder_get_ptr_zero [OF ok b(2) ke b(1)]) (simp add: v_def)
    ultimately show ?thesis unfolding same_target_def by blast
  next
    case False
    then have vi: "i < v" "v < length ads" "0 < v" using v by auto
    have bp: "builder_get_ptr w ?e k = Some (node_obj w (ads ! v))"
      using builder_get_ptr_eq [OF ok b(2) ke b(1) _ vi(3,2)] pe getobj_node [OF ok vi(2)]
      by (simp add: v_def)
    have p4: "4 dvd ptr_pos ?f k"
    proof -
      have "4 dvd unat (ssize ?r)" using s4 by presburger
      moreover have "8 dvd offs w ads i" using offs_mod by blast
      then have "4 dvd offs w ads i" by (rule dvd_trans [rotated]) simp
      ultimately show ?thesis by (simp add: pf slot_at_def esize_def)
    qed
    have o4: "4 dvd offs w ads v"
    proof -
      have "8 dvd offs w ads v" using offs_mod by blast
      then show ?thesis by (rule dvd_trans [rotated]) simp
    qed
    have ov: "ptr_pos ?f k + 4 \<le> offs w ads v"
      using le offs_mono [of "Suc i" v w ads] vi(1) by simp
    obtain x y where xy: "ptr_pos ?f k = 4 * x" "offs w ads v = 4 * y" using p4 o4 by (auto elim!: dvdE)
    have d: "d = y - x" "x < y" using False ov xy by (simp_all add: d_def rel_words_def)
    have pos: "ptr_pos ?f k + 4 * d = offs w ads v" "d \<noteq> 0" using d xy by simp_all
    have "offs w ads v < offs w ads (length ads)"
      using offs_step [OF vi(2), of w ads] obj_sz_bounds(1) [of "node_obj w (ads ! v)"] by simp
    then have "nbuf_get_ptr_plain ?R ?f k = Some (image_obj w ads pa v)"
      using gp k pos R(1) image_opens [OF ok ser vi(2)] by simp
    then show ?thesis using bp vi(2) by (auto simp: same_target_def)
  qed
qed

text \<open>
  Claim C1.  Serializing refines the builder.  When pointers lead only to later objects and are aligned,
  and memory is granted, \<^verbatim>\<open>nbuf_serialize\<close> trips no \<^verbatim>\<open>assert\<close>, frees all object buffers and leaves
  one plain buffer in which every object opens at its offset, every scalar of every element reads as in
  the builder, and every pointer, followed in place, leads to the image of the object it led to.
\<close>

theorem serialize_refines:
  assumes "builder_ok w pa ads" and "serializable w ads" and "\<And>k. grants al k"
  shows "\<exists>w' R. nbuf_serialize al w pa = Some (True, w') \<and> bufs w' pa = Some R \<and>
    buf_ops R = NULL_ops \<and> buf_wwf R \<and> (\<forall>x \<in> set ads. bufs w' x = None) \<and>
    (\<forall>i < length ads.
      nbuf_obj_init R (null_obj pa) (of_nat (offs w ads i)) = Some (image_obj w ads pa i) \<and>
      (\<forall>j. unat j < unat (nelem (node_obj w (ads ! i))) \<longrightarrow>
        (\<forall>b c. bufs w (ads ! i) = Some b \<longrightarrow>
          cell_fits (unat (ssize (nbuf_get_elem (node_obj w (ads ! i)) j))) c \<longrightarrow>
          get_cell (nbuf_get_elem (image_obj w ads pa i) j) R c
            = get_cell (nbuf_get_elem (node_obj w (ads ! i)) j) b c) \<and>
        (\<forall>k. unat k < unat (psize (node_obj w (ads ! i))) \<longrightarrow>
          same_target w ads pa (builder_get_ptr w (nbuf_get_elem (node_obj w (ads ! i)) j) k)
            (nbuf_get_ptr_plain R (nbuf_get_elem (image_obj w ads pa i) j) k))))"
proof -
  obtain w' where w': "nbuf_serialize al w pa = Some (True, w')" "\<forall>x \<in> set ads. bufs w' x = None"
    "bufs w' pa = Some (wire_buf w ads)"
    using serialize_eq [OF assms] unfolding wire_buf_def by blast
  have "buf_ops (wire_buf w ads) = NULL_ops" by (simp add: wire_buf_def)
  then show ?thesis
    using w' wire_buf_facts(3) [OF assms(1,2)] image_opens [OF assms(1,2)]
      image_scalars [OF assms(1,2)] image_links [OF assms(1,2)]
    by (intro exI [of _ w'] exI [of _ "wire_buf w ads"] conjI allI impI) simp_all
qed

text \<open>A builder with a root that has one scalar, 9, and one pointer, to the string \<open>hi\<close>.\<close>

definition demo_pool_buf :: nbuf_buffer where
  "demo_pool_buf = \<lparr>buf_base = [1,0,0,0,0,0,0,0, 2,0,0,0,0,0,0,0, 3,0,0,0,0,0,0,0],
    buf_len = 24, buf_cap = 24, buf_ops = builder_ops\<rparr>"

definition demo_node0 :: nbuf_buffer where
  "demo_node0 = \<lparr>buf_base = [1,0,0,0,0,0,0,0, 0,0,0,0, 0,0,0,0, 1,0,0,0, 4,0, 1,0, 9,0,0,0, 1,0,0,0],
    buf_len = 32, buf_cap = 32, buf_ops = builder_ops\<rparr>"

definition demo_node1 :: nbuf_buffer where
  "demo_node1 = \<lparr>buf_base = [1,0,0,0,0,0,0,0, 0,0,0,0, 1,0,0,0, 3,0,0,0, 1,0, 0,0, 104,105,0,0,0,0,0,0],
    buf_len = 32, buf_cap = 32, buf_ops = builder_ops\<rparr>"

definition demo_linked :: world where
  "demo_linked = \<lparr>bufs = (\<lambda>_. None)(1 := Some demo_pool_buf, 2 := Some demo_node0,
    3 := Some demo_node1), next_addr = 4\<rparr>"

lemma demo_nodes:
  "node_obj demo_linked 2 = \<lparr>obj_buf = 2, obj_base = 24, nelem = 1, ssize = 4, psize = 1\<rparr>"
  "node_obj demo_linked 3 = \<lparr>obj_buf = 3, obj_base = 24, nelem = 3, ssize = 1, psize = 0\<rparr>"
  by (simp_all add: node_obj_def demo_linked_def obj_in_def header_obj_def wire_header_def
      demo_node0_def demo_node1_def seg_def null_obj_def Let_def)

lemma demo_linked_ok: "builder_ok demo_linked 1 [2, 3]"
proof -
  have "pool_ok demo_linked 1 [2, 3]"
    by (auto simp: pool_ok_def demo_linked_def demo_pool_buf_def buf_wwf_def seg_def less_Suc_eq)
  moreover have "node_buf demo_node0 1 0 2"
    by (simp add: node_buf_def demo_node0_def buf_wwf_def seg_def stored_def obj_in_def header_obj_def
        wire_header_def null_obj_def in_bounds_def obj_bytes_def esize_def)
  moreover have "node_buf demo_node1 1 1 3"
    by (simp add: node_buf_def demo_node1_def buf_wwf_def seg_def stored_def obj_in_def header_obj_def
        wire_header_def null_obj_def in_bounds_def obj_bytes_def esize_def)
  ultimately show ?thesis
    by (auto simp: builder_ok_def node_def demo_linked_def less_Suc_eq)
qed

lemma demo_sizes: "obj_sz (node_obj demo_linked 2) = 16" "obj_sz (node_obj demo_linked 3) = 16"
  by (simp_all add: demo_nodes obj_sz_def obj_bytes_def esize_def)

lemma demo_offs: "offs demo_linked [2, 3] 0 = 0" "offs demo_linked [2, 3] (Suc 0) = 16"
  "offs demo_linked [2, 3] (Suc (Suc 0)) = 32"
  by (simp_all add: demo_sizes)

lemma demo_serializable: "serializable demo_linked [2, 3]"
proof -
  have "offs demo_linked [2, 3] (length [2 :: nat, 3]) < 2 ^ 33" using demo_offs(3) by simp
  moreover have "bufs demo_linked 2 = Some demo_node0" "bufs demo_linked 3 = Some demo_node1"
    by (simp_all add: demo_linked_def)
  moreover have "le_val (seg 28 4 (buf_base demo_node0)) = 1" by (simp add: demo_node0_def seg_def)
  ultimately show ?thesis
    by (auto simp: serializable_def Let_def less_Suc_eq demo_nodes slot_at_def esize_def)
qed

theorem serialize_refines_witness:
  "\<exists>w' R. nbuf_serialize roomy_al demo_linked 1 = Some (True, w') \<and> bufs w' 1 = Some R \<and>
    nbuf_obj_init R (null_obj 1) 0
      = Some \<lparr>obj_buf = 1, obj_base = 8, nelem = 1, ssize = 4, psize = 1\<rparr>"
proof -
  have im: "image_obj demo_linked [2, 3] 1 0 = \<lparr>obj_buf = 1, obj_base = 8, nelem = 1, ssize = 4, psize = 1\<rparr>"
    using demo_offs(1) by (simp add: image_obj_def demo_nodes)
  from serialize_refines [OF demo_linked_ok demo_serializable, of roomy_al] roomy_grants
  obtain w' R where r: "nbuf_serialize roomy_al demo_linked 1 = Some (True, w')" "bufs w' 1 = Some R"
    "\<forall>i < length [2 :: nat, 3]. nbuf_obj_init R (null_obj 1) (of_nat (offs demo_linked [2, 3] i))
      = Some (image_obj demo_linked [2, 3] 1 i)"
    by blast
  from r(3) have "nbuf_obj_init R (null_obj 1) (of_nat (offs demo_linked [2, 3] 0))
      = Some (image_obj demo_linked [2, 3] 1 0)" by blast
  then show ?thesis using r(1,2) im demo_offs(1) by auto
qed

end
