(* ===== verification/Schema.thy ===== *)
theory Schema
  imports Builder
begin

text \<open>
  The schema messages: the accessors of \<^verbatim>\<open>include/nbuf.nb.h\<close>, one definition per function.  The
  struct types of that file wrap one \<^verbatim>\<open>struct nbuf_obj\<close> each and are that object here.  Readers and
  writers go through the dispatching operations on a \<open>world\<close>, so they work on a buffer that was
  loaded and on a builder alike.
\<close>

section \<open>Kinds\<close>

text \<open>\<^verbatim>\<open>nbuf_Kind\<close>; a number outside the enumeration, as a corrupt schema may hold, is kept.\<close>

datatype nbuf_Kind =
  Kind_BOOL | Kind_ENUM | Kind_INT | Kind_UINT | Kind_FLOAT | Kind_STR | Kind_PTR | Kind_other int64

definition kind_of_int :: "int64 \<Rightarrow> nbuf_Kind" where
  "kind_of_int v =
    (if v = 0 then Kind_BOOL else if v = 1 then Kind_ENUM else if v = 2 then Kind_INT
     else if v = 3 then Kind_UINT else if v = 4 then Kind_FLOAT else if v = 5 then Kind_STR
     else if v = 6 then Kind_PTR else Kind_other v)"

fun int_of_kind :: "nbuf_Kind \<Rightarrow> int64" where
  "int_of_kind Kind_BOOL = 0"
| "int_of_kind Kind_ENUM = 1"
| "int_of_kind Kind_INT = 2"
| "int_of_kind Kind_UINT = 3"
| "int_of_kind Kind_FLOAT = 4"
| "int_of_kind Kind_STR = 5"
| "int_of_kind Kind_PTR = 6"
| "int_of_kind (Kind_other v) = v"

lemma kind_of_int_of_kind: "(\<And>v. k \<noteq> Kind_other v) \<Longrightarrow> kind_of_int (int_of_kind k) = k"
  by (cases k) (simp_all add: kind_of_int_def)

section \<open>Scalars of an object in a world\<close>

definition obj_get_int :: "world \<Rightarrow> nbuf_obj \<Rightarrow> size_t \<Rightarrow> size_t \<Rightarrow> int64 option" where
  "obj_get_int w ob off sz = do { buf \<leftarrow> bufs w (obj_buf ob); nbuf_get_int buf ob off sz }"

definition obj_put_int :: "world \<Rightarrow> nbuf_obj \<Rightarrow> size_t \<Rightarrow> size_t \<Rightarrow> uint64 \<Rightarrow> world option" where
  "obj_put_int w ob off sz v =
    do { buf \<leftarrow> bufs w (obj_buf ob);
         b \<leftarrow> nbuf_put_int buf ob off sz v;
         Some (put_buf w (obj_buf ob) b) }"

section \<open>Schema\<close>

definition nbuf_get_Schema :: "world \<Rightarrow> nat \<Rightarrow> nbuf_obj option" where
  "nbuf_get_Schema w a =
    do { buf \<leftarrow> bufs w a; nbuf_obj_init buf (null_obj a) 0 }"

definition nbuf_new_Schema :: "allocator \<Rightarrow> world \<Rightarrow> nat \<Rightarrow> (nbuf_obj \<times> world) option" where
  "nbuf_new_Schema al w a =
    nbuf_create al w a 1 0 3"

definition nbuf_Schema_msgTypes :: "world \<Rightarrow> nbuf_obj \<Rightarrow> size_t \<Rightarrow> nbuf_obj option" where
  "nbuf_Schema_msgTypes w ob i =
    do { rr \<leftarrow> nbuf_get_ptr w ob 0; Some (nbuf_get_elem rr i) }"

definition nbuf_Schema_msgTypes_size :: "world \<Rightarrow> nbuf_obj \<Rightarrow> size_t option" where
  "nbuf_Schema_msgTypes_size w ob =
    do { rr \<leftarrow> nbuf_get_ptr w ob 0; Some (ucast (nelem rr)) }"

definition nbuf_Schema_init_msgTypes :: "allocator \<Rightarrow> world \<Rightarrow> nbuf_obj \<Rightarrow> size_t \<Rightarrow> world option" where
  "nbuf_Schema_init_msgTypes al w ob n =
    do { (rr, w1) \<leftarrow> nbuf_create al w (obj_buf ob) (ucast n) 4 2; nbuf_put_ptr w1 ob 0 rr }"

definition nbuf_Schema_has_msgTypes :: "world \<Rightarrow> nbuf_obj \<Rightarrow> bool option" where
  "nbuf_Schema_has_msgTypes w ob =
    do { buf \<leftarrow> bufs w (obj_buf ob); nbuf_has_ptr buf ob 0 }"

definition nbuf_Schema_enumTypes :: "world \<Rightarrow> nbuf_obj \<Rightarrow> size_t \<Rightarrow> nbuf_obj option" where
  "nbuf_Schema_enumTypes w ob i =
    do { rr \<leftarrow> nbuf_get_ptr w ob 1; Some (nbuf_get_elem rr i) }"

definition nbuf_Schema_enumTypes_size :: "world \<Rightarrow> nbuf_obj \<Rightarrow> size_t option" where
  "nbuf_Schema_enumTypes_size w ob =
    do { rr \<leftarrow> nbuf_get_ptr w ob 1; Some (ucast (nelem rr)) }"

definition nbuf_Schema_init_enumTypes :: "allocator \<Rightarrow> world \<Rightarrow> nbuf_obj \<Rightarrow> size_t \<Rightarrow> world option" where
  "nbuf_Schema_init_enumTypes al w ob n =
    do { (rr, w1) \<leftarrow> nbuf_create al w (obj_buf ob) (ucast n) 0 2; nbuf_put_ptr w1 ob 1 rr }"

definition nbuf_Schema_has_enumTypes :: "world \<Rightarrow> nbuf_obj \<Rightarrow> bool option" where
  "nbuf_Schema_has_enumTypes w ob =
    do { buf \<leftarrow> bufs w (obj_buf ob); nbuf_has_ptr buf ob 1 }"

definition nbuf_Schema_pkgName :: "world \<Rightarrow> nbuf_obj \<Rightarrow> (byte list \<times> size_t) option" where
  "nbuf_Schema_pkgName w ob =
    nbuf_get_str w ob 2"

definition nbuf_Schema_set_pkgName :: "allocator \<Rightarrow> world \<Rightarrow> nbuf_obj \<Rightarrow> byte list \<Rightarrow> size_t \<Rightarrow> world option" where
  "nbuf_Schema_set_pkgName al w ob v n =
    nbuf_put_str al w ob 2 v n"

section \<open>EnumDesc\<close>

definition nbuf_get_EnumDesc :: "world \<Rightarrow> nat \<Rightarrow> nbuf_obj option" where
  "nbuf_get_EnumDesc w a =
    do { buf \<leftarrow> bufs w a; nbuf_obj_init buf (null_obj a) 0 }"

definition nbuf_new_EnumDesc :: "allocator \<Rightarrow> world \<Rightarrow> nat \<Rightarrow> (nbuf_obj \<times> world) option" where
  "nbuf_new_EnumDesc al w a =
    nbuf_create al w a 1 4 1"

definition nbuf_EnumDesc_name :: "world \<Rightarrow> nbuf_obj \<Rightarrow> (byte list \<times> size_t) option" where
  "nbuf_EnumDesc_name w ob =
    nbuf_get_str w ob 0"

definition nbuf_EnumDesc_set_name :: "allocator \<Rightarrow> world \<Rightarrow> nbuf_obj \<Rightarrow> byte list \<Rightarrow> size_t \<Rightarrow> world option" where
  "nbuf_EnumDesc_set_name al w ob v n =
    nbuf_put_str al w ob 0 v n"

definition nbuf_EnumDesc_value :: "world \<Rightarrow> nbuf_obj \<Rightarrow> uint16 option" where
  "nbuf_EnumDesc_value w ob =
    map_option ucast (obj_get_int w ob 0 2)"

definition nbuf_EnumDesc_set_value :: "world \<Rightarrow> nbuf_obj \<Rightarrow> uint16 \<Rightarrow> world option" where
  "nbuf_EnumDesc_set_value w ob v =
    obj_put_int w ob 0 2 (ucast v)"

section \<open>EnumType\<close>

definition nbuf_get_EnumType :: "world \<Rightarrow> nat \<Rightarrow> nbuf_obj option" where
  "nbuf_get_EnumType w a =
    do { buf \<leftarrow> bufs w a; nbuf_obj_init buf (null_obj a) 0 }"

definition nbuf_new_EnumType :: "allocator \<Rightarrow> world \<Rightarrow> nat \<Rightarrow> (nbuf_obj \<times> world) option" where
  "nbuf_new_EnumType al w a =
    nbuf_create al w a 1 0 2"

definition nbuf_EnumType_name :: "world \<Rightarrow> nbuf_obj \<Rightarrow> (byte list \<times> size_t) option" where
  "nbuf_EnumType_name w ob =
    nbuf_get_str w ob 0"

definition nbuf_EnumType_set_name :: "allocator \<Rightarrow> world \<Rightarrow> nbuf_obj \<Rightarrow> byte list \<Rightarrow> size_t \<Rightarrow> world option" where
  "nbuf_EnumType_set_name al w ob v n =
    nbuf_put_str al w ob 0 v n"

definition nbuf_EnumType_values :: "world \<Rightarrow> nbuf_obj \<Rightarrow> size_t \<Rightarrow> nbuf_obj option" where
  "nbuf_EnumType_values w ob i =
    do { rr \<leftarrow> nbuf_get_ptr w ob 1; Some (nbuf_get_elem rr i) }"

definition nbuf_EnumType_values_size :: "world \<Rightarrow> nbuf_obj \<Rightarrow> size_t option" where
  "nbuf_EnumType_values_size w ob =
    do { rr \<leftarrow> nbuf_get_ptr w ob 1; Some (ucast (nelem rr)) }"

definition nbuf_EnumType_init_values :: "allocator \<Rightarrow> world \<Rightarrow> nbuf_obj \<Rightarrow> size_t \<Rightarrow> world option" where
  "nbuf_EnumType_init_values al w ob n =
    do { (rr, w1) \<leftarrow> nbuf_create al w (obj_buf ob) (ucast n) 4 1; nbuf_put_ptr w1 ob 1 rr }"

definition nbuf_EnumType_has_values :: "world \<Rightarrow> nbuf_obj \<Rightarrow> bool option" where
  "nbuf_EnumType_has_values w ob =
    do { buf \<leftarrow> bufs w (obj_buf ob); nbuf_has_ptr buf ob 1 }"

section \<open>FieldDesc\<close>

definition nbuf_get_FieldDesc :: "world \<Rightarrow> nat \<Rightarrow> nbuf_obj option" where
  "nbuf_get_FieldDesc w a =
    do { buf \<leftarrow> bufs w a; nbuf_obj_init buf (null_obj a) 0 }"

definition nbuf_new_FieldDesc :: "allocator \<Rightarrow> world \<Rightarrow> nat \<Rightarrow> (nbuf_obj \<times> world) option" where
  "nbuf_new_FieldDesc al w a =
    nbuf_create al w a 1 12 1"

definition nbuf_FieldDesc_name :: "world \<Rightarrow> nbuf_obj \<Rightarrow> (byte list \<times> size_t) option" where
  "nbuf_FieldDesc_name w ob =
    nbuf_get_str w ob 0"

definition nbuf_FieldDesc_set_name :: "allocator \<Rightarrow> world \<Rightarrow> nbuf_obj \<Rightarrow> byte list \<Rightarrow> size_t \<Rightarrow> world option" where
  "nbuf_FieldDesc_set_name al w ob v n =
    nbuf_put_str al w ob 0 v n"

definition nbuf_FieldDesc_kind :: "world \<Rightarrow> nbuf_obj \<Rightarrow> nbuf_Kind option" where
  "nbuf_FieldDesc_kind w ob =
    map_option kind_of_int (obj_get_int w ob 0 2)"

definition nbuf_FieldDesc_set_kind :: "world \<Rightarrow> nbuf_obj \<Rightarrow> nbuf_Kind \<Rightarrow> world option" where
  "nbuf_FieldDesc_set_kind w ob v =
    obj_put_int w ob 0 2 (ucast (ucast (int_of_kind v) :: uint16))"

definition nbuf_FieldDesc_list :: "world \<Rightarrow> nbuf_obj \<Rightarrow> bool option" where
  "nbuf_FieldDesc_list w ob =
    do { buf \<leftarrow> bufs w (obj_buf ob); nbuf_get_bit buf ob 16 }"

definition nbuf_FieldDesc_set_list :: "world \<Rightarrow> nbuf_obj \<Rightarrow> bool \<Rightarrow> world option" where
  "nbuf_FieldDesc_set_list w ob v =
    do { buf \<leftarrow> bufs w (obj_buf ob); b \<leftarrow> nbuf_put_bit buf ob 16 v; Some (put_buf w (obj_buf ob) b) }"

definition nbuf_FieldDesc_tag0 :: "world \<Rightarrow> nbuf_obj \<Rightarrow> uint32 option" where
  "nbuf_FieldDesc_tag0 w ob =
    map_option ucast (obj_get_int w ob 4 4)"

definition nbuf_FieldDesc_set_tag0 :: "world \<Rightarrow> nbuf_obj \<Rightarrow> uint32 \<Rightarrow> world option" where
  "nbuf_FieldDesc_set_tag0 w ob v =
    obj_put_int w ob 4 4 (ucast v)"

definition nbuf_FieldDesc_tag1 :: "world \<Rightarrow> nbuf_obj \<Rightarrow> uint32 option" where
  "nbuf_FieldDesc_tag1 w ob =
    map_option ucast (obj_get_int w ob 8 4)"

definition nbuf_FieldDesc_set_tag1 :: "world \<Rightarrow> nbuf_obj \<Rightarrow> uint32 \<Rightarrow> world option" where
  "nbuf_FieldDesc_set_tag1 w ob v =
    obj_put_int w ob 8 4 (ucast v)"

section \<open>MsgType\<close>

definition nbuf_get_MsgType :: "world \<Rightarrow> nat \<Rightarrow> nbuf_obj option" where
  "nbuf_get_MsgType w a =
    do { buf \<leftarrow> bufs w a; nbuf_obj_init buf (null_obj a) 0 }"

definition nbuf_new_MsgType :: "allocator \<Rightarrow> world \<Rightarrow> nat \<Rightarrow> (nbuf_obj \<times> world) option" where
  "nbuf_new_MsgType al w a =
    nbuf_create al w a 1 4 2"

definition nbuf_MsgType_name :: "world \<Rightarrow> nbuf_obj \<Rightarrow> (byte list \<times> size_t) option" where
  "nbuf_MsgType_name w ob =
    nbuf_get_str w ob 0"

definition nbuf_MsgType_set_name :: "allocator \<Rightarrow> world \<Rightarrow> nbuf_obj \<Rightarrow> byte list \<Rightarrow> size_t \<Rightarrow> world option" where
  "nbuf_MsgType_set_name al w ob v n =
    nbuf_put_str al w ob 0 v n"

definition nbuf_MsgType_fields :: "world \<Rightarrow> nbuf_obj \<Rightarrow> size_t \<Rightarrow> nbuf_obj option" where
  "nbuf_MsgType_fields w ob i =
    do { rr \<leftarrow> nbuf_get_ptr w ob 1; Some (nbuf_get_elem rr i) }"

definition nbuf_MsgType_fields_size :: "world \<Rightarrow> nbuf_obj \<Rightarrow> size_t option" where
  "nbuf_MsgType_fields_size w ob =
    do { rr \<leftarrow> nbuf_get_ptr w ob 1; Some (ucast (nelem rr)) }"

definition nbuf_MsgType_init_fields :: "allocator \<Rightarrow> world \<Rightarrow> nbuf_obj \<Rightarrow> size_t \<Rightarrow> world option" where
  "nbuf_MsgType_init_fields al w ob n =
    do { (rr, w1) \<leftarrow> nbuf_create al w (obj_buf ob) (ucast n) 12 1; nbuf_put_ptr w1 ob 1 rr }"

definition nbuf_MsgType_has_fields :: "world \<Rightarrow> nbuf_obj \<Rightarrow> bool option" where
  "nbuf_MsgType_has_fields w ob =
    do { buf \<leftarrow> bufs w (obj_buf ob); nbuf_has_ptr buf ob 1 }"

definition nbuf_MsgType_ssize :: "world \<Rightarrow> nbuf_obj \<Rightarrow> uint16 option" where
  "nbuf_MsgType_ssize w ob =
    map_option ucast (obj_get_int w ob 0 2)"

definition nbuf_MsgType_set_ssize :: "world \<Rightarrow> nbuf_obj \<Rightarrow> uint16 \<Rightarrow> world option" where
  "nbuf_MsgType_set_ssize w ob v =
    obj_put_int w ob 0 2 (ucast v)"

definition nbuf_MsgType_psize :: "world \<Rightarrow> nbuf_obj \<Rightarrow> uint16 option" where
  "nbuf_MsgType_psize w ob =
    map_option ucast (obj_get_int w ob 2 2)"

definition nbuf_MsgType_set_psize :: "world \<Rightarrow> nbuf_obj \<Rightarrow> uint16 \<Rightarrow> world option" where
  "nbuf_MsgType_set_psize w ob v =
    obj_put_int w ob 2 2 (ucast v)"

section \<open>Descriptors are read back\<close>

text \<open>The cells of an object in a world, as a store of cells.\<close>

definition w_get_cell :: "nbuf_obj \<Rightarrow> world \<Rightarrow> cell \<Rightarrow> int64 option" where
  "w_get_cell ob w c = do { b \<leftarrow> bufs w (obj_buf ob); get_cell ob b c }"

definition w_put_cell :: "nbuf_obj \<Rightarrow> world \<Rightarrow> cell \<Rightarrow> int64 \<Rightarrow> world option" where
  "w_put_cell ob w c v =
    do { b \<leftarrow> bufs w (obj_buf ob); b1 \<leftarrow> put_cell ob b c v; Some (put_buf w (obj_buf ob) b1) }"

definition w_writable :: "nbuf_obj \<Rightarrow> world \<Rightarrow> bool" where
  "w_writable ob w \<longleftrightarrow> (\<exists>b. bufs w (obj_buf ob) = Some b \<and> writable_obj ob b)"

interpretation wmsg: cell_store "w_get_cell ob" "w_put_cell ob" "w_writable ob"
  "cell_fits (unat (ssize ob))" cells_disjoint cell_norm for ob
proof unfold_locales
  fix w c v assume a: "w_writable ob w" "cell_fits (unat (ssize ob)) c"
  then obtain b where b: "bufs w (obj_buf ob) = Some b" "writable_obj ob b"
    by (auto simp: w_writable_def)
  obtain b1 where "put_cell ob b c v = Some b1" "writable_obj ob b1"
    using msg.put_total [OF b(2) a(2)] by blast
  then show "\<exists>w'. w_put_cell ob w c v = Some w' \<and> w_writable ob w'"
    using b(1) by (simp add: w_put_cell_def w_writable_def)
next
  fix w c v w'
  assume a: "w_writable ob w" "cell_fits (unat (ssize ob)) c" "w_put_cell ob w c v = Some w'"
  then show "w_get_cell ob w' c = Some (cell_norm c v)"
    using msg.get_same by (auto simp: w_writable_def w_put_cell_def w_get_cell_def split: bind_splits)
next
  fix w c d v w'
  assume a: "w_writable ob w" "cell_fits (unat (ssize ob)) c" "cell_fits (unat (ssize ob)) d"
    "cells_disjoint c d" "w_put_cell ob w c v = Some w'"
  then show "w_get_cell ob w' d = w_get_cell ob w d"
    using msg.get_other by (auto simp: w_writable_def w_put_cell_def w_get_cell_def split: bind_splits)
qed (use cells_disjoint_sym in blast)

lemma obj_int_cell:
  "obj_get_int w ob off sz = w_get_cell ob w (Int_cell off sz)"
  "obj_put_int w ob off sz v = w_put_cell ob w (Int_cell off sz) v"
  by (simp_all add: obj_get_int_def obj_put_int_def w_get_cell_def w_put_cell_def)

lemma list_bit_cell:
  "nbuf_FieldDesc_list w ob = map_option (\<lambda>v. v \<noteq> 0) (w_get_cell ob w (Bit_cell 16))"
  "nbuf_FieldDesc_set_list w ob v = w_put_cell ob w (Bit_cell 16) (of_bool v)"
  by (cases "bufs w (obj_buf ob)";
      simp add: nbuf_FieldDesc_list_def nbuf_FieldDesc_set_list_def w_get_cell_def w_put_cell_def
        option.map_comp comp_def option.map_ident)+

lemma small_kind: "(\<And>v. k \<noteq> Kind_other v) \<Longrightarrow>
    int_conv 2 (ucast (ucast (int_of_kind k) :: uint16)) = int_of_kind k"
  by (cases k) (auto simp: int_conv_def)

lemma ucast_int_conv: "ucast (int_conv 2 (ucast (x :: uint16))) = x"
  "ucast (int_conv 4 (ucast (y :: uint32))) = y"
  by (rule bit_word_eqI; simp add: int_conv_def bit_simps)+

text \<open>
  Claim C32.  A field descriptor holds what the compiler writes into it: after the four setters of its
  scalars, in the order \<^verbatim>\<open>outmsgs\<close> calls them, the four getters return kind, list flag and tags.
\<close>

theorem field_desc_read_back:
  assumes "w_writable ob w" and "12 \<le> unat (ssize ob)" and "\<And>v. k \<noteq> Kind_other v"
  shows "\<exists>w'. do { w1 \<leftarrow> nbuf_FieldDesc_set_list w ob l; w2 \<leftarrow> nbuf_FieldDesc_set_kind w1 ob k;
      w3 \<leftarrow> nbuf_FieldDesc_set_tag0 w2 ob t0; nbuf_FieldDesc_set_tag1 w3 ob t1 } = Some w' \<and>
    nbuf_FieldDesc_kind w' ob = Some k \<and> nbuf_FieldDesc_list w' ob = Some l \<and>
    nbuf_FieldDesc_tag0 w' ob = Some t0 \<and> nbuf_FieldDesc_tag1 w' ob = Some t1"
proof -
  let ?k = "ucast (ucast (int_of_kind k) :: uint16) :: uint64"
  let ?cvs = "[(Bit_cell 16, of_bool l), (Int_cell 0 2, ?k), (Int_cell 4 4, ucast t0), (Int_cell 8 4, ucast t1)]"
  have f: "\<forall>x \<in> set ?cvs. cell_fits (unat (ssize ob)) (fst x)" using assms(2) by simp
  have d: "sorted_wrt (\<lambda>x y. cells_disjoint (fst x) (fst y)) ?cvs" by (simp add: cells_disjoint_def)
  obtain w' where w': "put_all (w_put_cell ob) w ?cvs = Some w'"
    "\<forall>(c, v) \<in> set ?cvs. w_get_cell ob w' c = Some (cell_norm c v)"
    using wmsg.put_all_get [OF assms(1) f d] by blast
  have "do { w1 \<leftarrow> nbuf_FieldDesc_set_list w ob l; w2 \<leftarrow> nbuf_FieldDesc_set_kind w1 ob k;
      w3 \<leftarrow> nbuf_FieldDesc_set_tag0 w2 ob t0; nbuf_FieldDesc_set_tag1 w3 ob t1 } = Some w'"
    using w'(1) by (simp add: list_bit_cell nbuf_FieldDesc_set_kind_def nbuf_FieldDesc_set_tag0_def
        nbuf_FieldDesc_set_tag1_def obj_int_cell)
  moreover have "w_get_cell ob w' (Int_cell 0 2) = Some (int_of_kind k)"
    "w_get_cell ob w' (Bit_cell 16) = Some (of_bool l)"
    using w'(2) small_kind [OF assms(3)] by (simp_all split: if_splits)
  moreover have "w_get_cell ob w' (Int_cell 4 4) = Some (int_conv 4 (ucast t0))"
    "w_get_cell ob w' (Int_cell 8 4) = Some (int_conv 4 (ucast t1))"
    using w'(2) by simp_all
  ultimately show ?thesis
    using kind_of_int_of_kind [OF assms(3)]
    by (intro exI [of _ w'])
      (simp add: nbuf_FieldDesc_kind_def list_bit_cell nbuf_FieldDesc_tag0_def nbuf_FieldDesc_tag1_def
        obj_int_cell ucast_int_conv)
qed

definition demo_desc_obj :: nbuf_obj where
  "demo_desc_obj = \<lparr>obj_buf = 1, obj_base = 8, nelem = 1, ssize = 12, psize = 1\<rparr>"

definition demo_desc_world :: world where
  "demo_desc_world = \<lparr>bufs = (\<lambda>_. None)(1 := Some (demo_wbuf)), next_addr = 2\<rparr>"

theorem field_desc_read_back_witness:
  "\<exists>w w'. w_writable demo_desc_obj w \<and> nbuf_FieldDesc_kind w' demo_desc_obj = Some Kind_PTR \<and>
    nbuf_FieldDesc_list w' demo_desc_obj = Some True \<and>
    nbuf_FieldDesc_tag0 w' demo_desc_obj = Some 3000000000"
proof -
  have w: "w_writable demo_desc_obj demo_desc_world"
    by (simp add: w_writable_def demo_desc_world_def demo_desc_obj_def demo_wbuf_def writable_obj_def
        buf_wwf_def obj_safe_def in_bounds_def obj_bytes_def esize_def)
  have s: "12 \<le> unat (ssize demo_desc_obj)" by (simp add: demo_desc_obj_def)
  from field_desc_read_back [OF w s, of Kind_PTR True 3000000000 7] w show ?thesis by blast
qed

end
