(* ===== verification/Layout.thy ===== *)
theory Layout
  imports Schema Cells "HOL-Library.Multiset"
begin

text \<open>
  The layout of message fields by the schema compiler, \<^verbatim>\<open>nbufc/t2b.c\<close>: scalars are placed one after
  the other, the holes that alignment leaves are kept in a list and filled first, booleans share
  bytes.  The nodes of that list are taken to be granted.  Offsets and sizes of holes stay below \<open>2 ^ 17\<close> and are natural numbers here; \<^verbatim>\<open>ssize\<close> and
  \<^verbatim>\<open>psize\<close> are 16-bit words that wrap.  The lemmas show that the fields of a message never overlap,
  are aligned and lie inside the scalar part, so that the setters and getters generated for them
  satisfy the contract of \<open>Cells\<close>.
\<close>

section \<open>State\<close>

record padding_space =
  pad_offset :: nat
  pad_size :: nat

text \<open>
  \<^verbatim>\<open>pad_link\<close> points to the link that follows the first \<open>pad_link\<close> entries of the list: 0 is
  \<^verbatim>\<open>&pad_start\<close>, \<open>i + 1\<close> is \<^verbatim>\<open>&p->next\<close> of entry \<open>i\<close>.
\<close>

record pads =
  pad_list :: "padding_space list"
  pad_link :: nat
  pad_bit_offs :: nat

definition clear_padding_spaces :: pads where
  "clear_padding_spaces = \<lparr>pad_list = [], pad_link = 0, pad_bit_offs = 0\<rparr>"

definition roundup :: "nat \<Rightarrow> nat \<Rightarrow> nat" where
  "roundup x n = (x + (n - 1)) div n * n"

section \<open>Finding room\<close>

text \<open>The loop over the list: the index of the first hole with room for \<open>size\<close> aligned bytes.\<close>

fun fits_hole :: "nat \<Rightarrow> padding_space \<Rightarrow> bool" where
  "fits_hole sz p \<longleftrightarrow> roundup (pad_offset p) sz - pad_offset p + sz \<le> pad_size p"

fun first_hole :: "nat \<Rightarrow> padding_space list \<Rightarrow> nat option" where
  "first_hole sz [] = None"
| "first_hole sz (p # ps) = (if fits_hole sz p then Some 0 else map_option Suc (first_hole sz ps))"

text \<open>What is left of hole \<open>i\<close>, and the link that the next hole will be appended to.\<close>

definition take_hole :: "pads \<Rightarrow> nat \<Rightarrow> nat \<Rightarrow> nat \<times> pads" where
  "take_hole st i sz =
    (let ps = pad_list st; p = ps ! i; l = pad_link st;
         offset = roundup (pad_offset p) sz;
         padding = offset - pad_offset p
     in (offset,
       if padding \<noteq> 0
       then (let remain = pad_size p - padding - sz; p1 = p\<lparr>pad_size := padding\<rparr>
             in if remain \<noteq> 0
                then st\<lparr>pad_list := take i ps @ [p1, \<lparr>pad_offset = pad_offset p + padding + sz,
                            pad_size = remain\<rparr>] @ drop (Suc i) ps,
                        pad_link := (if l > Suc i then Suc l else l)\<rparr>
                else st\<lparr>pad_list := ps[i := p1]\<rparr>)
       else if pad_size p > sz
       then st\<lparr>pad_list := ps[i := \<lparr>pad_offset = pad_offset p + sz, pad_size = pad_size p - sz\<rparr>]\<rparr>
       else st\<lparr>pad_list := take i ps @ drop (Suc i) ps, pad_link := (if l > i then l - 1 else l)\<rparr>))"

definition find_padding_space :: "pads \<Rightarrow> nat \<Rightarrow> nat option \<times> pads" where
  "find_padding_space st size0 =
    (if size0 = 0 \<and> pad_bit_offs st mod 8 \<noteq> 0
     then (Some (pad_bit_offs st), st\<lparr>pad_bit_offs := pad_bit_offs st + 1\<rparr>)
     else (let pack_bool = (size0 = 0); sz = (if pack_bool then 1 else size0)
           in case first_hole sz (pad_list st) of
                None \<Rightarrow> (None, st)
              | Some i \<Rightarrow>
                  (let (offset, st1) = take_hole st i sz
                   in if pack_bool then (Some (8 * offset), st1\<lparr>pad_bit_offs := 8 * offset + 1\<rparr>)
                      else (Some offset, st1))))"

text \<open>\<^verbatim>\<open>*pad_link = q\<close> cuts off whatever followed the link.\<close>

definition add_padding_space :: "pads \<Rightarrow> nat \<Rightarrow> nat \<Rightarrow> pads" where
  "add_padding_space st offset sz =
    st\<lparr>pad_list := take (pad_link st) (pad_list st) @ [\<lparr>pad_offset = offset, pad_size = sz\<rparr>],
       pad_link := Suc (pad_link st)\<rparr>"

definition calculate_offset :: "pads \<Rightarrow> uint16 \<Rightarrow> nat \<Rightarrow> nat \<times> uint16 \<times> pads" where
  "calculate_offset st ss sz =
    (case find_padding_space st sz of
       (Some offset, st1) \<Rightarrow> (offset, ss, st1)
     | (None, st1) \<Rightarrow>
         if sz = 0
         then (8 * unat ss, ss + 1, st1\<lparr>pad_bit_offs := 8 * unat ss + 1\<rparr>)
         else (let offset = roundup (unat ss) sz;
                   padding = offset - unat ss;
                   st2 = (if padding > 0 then add_padding_space st1 (unat ss) padding else st1)
               in (offset, ss + of_nat (padding + sz), st2)))"

section \<open>The fields of a message\<close>

text \<open>\<^verbatim>\<open>struct lookup_entry\<close>, without the name it is found under, and \<^verbatim>\<open>struct fldDesc\<close>.\<close>

record lookup_entry =
  ent_kind :: nbuf_Kind
  ent_size :: nat
  ent_id :: nat

record fldDesc =
  fld_name :: string
  fld_tname :: string
  fld_list :: bool

text \<open>What \<^verbatim>\<open>outmsgs\<close> writes through the setters of \<^verbatim>\<open>nbuf_FieldDesc\<close> and \<^verbatim>\<open>nbuf_MsgType\<close>.\<close>

record field_out =
  out_name :: string
  out_kind :: nbuf_Kind
  out_list :: bool
  out_tag0 :: uint32
  out_tag1 :: uint32

record msg_state =
  ms_ssize :: uint16
  ms_psize :: uint16
  ms_align :: nat
  ms_pads :: pads

definition is_scalar :: "nbuf_Kind \<Rightarrow> bool" where
  "is_scalar k \<longleftrightarrow> k = Kind_ENUM \<or> k = Kind_BOOL \<or> k = Kind_INT \<or> k = Kind_UINT \<or> k = Kind_FLOAT"

text \<open>
  The two \<^verbatim>\<open>switch\<close> statements of \<^verbatim>\<open>outmsgs\<close>.  The table of types holds none but the seven kinds of
  \<^verbatim>\<open>nbuf_Kind\<close>, so a number outside the enumeration, for which C would set neither tag, does not reach
  them.
\<close>

definition place_field :: "msg_state \<Rightarrow> lookup_entry \<Rightarrow> bool \<Rightarrow> nat \<times> msg_state" where
  "place_field ms ent lst =
    (if is_scalar (ent_kind ent) \<and> \<not> lst
     then (let (offset, ss, st) = calculate_offset (ms_pads ms) (ms_ssize ms) (ent_size ent)
           in (offset, ms\<lparr>ms_ssize := ss, ms_pads := st, ms_align := max (ms_align ms) (ent_size ent)\<rparr>))
     else (unat (ms_psize ms),
           ms\<lparr>ms_psize := ms_psize ms + 1, ms_align := max (ms_align ms) 4\<rparr>))"

definition field_tag1 :: "lookup_entry \<Rightarrow> uint32" where
  "field_tag1 ent =
    of_nat (if ent_kind ent = Kind_ENUM \<or> ent_kind ent = Kind_PTR then ent_id ent else ent_size ent)"

text \<open>\<open>None\<close> is \<^verbatim>\<open>die("BUG: cannot find type")\<close>.\<close>

fun place_fields ::
    "(string \<Rightarrow> lookup_entry option) \<Rightarrow> msg_state \<Rightarrow> fldDesc list \<Rightarrow> (field_out list \<times> msg_state) option"
  where
  "place_fields lookup ms [] = Some ([], ms)"
| "place_fields lookup ms (d # ds) =
    do { ent \<leftarrow> lookup (fld_tname d);
         let (t0, ms1) = place_field ms ent (fld_list d);
         (outs, ms2) \<leftarrow> place_fields lookup ms1 ds;
         Some (\<lparr>out_name = fld_name d, out_kind = ent_kind ent, out_list = fld_list d,
                out_tag0 = of_nat t0, out_tag1 = field_tag1 ent\<rparr> # outs, ms2) }"

definition final_ssize :: "msg_state \<Rightarrow> uint16" where
  "final_ssize ms =
    (let s = unat (ms_ssize ms); p = unat (ms_psize ms) * 4
     in if ms_align ms > 1 then of_nat (roundup (s + p) (ms_align ms) - p) else ms_ssize ms)"

record msgType =
  msg_name :: string
  msg_flds :: "fldDesc list"

record msg_out =
  mout_name :: string
  mout_fields :: "field_out list"
  mout_ssize :: uint16
  mout_psize :: uint16

text \<open>\<^verbatim>\<open>alignment\<close> is a variable of the whole loop: it is not reset from one message to the next.\<close>

fun outmsgs_from ::
    "(string \<Rightarrow> lookup_entry option) \<Rightarrow> nat \<Rightarrow> msgType list \<Rightarrow> msg_out list option" where
  "outmsgs_from lookup al [] = Some []"
| "outmsgs_from lookup al (m # msgs) =
    do { (outs, ms) \<leftarrow> place_fields lookup
           \<lparr>ms_ssize = 0, ms_psize = 0, ms_align = al, ms_pads = clear_padding_spaces\<rparr> (msg_flds m);
         rest \<leftarrow> outmsgs_from lookup (ms_align ms) msgs;
         Some (\<lparr>mout_name = msg_name m, mout_fields = outs, mout_ssize = final_ssize ms,
                mout_psize = ms_psize ms\<rparr> # rest) }"

definition outmsgs :: "(string \<Rightarrow> lookup_entry option) \<Rightarrow> msgType list \<Rightarrow> msg_out list option" where
  "outmsgs lookup msgs = outmsgs_from lookup 0 msgs"

section \<open>Counting bits\<close>

text \<open>
  \<open>iv a b x\<close> is 1 for the bits \<open>x\<close> from \<open>a\<close> up to \<open>b\<close>.  The total of the bits of fields, holes and
  the rest of the current byte of booleans never exceeds 1 inside the scalar part, nor 0 outside.
\<close>

definition iv :: "nat \<Rightarrow> nat \<Rightarrow> nat \<Rightarrow> nat" where
  "iv a b x = (if a \<le> x \<and> x < b then 1 else 0)"

lemma iv_split: "a \<le> b \<Longrightarrow> b \<le> c \<Longrightarrow> iv a b x + iv b c x = iv a c x"
  by (simp add: iv_def)

lemma iv_empty [simp]: "iv a a x = 0"
  by (simp add: iv_def)

lemma iv_le: "b \<le> c \<Longrightarrow> iv a b x \<le> iv a c x"
  by (simp add: iv_def)

definition hole_iv :: "padding_space \<Rightarrow> nat \<Rightarrow> nat" where
  "hole_iv p = iv (8 * pad_offset p) (8 * (pad_offset p + pad_size p))"

definition holes :: "padding_space list \<Rightarrow> nat \<Rightarrow> nat" where
  "holes ps x = (\<Sum>p\<leftarrow>ps. hole_iv p x)"

definition bit_rest :: "pads \<Rightarrow> nat \<Rightarrow> nat" where
  "bit_rest st x = (if pad_bit_offs st mod 8 = 0 then 0
    else iv (pad_bit_offs st) (8 * (pad_bit_offs st div 8 + 1)) x)"

text \<open>A placed scalar: offset and size, where size 0 is a bit.\<close>

definition place_iv :: "nat \<times> nat \<Rightarrow> nat \<Rightarrow> nat" where
  "place_iv = (\<lambda>(off, sz). if sz = 0 then iv off (off + 1) else iv (8 * off) (8 * (off + sz)))"

definition used :: "pads \<Rightarrow> (nat \<times> nat) list \<Rightarrow> nat \<Rightarrow> nat" where
  "used st pl x = holes (pad_list st) x + bit_rest st x + (\<Sum>c\<leftarrow>pl. place_iv c x)"

definition packed :: "pads \<Rightarrow> nat \<Rightarrow> (nat \<times> nat) list \<Rightarrow> bool" where
  "packed st s pl \<longleftrightarrow> (\<forall>x. used st pl x \<le> iv 0 (8 * s) x)"

lemma holes_append: "holes (ps @ qs) x = holes ps x + holes qs x"
  and holes_Cons [simp]: "holes (p # ps) x = hole_iv p x + holes ps x"
  and holes_Nil [simp]: "holes [] x = 0"
  by (simp_all add: holes_def)

lemma holes_nth: "i < length ps \<Longrightarrow> holes ps x = holes (take i ps) x + hole_iv (ps ! i) x + holes (drop (Suc i) ps) x"
  by (subst id_take_nth_drop [of i ps]) (simp_all add: holes_append)

lemma holes_update: "i < length ps \<Longrightarrow>
    holes (ps[i := p]) x + hole_iv (ps ! i) x = holes ps x + hole_iv p x"
  using holes_nth [of i "ps[i := p]" x] holes_nth [of i ps x] by simp

lemma holes_take_le: "holes (take n ps) x \<le> holes ps x"
  using holes_append [of "take n ps" "drop n ps" x] by simp

lemma first_holeD:
  "first_hole sz ps = Some i \<Longrightarrow> i < length ps \<and> fits_hole sz (ps ! i)"
  by (induction ps arbitrary: i) (auto split: if_splits simp del: fits_hole.simps)

lemma roundup_ge: "0 < n \<Longrightarrow> x \<le> roundup x n"
proof -
  assume n: "0 < n"
  have "x + (n - 1) = (x + (n - 1)) div n * n + (x + (n - 1)) mod n" by simp
  moreover have "(x + (n - 1)) mod n < n" using n by simp
  ultimately show ?thesis unfolding roundup_def using n by linarith
qed

lemma roundup_lt: "0 < n \<Longrightarrow> roundup x n < x + n"
proof -
  assume "0 < n"
  moreover have "(x + (n - 1)) div n * n \<le> x + (n - 1)" by simp
  ultimately show ?thesis unfolding roundup_def by linarith
qed

lemma roundup_mod: "roundup x n mod n = 0"
  by (simp add: roundup_def)

text \<open>Taking a place from a hole leaves exactly the rest of the hole.\<close>

lemma take_hole_used:
  assumes h: "first_hole sz (pad_list st) = Some i" and sz: "0 < sz"
    and t: "take_hole st i sz = (off, st1)"
  shows "holes (pad_list st1) x + iv (8 * off) (8 * (off + sz)) x = holes (pad_list st) x"
    and "pad_bit_offs st1 = pad_bit_offs st" and "off mod sz = 0"
proof -
  let ?ps = "pad_list st" and ?p = "pad_list st ! i"
  have i: "i < length ?ps" and f: "fits_hole sz ?p" using first_holeD [OF h] by simp_all
  have off: "off = roundup (pad_offset ?p) sz" using t by (simp add: take_hole_def Let_def)
  then show "off mod sz = 0" by (simp add: roundup_mod)
  define a pd where "a = pad_offset ?p" and "pd = off - pad_offset ?p"
  have o: "off = a + pd" using off roundup_ge [OF sz, of "pad_offset ?p"] by (simp add: a_def pd_def)
  have le: "pd + sz \<le> pad_size ?p" using f off by (simp add: pd_def)
  show "pad_bit_offs st1 = pad_bit_offs st" using t by (auto simp: take_hole_def Let_def split: if_splits)
  define n where "n = pad_size ?p"
  have whole: "hole_iv ?p x = iv (8 * a) (8 * off) x + iv (8 * off) (8 * (off + sz)) x
      + iv (8 * (off + sz)) (8 * (a + n)) x"
    using le o by (simp add: hole_iv_def a_def n_def iv_split)
  note hn = holes_nth [OF i, of x]
  show "holes (pad_list st1) x + iv (8 * off) (8 * (off + sz)) x = holes ?ps x"
  proof (cases "pd \<noteq> 0")
    case True
    show ?thesis
    proof (cases "n - pd - sz \<noteq> 0")
      case r: True
      have "pad_list st1 = take i ?ps @ [?p\<lparr>pad_size := pd\<rparr>,
          \<lparr>pad_offset = a + pd + sz, pad_size = n - pd - sz\<rparr>] @ drop (Suc i) ?ps"
        using t True r by (auto simp: take_hole_def Let_def off [symmetric] pd_def a_def n_def)
      then show ?thesis
        using hn whole le o by (simp add: holes_append hole_iv_def a_def n_def)
    next
      case r: False
      then have "n = pd + sz" using le by (simp add: n_def)
      moreover have "pad_list st1 = ?ps[i := ?p\<lparr>pad_size := pd\<rparr>]"
        using t True r by (auto simp: take_hole_def Let_def off [symmetric] pd_def a_def n_def)
      moreover have "hole_iv (?p\<lparr>pad_size := pd\<rparr>) x = iv (8 * a) (8 * off) x"
        by (simp add: hole_iv_def a_def o)
      ultimately show ?thesis
        using holes_update [OF i, of "?p\<lparr>pad_size := pd\<rparr>" x] whole o
        by (simp add: iv_empty add.assoc)
    qed
  next
    case False
    then have oa: "off = a" using o by simp
    show ?thesis
    proof (cases "sz < n")
      case True
      then have "pad_list st1 = ?ps[i := \<lparr>pad_offset = a + sz, pad_size = n - sz\<rparr>]"
        using t False by (auto simp: take_hole_def Let_def off [symmetric] pd_def a_def n_def)
      then show ?thesis
        using holes_update [OF i, of "\<lparr>pad_offset = a + sz, pad_size = n - sz\<rparr>" x] whole oa True
        by (simp add: hole_iv_def iv_def)
    next
      case r: False
      then have "n = sz" using le by (simp add: n_def)
      moreover have "pad_list st1 = take i ?ps @ drop (Suc i) ?ps"
        using t False r by (auto simp: take_hole_def Let_def off [symmetric] pd_def a_def n_def)
      ultimately show ?thesis using hn whole oa by (simp add: holes_append iv_def)
    qed
  qed
qed

lemma bit_rest_Suc: "pad_bit_offs st mod 8 \<noteq> 0 \<Longrightarrow>
    bit_rest (st\<lparr>pad_bit_offs := pad_bit_offs st + 1\<rparr>) x + place_iv (pad_bit_offs st, 0) x = bit_rest st x"
proof -
  let ?b = "pad_bit_offs st"
  assume nz: "?b mod 8 \<noteq> 0"
  have b: "?b = 8 * (?b div 8) + ?b mod 8" by simp
  have lt: "?b + 1 \<le> 8 * (?b div 8 + 1)" by presburger
  have old: "bit_rest st x = iv ?b (?b + 1) x + iv (?b + 1) (8 * (?b div 8 + 1)) x"
    using nz lt by (simp add: bit_rest_def iv_split)
  show ?thesis
  proof (cases "(?b + 1) mod 8 = 0")
    case True
    then have "?b + 1 = 8 * (?b div 8 + 1)" using lt nz by presburger
    then have "iv (?b + 1) (8 * (?b div 8 + 1)) x = 0" by (simp only: iv_empty)
    then show ?thesis using old True nz by (simp add: bit_rest_def place_iv_def)
  next
    case False
    then have "(?b + 1) div 8 = ?b div 8" by (metis Suc_eq_plus1 div_Suc mod_Suc nat.distinct(1))
    then show ?thesis using old False by (simp add: bit_rest_def place_iv_def)
  qed
qed

lemma bit_rest_start:
  "bit_rest (st\<lparr>pad_bit_offs := 8 * n + 1\<rparr>) x + place_iv (8 * n, 0) x = iv (8 * n) (8 * (n + 1)) x"
proof -
  have "(8 * n + 1) div 8 = n" "(8 * n + 1) mod 8 = 1" by presburger+
  then show ?thesis
    using iv_split [of "8 * n" "8 * n + 1" "8 * (n + 1)" x] by (simp add: bit_rest_def place_iv_def)
qed

text \<open>The outcomes of the search.\<close>

lemma find_padding_used:
  assumes "find_padding_space st sz = (r, st1)"
  shows "r = Some off \<Longrightarrow> used st1 ((off, sz) # pl) x = used st pl x"
    and "r = Some off \<Longrightarrow> sz \<noteq> 0 \<Longrightarrow> off mod sz = 0"
    and "r = None \<Longrightarrow> st1 = st \<and> (sz = 0 \<longrightarrow> pad_bit_offs st mod 8 = 0)"
proof -
  let ?s = "if sz = 0 then 1 else sz"
  have s0: "0 < ?s" by simp
  consider (bit) "sz = 0" "pad_bit_offs st mod 8 \<noteq> 0"
    | (none) "sz = 0 \<longrightarrow> pad_bit_offs st mod 8 = 0" "first_hole ?s (pad_list st) = None"
    | (hole) i where "sz = 0 \<longrightarrow> pad_bit_offs st mod 8 = 0" "first_hole ?s (pad_list st) = Some i"
    by (metis option.exhaust)
  then have "(r = Some off \<longrightarrow> used st1 ((off, sz) # pl) x = used st pl x \<and> (sz \<noteq> 0 \<longrightarrow> off mod sz = 0))
    \<and> (r = None \<longrightarrow> st1 = st \<and> (sz = 0 \<longrightarrow> pad_bit_offs st mod 8 = 0))"
  proof cases
    case bit
    then show ?thesis
      using assms bit_rest_Suc [OF bit(2), of x] by (auto simp: find_padding_space_def used_def)
  next
    case none
    then show ?thesis using assms by (auto simp: find_padding_space_def Let_def split: if_splits)
  next
    case hole
    obtain o1 s1 where t: "take_hole st i ?s = (o1, s1)" by (cases "take_hole st i ?s")
    note u = take_hole_used [OF hole(2) s0 t]
    show ?thesis
    proof (cases "sz = 0")
      case False
      then have "r = Some o1" "st1 = s1" using assms hole t by (auto simp: find_padding_space_def)
      then show ?thesis using u(1) [of x] u(2,3) False by (auto simp: used_def bit_rest_def place_iv_def)
    next
      case True
      then have r: "r = Some (8 * o1)" "st1 = s1\<lparr>pad_bit_offs := 8 * o1 + 1\<rparr>"
        using assms hole t by (auto simp: find_padding_space_def)
      have "bit_rest st x = 0" using True hole(1) by (simp add: bit_rest_def)
      then show ?thesis
        using u(1) [of x] bit_rest_start [where st = s1 and n = o1 and x = x] True r by (auto simp: used_def)
    qed
  qed
  then show "r = Some off \<Longrightarrow> used st1 ((off, sz) # pl) x = used st pl x"
    and "r = Some off \<Longrightarrow> sz \<noteq> 0 \<Longrightarrow> off mod sz = 0"
    and "r = None \<Longrightarrow> st1 = st \<and> (sz = 0 \<longrightarrow> pad_bit_offs st mod 8 = 0)" by auto
qed

lemma packed_extend:
  assumes "packed st s pl" and "s \<le> s'"
    and "\<And>x. used st' pl' x \<le> used st pl x + iv (8 * s) (8 * s') x"
  shows "packed st' s' pl'"
  unfolding packed_def
proof
  fix x
  have "used st' pl' x \<le> iv 0 (8 * s) x + iv (8 * s) (8 * s') x"
    using assms(1,3) unfolding packed_def by (meson add_le_mono1 le_trans)
  then show "used st' pl' x \<le> iv 0 (8 * s') x" using assms(2) by (simp add: iv_split)
qed

definition field_size :: "nat \<Rightarrow> bool" where
  "field_size sz \<longleftrightarrow> sz = 0 \<or> sz = 1 \<or> sz = 2 \<or> sz = 4 \<or> sz = 8"

lemma calculate_offset_packed:
  assumes pk: "packed st (unat ss) pl" and sz: "field_size sz" and lt: "unat ss + 16 < 65536"
    and c: "calculate_offset st ss sz = (off, ss', st')"
  shows "packed st' (unat ss') ((off, sz) # pl)" and "unat ss \<le> unat ss'"
    and "unat ss' < unat ss + 16" and "sz \<noteq> 0 \<Longrightarrow> off mod sz = 0"
proof -
  obtain r st1 where f: "find_padding_space st sz = (r, st1)" by (cases "find_padding_space st sz")
  have "packed st' (unat ss') ((off, sz) # pl) \<and> unat ss \<le> unat ss' \<and> unat ss' < unat ss + 16
    \<and> (sz \<noteq> 0 \<longrightarrow> off mod sz = 0)"
  proof (cases r)
    case (Some o1)
    then have e: "off = o1" "ss' = ss" "st' = st1" using c f by (auto simp: calculate_offset_def)
    show ?thesis
      using find_padding_used(1,2) [OF f Some] pk unfolding e packed_def by simp
  next
    case None
    note n = find_padding_used(3) [OF f None]
    show ?thesis
    proof (cases "sz = 0")
      case True
      then have e: "off = 8 * unat ss" "ss' = ss + 1" "st' = st\<lparr>pad_bit_offs := 8 * unat ss + 1\<rparr>"
        using c f None n by (auto simp: calculate_offset_def)
      have s': "unat ss' = unat ss + 1" unfolding e using lt by (subst unat_add_nowrap) simp_all
      have "bit_rest st x = 0" for x using n True by (simp add: bit_rest_def)
      then have "used st' ((off, sz) # pl) x = used st pl x + iv (8 * unat ss) (8 * unat ss') x" for x
        using bit_rest_start [where st = st and n = "unat ss" and x = x] by (simp add: used_def e(1,3) s' True)
      then have "packed st' (unat ss') ((off, sz) # pl)"
        using s' by (intro packed_extend [OF pk]) simp_all
      then show ?thesis using s' True by simp
    next
      case False
      then have z: "0 < sz" "sz \<le> 8" using sz by (auto simp: field_size_def)
      let ?s = "unat ss"
      define pd where "pd = roundup ?s sz - ?s"
      have o: "off = ?s + pd" "off mod sz = 0" and pl: "pd < sz"
        using c f None False n roundup_ge [OF z(1), of ?s] roundup_lt [OF z(1), of ?s] roundup_mod
        by (auto simp: calculate_offset_def pd_def Let_def)
      have e: "ss' = ss + of_nat (pd + sz)"
        "st' = (if pd > 0 then add_padding_space st ?s pd else st)"
        using c f None False n by (auto simp: calculate_offset_def pd_def Let_def)
      have ups: "unat (of_nat (pd + sz) :: uint16) = pd + sz"
        using pl z by (simp add: unat_of_nat take_bit_nat_eq_self del: of_nat_add)
      have s': "unat ss' = ?s + pd + sz"
        unfolding e using ups lt pl z by (subst unat_add_nowrap) (simp_all del: of_nat_add)
      have b: "bit_rest st' x = bit_rest st x" for x
        by (simp add: e add_padding_space_def bit_rest_def)
      have h: "holes (pad_list st') x \<le> holes (pad_list st) x + iv (8 * ?s) (8 * (?s + pd)) x" for x
        using holes_take_le [of "pad_link st" "pad_list st" x]
        by (simp add: e add_padding_space_def holes_append hole_iv_def)
      have "used st' ((off, sz) # pl) x \<le> used st pl x + iv (8 * ?s) (8 * unat ss') x" for x
        using h [of x] False iv_split [of "8 * ?s" "8 * (?s + pd)" "8 * unat ss'" x]
        by (simp add: used_def b place_iv_def o s' add.assoc)
      then have "packed st' (unat ss') ((off, sz) # pl)"
        using s' by (intro packed_extend [OF pk]) simp_all
      then show ?thesis using s' o pl z by simp
    qed
  qed
  then show "packed st' (unat ss') ((off, sz) # pl)" "unat ss \<le> unat ss'"
    "unat ss' < unat ss + 16" "sz \<noteq> 0 \<Longrightarrow> off mod sz = 0" by simp_all
qed

section \<open>The fields of a message do not overlap\<close>

text \<open>An entry of the type table: what \<^verbatim>\<open>types\<close> and \<^verbatim>\<open>makelookup\<close> hold for each kind.\<close>

fun ent_ok :: "lookup_entry \<Rightarrow> bool" where
  "ent_ok e \<longleftrightarrow> (case ent_kind e of
     Kind_BOOL \<Rightarrow> ent_size e = 0
   | Kind_ENUM \<Rightarrow> ent_size e = 2
   | Kind_INT \<Rightarrow> ent_size e \<in> {1, 2, 4, 8}
   | Kind_UINT \<Rightarrow> ent_size e \<in> {1, 2, 4, 8}
   | Kind_FLOAT \<Rightarrow> ent_size e \<in> {4, 8}
   | Kind_STR \<Rightarrow> ent_size e = 1
   | Kind_PTR \<Rightarrow> ent_size e = 4
   | Kind_other _ \<Rightarrow> False)"

definition out_scalar :: "field_out \<Rightarrow> bool" where
  "out_scalar f \<longleftrightarrow> is_scalar (out_kind f) \<and> \<not> out_list f"

definition out_size :: "field_out \<Rightarrow> nat" where
  "out_size f = (if out_kind f = Kind_ENUM then 2 else unat (out_tag1 f))"

definition out_place :: "field_out \<Rightarrow> nat \<times> nat" where
  "out_place f = (unat (out_tag0 f), out_size f)"

definition places :: "field_out list \<Rightarrow> (nat \<times> nat) list" where
  "places outs = map out_place (filter out_scalar outs)"

definition layout_inv :: "msg_state \<Rightarrow> (nat \<times> nat) list \<Rightarrow> bool" where
  "layout_inv ms pl \<longleftrightarrow> packed (ms_pads ms) (unat (ms_ssize ms)) pl \<and>
    (\<forall>(off, sz) \<in> set pl. field_size sz \<and> (sz \<noteq> 0 \<longrightarrow> off mod sz = 0)) \<and>
    ms_align ms \<in> {0, 1, 2, 4, 8} \<and> (ms_psize ms \<noteq> 0 \<longrightarrow> 4 \<le> ms_align ms)"

lemma ent_field_size: "ent_ok e \<Longrightarrow> field_size (ent_size e)"
  by (auto simp: field_size_def split: nbuf_Kind.splits)

lemma place_scalar:
  assumes inv: "layout_inv ms pl" and e: "ent_ok ent" and sc: "is_scalar (ent_kind ent)"
    and lt: "unat (ms_ssize ms) + 16 < 65536" and p: "place_field ms ent False = (off, ms1)"
  shows "layout_inv ms1 ((off, ent_size ent) # pl)" and "ms_psize ms1 = ms_psize ms"
    and "unat (ms_ssize ms1) < unat (ms_ssize ms) + 16" and "ms_align ms \<le> ms_align ms1"
proof -
  obtain ss st where c: "calculate_offset (ms_pads ms) (ms_ssize ms) (ent_size ent) = (off, ss, st)"
    and m: "ms1 = ms\<lparr>ms_ssize := ss, ms_pads := st, ms_align := max (ms_align ms) (ent_size ent)\<rparr>"
    using p sc by (auto simp: place_field_def split: prod.splits)
  have pk: "packed (ms_pads ms) (unat (ms_ssize ms)) pl" using inv by (simp add: layout_inv_def)
  note co = calculate_offset_packed [OF pk ent_field_size [OF e] lt c]
  have al: "max (ms_align ms) (ent_size ent) \<in> {0, 1, 2, 4, 8}"
    using inv ent_field_size [OF e] by (cases "ms_align ms \<le> ent_size ent") (simp_all add: layout_inv_def field_size_def)
  show "layout_inv ms1 ((off, ent_size ent) # pl)"
    using inv co al ent_field_size [OF e] by (simp add: layout_inv_def m le_max_iff_disj case_prod_beta)
  show "ms_psize ms1 = ms_psize ms" "unat (ms_ssize ms1) < unat (ms_ssize ms) + 16"
    "ms_align ms \<le> ms_align ms1" using co by (simp_all add: m)
qed

lemma place_pointer:
  assumes inv: "layout_inv ms pl" and sc: "\<not> (is_scalar (ent_kind ent) \<and> \<not> lst)"
    and p: "place_field ms ent lst = (off, ms1)"
  shows "layout_inv ms1 pl" and "off = unat (ms_psize ms)" and "ms_psize ms1 = ms_psize ms + 1"
    and "ms_ssize ms1 = ms_ssize ms" and "ms_align ms \<le> ms_align ms1"
proof -
  have m: "off = unat (ms_psize ms)"
    "ms1 = ms\<lparr>ms_psize := ms_psize ms + 1, ms_align := max (ms_align ms) 4\<rparr>"
    using p sc by (auto simp: place_field_def split: if_splits)
  show "layout_inv ms1 pl" using inv by (auto simp: layout_inv_def m max_def)
  show "off = unat (ms_psize ms)" "ms_psize ms1 = ms_psize ms + 1" "ms_ssize ms1 = ms_ssize ms"
    "ms_align ms \<le> ms_align ms1" using m by simp_all
qed

text \<open>Every bit of a place lies in the scalar part, so offsets fit the 32 bits of \<^verbatim>\<open>tag0\<close>.\<close>

lemma used_member: "c \<in> set pl \<Longrightarrow> place_iv c x \<le> used st pl x"
  by (induction pl) (auto simp: used_def)

lemma place_inside:
  assumes "packed st s pl" and "(off, sz) \<in> set pl"
  shows "if sz = 0 then off < 8 * s else off + sz \<le> s"
proof (cases "sz = 0")
  case True
  have "place_iv (off, sz) off \<le> iv 0 (8 * s) off"
    using used_member [OF assms(2), of off st] assms(1) le_trans unfolding packed_def by blast
  then show ?thesis using True by (auto simp: place_iv_def iv_def split: if_splits)
next
  case False
  let ?x = "8 * (off + sz) - 1"
  have "place_iv (off, sz) ?x \<le> iv 0 (8 * s) ?x"
    using used_member [OF assms(2), of ?x st] assms(1) le_trans unfolding packed_def by blast
  then show ?thesis using False by (auto simp: place_iv_def iv_def split: if_splits)
qed

lemma packed_move: "packed st s (xs @ c # ys) \<longleftrightarrow> packed st s (c # xs @ ys)"
  by (simp add: packed_def used_def add.left_commute add.assoc)

lemma layout_inv_move: "layout_inv ms (xs @ c # ys) \<longleftrightarrow> layout_inv ms (c # xs @ ys)"
  by (auto simp: layout_inv_def packed_move)

lemma out_place_of:
  assumes "ent_ok ent" and "is_scalar (ent_kind ent)" and "off < 2 ^ 32"
  shows "out_place \<lparr>out_name = n, out_kind = ent_kind ent, out_list = l, out_tag0 = of_nat off,
    out_tag1 = field_tag1 ent\<rparr> = (off, ent_size ent)"
proof -
  have "unat (of_nat off :: uint32) = off"
    using assms(3) by (simp add: unat_of_nat take_bit_nat_eq_self)
  then show ?thesis
    using assms(1,2) by (auto simp: out_place_def out_size_def field_tag1_def is_scalar_def
        split: nbuf_Kind.splits)
qed

lemma place_fields_inv:
  assumes look: "\<And>t e. lookup t = Some e \<Longrightarrow> ent_ok e"
  shows "place_fields lookup ms ds = Some (outs, ms') \<Longrightarrow> layout_inv ms pl \<Longrightarrow>
    unat (ms_ssize ms) + 16 * length ds < 65520 \<Longrightarrow> unat (ms_psize ms) + length ds < 65536 \<Longrightarrow>
    layout_inv ms' (places outs @ pl) \<and> unat (ms_ssize ms') \<le> unat (ms_ssize ms) + 16 * length ds \<and>
    map (\<lambda>f. unat (out_tag0 f)) (filter (\<lambda>f. \<not> out_scalar f) outs)
      = [unat (ms_psize ms)..<unat (ms_psize ms')] \<and>
    unat (ms_psize ms) \<le> unat (ms_psize ms')"
proof (induction ds arbitrary: ms outs pl)
  case Nil
  then show ?case by (simp add: places_def)
next
  case (Cons d ds)
  obtain ent where ent: "lookup (fld_tname d) = Some ent" using Cons.prems(1) by (auto split: bind_splits)
  obtain t0 ms1 where pf: "place_field ms ent (fld_list d) = (t0, ms1)"
    by (cases "place_field ms ent (fld_list d)")
  define f where "f = \<lparr>out_name = fld_name d, out_kind = ent_kind ent, out_list = fld_list d,
    out_tag0 = of_nat t0, out_tag1 = field_tag1 ent\<rparr>"
  obtain outs1 where o1: "place_fields lookup ms1 ds = Some (outs1, ms')" "outs = f # outs1"
    using Cons.prems(1) ent pf by (auto split: bind_splits simp: f_def)
  have ok: "ent_ok ent" by (rule look [OF ent])
  have sf: "out_scalar f \<longleftrightarrow> is_scalar (ent_kind ent) \<and> \<not> fld_list d"
    by (simp add: out_scalar_def f_def)
  show ?case
  proof (cases "is_scalar (ent_kind ent) \<and> \<not> fld_list d")
    case True
    have lt: "unat (ms_ssize ms) + 16 < 65536" using Cons.prems(3) by simp
    have pf': "place_field ms ent False = (t0, ms1)" using pf True by simp
    note ps = place_scalar [OF Cons.prems(2) ok _ lt pf'] 
    have sc: "is_scalar (ent_kind ent)" using True by simp
    note ps = ps [OF sc]
    have IH: "layout_inv ms' (places outs1 @ (t0, ent_size ent) # pl) \<and>
      unat (ms_ssize ms') \<le> unat (ms_ssize ms1) + 16 * length ds \<and>
      map (\<lambda>f. unat (out_tag0 f)) (filter (\<lambda>f. \<not> out_scalar f) outs1)
        = [unat (ms_psize ms1)..<unat (ms_psize ms')] \<and> unat (ms_psize ms1) \<le> unat (ms_psize ms')"
      using Cons.prems(3,4) ps by (intro Cons.IH [OF o1(1)]) simp_all
    have "packed (ms_pads ms1) (unat (ms_ssize ms1)) ((t0, ent_size ent) # pl)"
      using ps(1) by (simp add: layout_inv_def)
    from place_inside [OF this, of t0 "ent_size ent"] unat_u16_lt [of "ms_ssize ms1"]
    have "t0 < 2 ^ 32" by (simp split: if_splits)
    then have "out_place f = (t0, ent_size ent)"
      unfolding f_def by (rule out_place_of [OF ok sc])
    then have "places outs @ pl = (t0, ent_size ent) # places outs1 @ pl"
      using True sf by (simp add: places_def o1(2))
    then show ?thesis using IH ps sf True by (simp add: layout_inv_move o1(2))
  next
    case False
    note pp = place_pointer [OF Cons.prems(2) False pf]
    have p1: "unat (ms_psize ms1) = unat (ms_psize ms) + 1"
      unfolding pp(3) using Cons.prems(4) by (subst unat_add_nowrap) simp_all
    have IH: "layout_inv ms' (places outs1 @ pl) \<and>
      unat (ms_ssize ms') \<le> unat (ms_ssize ms1) + 16 * length ds \<and>
      map (\<lambda>f. unat (out_tag0 f)) (filter (\<lambda>f. \<not> out_scalar f) outs1)
        = [unat (ms_psize ms1)..<unat (ms_psize ms')] \<and> unat (ms_psize ms1) \<le> unat (ms_psize ms')"
      using Cons.prems(3,4) pp p1 by (intro Cons.IH [OF o1(1)]) simp_all
    have "unat (out_tag0 f) = unat (ms_psize ms)"
      using unat_u16_lt [of "ms_psize ms"] pp(2) by (simp add: f_def unat_of_nat take_bit_nat_eq_self)
    moreover have "[unat (ms_psize ms)..<unat (ms_psize ms')]
        = unat (ms_psize ms) # [unat (ms_psize ms1)..<unat (ms_psize ms')]"
      using IH p1 by (simp add: upt_conv_Cons)
    ultimately show ?thesis using IH sf False pp p1 by (simp add: places_def o1(2))
  qed
qed

section \<open>Layouts as cells\<close>

text \<open>The cell that the accessors generated for a scalar field use.\<close>

definition place_cell :: "nat \<times> nat \<Rightarrow> cell" where
  "place_cell = (\<lambda>(off, sz). if sz = 0 then Bit_cell (of_nat off) else Int_cell (of_nat off) (of_nat sz))"

definition msg_cells :: "msg_out \<Rightarrow> cell list" where
  "msg_cells m = map place_cell (places (mout_fields m))"

definition place_lo :: "nat \<times> nat \<Rightarrow> nat" where
  "place_lo = (\<lambda>(off, sz). if sz = 0 then off else 8 * off)"

definition place_hi :: "nat \<times> nat \<Rightarrow> nat" where
  "place_hi = (\<lambda>(off, sz). if sz = 0 then off + 1 else 8 * (off + sz))"

lemma place_iv_eq: "place_iv c = iv (place_lo c) (place_hi c)"
  and place_lo_hi: "place_lo c < place_hi c"
  by (auto simp: place_iv_def place_lo_def place_hi_def split: prod.splits)

lemma packed_tail: "packed st s (c # pl) \<Longrightarrow> packed st s pl"
proof -
  assume "packed st s (c # pl)"
  moreover have "used st pl x \<le> used st (c # pl) x" for x by (simp add: used_def)
  ultimately show ?thesis unfolding packed_def by (meson le_trans)
qed

lemma packed_disjoint:
  assumes "packed st s pl"
  shows "sorted_wrt (\<lambda>c d. place_hi c \<le> place_lo d \<or> place_hi d \<le> place_lo c) pl"
  using assms
proof (induction pl)
  case Nil
  then show ?case by simp
next
  case (Cons c pl)
  have "place_hi c \<le> place_lo d \<or> place_hi d \<le> place_lo c" if "d \<in> set pl" for d
  proof (rule ccontr)
    assume n: "\<not> ?thesis"
    define x where "x = max (place_lo c) (place_lo d)"
    have "place_iv c x = 1" "place_iv d x = 1"
      using n place_lo_hi [of c] place_lo_hi [of d] by (auto simp: place_iv_eq iv_def x_def)
    moreover have "place_iv d x \<le> used st pl x" by (rule used_member [OF that])
    moreover have "used st (c # pl) x = place_iv c x + used st pl x" by (simp add: used_def)
    moreover have "used st (c # pl) x \<le> 1"
      using Cons.prems unfolding packed_def iv_def by (metis (full_types) le_trans zero_le_one order_refl)
    ultimately show False by linarith
  qed
  then show ?case using Cons.IH packed_tail [OF Cons.prems] by simp
qed

lemma place_cell_bounds:
  assumes "if sz = 0 then off < 8 * s else off + sz \<le> s" and "s < 65536"
  shows "cell_lo (place_cell (off, sz)) = place_lo (off, sz)"
    and "cell_hi (place_cell (off, sz)) = place_hi (off, sz)"
    and "field_size sz \<Longrightarrow> (sz \<noteq> 0 \<Longrightarrow> off mod sz = 0) \<Longrightarrow> cell_fits s (place_cell (off, sz))"
proof -
  have o: "unat (of_nat off :: size_t) = off" using assms by (intro unat_of_nat_64) (auto split: if_splits)
  have z: "unat (of_nat sz :: size_t) = sz" if "sz \<noteq> 0" using assms that by (intro unat_of_nat_64) simp
  show "cell_lo (place_cell (off, sz)) = place_lo (off, sz)"
    "cell_hi (place_cell (off, sz)) = place_hi (off, sz)"
    using o z by (auto simp: place_cell_def place_lo_def place_hi_def)
  assume f: "field_size sz" and a: "sz \<noteq> 0 \<Longrightarrow> off mod sz = 0"
  show "cell_fits s (place_cell (off, sz))"
  proof (cases "sz = 0")
    case True
    then show ?thesis using o assms(1) by (simp add: place_cell_def div_less_iff_less_mult)
  next
    case False
    then have "int_size (of_nat sz)" using f by (auto simp: field_size_def int_size_def)
    moreover have "unat (of_nat off mod of_nat sz :: size_t) = 0"
      using o z [OF False] a [OF False] by (simp add: unat_mod)
    then have "(of_nat off mod of_nat sz :: size_t) = 0" by (simp add: unat_0_iff)
    ultimately show ?thesis using False o z assms(1) by (simp add: place_cell_def)
  qed
qed

lemma final_ssize_facts:
  assumes inv: "layout_inv ms pl" and s: "unat (ms_ssize ms) < 65528"
  shows "unat (ms_ssize ms) \<le> unat (final_ssize ms)"
    and "ms_psize ms \<noteq> 0 \<Longrightarrow> unat (final_ssize ms) mod 4 = 0"
    and "ms_align ms > 1 \<Longrightarrow> (unat (final_ssize ms) + 4 * unat (ms_psize ms)) mod ms_align ms = 0"
proof -
  let ?s = "unat (ms_ssize ms)" and ?p = "unat (ms_psize ms) * 4" and ?a = "ms_align ms"
  have a: "?a \<in> {0, 1, 2, 4, 8}" "ms_psize ms \<noteq> 0 \<Longrightarrow> 4 \<le> ?a" using inv by (simp_all add: layout_inv_def)
  have f: "unat (final_ssize ms) + ?p = roundup (?s + ?p) ?a" if "?a > 1"
  proof -
    have a0: "0 < ?a" "?a \<le> 8" using a(1) that by auto
    have "?s + ?p \<le> roundup (?s + ?p) ?a" using a0(1) by (rule roundup_ge)
    moreover have "roundup (?s + ?p) ?a < ?s + ?p + ?a" using a0(1) by (rule roundup_lt)
    ultimately have "roundup (?s + ?p) ?a - ?p < 65536" "?p \<le> roundup (?s + ?p) ?a"
      using s a0 by linarith+
    then show ?thesis using that by (simp add: final_ssize_def Let_def unat_of_nat take_bit_nat_eq_self del: of_nat_diff)
  qed
  show "?s \<le> unat (final_ssize ms)"
  proof (cases "?a > 1")
    case True
    have "?s + ?p \<le> roundup (?s + ?p) ?a" using True by (intro roundup_ge) simp
    then show ?thesis using f [OF True] by linarith
  qed (simp add: final_ssize_def)
  show m: "?a > 1 \<Longrightarrow> (unat (final_ssize ms) + 4 * unat (ms_psize ms)) mod ?a = 0"
    using f roundup_mod by (simp add: mult.commute)
  show "unat (final_ssize ms) mod 4 = 0" if "ms_psize ms \<noteq> 0"
  proof -
    have "4 \<le> ?a" by (rule a(2) [OF that])
    then have "?a = 4 \<or> ?a = 8" using a(1) by auto
    then have "4 dvd ?a" by auto
    moreover have "?a dvd unat (final_ssize ms) + 4 * unat (ms_psize ms)" 
      using m \<open>?a = 4 \<or> ?a = 8\<close> by (intro mod_0_imp_dvd) linarith
    ultimately have "4 dvd unat (final_ssize ms) + 4 * unat (ms_psize ms)" by (rule dvd_trans)
    then show ?thesis by (simp add: dvd_add_left_iff)
  qed
qed

text \<open>What the layout of one message promises.\<close>

definition layout_safe :: "msg_out \<Rightarrow> bool" where
  "layout_safe m \<longleftrightarrow>
    (\<forall>c \<in> set (msg_cells m). cell_fits (unat (mout_ssize m)) c) \<and>
    sorted_wrt cells_disjoint (msg_cells m) \<and>
    map (\<lambda>f. unat (out_tag0 f)) (filter (\<lambda>f. \<not> out_scalar f) (mout_fields m))
      = [0..<unat (mout_psize m)] \<and>
    (mout_psize m \<noteq> 0 \<longrightarrow> unat (mout_ssize m) mod 4 = 0)"

lemma layout_inv_start: "al \<in> {0, 1, 2, 4, 8} \<Longrightarrow>
    layout_inv \<lparr>ms_ssize = 0, ms_psize = 0, ms_align = al, ms_pads = clear_padding_spaces\<rparr> []"
  by (simp add: layout_inv_def packed_def used_def clear_padding_spaces_def bit_rest_def)

lemma message_layout:
  assumes look: "\<And>t e. lookup t = Some e \<Longrightarrow> ent_ok e" and al: "al \<in> {0, 1, 2, 4, 8}"
    and len: "length ds \<le> 4094"
    and pf: "place_fields lookup \<lparr>ms_ssize = 0, ms_psize = 0, ms_align = al,
      ms_pads = clear_padding_spaces\<rparr> ds = Some (outs, ms)"
  shows "layout_safe \<lparr>mout_name = n, mout_fields = outs, mout_ssize = final_ssize ms,
      mout_psize = ms_psize ms\<rparr>" and "ms_align ms \<in> {0, 1, 2, 4, 8}"
proof -
  let ?m = "\<lparr>mout_name = n, mout_fields = outs, mout_ssize = final_ssize ms, mout_psize = ms_psize ms\<rparr>"
  have l: "layout_inv ms (places outs @ []) \<and> unat (ms_ssize ms) \<le> 0 + 16 * length ds \<and>
    map (\<lambda>f. unat (out_tag0 f)) (filter (\<lambda>f. \<not> out_scalar f) outs) = [0..<unat (ms_psize ms)]"
    using place_fields_inv [OF look pf layout_inv_start [OF al]] len by simp
  then have inv: "layout_inv ms (places outs)" and s: "unat (ms_ssize ms) < 65528" using len by simp_all
  then show "ms_align ms \<in> {0, 1, 2, 4, 8}" by (simp add: layout_inv_def)
  note fs = final_ssize_facts [OF inv s]
  have pk: "packed (ms_pads ms) (unat (ms_ssize ms)) (places outs)" using inv by (simp add: layout_inv_def)
  have b: "if sz = 0 then off < 8 * unat (final_ssize ms) else off + sz \<le> unat (final_ssize ms)"
    if "(off, sz) \<in> set (places outs)" for off sz
    using place_inside [OF pk that] fs(1) by (auto split: if_splits)
  note pc = place_cell_bounds [OF b unat_u16_lt]
  have "cell_fits (unat (final_ssize ms)) (place_cell c)" if "c \<in> set (places outs)" for c
    using pc(3) [of "fst c" "snd c"] that inv by (cases c) (auto simp: layout_inv_def)
  moreover have "sorted_wrt cells_disjoint (map place_cell (places outs))"
    unfolding sorted_wrt_map
  proof (rule sorted_wrt_mono_rel [OF _ packed_disjoint [OF pk]])
    fix c d assume "c \<in> set (places outs)" "d \<in> set (places outs)"
      and "place_hi c \<le> place_lo d \<or> place_hi d \<le> place_lo c"
    then show "cells_disjoint (place_cell c) (place_cell d)"
      using pc(1) [of "fst c" "snd c"] pc(2) [of "fst c" "snd c"] pc(1) [of "fst d" "snd d"]
        pc(2) [of "fst d" "snd d"]
      by (simp only: prod.collapse cells_disjoint_def)
  qed
  ultimately show "layout_safe ?m"
    using l fs(2) by (simp add: layout_safe_def msg_cells_def)
qed

lemma outmsgs_from_safe:
  assumes look: "\<And>t e. lookup t = Some e \<Longrightarrow> ent_ok e"
  shows "outmsgs_from lookup al msgs = Some outs \<Longrightarrow> al \<in> {0, 1, 2, 4, 8} \<Longrightarrow>
    \<forall>m \<in> set msgs. length (msg_flds m) \<le> 4094 \<Longrightarrow> \<forall>m \<in> set outs. layout_safe m"
proof (induction msgs arbitrary: al outs)
  case Nil
  then show ?case by simp
next
  case (Cons m msgs)
  then obtain fo ms rest where o: "place_fields lookup \<lparr>ms_ssize = 0, ms_psize = 0, ms_align = al,
      ms_pads = clear_padding_spaces\<rparr> (msg_flds m) = Some (fo, ms)"
    "outmsgs_from lookup (ms_align ms) msgs = Some rest"
    "outs = \<lparr>mout_name = msg_name m, mout_fields = fo, mout_ssize = final_ssize ms,
      mout_psize = ms_psize ms\<rparr> # rest"
    by (auto split: bind_splits)
  have "length (msg_flds m) \<le> 4094" using Cons.prems(3) by simp
  note ml = message_layout [OF look Cons.prems(2) this o(1)]
  show ?case using ml(1) [where n = "msg_name m"] Cons.IH [OF o(2) ml(2)] Cons.prems(3) o(3) by simp
qed

lemma outmsgs_safe:
  assumes "\<And>t e. lookup t = Some e \<Longrightarrow> ent_ok e" and "outmsgs lookup msgs = Some outs"
    and "\<forall>m \<in> set msgs. length (msg_flds m) \<le> 4094" and "m \<in> set outs"
  shows "(\<forall>c \<in> set (msg_cells m). cell_fits (unat (mout_ssize m)) c) \<and>
    sorted_wrt cells_disjoint (msg_cells m) \<and>
    map (\<lambda>f. unat (out_tag0 f)) (filter (\<lambda>f. \<not> out_scalar f) (mout_fields m))
      = [0..<unat (mout_psize m)] \<and>
    (mout_psize m \<noteq> 0 \<longrightarrow> unat (mout_ssize m) mod 4 = 0)"
  using outmsgs_from_safe [where lookup = lookup and al = 0 and msgs = msgs and outs = outs] assms
  by (auto simp: outmsgs_def layout_safe_def)

end
