(* ===== verification/Types.thy ===== *)
theory Types
  imports Layout
begin

text \<open>
  The table of types of the schema compiler, \<^verbatim>\<open>nbufc/t2b.c\<close>: the twelve built-in types and the
  enumerations and messages of a schema, sorted by name with \<^verbatim>\<open>qsort\<close> and searched with
  \<^verbatim>\<open>bsearch\<close>.  The lemmas show that the search finds exactly the entries of the table, that a name
  defined twice is refused, and that the layouts computed over this table are sound.
\<close>

section \<open>The parsed schema\<close>

text \<open>\<^verbatim>\<open>struct enumDesc\<close>, \<^verbatim>\<open>struct enumType\<close> and \<^verbatim>\<open>struct schemaDesc\<close>; \<^verbatim>\<open>next\<close> links are lists.\<close>

record enumDesc =
  ed_name :: string
  ed_val :: uint16

record enumType =
  et_name :: string
  et_vals :: "enumDesc list"

record schemaDesc =
  sd_pkgName :: "string option"
  sd_enums :: "enumType list"
  sd_msgs :: "msgType list"

text \<open>The ways \<^verbatim>\<open>die\<close> ends the compiler.\<close>

datatype die = Too_many_types | Redefined string | No_type string

section \<open>Comparing, sorting and searching\<close>

type_synonym types = "(string \<times> lookup_entry) list"

text \<open>
  \<^verbatim>\<open>strcmp\<close> on the bytes before the terminating NUL.  Only the sign of the result is used, so the
  difference from the NUL of the shorter string is given as 1.
\<close>

fun strcmp :: "string \<Rightarrow> string \<Rightarrow> int" where
  "strcmp [] [] = 0"
| "strcmp [] (d # ds) = -1"
| "strcmp (c # cs) [] = 1"
| "strcmp (c # cs) (d # ds) = (if c = d then strcmp cs ds else of_char c - of_char d)"

fun lookup_cmp :: "string \<times> lookup_entry \<Rightarrow> string \<times> lookup_entry \<Rightarrow> int" where
  "lookup_cmp a b = strcmp (fst a) (fst b)"

text \<open>
  \<^verbatim>\<open>qsort\<close>: some sorting.  Only a table without equal names gets past the check that follows, and
  such a table has one sorted order.
\<close>

fun insert_entry :: "string \<times> lookup_entry \<Rightarrow> types \<Rightarrow> types" where
  "insert_entry e [] = [e]"
| "insert_entry e (f # fs) = (if lookup_cmp e f \<le> 0 then e # f # fs else f # insert_entry e fs)"

definition qsort :: "types \<Rightarrow> types" where
  "qsort ts = foldr insert_entry ts []"

text \<open>\<^verbatim>\<open>bsearch\<close> between the indices \<open>lo\<close> and \<open>hi\<close>.\<close>

function bsearch :: "string \<Rightarrow> types \<Rightarrow> nat \<Rightarrow> nat \<Rightarrow> lookup_entry option" where
  "bsearch key ts lo hi =
    (if hi \<le> lo then None
     else let mid = (lo + hi) div 2; c = strcmp key (fst (ts ! mid))
       in if c < 0 then bsearch key ts lo mid
          else if c > 0 then bsearch key ts (Suc mid) hi
          else Some (snd (ts ! mid)))"
  by pat_completeness auto

termination by (relation "measure (\<lambda>(key, ts, lo, hi). hi - lo)") auto

declare bsearch.simps [simp del]

definition lookup :: "types \<Rightarrow> string \<Rightarrow> lookup_entry option" where
  "lookup base key = bsearch key base 0 (length base)"

section \<open>Building the table\<close>

definition MAX_TYPES :: nat where "MAX_TYPES = 8192"

definition type_entry :: "string \<Rightarrow> nbuf_Kind \<Rightarrow> nat \<Rightarrow> string \<times> lookup_entry" where
  "type_entry name k sz = (name, \<lparr>ent_kind = k, ent_size = sz, ent_id = 0\<rparr>)"

definition builtin_types :: types where
  "builtin_types =
    [type_entry ''bool'' Kind_BOOL 0,
     type_entry ''int8'' Kind_INT 1,
     type_entry ''int16'' Kind_INT 2,
     type_entry ''int32'' Kind_INT 4,
     type_entry ''int64'' Kind_INT 8,
     type_entry ''uint8'' Kind_UINT 1,
     type_entry ''uint16'' Kind_UINT 2,
     type_entry ''uint32'' Kind_UINT 4,
     type_entry ''uint64'' Kind_UINT 8,
     type_entry ''float'' Kind_FLOAT 4,
     type_entry ''double'' Kind_FLOAT 8,
     type_entry ''string'' Kind_STR 1]"

text \<open>The two loops: one entry per enumeration and per message, with its index as \<^verbatim>\<open>id\<close>.\<close>

fun add_types :: "nbuf_Kind \<Rightarrow> nat \<Rightarrow> nat \<Rightarrow> string list \<Rightarrow> types \<Rightarrow> die + types" where
  "add_types k sz oid [] ts = Inr ts"
| "add_types k sz oid (name # names) ts =
    (if length ts = MAX_TYPES then Inl Too_many_types
     else add_types k sz (Suc oid) names
       (ts @ [(name, \<lparr>ent_kind = k, ent_size = sz, ent_id = oid\<rparr>)]))"

fun check_redefined :: "types \<Rightarrow> die + types" where
  "check_redefined (a # b # ts) =
    (if strcmp (fst a) (fst b) = 0 then Inl (Redefined (fst b))
     else case check_redefined (b # ts) of Inl e \<Rightarrow> Inl e | Inr _ \<Rightarrow> Inr (a # b # ts))"
| "check_redefined ts = Inr ts"

text \<open>The table; \<^verbatim>\<open>enumnames\<close> and \<^verbatim>\<open>msgnames\<close> are the numbers of enumerations and messages.\<close>

definition makelookup :: "schemaDesc \<Rightarrow> die + types" where
  "makelookup d =
    (case add_types Kind_ENUM 2 0 (map et_name (sd_enums d)) builtin_types of
       Inl e \<Rightarrow> Inl e
     | Inr ts1 \<Rightarrow>
       (case add_types Kind_PTR 4 0 (map msg_name (sd_msgs d)) ts1 of
          Inl e \<Rightarrow> Inl e
        | Inr ts2 \<Rightarrow> check_redefined (qsort ts2)))"

section \<open>\<^verbatim>\<open>strcmp\<close> is a linear order\<close>

lemma of_char_int_inj: "(of_char c :: int) = of_char d \<longleftrightarrow> c = d"
  by (metis of_char_eq_iff)

lemma strcmp_eq: "strcmp a b = 0 \<longleftrightarrow> a = b"
  by (induction a b rule: strcmp.induct) (auto simp: of_char_int_inj)

lemma strcmp_neg: "strcmp b a = - strcmp a b"
  by (induction a b rule: strcmp.induct) auto

lemma strcmp_refl [simp]: "strcmp a a = 0"
  by (simp add: strcmp_eq)

lemma strcmp_trans: "strcmp a b < 0 \<Longrightarrow> strcmp b c < 0 \<Longrightarrow> strcmp a c < 0"
proof (induction a b arbitrary: c rule: strcmp.induct)
  case (2 d ds)
  then show ?case by (cases c) auto
next
  case (4 x xs y ys)
  then show ?case by (cases c) (auto split: if_splits)
qed auto

section \<open>Sorted tables\<close>

abbreviation names :: "types \<Rightarrow> string list" where
  "names ts \<equiv> map fst ts"

definition sorted_types :: "types \<Rightarrow> bool" where
  "sorted_types ts \<longleftrightarrow> sorted_wrt (\<lambda>a b. strcmp (fst a) (fst b) < 0) ts"

definition weakly_sorted :: "types \<Rightarrow> bool" where
  "weakly_sorted ts \<longleftrightarrow> sorted_wrt (\<lambda>a b. strcmp (fst a) (fst b) \<le> 0) ts"

lemma set_insert_entry [simp]: "set (insert_entry e ts) = insert e (set ts)"
  by (induction ts) auto

lemma set_qsort [simp]: "set (qsort ts) = set ts"
  by (induction ts) (simp_all add: qsort_def)

lemma length_insert_entry [simp]: "length (insert_entry e ts) = Suc (length ts)"
  by (induction ts) auto

lemma mset_insert_entry: "mset (insert_entry e ts) = add_mset e (mset ts)"
  by (induction ts) auto

lemma mset_qsort: "mset (qsort ts) = mset ts"
  by (induction ts) (simp_all add: qsort_def mset_insert_entry)

lemma strcmp_le_trans: "strcmp a b \<le> 0 \<Longrightarrow> strcmp b c \<le> 0 \<Longrightarrow> strcmp a c \<le> 0"
  by (metis less_le strcmp_eq strcmp_trans)

lemma weakly_sorted_insert: "weakly_sorted ts \<Longrightarrow> weakly_sorted (insert_entry e ts)"
proof (induction ts)
  case Nil
  then show ?case by (simp add: weakly_sorted_def)
next
  case (Cons f ts)
  have "strcmp (fst e) (fst x) \<le> 0" if "strcmp (fst e) (fst f) \<le> 0" "x \<in> set ts" for x
    using Cons.prems that strcmp_le_trans [OF that(1)] by (simp add: weakly_sorted_def)
  then show ?case
    using Cons strcmp_neg [of "fst e" "fst f"] by (auto simp: weakly_sorted_def)
qed

lemma weakly_sorted_qsort: "weakly_sorted (qsort ts)"
  by (induction ts) (auto simp: qsort_def weakly_sorted_insert, simp add: weakly_sorted_def)

text \<open>The check over neighbours finds every duplicate of a sorted table.\<close>

lemma check_redefined_ok:
  "weakly_sorted ts \<Longrightarrow> distinct (names ts) \<Longrightarrow> check_redefined ts = Inr ts"
  by (induction ts rule: check_redefined.induct) (auto simp: weakly_sorted_def strcmp_eq)

lemma check_redefined_Inr:
  "weakly_sorted ts \<Longrightarrow> check_redefined ts = Inr ts' \<Longrightarrow> ts' = ts \<and> sorted_types ts"
proof (induction ts arbitrary: ts' rule: check_redefined.induct)
  case (1 a b ts)
  from "1.prems"(2) have ne: "strcmp (fst a) (fst b) \<noteq> 0"
    and r: "\<exists>r. check_redefined (b # ts) = Inr r" and t: "ts' = a # b # ts"
    by (auto split: if_splits sum.splits)
  have w: "weakly_sorted (b # ts)" using "1.prems"(1) by (simp add: weakly_sorted_def)
  then have s: "sorted_types (b # ts)" using "1.IH" ne r by blast
  have ab: "strcmp (fst a) (fst b) < 0" using "1.prems"(1) ne by (simp add: weakly_sorted_def less_le)
  have "strcmp (fst a) (fst x) < 0" if "x \<in> set ts" for x
    using s that strcmp_trans [OF ab] by (simp add: sorted_types_def)
  then show ?case using s ab t by (simp add: sorted_types_def)
qed (auto simp: sorted_types_def)

lemma sorted_types_distinct: "sorted_types ts \<Longrightarrow> distinct (names ts)"
  by (induction ts) (auto simp: sorted_types_def)

section \<open>Searching\<close>

lemma sorted_types_nth:
  "sorted_types ts \<Longrightarrow> i < j \<Longrightarrow> j < length ts \<Longrightarrow> strcmp (fst (ts ! i)) (fst (ts ! j)) < 0"
  unfolding sorted_types_def by (rule sorted_wrt_nth_less)

lemma bsearch_sound:
  "bsearch key ts lo hi = Some e \<Longrightarrow> hi \<le> length ts \<Longrightarrow> (key, e) \<in> set ts"
proof (induction key ts lo hi rule: bsearch.induct)
  case (1 key ts lo hi)
  let ?mid = "(lo + hi) div 2"
  have lh: "lo < hi" using "1.prems"(1) by (cases "hi \<le> lo") (simp_all add: bsearch.simps)
  then have m: "?mid < length ts" using "1.prems"(2) by linarith
  consider "strcmp key (fst (ts ! ?mid)) < 0" | "strcmp key (fst (ts ! ?mid)) > 0"
    | "strcmp key (fst (ts ! ?mid)) = 0" by linarith
  then show ?case
  proof cases
    case 1
    then show ?thesis using "1.IH"(1) "1.prems" lh by (simp add: bsearch.simps [of key ts lo hi] Let_def)
  next
    case 2
    then show ?thesis using "1.IH"(2) "1.prems" lh by (simp add: bsearch.simps [of key ts lo hi] Let_def)
  next
    case 3
    have "Some (snd (ts ! ?mid)) = Some e"
      using "1.prems"(1) 3 lh by (subst (asm) bsearch.simps) (simp add: Let_def)
    then have "ts ! ?mid = (key, e)" using 3 by (simp add: strcmp_eq prod_eq_iff)
    then show ?thesis using nth_mem [OF m] by simp
  qed
qed

lemma bsearch_complete:
  "sorted_types ts \<Longrightarrow> lo \<le> i \<Longrightarrow> i < hi \<Longrightarrow> hi \<le> length ts \<Longrightarrow>
    bsearch (fst (ts ! i)) ts lo hi = Some (snd (ts ! i))"
proof (induction "fst (ts ! i)" ts lo hi rule: bsearch.induct)
  case (1 ts lo hi)
  let ?mid = "(lo + hi) div 2" and ?key = "fst (ts ! i)"
  have m: "lo \<le> ?mid" "?mid < hi" using "1.prems" by linarith+
  consider "i < ?mid" | "?mid < i" | "i = ?mid" by linarith
  then show ?case
  proof cases
    case 1
    then have "strcmp ?key (fst (ts ! ?mid)) < 0" using sorted_types_nth "1.prems" m by simp
    then show ?thesis using "1.hyps"(1) "1.prems" m 1 by (simp add: bsearch.simps [of ?key ts lo hi] Let_def)
  next
    case 2
    then have "strcmp (fst (ts ! ?mid)) ?key < 0" using sorted_types_nth "1.prems" m by simp
    then have "strcmp ?key (fst (ts ! ?mid)) > 0" using strcmp_neg [of ?key "fst (ts ! ?mid)"] by simp
    then show ?thesis using "1.hyps"(2) "1.prems" m 2 by (simp add: bsearch.simps [of ?key ts lo hi] Let_def)
  next
    case 3
    then show ?thesis using m by (subst bsearch.simps) (simp add: Let_def)
  qed
qed

lemma lookup_sorted:
  assumes "sorted_types ts" shows "lookup ts key = map_of ts key"
proof (cases "map_of ts key")
  case (Some e)
  then have "(key, e) \<in> set ts" by (rule map_of_SomeD)
  then obtain i where "i < length ts" "ts ! i = (key, e)" by (metis in_set_conv_nth)
  then show ?thesis using bsearch_complete [OF assms, of 0 i "length ts"] Some by (simp add: lookup_def)
next
  case None
  have "lookup ts key = None"
  proof (rule ccontr)
    assume "lookup ts key \<noteq> None"
    then obtain e where "(key, e) \<in> set ts" using bsearch_sound by (fastforce simp: lookup_def)
    then show False using None by (auto simp: map_of_eq_None_iff image_iff)
  qed
  then show ?thesis using None by simp
qed

section \<open>What the table holds\<close>

definition type_entries :: "nbuf_Kind \<Rightarrow> nat \<Rightarrow> string list \<Rightarrow> types" where
  "type_entries k sz ns = map (\<lambda>(i, n). (n, \<lparr>ent_kind = k, ent_size = sz, ent_id = i\<rparr>)) (enumerate 0 ns)"

definition all_types :: "schemaDesc \<Rightarrow> types" where
  "all_types d = builtin_types @ type_entries Kind_ENUM 2 (map et_name (sd_enums d))
    @ type_entries Kind_PTR 4 (map msg_name (sd_msgs d))"

lemma add_types_eq:
  "length ts \<le> MAX_TYPES \<Longrightarrow> add_types k sz oid ns ts =
    (if length ts + length ns \<le> MAX_TYPES
     then Inr (ts @ map (\<lambda>(i, n). (n, \<lparr>ent_kind = k, ent_size = sz, ent_id = i\<rparr>)) (enumerate oid ns))
     else Inl Too_many_types)"
  by (induction k sz oid ns ts rule: add_types.induct) auto

lemma length_builtin [simp]: "length builtin_types = 12"
  by (simp add: builtin_types_def)

lemma makelookup_eq:
  "makelookup d =
    (if length (all_types d) \<le> MAX_TYPES then check_redefined (qsort (all_types d)) else Inl Too_many_types)"
  by (simp add: makelookup_def all_types_def type_entries_def add_types_eq MAX_TYPES_def)

lemma distinct_names_qsort: "distinct (names (qsort ts)) \<longleftrightarrow> distinct (names ts)"
  by (metis mset_eq_imp_distinct_iff mset_map mset_qsort)

lemma map_of_same_set:
  "distinct (names xs) \<Longrightarrow> distinct (names ys) \<Longrightarrow> set xs = set ys \<Longrightarrow> map_of xs = map_of ys"
  by (metis map_of_inject_set)

lemma check_redefined_dup:
  "check_redefined ts = Inl e \<Longrightarrow> \<exists>n. e = Redefined n \<and> 1 < count (mset (names ts)) n"
proof (induction ts rule: check_redefined.induct)
  case (1 a b ts)
  show ?case
  proof (cases "strcmp (fst a) (fst b) = 0")
    case True
    then have "e = Redefined (fst b)" "fst a = fst b" using "1.prems" by (simp_all add: strcmp_eq)
    then show ?thesis by (intro exI [of _ "fst b"]) simp
  next
    case False
    then have "check_redefined (b # ts) = Inl e" using "1.prems" by (simp split: sum.splits)
    then obtain n where n: "e = Redefined n" "1 < count (mset (names (b # ts))) n" using "1.IH" False by blast
    then have "1 < count (mset (names (a # b # ts))) n" by simp
    then show ?thesis using n(1) by blast
  qed
qed simp_all

text \<open>What \<^verbatim>\<open>makelookup\<close> may end with.\<close>

fun table_outcome :: "schemaDesc \<Rightarrow> die + types \<Rightarrow> bool" where
  "table_outcome d (Inr ts) \<longleftrightarrow> distinct (names (all_types d)) \<and> length (all_types d) \<le> MAX_TYPES \<and>
    lookup ts = map_of (all_types d)"
| "table_outcome d (Inl Too_many_types) \<longleftrightarrow> MAX_TYPES < length (all_types d)"
| "table_outcome d (Inl (Redefined n)) \<longleftrightarrow> 1 < count (mset (names (all_types d))) n"
| "table_outcome d (Inl (No_type n)) \<longleftrightarrow> False"

lemma names_qsort: "mset (names (qsort ts)) = mset (names ts)"
  by (metis mset_map mset_qsort)

lemma makelookup_Inr:
  assumes "makelookup d = Inr ts"
  shows "distinct (names (all_types d))" and "length (all_types d) \<le> MAX_TYPES"
    and "lookup ts = map_of (all_types d)"
proof -
  let ?q = "qsort (all_types d)"
  show len: "length (all_types d) \<le> MAX_TYPES" using assms by (simp add: makelookup_eq split: if_splits)
  then have "check_redefined ?q = Inr ts" using assms by (simp add: makelookup_eq)
  then have ts: "ts = ?q" "sorted_types ?q"
    using check_redefined_Inr [OF weakly_sorted_qsort] by blast+
  have dq: "distinct (names ?q)" by (rule sorted_types_distinct [OF ts(2)])
  then show da: "distinct (names (all_types d))" by (simp add: distinct_names_qsort)
  have "lookup ?q = map_of ?q" using ts(2) by (simp add: lookup_sorted fun_eq_iff)
  also have "\<dots> = map_of (all_types d)" by (rule map_of_same_set [OF dq da]) simp
  finally show "lookup ts = map_of (all_types d)" using ts(1) by simp
qed

lemma makelookup_Inl:
  assumes "makelookup d = Inl e"
  shows "e = Too_many_types \<and> MAX_TYPES < length (all_types d) \<or>
    (\<exists>n. e = Redefined n \<and> 1 < count (mset (names (all_types d))) n)"
  using assms check_redefined_dup [of "qsort (all_types d)" e]
  by (auto simp: makelookup_eq mset_qsort split: if_splits)

text \<open>
  Claim C19.  The type table is right, whatever the schema: either the table is built, all names are
  distinct and looking a name up with \<^verbatim>\<open>bsearch\<close> gives the same as searching the built-in types, the
  enumerations and the messages one after the other; or the compiler stops because there are more
  than 8192 types, or because the name it reports is defined at least twice.
\<close>

theorem type_table_correct: "table_outcome d (makelookup d)"
  using makelookup_Inr [of d] makelookup_Inl [of d] by (cases "makelookup d") auto

lemma all_types_ok: "(n, e) \<in> set (all_types d) \<Longrightarrow> ent_ok e"
  by (auto simp: all_types_def builtin_types_def type_entry_def type_entries_def)

lemma table_entry_ok:
  assumes "makelookup d = Inr ts" and "lookup ts t = Some e"
  shows "ent_ok e"
proof -
  have "map_of (all_types d) t = Some e" using makelookup_Inr(3) [OF assms(1)] assms(2) by simp
  then show ?thesis using all_types_ok by (metis map_of_SomeD)
qed

section \<open>Layouts over the table\<close>

text \<open>
  Claim C16.  The layouts the schema compiler computes are sound: in every message of at most 4094 fields
  the scalar fields, in any order of declaration and with all holes reused, lie inside the scalar part,
  are aligned to their size and do not overlap, in bytes or in bits; the pointer fields number the
  pointer slots in order; and a message with pointers has its pointers aligned, as \<^verbatim>\<open>_nbuf_create\<close>
  asserts.
\<close>

theorem layouts_are_safe:
  assumes "makelookup d = Inr ts" and "outmsgs (lookup ts) (sd_msgs d) = Some outs"
    and "\<forall>m \<in> set (sd_msgs d). length (msg_flds m) \<le> 4094" and "m \<in> set outs"
  shows "(\<forall>c \<in> set (msg_cells m). cell_fits (unat (mout_ssize m)) c) \<and>
    sorted_wrt cells_disjoint (msg_cells m) \<and>
    map (\<lambda>f. unat (out_tag0 f)) (filter (\<lambda>f. \<not> out_scalar f) (mout_fields m))
      = [0..<unat (mout_psize m)] \<and>
    (mout_psize m \<noteq> 0 \<longrightarrow> unat (mout_ssize m) mod 4 = 0)"
  by (rule outmsgs_safe [OF table_entry_ok [OF assms(1)] assms(2-4)])

text \<open>Schemas of scalar fields of the built-in types, for examples.\<close>

definition plain_msg :: "string list \<Rightarrow> msgType" where
  "plain_msg tns = \<lparr>msg_name = ''M'',
     msg_flds = map (\<lambda>t. \<lparr>fld_name = ''f'', fld_tname = t, fld_list = False\<rparr>) tns\<rparr>"

definition schema_of :: "msgType list \<Rightarrow> schemaDesc" where
  "schema_of ms = \<lparr>sd_pkgName = None, sd_enums = [], sd_msgs = ms\<rparr>"

lemmas layout_eval = outmsgs_def place_field_def is_scalar_def calculate_offset_def
  find_padding_space_def take_hole_def add_padding_space_def clear_padding_spaces_def roundup_def
  field_tag1_def final_ssize_def Let_def plain_msg_def

definition builtin_lookup :: "string \<Rightarrow> lookup_entry option" where
  "builtin_lookup = map_of builtin_types"

lemma builtin_lookup_simps [simp]:
  "builtin_lookup ''bool'' = Some \<lparr>ent_kind = Kind_BOOL, ent_size = 0, ent_id = 0\<rparr>"
  "builtin_lookup ''uint8'' = Some \<lparr>ent_kind = Kind_UINT, ent_size = 1, ent_id = 0\<rparr>"
  "builtin_lookup ''uint16'' = Some \<lparr>ent_kind = Kind_UINT, ent_size = 2, ent_id = 0\<rparr>"
  "builtin_lookup ''uint32'' = Some \<lparr>ent_kind = Kind_UINT, ent_size = 4, ent_id = 0\<rparr>"
  "builtin_lookup ''uint64'' = Some \<lparr>ent_kind = Kind_UINT, ent_size = 8, ent_id = 0\<rparr>"
  "builtin_lookup ''string'' = Some \<lparr>ent_kind = Kind_STR, ent_size = 1, ent_id = 0\<rparr>"
  by (simp_all add: builtin_lookup_def builtin_types_def type_entry_def)

definition mixed_schema :: schemaDesc where
  "mixed_schema = schema_of [plain_msg [''uint8'', ''uint32'', ''bool'', ''string'']]"

definition mixed_out :: msg_out where
  "mixed_out = \<lparr>mout_name = ''M'', mout_fields = [
     \<lparr>out_name = ''f'', out_kind = Kind_UINT, out_list = False, out_tag0 = 0, out_tag1 = 1\<rparr>,
     \<lparr>out_name = ''f'', out_kind = Kind_UINT, out_list = False, out_tag0 = 4, out_tag1 = 4\<rparr>,
     \<lparr>out_name = ''f'', out_kind = Kind_BOOL, out_list = False, out_tag0 = 8, out_tag1 = 0\<rparr>,
     \<lparr>out_name = ''f'', out_kind = Kind_STR, out_list = False, out_tag0 = 0, out_tag1 = 1\<rparr>],
   mout_ssize = 8, mout_psize = 1\<rparr>"

lemma mixed_table: "\<exists>ts. makelookup mixed_schema = Inr ts \<and> (\<forall>t. t \<noteq> ''M'' \<longrightarrow> lookup ts t = builtin_lookup t)"
proof -
  have a: "all_types mixed_schema = builtin_types @ [(''M'', \<lparr>ent_kind = Kind_PTR, ent_size = 4, ent_id = 0\<rparr>)]"
    by (simp add: all_types_def mixed_schema_def schema_of_def type_entries_def plain_msg_def)
  have "distinct (names (all_types mixed_schema))"
    by (simp add: a builtin_types_def type_entry_def)
  then have "check_redefined (qsort (all_types mixed_schema)) = Inr (qsort (all_types mixed_schema))"
    by (intro check_redefined_ok weakly_sorted_qsort) (simp add: distinct_names_qsort)
  then have m: "makelookup mixed_schema = Inr (qsort (all_types mixed_schema))"
    by (simp add: makelookup_eq a MAX_TYPES_def)
  show ?thesis
    using makelookup_Inr(3) [OF m] m by (auto simp: a builtin_lookup_def map_add_def split: option.splits)
qed

theorem layouts_are_safe_witness:
  "\<exists>ts. makelookup mixed_schema = Inr ts \<and>
    outmsgs (lookup ts) (sd_msgs mixed_schema) = Some [mixed_out] \<and>
    sorted_wrt cells_disjoint (msg_cells mixed_out) \<and> mout_psize mixed_out = 1"
proof -
  obtain ts where ts: "makelookup mixed_schema = Inr ts" "\<And>t. t \<noteq> ''M'' \<Longrightarrow> lookup ts t = builtin_lookup t"
    using mixed_table by blast
  have o: "outmsgs (lookup ts) (sd_msgs mixed_schema) = Some [mixed_out]"
    by (simp add: mixed_schema_def schema_of_def mixed_out_def layout_eval ts(2))
  have "sorted_wrt cells_disjoint (msg_cells mixed_out)"
    using layouts_are_safe [OF ts(1) o, of mixed_out]
    by (simp add: mixed_schema_def schema_of_def plain_msg_def)
  then show ?thesis using ts(1) o by (intro exI [of _ ts] conjI) (simp_all add: mixed_out_def)
qed

text \<open>
  Claim C37.  A hole can be lost: when a field goes into the middle of the last hole, \<^verbatim>\<open>pad_link\<close> still points
  behind the first part of what is left, and the next field that leaves a hole, whatever the size \<open>ss\<close> of
  the scalar part is by then, overwrites the link to the second part.  The bits of that part, which lie in
  the scalar part and were in a hole before, then belong to no field and to no hole.
\<close>

theorem split_hole_is_lost:
  assumes "pad_link st = length (pad_list st)" and "first_hole sz (pad_list st) = Some i"
    and "Suc i = length (pad_list st)" and "0 < sz" and "calculate_offset st ss0 sz = (off, ss1, st1)"
    and "pad_offset (pad_list st ! i) < off"
    and "8 * (off + sz) \<le> x" and "x < 8 * (pad_offset (pad_list st ! i) + pad_size (pad_list st ! i))"
    and "packed st1 (unat ss) pl" and "first_hole sz2 (pad_list st1) = None" and "0 < sz2"
    and "unat ss mod sz2 \<noteq> 0" and "calculate_offset st1 ss sz2 = (off2, ss2, st2)"
  shows "used st1 pl x = 1 \<and> used st2 ((off2, sz2) # pl) x = 0 \<and> x < 8 * unat ss"
proof -
  let ?ps = "pad_list st" and ?p = "pad_list st ! i"
  let ?front = "take i ?ps @ [?p\<lparr>pad_size := off - pad_offset ?p\<rparr>]"
  let ?rest = "\<lparr>pad_offset = off + sz, pad_size = pad_size ?p - (off - pad_offset ?p) - sz\<rparr>"
  obtain o1 t1 where t: "take_hole st i sz = (o1, t1)" by (cases "take_hole st i sz") auto
  have c1: "o1 = off" "t1 = st1"
    using assms(2,4,5) t by (auto simp: calculate_offset_def find_padding_space_def)
  have off: "off = roundup (pad_offset ?p) sz" using t c1(1) by (simp add: take_hole_def Let_def)
  have rem: "off + sz < pad_offset ?p + pad_size ?p"
    using le_less_trans [OF assms(7,8)] by (simp only: mult_less_cancel1)
  have st1: "pad_list st1 = ?front @ [?rest]" "pad_link st1 = Suc i"
    using t c1 assms(1,3,6) rem by (auto simp: take_hole_def Let_def simp flip: off)
  have tk: "take (pad_link st1) (pad_list st1) = ?front" using st1 assms(3) [symmetric] by simp
  have "roundup (unat ss) sz2 \<noteq> unat ss" using assms(12) roundup_mod [of "unat ss" sz2] by metis
  then have pad: "0 < roundup (unat ss) sz2 - unat ss" using roundup_ge [OF assms(11), of "unat ss"] by simp
  then have st2: "pad_list st2 = ?front @ [\<lparr>pad_offset = unat ss, pad_size = roundup (unat ss) sz2 - unat ss\<rparr>]"
    and b2: "pad_bit_offs st2 = pad_bit_offs st1" and off2: "off2 = roundup (unat ss) sz2"
    using assms(10,11,13)
    by (auto simp: calculate_offset_def find_padding_space_def add_padding_space_def tk Let_def)
  have h: "holes (pad_list st1) x = holes ?front x + 1"
    unfolding st1 holes_append [of ?front] using assms(6-8) rem by (simp add: hole_iv_def iv_def)
  have "used st1 pl x \<le> iv 0 (8 * unat ss) x" using assms(9) by (simp add: packed_def)
  then have z: "holes ?front x = 0" "bit_rest st1 x = 0" "(\<Sum>c\<leftarrow>pl. place_iv c x) = 0" "x < 8 * unat ss"
    using h by (auto simp: used_def iv_def split: if_splits)
  have "bit_rest st2 x = 0" using z(2) unfolding bit_rest_def b2 by simp
  moreover have "place_iv (off2, sz2) x = 0"
    using z(4) off2 roundup_ge [OF assms(11), of "unat ss"] assms(11) by (simp add: place_iv_def iv_def)
  moreover have "holes (pad_list st2) x = 0"
    using z(1,4) unfolding st2 holes_append [of ?front] by (simp add: hole_iv_def iv_def)
  ultimately show ?thesis using z h by (simp add: used_def)
qed

text \<open>The fields are three \<^verbatim>\<open>uint8\<close>, a \<^verbatim>\<open>uint64\<close>, a \<^verbatim>\<open>uint16\<close>, which splits the hole, a \<^verbatim>\<open>uint32\<close> and a \<^verbatim>\<open>uint64\<close>.\<close>

theorem split_hole_is_lost_witness:
  "let (ss0, st) = fold (\<lambda>sz (ss, st). snd (calculate_offset st ss sz)) [1, 1, 1, 8] (0, clear_padding_spaces);
       (off, ss1, st1) = calculate_offset st ss0 2; (off1, ss, st1') = calculate_offset st1 ss1 4;
       (off2, ss2, st2) = calculate_offset st1' ss 8;
       pl = [(off1, 4), (off, 2), (0, 1), (1, 1), (2, 1), (8, 8)]
   in st1' = st1 \<and> used st1 pl 48 = 1 \<and> used st2 ((off2, 8) # pl) 48 = 0"
proof -
  define st :: pads where "st = \<lparr>pad_list = [\<lparr>pad_offset = 3, pad_size = 5\<rparr>], pad_link = 1, pad_bit_offs = 0\<rparr>"
  define pl :: "(nat \<times> nat) list" where "pl = [(16, 4), (4, 2), (0, 1), (1, 1), (2, 1), (8, 8)]"
  define st1 :: pads where "st1 = st\<lparr>pad_list := [\<lparr>pad_offset = 3, pad_size = 1\<rparr>, \<lparr>pad_offset = 6, pad_size = 2\<rparr>]\<rparr>"
  have c0: "fold (\<lambda>sz (ss, st). snd (calculate_offset st ss sz)) [1, 1, 1, 8] (0, clear_padding_spaces) = (16, st)"
    by (simp add: calculate_offset_def find_padding_space_def take_hole_def add_padding_space_def roundup_def
        clear_padding_spaces_def st_def Let_def)
  have c1: "calculate_offset st 16 2 = (4, 16, st1)" "calculate_offset st1 16 4 = (16, 20, st1)"
    by (simp_all add: calculate_offset_def find_padding_space_def st_def st1_def take_hole_def roundup_def Let_def)
  obtain off2 ss2 st2 where c2: "calculate_offset st1 20 8 = (off2, ss2, st2)" by (rule prod_cases3)
  have "packed st1 20 pl"
    unfolding packed_def used_def
    by (simp add: st_def st1_def pl_def bit_rest_def place_iv_def hole_iv_def iv_def)
  then have p: "packed st1 (unat (20 :: uint16)) pl" by simp
  have f: "first_hole 2 (pad_list st) = Some 0" "first_hole 8 (pad_list st1) = None"
    "pad_link st = length (pad_list st)" "Suc 0 = length (pad_list st)" "pad_offset (pad_list st ! 0) = 3"
    "pad_size (pad_list st ! 0) = 5"
    by (simp_all add: st_def st1_def roundup_def)
  have "unat (20 :: uint16) mod 8 \<noteq> 0" by simp
  from split_hole_is_lost [OF f(3,1,4) _ c1(1) _ _ _ p f(2) _ this c2, of 48]
  have "used st1 pl 48 = 1 \<and> used st2 ((off2, 8) # pl) 48 = 0" by (simp add: f(5,6))
  then show ?thesis
    unfolding c0 Let_def prod.case c1 c2 pl_def by blast
qed

text \<open>
  The nine fields of this message hold 31 bytes and fit 32, as another order of declaration shows, but
  take 40.
\<close>

lemma lost_hole_costs_space:
  "map_option (map mout_ssize) (outmsgs builtin_lookup
     [plain_msg [''uint8'', ''uint8'', ''uint8'', ''uint64'', ''uint16'', ''uint32'', ''uint64'',
                 ''uint16'', ''uint32'']]) = Some [40] \<and>
   map_option (map mout_ssize) (outmsgs builtin_lookup
     [plain_msg [''uint8'', ''uint8'', ''uint8'', ''uint64'', ''uint16'', ''uint16'', ''uint32'',
                 ''uint64'', ''uint32'']]) = Some [32]"
  by (simp add: layout_eval)

text \<open>
  The alignment of a message leaks into the next: \<^verbatim>\<open>alignment\<close> is not reset, so a message of
  one byte takes 8 when it follows one with a 64-bit field, where \<^verbatim>\<open>spec.txt\<close> makes the layout of a
  message depend on its fields alone.
\<close>

lemma alignment_leaks_to_next_message:
  "map_option (map mout_ssize) (outmsgs builtin_lookup [plain_msg [''uint8'']]) = Some [1] \<and>
   map_option (map mout_ssize) (outmsgs builtin_lookup [plain_msg [''uint64''], plain_msg [''uint8'']])
     = Some [8, 8]"
  by (simp add: layout_eval)

end
