(* ===== verification/Fuel.thy ===== *)
theory Fuel
  imports Nbuf_Prelude
begin

text \<open>
  Recursion the program does not bound: the printers follow pointers and the parser nests as deep as
  its input.  A step of such a function takes fuel; running out of it is a result of its own, apart
  from an abort, so that a theorem can say that a given amount is enough, or that none is.
\<close>

datatype 'a run = Run 'a | Aborts | No_fuel

definition bind_run :: "'a run \<Rightarrow> ('a \<Rightarrow> 'b run) \<Rightarrow> 'b run" where
  "bind_run r f = (case r of Run x \<Rightarrow> f x | Aborts \<Rightarrow> Aborts | No_fuel \<Rightarrow> No_fuel)"

definition of_opt :: "'a option \<Rightarrow> 'a run" where
  "of_opt x = (case x of None \<Rightarrow> Aborts | Some y \<Rightarrow> Run y)"

lemma bind_run_simps [simp]:
  "bind_run (Run x) f = f x" "bind_run Aborts f = Aborts" "bind_run No_fuel f = No_fuel"
  by (simp_all add: bind_run_def)

lemma of_opt_simps [simp]: "of_opt (Some x) = Run x" "of_opt None = Aborts"
  by (simp_all add: of_opt_def)

lemma bind_run_cong [fundef_cong]:
  "r = r' \<Longrightarrow> (\<And>x. r' = Run x \<Longrightarrow> f x = g x) \<Longrightarrow> bind_run r f = bind_run r' g"
  by (cases r') simp_all

lemma bind_run_eq_Run: "bind_run r f = Run y \<longleftrightarrow> (\<exists>x. r = Run x \<and> f x = Run y)"
  and bind_run_eq_Aborts: "bind_run r f = Aborts \<longleftrightarrow> r = Aborts \<or> (\<exists>x. r = Run x \<and> f x = Aborts)"
  and bind_run_eq_No_fuel: "bind_run r f = No_fuel \<longleftrightarrow> r = No_fuel \<or> (\<exists>x. r = Run x \<and> f x = No_fuel)"
  by (cases r; simp)+

lemma of_opt_eq: "of_opt x = Run y \<longleftrightarrow> x = Some y" "of_opt x = Aborts \<longleftrightarrow> x = None" "of_opt x \<noteq> No_fuel"
  by (cases x; simp)+

lemmas run_eqs = bind_run_eq_Run bind_run_eq_Aborts bind_run_eq_No_fuel of_opt_eq

text \<open>A run that does not abort and, if \<open>e\<close> says there was enough fuel, returns.\<close>

definition good :: "bool \<Rightarrow> 'a run \<Rightarrow> bool" where
  "good e r \<longleftrightarrow> r \<noteq> Aborts \<and> (e \<longrightarrow> r \<noteq> No_fuel)"

lemma good_simps [simp]:
  "good e (Run x)" "\<not> good e Aborts" "good e No_fuel \<longleftrightarrow> \<not> e" "good e (of_opt y) \<longleftrightarrow> y \<noteq> None"
  by (cases y; simp add: good_def)+

lemma good_mono: "good e r \<Longrightarrow> (e' \<Longrightarrow> e) \<Longrightarrow> good e' r"
  by (auto simp: good_def)

lemma good_bind: "good e r \<Longrightarrow> (\<And>x. r = Run x \<Longrightarrow> good e (f x)) \<Longrightarrow> good e (bind_run r f)"
  by (cases r) (auto simp: good_def)

end
