(* ===== verification/Refl.thy ===== *)
theory Refl
  imports Schema
begin

text \<open>
  Reflection, \<^verbatim>\<open>lib/refl.c\<close>: finding messages, enumerations, fields and enumeration values of a
  schema by name, and the size of an element of a kind.  A \<^verbatim>\<open>char *\<close> is the memory from the pointer
  on, as in \<open>nbuf_get_str\<close>.  The result parameters \<^verbatim>\<open>*msg\<close>, \<^verbatim>\<open>*enm\<close> and \<^verbatim>\<open>*fld\<close> are passed in and
  returned.  The lemmas show that the searches find the first entry with the name.
\<close>

section \<open>Searching\<close>

text \<open>\<^verbatim>\<open>memcmp(a, b, n) == 0\<close>.\<close>

definition memcmp_eq :: "byte list \<Rightarrow> byte list \<Rightarrow> nat \<Rightarrow> bool option" where
  "memcmp_eq a b n = do { x \<leftarrow> load a 0 n; y \<leftarrow> load b 0 n; Some (x = y) }"

text \<open>The test \<^verbatim>\<open>len == ename_len && memcmp(name, ename, len) == 0\<close>.\<close>

definition name_matches :: "byte list \<Rightarrow> nat \<Rightarrow> byte list \<times> size_t \<Rightarrow> bool option" where
  "name_matches name len = (\<lambda>(ename, ename_len).
    if of_nat len = ename_len then memcmp_eq name ename len else Some False)"

text \<open>The loop of the searches by name, over the indices still to be visited.\<close>

fun find_named ::
    "(size_t \<Rightarrow> nbuf_obj option) \<Rightarrow> (nbuf_obj \<Rightarrow> (byte list \<times> size_t) option) \<Rightarrow> byte list \<Rightarrow> nat \<Rightarrow>
      nat list \<Rightarrow> nbuf_obj \<Rightarrow> (bool \<times> nbuf_obj) option" where
  "find_named elem_at name_of name len [] d = Some (False, d)"
| "find_named elem_at name_of name len (i # ids) d =
    do { d1 \<leftarrow> elem_at (of_nat i);
         en \<leftarrow> name_of d1;
         eq \<leftarrow> name_matches name len en;
         if eq then Some (True, d1) else find_named elem_at name_of name len ids d1 }"

definition nbuf_find_msg :: "world \<Rightarrow> nbuf_obj \<Rightarrow> nbuf_obj \<Rightarrow> byte list \<Rightarrow> (bool \<times> nbuf_obj) option" where
  "nbuf_find_msg w msg schema name =
    do { len \<leftarrow> c_strlen name;
         n \<leftarrow> nbuf_Schema_msgTypes_size w schema;
         find_named (nbuf_Schema_msgTypes w schema) (nbuf_MsgType_name w) name len [0..<unat n] msg }"

definition nbuf_find_enum :: "world \<Rightarrow> nbuf_obj \<Rightarrow> nbuf_obj \<Rightarrow> byte list \<Rightarrow> (bool \<times> nbuf_obj) option" where
  "nbuf_find_enum w enm schema name =
    do { len \<leftarrow> c_strlen name;
         n \<leftarrow> nbuf_Schema_enumTypes_size w schema;
         find_named (nbuf_Schema_enumTypes w schema) (nbuf_EnumType_name w) name len [0..<unat n] enm }"

definition nbuf_find_field :: "world \<Rightarrow> nbuf_obj \<Rightarrow> nbuf_obj \<Rightarrow> byte list \<Rightarrow> (bool \<times> nbuf_obj) option" where
  "nbuf_find_field w fld msg name =
    do { len \<leftarrow> c_strlen name;
         n \<leftarrow> nbuf_MsgType_fields_size w msg;
         find_named (nbuf_MsgType_fields w msg) (nbuf_FieldDesc_name w) name len [0..<unat n] fld }"

text \<open>The value of a name of an enumeration; \<^verbatim>\<open>(uint32_t) -1\<close> when there is none.\<close>

definition nbuf_enum_value :: "world \<Rightarrow> nbuf_obj \<Rightarrow> byte list \<Rightarrow> uint32 option" where
  "nbuf_enum_value w enm name =
    do { len \<leftarrow> c_strlen name;
         n \<leftarrow> nbuf_EnumType_values_size w enm;
         (found, d) \<leftarrow> find_named (nbuf_EnumType_values w enm) (nbuf_EnumDesc_name w) name len
                        [0..<unat n] (null_obj 0);
         if found then map_option ucast (nbuf_EnumDesc_value w d) else Some (- 1) }"

fun find_value :: "world \<Rightarrow> nbuf_obj \<Rightarrow> uint16 \<Rightarrow> nat list \<Rightarrow> byte list option option" where
  "find_value w enm val [] = Some None"
| "find_value w enm val (i # ids) =
    do { d \<leftarrow> nbuf_EnumType_values w enm (of_nat i);
         v \<leftarrow> nbuf_EnumDesc_value w d;
         if val = v then do { (s, _) \<leftarrow> nbuf_EnumDesc_name w d; Some (Some s) }
         else find_value w enm val ids }"

text \<open>The inner \<open>None\<close> is \<^verbatim>\<open>NULL\<close>.\<close>

definition nbuf_enum_name :: "world \<Rightarrow> nbuf_obj \<Rightarrow> uint16 \<Rightarrow> byte list option option" where
  "nbuf_enum_name w enm val =
    do { n \<leftarrow> nbuf_EnumType_values_size w enm; find_value w enm val [0..<unat n] }"

text \<open>The members \<^verbatim>\<open>ssize\<close> and \<^verbatim>\<open>psize\<close> that \<^verbatim>\<open>_nbuf_get_size\<close> fills in.\<close>

definition nbuf_get_size_of :: "world \<Rightarrow> nbuf_obj \<Rightarrow> nbuf_Kind \<Rightarrow> uint32 \<Rightarrow> (uint16 \<times> uint16) option" where
  "nbuf_get_size_of w schema kind tag1 =
    (case kind of
       Kind_ENUM \<Rightarrow> Some (2, 0)
     | Kind_BOOL \<Rightarrow> Some (ucast tag1, 0)
     | Kind_INT \<Rightarrow> Some (ucast tag1, 0)
     | Kind_UINT \<Rightarrow> Some (ucast tag1, 0)
     | Kind_FLOAT \<Rightarrow> Some (ucast tag1, 0)
     | Kind_STR \<Rightarrow> Some (0, 1)
     | Kind_PTR \<Rightarrow> do { msg \<leftarrow> nbuf_Schema_msgTypes w schema (ucast tag1);
                      s \<leftarrow> nbuf_MsgType_ssize w msg;
                      p \<leftarrow> nbuf_MsgType_psize w msg;
                      Some (s, p) }
     | Kind_other _ \<Rightarrow> None)"

section \<open>Tables of named entries\<close>

text \<open>
  \<open>entry elem i\<close> is the entry with index \<open>i\<close>; \<open>named elem nm n ns\<close>: the \<open>n\<close> entries have the names \<open>ns\<close>, all
  readable.
\<close>

definition entry :: "(size_t \<Rightarrow> nbuf_obj option) \<Rightarrow> nat \<Rightarrow> nbuf_obj" where
  "entry elem i = the (elem (of_nat i))"

definition named ::
    "(size_t \<Rightarrow> nbuf_obj option) \<Rightarrow> (nbuf_obj \<Rightarrow> (byte list \<times> size_t) option) \<Rightarrow> size_t \<Rightarrow>
      byte list list \<Rightarrow> bool" where
  "named elem nm n ns \<longleftrightarrow> length ns = unat n \<and>
    (\<forall>i < length ns. \<exists>s. nm (entry elem i) = Some (s, of_nat (length (ns ! i))) \<and>
       length (ns ! i) < 2 ^ 64 \<and> length (ns ! i) \<le> length s \<and> take (length (ns ! i)) s = ns ! i)"

definition c_string :: "byte list \<Rightarrow> byte list" where
  "c_string s = takeWhile (\<lambda>b. b \<noteq> 0) s"

text \<open>The first index with a name, and what a search over the entries returns.\<close>

fun first_index :: "byte list list \<Rightarrow> byte list \<Rightarrow> nat option" where
  "first_index [] s = None"
| "first_index (n # ns) s = (if n = s then Some 0 else map_option Suc (first_index ns s))"

definition search_result ::
    "(size_t \<Rightarrow> nbuf_obj option) \<Rightarrow> byte list list \<Rightarrow> byte list \<Rightarrow> nbuf_obj \<Rightarrow> bool \<times> nbuf_obj" where
  "search_result elem ns s d =
    (case first_index ns s of
       Some i \<Rightarrow> (True, entry elem i)
     | None \<Rightarrow> (False, if ns = [] then d else entry elem (length ns - 1)))"

lemma first_index_Some:
  "first_index ns s = Some i \<longleftrightarrow> i < length ns \<and> ns ! i = s \<and> (\<forall>j < i. ns ! j \<noteq> s)"
proof (induction ns arbitrary: i)
  case Nil
  then show ?case by simp
next
  case (Cons n ns)
  show ?case
  proof (cases i)
    case 0
    then show ?thesis by auto
  next
    case (Suc k)
    then show ?thesis using Cons.IH [of k] by (auto simp: All_less_Suc2)
  qed
qed

lemma first_index_None: "first_index ns s = None \<longleftrightarrow> s \<notin> set ns"
  by (induction ns) auto

text \<open>
  What the searches use of the schema: a number of entries and the entries.  The law is that both are
  read through one object, so every index gives an entry when the number can be read.
\<close>

locale named_table =
  fixes size_of :: "world \<Rightarrow> nbuf_obj \<Rightarrow> size_t option"
    and elem_at :: "world \<Rightarrow> nbuf_obj \<Rightarrow> size_t \<Rightarrow> nbuf_obj option"
    and name_of :: "world \<Rightarrow> nbuf_obj \<Rightarrow> (byte list \<times> size_t) option"
  assumes elem_total: "size_of w ob = Some n \<Longrightarrow> \<exists>d. elem_at w ob i = Some d"
begin

lemma elem_entry: "size_of w ob = Some n \<Longrightarrow> elem_at w ob (of_nat i) = Some (entry (elem_at w ob) i)"
  using elem_total [of w ob n "of_nat i"] by (auto simp: entry_def)

lemma find_from:
  assumes sz: "size_of w ob = Some n" and nm: "named (elem_at w ob) (name_of w) n ns"
    and len: "c_strlen name = Some len" and lt: "length name < 2 ^ 64"
  shows "k \<le> length ns \<Longrightarrow> find_named (elem_at w ob) (name_of w) name len [k..<length ns] d
    = Some (case first_index (drop k ns) (c_string name) of
              Some i \<Rightarrow> (True, entry (elem_at w ob) (k + i))
            | None \<Rightarrow> (False, if k = length ns then d else entry (elem_at w ob) (length ns - 1)))"
proof (induction "length ns - k" arbitrary: k d)
  case 0
  then show ?case by simp
next
  case (Suc m)
  then have k: "k < length ns" by linarith
  let ?e = "entry (elem_at w ob) k" and ?l = "length (ns ! k)"
  have e: "elem_at w ob (of_nat k) = Some ?e" by (rule elem_entry [OF sz])
  obtain s where s: "name_of w ?e = Some (s, of_nat ?l)" "?l < 2 ^ 64" "?l \<le> length s" "take ?l s = ns ! k"
    using nm k by (auto simp: named_def)
  have cl: "len = length (c_string name)" "0 \<in> set name"
    using len by (auto simp: c_strlen_def c_string_def split: if_splits)
  have nl: "len \<le> length name" "take len name = c_string name"
    using cl(1) length_takeWhile_le [of "\<lambda>b. b \<noteq> 0" name]
      takeWhile_eq_take [of "\<lambda>b. b \<noteq> 0" name, symmetric]
    by (simp_all add: c_string_def)
  have m: "name_matches name len (s, of_nat ?l) = Some (ns ! k = c_string name)"
  proof -
    have "(of_nat len :: size_t) = of_nat ?l \<longleftrightarrow> len = ?l"
      using nl(1) lt s(2) unat_of_nat_64 [of len] unat_of_nat_64 [of ?l] by (metis le_less_trans)
    then have e: "name_matches name len (s, of_nat ?l) = (if len = ?l then memcmp_eq name s len else Some False)"
      by (simp only: name_matches_def prod.case)
    show ?thesis
    proof (cases "len = ?l")
      case True
      then have "memcmp_eq name s len = Some (c_string name = ns ! k)"
        using nl s(3,4) by (simp add: memcmp_eq_def load_def seg_def)
      then show ?thesis using e True by auto
    next
      case False
      then have "ns ! k \<noteq> c_string name" using cl(1) by auto
      then show ?thesis using e False by simp
    qed
  qed
  have u: "[k..<length ns] = k # [Suc k..<length ns]" using k by (simp add: upt_conv_Cons)
  have dr: "drop k ns = ns ! k # drop (Suc k) ns" using k by (simp add: Cons_nth_drop_Suc)
  have step: "find_named (elem_at w ob) (name_of w) name len (k # ids) d
      = (if ns ! k = c_string name then Some (True, ?e)
         else find_named (elem_at w ob) (name_of w) name len ids ?e)" for ids
    using e s(1) m by simp
  have fi: "first_index (ns ! k # ms) (c_string name)
      = (if ns ! k = c_string name then Some 0 else map_option Suc (first_index ms (c_string name)))" for ms
    by simp
  have "length ns - Suc k = m'" if "Suc m' = length ns - k" for m' using that by linarith
  then have IH: "find_named (elem_at w ob) (name_of w) name len [Suc k..<length ns] ?e
      = Some (case first_index (drop (Suc k) ns) (c_string name) of
              Some i \<Rightarrow> (True, entry (elem_at w ob) (Suc k + i))
            | None \<Rightarrow> (False, if Suc k = length ns then ?e else entry (elem_at w ob) (length ns - 1)))"
    using Suc.hyps k by (intro Suc.hyps(1)) auto
  have "k = length ns - 1" if "Suc k = length ns" using that by linarith
  then show ?case
    unfolding u step dr fi using IH k by (cases "first_index (drop (Suc k) ns) (c_string name)") auto
qed

lemma find_first:
  assumes "size_of w ob = Some n" and "named (elem_at w ob) (name_of w) n ns"
    and "c_strlen name = Some len" and "length name < 2 ^ 64"
  shows "find_named (elem_at w ob) (name_of w) name len [0..<unat n] d
    = Some (search_result (elem_at w ob) ns (c_string name) d)"
proof -
  have l: "length ns = unat n" using assms(2) by (simp add: named_def)
  show ?thesis
    using find_from [OF assms, of 0 d] unfolding l [symmetric]
    by (cases "first_index ns (c_string name)") (auto simp: search_result_def)
qed

end

interpretation msgs: named_table nbuf_Schema_msgTypes_size nbuf_Schema_msgTypes nbuf_MsgType_name
  by unfold_locales (auto simp: nbuf_Schema_msgTypes_size_def nbuf_Schema_msgTypes_def split: bind_splits)

interpretation enums: named_table nbuf_Schema_enumTypes_size nbuf_Schema_enumTypes nbuf_EnumType_name
  by unfold_locales (auto simp: nbuf_Schema_enumTypes_size_def nbuf_Schema_enumTypes_def split: bind_splits)

interpretation fields: named_table nbuf_MsgType_fields_size nbuf_MsgType_fields nbuf_FieldDesc_name
  by unfold_locales (auto simp: nbuf_MsgType_fields_size_def nbuf_MsgType_fields_def split: bind_splits)

interpretation vals: named_table nbuf_EnumType_values_size nbuf_EnumType_values nbuf_EnumDesc_name
  by unfold_locales (auto simp: nbuf_EnumType_values_size_def nbuf_EnumType_values_def split: bind_splits)

section \<open>What reflection promises\<close>

text \<open>
  Claim C25.  Looking a name up in a schema is a search in the list of its names: the message, the
  enumeration or the field found is the first one with exactly that name; when there is none the
  result is \<^verbatim>\<open>false\<close> and the result parameter is left at the last entry.
\<close>

theorem find_by_name:
  assumes "c_strlen name = Some len" and "length name < 2 ^ 64"
    and "nbuf_Schema_msgTypes_size w sch = Some nm"
    and "named (nbuf_Schema_msgTypes w sch) (nbuf_MsgType_name w) nm mnames"
    and "nbuf_Schema_enumTypes_size w sch = Some ne"
    and "named (nbuf_Schema_enumTypes w sch) (nbuf_EnumType_name w) ne enames"
    and "nbuf_MsgType_fields_size w m = Some nf"
    and "named (nbuf_MsgType_fields w m) (nbuf_FieldDesc_name w) nf fnames"
  shows "nbuf_find_msg w d sch name
      = Some (search_result (nbuf_Schema_msgTypes w sch) mnames (c_string name) d) \<and>
    nbuf_find_enum w d sch name
      = Some (search_result (nbuf_Schema_enumTypes w sch) enames (c_string name) d) \<and>
    nbuf_find_field w d m name
      = Some (search_result (nbuf_MsgType_fields w m) fnames (c_string name) d)"
  using msgs.find_first [OF assms(3,4,1,2)] enums.find_first [OF assms(5,6,1,2)]
    fields.find_first [OF assms(7,8,1,2)] assms(1,3,5,7)
  by (simp add: nbuf_find_msg_def nbuf_find_enum_def nbuf_find_field_def)

lemma find_value_from:
  assumes sz: "nbuf_EnumType_values_size w enm = Some n"
    and v: "\<And>i. i < m \<Longrightarrow> nbuf_EnumDesc_value w (entry (nbuf_EnumType_values w enm) i) = Some (vs ! i)"
  shows "k \<le> i \<Longrightarrow> i < m \<Longrightarrow> \<forall>j. k \<le> j \<and> j < i \<longrightarrow> vs ! j \<noteq> vs ! i \<Longrightarrow>
    nbuf_EnumDesc_name w (entry (nbuf_EnumType_values w enm) i) = Some (s, l) \<Longrightarrow>
    find_value w enm (vs ! i) [k..<m] = Some (Some s)"
proof (induction "i - k" arbitrary: k)
  case 0
  then have "[k..<m] = i # [Suc i..<m]" "k = i" by (simp_all add: upt_conv_Cons)
  then show ?case using vals.elem_entry [OF sz, of i] v [of i] "0.prems" by simp
next
  case (Suc d)
  then have k: "k < i" "[k..<m] = k # [Suc k..<m]" by (simp_all add: upt_conv_Cons)
  have "find_value w enm (vs ! i) [Suc k..<m] = Some (Some s)"
    using Suc.hyps(2) Suc.prems k(1) by (intro Suc.hyps(1)) auto
  moreover have "vs ! k \<noteq> vs ! i" using Suc.prems(3) k(1) by simp
  ultimately show ?case
    using vals.elem_entry [OF sz, of k] v [of k] k Suc.prems(2) by auto
qed

text \<open>
  Claim C26.  Names and values of an enumeration with distinct values convert both ways:
  \<^verbatim>\<open>nbuf_enum_value\<close> of the name with index \<open>i\<close> is the value with index \<open>i\<close>, and \<^verbatim>\<open>nbuf_enum_name\<close> of
  that value gives the name back; an unknown name gives \<^verbatim>\<open>-1\<close>.
\<close>

theorem enum_names_and_values:
  assumes "nbuf_EnumType_values_size w enm = Some n"
    and "named (nbuf_EnumType_values w enm) (nbuf_EnumDesc_name w) n ns"
    and "\<And>i. i < length ns \<Longrightarrow>
      nbuf_EnumDesc_value w (entry (nbuf_EnumType_values w enm) i) = Some (vs ! i)"
    and "length vs = length ns" and "distinct vs" and "distinct ns"
    and "c_strlen name = Some len" and "length name < 2 ^ 64"
  shows "nbuf_enum_value w enm name
      = Some (case first_index ns (c_string name) of Some i \<Rightarrow> ucast (vs ! i) | None \<Rightarrow> - 1) \<and>
    (\<forall>i < length ns. \<exists>s. nbuf_enum_name w enm (vs ! i) = Some (Some s) \<and> take (length (ns ! i)) s = ns ! i)"
proof
  show "nbuf_enum_value w enm name
      = Some (case first_index ns (c_string name) of Some i \<Rightarrow> ucast (vs ! i) | None \<Rightarrow> - 1)"
  proof (cases "first_index ns (c_string name)")
    case None
    then show ?thesis
      using vals.find_first [OF assms(1,2,7,8), of "null_obj 0"] assms(1,7)
      by (simp add: nbuf_enum_value_def search_result_def)
  next
    case (Some i)
    then have "i < length ns" by (simp add: first_index_Some)
    then show ?thesis
      using vals.find_first [OF assms(1,2,7,8), of "null_obj 0"] assms(1,3,7) Some
      by (simp add: nbuf_enum_value_def search_result_def)
  qed
  show "\<forall>i < length ns. \<exists>s. nbuf_enum_name w enm (vs ! i) = Some (Some s) \<and> take (length (ns ! i)) s = ns ! i"
  proof (intro allI impI)
    fix i assume i: "i < length ns"
    have len: "length ns = unat n" using assms(2) by (simp add: named_def)
    obtain s l where s: "nbuf_EnumDesc_name w (entry (nbuf_EnumType_values w enm) i) = Some (s, l)"
      "take (length (ns ! i)) s = ns ! i" using assms(2) i by (auto simp: named_def)
    have "\<forall>j. 0 \<le> j \<and> j < i \<longrightarrow> vs ! j \<noteq> vs ! i"
      using assms(4,5) i by (auto simp: nth_eq_iff_index_eq)
    then have "find_value w enm (vs ! i) [0..<length ns] = Some (Some s)"
      by (intro find_value_from [OF assms(1,3) _ i _ s(1)]) simp_all
    then show "\<exists>s. nbuf_enum_name w enm (vs ! i) = Some (Some s) \<and> take (length (ns ! i)) s = ns ! i"
      using assms(1) s(2) by (simp add: nbuf_enum_name_def len)
  qed
qed

text \<open>
  A small schema in a buffer: one message \<^verbatim>\<open>m\<close> with one field \<^verbatim>\<open>a\<close>, one enumeration \<^verbatim>\<open>E\<close> with one
  value \<^verbatim>\<open>b = 7\<close>.
\<close>

definition demo_schema_bytes :: "byte list" where
  "demo_schema_bytes =
    [1,0,0,0, 0,0, 3,0,  4,0,0,0, 23,0,0,0, 0,0,0,0, 0,0,0,0,
     1,0,0,0, 4,0, 2,0,  4,0,0,0, 3,0,0,0, 6,0,0,0, 0,0,0,0,
     2,0,0,0, 1,0, 0,0,  109,0,0,0,0,0,0,0,
     1,0,0,0, 12,0, 1,0, 3,0,0,0, 0,0,0,0, 4,0,0,0, 1,0,0,0,
     2,0,0,0, 1,0, 0,0,  97,0,0,0,0,0,0,0,
     1,0,0,0, 0,0, 2,0,  2,0,0,0, 5,0,0,0,
     2,0,0,0, 1,0, 0,0,  69,0,0,0,0,0,0,0,
     1,0,0,0, 4,0, 1,0,  7,0,0,0, 1,0,0,0,
     2,0,0,0, 1,0, 0,0,  98,0,0,0,0,0,0,0]"

definition demo_schema_world :: world where
  "demo_schema_world =
    \<lparr>bufs = (\<lambda>a. if a = 2 then Some (nbuf_init_read demo_schema_bytes 168) else None), next_addr = 3\<rparr>"

definition demo_schema :: nbuf_obj where
  "demo_schema = \<lparr>obj_buf = 2, obj_base = 8, nelem = 1, ssize = 0, psize = 3\<rparr>"

definition demo_msg :: nbuf_obj where
  "demo_msg = \<lparr>obj_buf = 2, obj_base = 32, nelem = 1, ssize = 4, psize = 2\<rparr>"

definition demo_field :: nbuf_obj where
  "demo_field = \<lparr>obj_buf = 2, obj_base = 72, nelem = 1, ssize = 12, psize = 1\<rparr>"

definition demo_enum :: nbuf_obj where
  "demo_enum = \<lparr>obj_buf = 2, obj_base = 112, nelem = 1, ssize = 0, psize = 2\<rparr>"

definition demo_value :: nbuf_obj where
  "demo_value = \<lparr>obj_buf = 2, obj_base = 144, nelem = 1, ssize = 4, psize = 1\<rparr>"

lemmas read_eval = nbuf_read_int_safe_def nbuf_read_int_unsafe_def load_def seg_def
  nbuf_bounds_check_def nbuf_ptr_offs_def nbuf_elemsz_def NBUF_WORD_SZ_def nbuf_obj_init_def
  obj_size_check_def nbuf_get_rel_ptr_def nbuf_get_ptr_plain_def nbuf_get_ptr_def null_obj_def
  nbuf_get_elem_def nbuf_get_str_def nbuf_str_of_def Let_def word_le_nat_alt

lemma demo_buf_2: "bufs demo_schema_world 2 = Some (nbuf_init_read demo_schema_bytes 168)"
  by (simp add: demo_schema_world_def)

lemmas demo_eval = read_eval demo_buf_2 nbuf_init_read_def demo_schema_bytes_def demo_schema_def
  demo_msg_def demo_field_def demo_enum_def demo_value_def

lemma demo_ptrs:
  "nbuf_get_ptr demo_schema_world demo_schema 0 = Some demo_msg"
  "nbuf_get_ptr demo_schema_world demo_schema 1 = Some demo_enum"
  "nbuf_get_ptr demo_schema_world demo_msg 1 = Some demo_field"
  "nbuf_get_ptr demo_schema_world demo_enum 1 = Some demo_value"
  by (simp_all add: demo_eval)

lemma demo_elems:
  "nbuf_get_elem demo_msg 0 = demo_msg" "nbuf_get_elem demo_enum 0 = demo_enum"
  "nbuf_get_elem demo_field 0 = demo_field" "nbuf_get_elem demo_value 0 = demo_value"
  by (simp_all add: demo_eval)

lemma demo_names:
  "nbuf_MsgType_name demo_schema_world demo_msg = Some (drop 56 demo_schema_bytes, 1)"
  "nbuf_FieldDesc_name demo_schema_world demo_field = Some (drop 96 demo_schema_bytes, 1)"
  "nbuf_EnumType_name demo_schema_world demo_enum = Some (drop 128 demo_schema_bytes, 1)"
  "nbuf_EnumDesc_name demo_schema_world demo_value = Some (drop 160 demo_schema_bytes, 1)"
  "nbuf_EnumDesc_value demo_schema_world demo_value = Some 7"
  by (simp_all add: nbuf_MsgType_name_def nbuf_FieldDesc_name_def nbuf_EnumType_name_def
      nbuf_EnumDesc_name_def nbuf_EnumDesc_value_def obj_get_int_def nbuf_get_int_def demo_eval)

lemmas demo_tables = nbuf_Schema_msgTypes_size_def nbuf_Schema_msgTypes_def
  nbuf_Schema_enumTypes_size_def nbuf_Schema_enumTypes_def nbuf_MsgType_fields_size_def
  nbuf_MsgType_fields_def nbuf_EnumType_values_size_def nbuf_EnumType_values_def demo_ptrs demo_elems

lemma demo_counts: "nelem demo_msg = 1" "nelem demo_enum = 1" "nelem demo_field = 1" "nelem demo_value = 1"
  by (simp_all add: demo_msg_def demo_enum_def demo_field_def demo_value_def)

lemma demo_named:
  "named (nbuf_Schema_msgTypes demo_schema_world demo_schema) (nbuf_MsgType_name demo_schema_world) 1 [[109]]"
  "named (nbuf_Schema_enumTypes demo_schema_world demo_schema) (nbuf_EnumType_name demo_schema_world) 1 [[69]]"
  "named (nbuf_MsgType_fields demo_schema_world demo_msg) (nbuf_FieldDesc_name demo_schema_world) 1 [[97]]"
  "named (nbuf_EnumType_values demo_schema_world demo_enum) (nbuf_EnumDesc_name demo_schema_world) 1 [[98]]"
  by (simp_all add: named_def entry_def demo_tables demo_names demo_schema_bytes_def)

theorem find_by_name_witness:
  "nbuf_find_field demo_schema_world (null_obj 0) demo_msg [97, 0] = Some (True, demo_field) \<and>
   nbuf_find_msg demo_schema_world (null_obj 0) demo_schema [97, 0] = Some (False, demo_msg)"
proof -
  have "c_strlen [97, 0] = Some 1" by (simp add: c_strlen_def)
  then show ?thesis
    using find_by_name [of "[97, 0]" 1 demo_schema_world demo_schema 1 "[[109]]" 1 "[[69]]" demo_msg 1
        "[[97]]" "null_obj 0"]
    by (simp add: demo_named demo_tables demo_counts search_result_def c_string_def entry_def)
qed

theorem enum_names_and_values_witness:
  "nbuf_enum_value demo_schema_world demo_enum [98, 0] = Some 7 \<and>
   (\<exists>s. nbuf_enum_name demo_schema_world demo_enum 7 = Some (Some s) \<and> take 1 s = [98])"
proof -
  have "c_strlen [98, 0] = Some 1" by (simp add: c_strlen_def)
  then show ?thesis
    using enum_names_and_values [of demo_schema_world demo_enum 1 "[[98]]" "[7]" "[98, 0]" 1]
    by (simp add: demo_named demo_tables demo_counts demo_names c_string_def entry_def)
qed

end
