(* ===== verification/Ref.thy ===== *)
theory Ref
  imports Refl
begin

text \<open>
  References to fields, \<^verbatim>\<open>include/libnbuf.h\<close>: a field of an object together with its descriptor, as
  the printer and the parser use them.  Floating-point values are bit patterns; the conversions
  between \<^verbatim>\<open>float\<close> and \<^verbatim>\<open>double\<close> are parameters.  The lemmas show that values put through a
  reference are read back, and that advancing a reference walks through the elements of a list.
\<close>

record nbuf_ref =
  ref_o :: nbuf_obj
  ref_kind :: nbuf_Kind
  ref_list :: bool
  ref_tag0 :: uint32
  ref_tag1 :: uint32

text \<open>The members \<^verbatim>\<open>ssize\<close> and \<^verbatim>\<open>psize\<close> filled in for a field.\<close>

definition nbuf_get_size :: "world \<Rightarrow> nbuf_obj \<Rightarrow> nbuf_obj \<Rightarrow> (uint16 \<times> uint16) option" where
  "nbuf_get_size w schema fld =
    do { k \<leftarrow> nbuf_FieldDesc_kind w fld; t1 \<leftarrow> nbuf_FieldDesc_tag1 w fld; nbuf_get_size_of w schema k t1 }"

definition nbuf_get_ref :: "world \<Rightarrow> nbuf_obj \<Rightarrow> nbuf_obj \<Rightarrow> nbuf_ref option" where
  "nbuf_get_ref w ob fld =
    do { k \<leftarrow> nbuf_FieldDesc_kind w fld;
         l \<leftarrow> nbuf_FieldDesc_list w fld;
         t0 \<leftarrow> nbuf_FieldDesc_tag0 w fld;
         t1 \<leftarrow> nbuf_FieldDesc_tag1 w fld;
         Some \<lparr>ref_o = ob, ref_kind = k, ref_list = l, ref_tag0 = t0, ref_tag1 = t1\<rparr> }"

section \<open>Scalars\<close>

definition ref_size :: "nbuf_ref \<Rightarrow> uint32" where
  "ref_size ref = (if ref_kind ref = Kind_ENUM then 2 else ref_tag1 ref)"

definition ref_is_int :: "nbuf_ref \<Rightarrow> bool" where
  "ref_is_int ref \<longleftrightarrow> ref_kind ref = Kind_INT \<or> ref_kind ref = Kind_UINT \<or> ref_kind ref = Kind_ENUM"

text \<open>A shift by 64 or more is undefined.\<close>

definition nbuf_ref_get_int :: "world \<Rightarrow> nbuf_ref \<Rightarrow> int64 option" where
  "nbuf_ref_get_int w ref =
    do { assert_ok (ref_is_int ref);
         v \<leftarrow> obj_get_int w (ref_o ref) (ucast (ref_tag0 ref)) (ucast (ref_size ref));
         if ref_kind ref = Kind_UINT
         then do { let n = unat ((8 - ref_size ref) * 8);
                   assert_ok (n < 64);
                   Some (v AND drop_bit n (- 1)) }
         else Some v }"

definition nbuf_ref_put_int :: "world \<Rightarrow> nbuf_ref \<Rightarrow> int64 \<Rightarrow> world option" where
  "nbuf_ref_put_int w ref v =
    do { assert_ok (ref_is_int ref);
         obj_put_int w (ref_o ref) (ucast (ref_tag0 ref)) (ucast (ref_size ref)) v }"

definition nbuf_ref_get_float :: "(uint32 \<Rightarrow> uint64) \<Rightarrow> world \<Rightarrow> nbuf_ref \<Rightarrow> uint64 option" where
  "nbuf_ref_get_float widen w ref =
    do { assert_ok (ref_kind ref = Kind_FLOAT);
         b \<leftarrow> bufs w (obj_buf (ref_o ref));
         if ref_tag1 ref = 4 then map_option widen (nbuf_get_f32 b (ref_o ref) (ucast (ref_tag0 ref)))
         else if ref_tag1 ref = 8 then nbuf_get_f64 b (ref_o ref) (ucast (ref_tag0 ref))
         else None }"

definition nbuf_ref_put_float :: "(uint64 \<Rightarrow> uint32) \<Rightarrow> world \<Rightarrow> nbuf_ref \<Rightarrow> uint64 \<Rightarrow> world option" where
  "nbuf_ref_put_float narrow w ref v =
    do { assert_ok (ref_kind ref = Kind_FLOAT);
         b \<leftarrow> bufs w (obj_buf (ref_o ref));
         b1 \<leftarrow> (if ref_tag1 ref = 4 then nbuf_put_f32 b (ref_o ref) (ucast (ref_tag0 ref)) (narrow v)
               else if ref_tag1 ref = 8 then nbuf_put_f64 b (ref_o ref) (ucast (ref_tag0 ref)) v
               else None);
         Some (put_buf w (obj_buf (ref_o ref)) b1) }"

definition nbuf_ref_get_bit :: "world \<Rightarrow> nbuf_ref \<Rightarrow> bool option" where
  "nbuf_ref_get_bit w ref =
    do { assert_ok (ref_kind ref = Kind_BOOL);
         b \<leftarrow> bufs w (obj_buf (ref_o ref));
         nbuf_get_bit b (ref_o ref) (ucast (ref_tag0 ref)) }"

definition nbuf_ref_put_bit :: "world \<Rightarrow> nbuf_ref \<Rightarrow> bool \<Rightarrow> world option" where
  "nbuf_ref_put_bit w ref v =
    do { assert_ok (ref_kind ref = Kind_BOOL);
         b \<leftarrow> bufs w (obj_buf (ref_o ref));
         b1 \<leftarrow> nbuf_put_bit b (ref_o ref) (ucast (ref_tag0 ref)) v;
         Some (put_buf w (obj_buf (ref_o ref)) b1) }"

definition nbuf_ref_get_str :: "world \<Rightarrow> nbuf_ref \<Rightarrow> (byte list \<times> size_t) option" where
  "nbuf_ref_get_str w ref =
    do { assert_ok (ref_kind ref = Kind_STR); nbuf_get_str w (ref_o ref) (ucast (ref_tag0 ref)) }"

definition nbuf_ref_put_str ::
    "allocator \<Rightarrow> world \<Rightarrow> nbuf_ref \<Rightarrow> byte list \<Rightarrow> size_t \<Rightarrow> world option" where
  "nbuf_ref_put_str al w ref v len =
    do { assert_ok (ref_kind ref = Kind_STR);
         nbuf_put_str al w (ref_o ref) (ucast (ref_tag0 ref)) v len }"

section \<open>Messages and lists\<close>

definition nbuf_ref_get_ptr :: "world \<Rightarrow> nbuf_ref \<Rightarrow> nbuf_ref option" where
  "nbuf_ref_get_ptr w ref =
    do { assert_ok (ref_list ref \<or> ref_kind ref = Kind_PTR);
         ob \<leftarrow> nbuf_get_ptr w (ref_o ref) (ucast (ref_tag0 ref));
         Some (ref\<lparr>ref_o := (if ref_kind ref = Kind_BOOL then ob\<lparr>ssize := 1\<rparr> else ob), ref_tag0 := 0\<rparr>) }"

definition nbuf_ref_advance :: "nbuf_ref \<Rightarrow> size_t \<Rightarrow> (bool \<times> nbuf_ref) option" where
  "nbuf_ref_advance ref n =
    do { assert_ok (ref_list ref);
         let ob = ref_o ref;
         if ucast (nelem ob) \<le> n then Some (False, ref)
         else do {
           let ob1 = ob\<lparr>nelem := nelem ob - ucast n\<rparr>;
           if ref_kind ref = Kind_BOOL
           then (let m = ucast (ref_tag0 ref) + n
                 in Some (True, ref\<lparr>ref_o := ob1\<lparr>obj_base := obj_base ob1 + m div 8\<rparr>,
                                    ref_tag0 := ucast (m mod 8)\<rparr>))
           else Some (True, ref\<lparr>ref_o := ob1\<lparr>obj_base := obj_base ob1 + n * nbuf_elemsz ob1\<rparr>\<rparr>) } }"

text \<open>The two branches of \<^verbatim>\<open>nbuf_ref_init_ptr\<close>: appending to a list, and creating an object.\<close>

definition ref_append :: "allocator \<Rightarrow> world \<Rightarrow> nbuf_ref \<Rightarrow> (nbuf_ref \<times> world) option" where
  "ref_append al w ref =
    do { assert_ok (ref_list ref);
         lst \<leftarrow> nbuf_get_ptr w (ref_o ref) (ucast (ref_tag0 ref));
         b \<leftarrow> bufs w (obj_buf lst);
         let n = (ucast (nelem lst) :: size_t);
         (lst1, b1) \<leftarrow> nbuf_resize al b lst (n + 1);
         Some (ref\<lparr>ref_o := nbuf_get_elem lst1 n,
                   ref_tag0 := (if ref_kind ref = Kind_BOOL then ucast (n mod 8) else 0)\<rparr>,
               put_buf w (obj_buf lst) b1) }"

definition ref_create :: "allocator \<Rightarrow> world \<Rightarrow> nbuf_ref \<Rightarrow> nbuf_obj \<Rightarrow> (nbuf_ref \<times> world) option" where
  "ref_create al w ref schema =
    do { assert_ok (ref_list ref \<or> ref_kind ref = Kind_PTR);
         (s, p) \<leftarrow> nbuf_get_size_of w schema (ref_kind ref) (ref_tag1 ref);
         (lst, w1) \<leftarrow> nbuf_create al w (obj_buf (ref_o ref)) 1 s p;
         w2 \<leftarrow> nbuf_put_ptr w1 (ref_o ref) (ucast (ref_tag0 ref)) lst;
         Some (ref\<lparr>ref_o := lst, ref_tag0 := 0\<rparr>, w2) }"

definition nbuf_ref_init_ptr ::
    "allocator \<Rightarrow> world \<Rightarrow> nbuf_ref \<Rightarrow> nbuf_obj \<Rightarrow> (nbuf_ref \<times> world) option" where
  "nbuf_ref_init_ptr al w ref schema =
    do { b \<leftarrow> bufs w (obj_buf (ref_o ref));
         has \<leftarrow> nbuf_has_ptr b (ref_o ref) (ucast (ref_tag0 ref));
         (ref1, w1) \<leftarrow> (if has then ref_append al w ref else ref_create al w ref schema);
         Some (ref1\<lparr>ref_list := False\<rparr>, w1) }"

section \<open>Reading back\<close>

lemma obj_int_read_back:
  assumes "w_writable ob w" and "cell_fits (unat (ssize ob)) (Int_cell off sz)"
  shows "\<exists>w'. obj_put_int w ob off sz v = Some w' \<and> obj_get_int w' ob off sz = Some (int_conv sz v)"
  using wmsg.put_total [OF assms] wmsg.get_same [OF assms] by (force simp: obj_int_cell)

lemma and_high_mask: "n < 64 \<Longrightarrow> (x :: 64 word) AND drop_bit n (- 1) = take_bit (64 - n) x"
  by (rule bit_word_eqI) (auto simp: bit_simps)

lemma take_bit_conv:
  "take_bit 32 (int_conv 4 v) = take_bit 32 v" "take_bit 16 (int_conv 2 v) = take_bit 16 v"
  "take_bit 8 (int_conv 1 v) = take_bit 8 v" "int_conv 8 v = v"
  by (simp_all add: int_conv_def) (rule bit_word_eqI; auto simp: bit_simps)+

text \<open>The mask of the unsigned getter keeps the low \<open>8 * sz\<close> bits.\<close>

lemma uint_mask:
  assumes "int_size sz" and "sz = ucast (t :: uint32)"
  shows "unat ((8 - t) * 8) < 64" and "int_conv sz v AND drop_bit (unat ((8 - t) * 8)) (- 1) = take_bit (8 * unat sz) v"
proof -
  have t: "t = 1 \<or> t = 2 \<or> t = 4 \<or> t = 8"
  proof -
    have u: "unat t = unat sz" using assms(2) by simp
    have "unat sz = 1 \<or> unat sz = 2 \<or> unat sz = 4 \<or> unat sz = 8"
      using assms(1) by (auto elim!: int_sizeE)
    then have "unat t = unat (1 :: uint32) \<or> unat t = unat (2 :: uint32) \<or> unat t = unat (4 :: uint32) \<or>
        unat t = unat (8 :: uint32)" using u by simp
    then show ?thesis by (simp only: word_unat_eq_iff)
  qed
  then show "unat ((8 - t) * 8) < 64" by auto
  have "take_bit (8 * unat sz) (int_conv sz v) = take_bit (8 * unat sz) v"
    using assms(1) by (cases rule: int_sizeE) (simp_all add: take_bit_conv)
  moreover have "64 - unat ((8 - t) * 8) = 8 * unat sz" using t assms(2) by auto
  ultimately show "int_conv sz v AND drop_bit (unat ((8 - t) * 8)) (- 1) = take_bit (8 * unat sz) v"
    using and_high_mask [of "unat ((8 - t) * 8)" "int_conv sz v"] \<open>unat ((8 - t) * 8) < 64\<close> by simp
qed

lemma ref_put_get_int:
  assumes "w_writable (ref_o ref) w" and "ref_is_int ref"
    and "cell_fits (unat (ssize (ref_o ref))) (Int_cell (ucast (ref_tag0 ref)) (ucast (ref_size ref)))"
  shows "\<exists>w'. nbuf_ref_put_int w ref v = Some w' \<and>
    nbuf_ref_get_int w' ref = Some (if ref_kind ref = Kind_UINT then take_bit (8 * unat (ref_size ref)) v
                                    else int_conv (ucast (ref_size ref)) v)"
proof -
  let ?sz = "ucast (ref_size ref) :: size_t"
  obtain w' where w': "obj_put_int w (ref_o ref) (ucast (ref_tag0 ref)) ?sz v = Some w'"
    "obj_get_int w' (ref_o ref) (ucast (ref_tag0 ref)) ?sz = Some (int_conv ?sz v)"
    using obj_int_read_back [OF assms(1,3)] by blast
  have "int_size ?sz" using assms(3) by simp
  from uint_mask [OF this refl] show ?thesis
    using w' assms(2)
    by (intro exI [of _ w']) (simp add: nbuf_ref_put_int_def nbuf_ref_get_int_def del: drop_bit_minus_one)
qed

lemma scast_again: "(ucast (scast (x :: 32 word) :: 64 word) :: 32 word) = x"
  "(ucast (scast (y :: 16 word) :: 64 word) :: 16 word) = y"
  "(ucast (scast (z :: 8 word) :: 64 word) :: 8 word) = z"
  by (rule bit_word_eqI; auto simp: bit_simps)+

lemma read_int_fits: "nbuf_read_int_unsafe blk p sz = Some v \<Longrightarrow> int_conv sz v = v"
  by (auto simp: nbuf_read_int_unsafe_def int_conv_def scast_again split: if_splits)

text \<open>A value that was read through a reference is one that fits its field.\<close>

lemma ref_value_fits:
  assumes "nbuf_ref_get_int w ref = Some v" and "int_size (ucast (ref_size ref))"
  shows "(if ref_kind ref = Kind_UINT then take_bit (8 * unat (ref_size ref)) v
          else int_conv (ucast (ref_size ref)) v) = v"
proof -
  let ?sz = "ucast (ref_size ref) :: size_t"
  obtain u where u: "obj_get_int w (ref_o ref) (ucast (ref_tag0 ref)) ?sz = Some u"
    "v = (if ref_kind ref = Kind_UINT then u AND drop_bit (unat ((8 - ref_size ref) * 8)) (- 1) else u)"
    using assms(1) by (auto simp: nbuf_ref_get_int_def Let_def simp del: drop_bit_minus_one split: bind_splits if_splits)
  have z: "int_conv ?sz 0 = 0" by (simp add: int_conv_def)
  have c: "int_conv ?sz u = u"
    using u(1) z by (auto simp: obj_get_int_def nbuf_get_int_def nbuf_read_int_safe_def
        dest: read_int_fits split: bind_splits if_splits)
  have "u AND drop_bit (unat ((8 - ref_size ref) * 8)) (- 1) = take_bit (8 * unat ?sz) u"
    using uint_mask(2) [OF assms(2) refl, of u] c by simp
  then show ?thesis using u(2) c by (simp del: drop_bit_minus_one)
qed

text \<open>
  Claim C30.  Integers put through a reference are read back: a signed or enumeration field gives the
  value cut to its size and sign extended, an unsigned field the low bits of the value, so every
  value that fits the field comes back as it was.
\<close>

theorem ref_int_read_back:
  assumes "w_writable (ref_o ref) w" and "ref_is_int ref"
    and "cell_fits (unat (ssize (ref_o ref))) (Int_cell (ucast (ref_tag0 ref)) (ucast (ref_size ref)))"
  shows "\<exists>w'. nbuf_ref_put_int w ref v = Some w' \<and>
    nbuf_ref_get_int w' ref = Some (if ref_kind ref = Kind_UINT then take_bit (8 * unat (ref_size ref)) v
                                    else int_conv (ucast (ref_size ref)) v)"
  using assms by (rule ref_put_get_int)

section \<open>Walking through a list\<close>

text \<open>\<open>k\<close> calls of \<^verbatim>\<open>nbuf_ref_advance(&ref, 1)\<close>, as the loop of the printer makes them.\<close>

fun advances :: "nat \<Rightarrow> nbuf_ref \<Rightarrow> (bool \<times> nbuf_ref) option" where
  "advances 0 ref = Some (True, ref)"
| "advances (Suc k) ref =
    do { (ok, ref1) \<leftarrow> advances k ref; if ok then nbuf_ref_advance ref1 1 else Some (False, ref1) }"

definition list_ref :: "nbuf_ref \<Rightarrow> nbuf_obj \<Rightarrow> bool" where
  "list_ref ref l \<longleftrightarrow> ref_list ref \<and> ref_tag0 ref = 0 \<and>
    ref_o ref = (if ref_kind ref = Kind_BOOL then l\<lparr>ssize := 1\<rparr> else l) \<and>
    (ref_kind ref = Kind_BOOL \<longleftrightarrow> nbuf_elemsz l = 0)"

text \<open>The reference to the element with index \<open>k\<close>.\<close>

definition nth_ref :: "nbuf_ref \<Rightarrow> nbuf_obj \<Rightarrow> nat \<Rightarrow> nbuf_ref" where
  "nth_ref ref l k =
    ref\<lparr>ref_o := (ref_o ref)\<lparr>obj_base := obj_base l + (if ref_kind ref = Kind_BOOL then of_nat (k div 8)
                                                     else of_nat k * nbuf_elemsz l),
                            nelem := nelem l - of_nat k\<rparr>,
        ref_tag0 := (if ref_kind ref = Kind_BOOL then of_nat (k mod 8) else 0)\<rparr>"

lemma unat_sub_of_nat: "k \<le> unat (n :: uint32) \<Longrightarrow> unat (n - of_nat k) = unat n - k"
proof -
  assume k: "k \<le> unat n"
  then have "unat (of_nat k :: uint32) = k"
    using unat_u32_lt [of n] by (simp add: unat_of_nat take_bit_nat_eq_self)
  then show ?thesis using k by (subst unat_sub_nowrap) (simp_all add: word_le_nat_alt)
qed

lemma next_bit: "ucast (of_nat (k mod 8) :: uint32) + (1 :: size_t) = of_nat (Suc (k mod 8))"
proof -
  have "unat (of_nat (k mod 8) :: uint32) = k mod 8" by (simp add: unat_of_nat take_bit_nat_eq_self)
  then have "ucast (of_nat (k mod 8) :: uint32) = (of_nat (k mod 8) :: size_t)"
    by (intro word_unat_eq_iff [THEN iffD2]) (simp add: unat_of_nat_64)
  then show ?thesis by simp
qed

lemma byte_of_next_bit:
  "(of_nat (Suc (k mod 8)) :: size_t) div 8 = of_nat ((Suc (k mod 8)) div 8)"
  "ucast ((of_nat (Suc (k mod 8)) :: size_t) mod 8) = (of_nat (Suc k mod 8) :: uint32)"
proof -
  have l: "Suc (k mod 8) < 2 ^ 64" by (rule less_trans [of _ 9]) simp_all
  have u: "unat (of_nat (Suc (k mod 8)) :: size_t) = Suc (k mod 8)" using l by (rule unat_of_nat_64)
  show "(of_nat (Suc (k mod 8)) :: size_t) div 8 = of_nat ((Suc (k mod 8)) div 8)"
  proof -
    have "unat ((of_nat (Suc (k mod 8)) :: size_t) div 8) = (Suc (k mod 8)) div 8" using u by (simp add: unat_div)
    moreover have "x = of_nat (unat x)" for x :: size_t by simp
    ultimately show ?thesis by metis
  qed
  have "unat ((of_nat (Suc (k mod 8)) :: size_t) mod 8) = (Suc (k mod 8)) mod 8" using u by (simp add: unat_mod)
  also have "\<dots> = Suc k mod 8" by (simp add: mod_Suc_eq)
  finally have m: "unat ((of_nat (Suc (k mod 8)) :: size_t) mod 8) = Suc k mod 8" .
  have "ucast x = (of_nat (unat x) :: uint32)" for x :: size_t by simp
  from this [of "of_nat (Suc (k mod 8)) mod 8"] m
  show "ucast ((of_nat (Suc (k mod 8)) :: size_t) mod 8) = (of_nat (Suc k mod 8) :: uint32)"
    by (simp only:)
qed

lemma div_8_step: "Suc k div 8 = k div 8 + (Suc (k mod 8)) div 8"
  by presburger

lemma advance_nth:
  assumes l: "list_ref ref l" and k: "Suc k < unat (nelem l)"
  shows "nbuf_ref_advance (nth_ref ref l k) 1 = Some (True, nth_ref ref l (Suc k))"
proof -
  let ?r = "nth_ref ref l k"
  have n: "unat (nelem (ref_o ?r)) = unat (nelem l) - k"
    using k by (simp add: nth_ref_def unat_sub_of_nat)
  have "\<not> ucast (nelem (ref_o ?r)) \<le> (1 :: size_t)"
    using n k by (simp add: word_le_nat_alt)
  then have go: "nbuf_ref_advance ?r 1 = do {
           let ob1 = (ref_o ?r)\<lparr>nelem := nelem (ref_o ?r) - 1\<rparr>;
           if ref_kind ?r = Kind_BOOL
           then (let m = ucast (ref_tag0 ?r) + 1
                 in Some (True, ?r\<lparr>ref_o := ob1\<lparr>obj_base := obj_base ob1 + m div 8\<rparr>,
                                    ref_tag0 := ucast (m mod 8)\<rparr>))
           else Some (True, ?r\<lparr>ref_o := ob1\<lparr>obj_base := obj_base ob1 + 1 * nbuf_elemsz ob1\<rparr>\<rparr>) }"
    using l by (simp add: nbuf_ref_advance_def list_ref_def nth_ref_def)
  have ne: "nelem l - of_nat k - 1 = nelem l - of_nat (Suc k)" by simp
  show ?thesis
  proof (cases "ref_kind ref = Kind_BOOL")
    case True
    have "(of_nat (Suc k div 8) :: size_t) = of_nat (k div 8) + of_nat ((Suc (k mod 8)) div 8)"
      by (subst div_8_step) (rule of_nat_add)
    then have b: "obj_base l + of_nat (k div 8) + of_nat ((Suc (k mod 8)) div 8) = obj_base l + of_nat (Suc k div 8)"
      by (simp only: add.assoc)
    have "nbuf_ref_advance ?r 1 = Some (True, ?r\<lparr>
        ref_o := (ref_o ?r)\<lparr>nelem := nelem l - of_nat k - 1,
          obj_base := obj_base l + of_nat (k div 8) + of_nat ((Suc (k mod 8)) div 8)\<rparr>,
        ref_tag0 := of_nat (Suc k mod 8)\<rparr>)"
      unfolding go using True by (simp add: nth_ref_def next_bit byte_of_next_bit Let_def del: of_nat_Suc of_nat_add)
    then show ?thesis unfolding b ne using True by (simp add: nth_ref_def)
  next
    case False
    have b: "obj_base l + of_nat k * nbuf_elemsz l + nbuf_elemsz l = obj_base l + of_nat (Suc k) * nbuf_elemsz l"
      by (simp add: distrib_right)
    have e: "nbuf_elemsz (l\<lparr>obj_base := x, nelem := y\<rparr>) = nbuf_elemsz l" for x y
      by (simp add: nbuf_elemsz_def nbuf_ptr_offs_def)
    have "nbuf_ref_advance ?r 1 = Some (True, ?r\<lparr>
        ref_o := (ref_o ?r)\<lparr>nelem := nelem l - of_nat k - 1,
          obj_base := obj_base l + of_nat k * nbuf_elemsz l + nbuf_elemsz l\<rparr>\<rparr>)"
      unfolding go using l False by (simp add: nth_ref_def list_ref_def e Let_def)
    then show ?thesis unfolding b ne using l False by (simp add: nth_ref_def list_ref_def)
  qed
qed

lemma nth_ref_tag: "ref_tag0 (nth_ref ref l k) = (if ref_kind ref = Kind_BOOL then of_nat (k mod 8) else 0)"
  by (simp add: nth_ref_def)

lemma nth_ref_0: "list_ref ref l \<Longrightarrow> nth_ref ref l 0 = ref"
  by (cases ref; cases l) (auto simp: nth_ref_def list_ref_def)

lemma advances_nth: "list_ref ref l \<Longrightarrow> k < unat (nelem l) \<Longrightarrow> advances k ref = Some (True, nth_ref ref l k)"
  by (induction k) (simp_all add: nth_ref_0 advance_nth)

lemma advance_last:
  assumes l: "list_ref ref l" and k: "Suc k = unat (nelem l)"
  shows "nbuf_ref_advance (nth_ref ref l k) 1 = Some (False, nth_ref ref l k)"
proof -
  have "unat (nelem (ref_o (nth_ref ref l k))) = 1"
    using k by (simp add: nth_ref_def unat_sub_of_nat)
  then have "ucast (nelem (ref_o (nth_ref ref l k))) \<le> (1 :: size_t)" by (simp add: word_le_nat_alt)
  then show ?thesis using l by (simp add: nbuf_ref_advance_def list_ref_def nth_ref_def)
qed

lemma of_nat_div_8: "k < 2 ^ 64 \<Longrightarrow> (of_nat k :: size_t) div 8 = of_nat (k div 8)"
proof -
  assume "k < 2 ^ 64"
  then have "unat ((of_nat k :: size_t) div 8) = k div 8" by (simp add: unat_div unat_of_nat_64)
  moreover have "x = of_nat (unat x)" for x :: size_t by simp
  ultimately show ?thesis by metis
qed

text \<open>
  Claim C29.  The loop of the printer over a list visits each element once, in order: after \<open>k\<close> calls of
  \<^verbatim>\<open>nbuf_ref_advance\<close> the reference is at the element \<^verbatim>\<open>nbuf_get_elem\<close> gives for \<open>k\<close> (for booleans at
  bit \<open>k mod 8\<close> of its byte), and the call after the last element returns \<^verbatim>\<open>false\<close>.
\<close>

theorem list_walk_visits_elements:
  assumes "list_ref ref l" and "k < unat (nelem l)"
  shows "\<exists>r. advances k ref = Some (True, r) \<and> obj_base (ref_o r) = obj_base (nbuf_get_elem l (of_nat k)) \<and>
    ref_tag0 r = (if ref_kind ref = Kind_BOOL then of_nat (k mod 8) else 0) \<and>
    (\<exists>r'. advances (unat (nelem l)) ref = Some (False, r'))"
proof -
  have k: "k < 2 ^ 64" using assms(2) unat_u32_lt [of "nelem l"] by simp
  have "(of_nat k :: size_t) < ucast (nelem l)"
    using assms(2) unat_of_nat_64 [OF k] by (simp add: word_less_nat_alt)
  then have "obj_base (nbuf_get_elem l (of_nat k)) = obj_base (ref_o (nth_ref ref l k))"
    using assms(1) of_nat_div_8 [OF k] by (simp add: nbuf_get_elem_def nth_ref_def list_ref_def Let_def)
  moreover obtain m where m: "unat (nelem l) = Suc m" using assms(2) by (cases "unat (nelem l)") auto
  have "advances (unat (nelem l)) ref = Some (False, nth_ref ref l m)"
    unfolding m using advances_nth [OF assms(1), of m] advance_last [OF assms(1), of m] m by simp
  ultimately show ?thesis
    using advances_nth [OF assms] nth_ref_tag by (metis (no_types))
qed

definition demo_bools :: nbuf_obj where
  "demo_bools = \<lparr>obj_buf = 2, obj_base = 40, nelem = 11, ssize = 0, psize = 0\<rparr>"

definition demo_bool_ref :: nbuf_ref where
  "demo_bool_ref = \<lparr>ref_o = demo_bools\<lparr>ssize := 1\<rparr>, ref_kind = Kind_BOOL, ref_list = True,
     ref_tag0 = 0, ref_tag1 = 0\<rparr>"

theorem list_walk_visits_elements_witness:
  "\<exists>r. advances 9 demo_bool_ref = Some (True, r) \<and> obj_base (ref_o r) = 41 \<and> ref_tag0 r = 1"
proof -
  have "list_ref demo_bool_ref demo_bools"
    by (simp add: list_ref_def demo_bool_ref_def demo_bools_def nbuf_elemsz_def nbuf_ptr_offs_def)
  from list_walk_visits_elements [OF this, of 9] show ?thesis
    by (simp add: demo_bools_def demo_bool_ref_def nbuf_get_elem_def nbuf_elemsz_def nbuf_ptr_offs_def
        del: advances.simps) (metis (no_types))
qed

theorem ref_int_read_back_witness:
  "\<exists>w'. nbuf_ref_put_int (put_buf demo_schema_world 2
      \<lparr>buf_base = demo_schema_bytes, buf_len = 168, buf_cap = 168, buf_ops = NULL_ops\<rparr>)
      \<lparr>ref_o = demo_value, ref_kind = Kind_UINT, ref_list = False, ref_tag0 = 0, ref_tag1 = 2\<rparr> 70000 = Some w' \<and>
    nbuf_ref_get_int w' \<lparr>ref_o = demo_value, ref_kind = Kind_UINT, ref_list = False, ref_tag0 = 0, ref_tag1 = 2\<rparr>
      = Some 4464"
proof -
  let ?b = "\<lparr>buf_base = demo_schema_bytes, buf_len = 168, buf_cap = 168, buf_ops = NULL_ops\<rparr>"
  let ?w = "put_buf demo_schema_world 2 ?b"
  let ?r = "\<lparr>ref_o = demo_value, ref_kind = Kind_UINT, ref_list = False, ref_tag0 = 0, ref_tag1 = 2\<rparr>"
  have "length demo_schema_bytes = 168" by (simp add: demo_schema_bytes_def)
  then have "writable_obj demo_value ?b"
    by (simp add: writable_obj_def buf_wwf_def demo_value_def obj_safe_def in_bounds_def obj_bytes_def esize_def)
  then have "w_writable demo_value ?w" by (simp add: w_writable_def put_buf_def demo_value_def)
  then show ?thesis
    using ref_int_read_back [of ?r ?w 70000]
    by (simp add: ref_is_int_def ref_size_def demo_value_def)
qed

section \<open>The first boolean of a list\<close>

lemma create_plain_ssize: "nbuf_create_plain al a b n 0 p = Some (r, b') \<Longrightarrow> ssize r = 0"
  by (auto simp: nbuf_create_plain_def create_init_def Let_def split: bind_splits if_splits)

lemma create_ssize: "nbuf_create al w a n 0 p = Some (r, w') \<Longrightarrow> ssize r = 0"
  by (auto simp: nbuf_create_def builder_create_def builder_fill_def null_obj_def Let_def
      dest!: create_plain_ssize split: bind_splits if_splits option.splits)

lemma put_buf_same: "bufs w a = Some b \<Longrightarrow> put_buf w a b = w"
  by (cases w) (simp add: put_buf_def fun_upd_idem)

text \<open>
  The list created for the first boolean has an element size of 0 bits of scalar part, and
  \<^verbatim>\<open>nbuf_put_bit\<close> checks its offset against that size in bytes: the first boolean is not stored.
\<close>

lemma first_bool_is_dropped:
  assumes "ref_kind ref = Kind_BOOL" and "ref_tag1 ref = 0"
    and "ref_create al w ref schema = Some (ref1, w1)" and "bufs w1 (obj_buf (ref_o ref1)) = Some b"
  shows "nbuf_ref_put_bit w1 ref1 v = Some w1"
proof -
  have "ssize (ref_o ref1) = 0" "ref_kind ref1 = Kind_BOOL"
    using assms(1-3) by (auto simp: ref_create_def nbuf_get_size_of_def split: bind_splits dest!: create_ssize)
  then show ?thesis
    using assms(4) by (simp add: nbuf_ref_put_bit_def nbuf_put_bit_def put_buf_same Let_def)
qed

end
