(* ===== verification/Lexer.thy ===== *)
theory Lexer
  imports Buffer
begin

text \<open>
  The lexer of \<^verbatim>\<open>lib/token.c\<close>.  The stream \<^verbatim>\<open>fin\<close> is the list of the bytes still to be read;
  \<^verbatim>\<open>getc\<close> returns \<open>None\<close> for \<^verbatim>\<open>EOF\<close> and \<^verbatim>\<open>ungetc\<close> of it does nothing.  Token texts are collected
  in a growable buffer, so running out of memory is a branch of every scanner.  \<^verbatim>\<open>strtod\<close> is a
  parameter that returns the bits of a double.  The lemmas show that every call makes progress,
  and what numbers, names and strings are read as.
\<close>

section \<open>State\<close>

text \<open>The messages the lexer reports, in the order of the calls of \<^verbatim>\<open>error\<close>, each with its line.\<close>

datatype lex_error =
  Comment_not_closed | Malformed_number "byte list" byte | Out_of_memory
| Bad_escape | Newline_in_string | String_not_closed

text \<open>The union \<^verbatim>\<open>u\<close>; its members \<^verbatim>\<open>i\<close> and \<^verbatim>\<open>u\<close> are the same 64 bits.\<close>

datatype lex_value = U_none | U_int int64 | U_float uint64 | U_str nbuf_buffer

record nbuf_lexer =
  fin :: "byte list"
  lineno :: nat
  errors :: "(nat \<times> lex_error) list"
  lex_u :: lex_value

datatype nbuf_Token = Tok_UNK | Tok_ID | Tok_INT | Tok_FLT | Tok_STR | Tok_char byte | Tok_EOF

definition error :: "lex_error \<Rightarrow> nbuf_lexer \<Rightarrow> nbuf_lexer" where
  "error e l = l\<lparr>errors := errors l @ [(lineno l, e)]\<rparr>"

definition nbuf_lex_init :: "byte list \<Rightarrow> nbuf_lexer" where
  "nbuf_lex_init input = \<lparr>fin = input, lineno = 1, errors = [], lex_u = U_none\<rparr>"

definition getc :: "nbuf_lexer \<Rightarrow> byte option \<times> nbuf_lexer" where
  "getc l = (case fin l of [] \<Rightarrow> (None, l) | c # cs \<Rightarrow> (Some c, l\<lparr>fin := cs\<rparr>))"

definition ungetc :: "byte option \<Rightarrow> nbuf_lexer \<Rightarrow> nbuf_lexer" where
  "ungetc ch l = (case ch of None \<Rightarrow> l | Some c \<Rightarrow> l\<lparr>fin := c # fin l\<rparr>)"

section \<open>Characters\<close>

abbreviation "NEWLINE \<equiv> 10 :: byte"
abbreviation "QUOTE \<equiv> 34 :: byte"
abbreviation "HASH \<equiv> 35 :: byte"
abbreviation "STAR \<equiv> 42 :: byte"
abbreviation "PLUS \<equiv> 43 :: byte"
abbreviation "MINUS \<equiv> 45 :: byte"
abbreviation "DOT \<equiv> 46 :: byte"
abbreviation "SLASH \<equiv> 47 :: byte"
abbreviation "BACKSLASH \<equiv> 92 :: byte"
abbreviation "UNDERSCORE \<equiv> 95 :: byte"

text \<open>The classes of \<^verbatim>\<open>ctype.h\<close> in the C locale.\<close>

definition isspace :: "byte \<Rightarrow> bool" where
  "isspace c \<longleftrightarrow> c = 32 \<or> 9 \<le> c \<and> c \<le> 13"

definition isdigit :: "byte \<Rightarrow> bool" where
  "isdigit c \<longleftrightarrow> 48 \<le> c \<and> c \<le> 57"

definition isodigit :: "byte \<Rightarrow> bool" where
  "isodigit c \<longleftrightarrow> 48 \<le> c \<and> c \<le> 55"

definition isxdigit :: "byte \<Rightarrow> bool" where
  "isxdigit c \<longleftrightarrow> isdigit c \<or> 97 \<le> c \<and> c \<le> 102 \<or> 65 \<le> c \<and> c \<le> 70"

definition isalpha :: "byte \<Rightarrow> bool" where
  "isalpha c \<longleftrightarrow> 97 \<le> c \<and> c \<le> 122 \<or> 65 \<le> c \<and> c \<le> 90"

definition isalnum :: "byte \<Rightarrow> bool" where
  "isalnum c \<longleftrightarrow> isalpha c \<or> isdigit c"

text \<open>A class never holds of \<^verbatim>\<open>EOF\<close>.\<close>

abbreviation ch_is :: "(byte \<Rightarrow> bool) \<Rightarrow> byte option \<Rightarrow> bool" where
  "ch_is p ch \<equiv> (case ch of None \<Rightarrow> False | Some c \<Rightarrow> p c)"

section \<open>Skipping\<close>

fun skip_to_newline :: "byte list \<Rightarrow> byte list" where
  "skip_to_newline [] = []"
| "skip_to_newline (c # cs) = (if c = NEWLINE then c # cs else skip_to_newline cs)"

definition skipline :: "nbuf_lexer \<Rightarrow> nbuf_lexer" where
  "skipline l = l\<lparr>fin := skip_to_newline (fin l)\<rparr>"

text \<open>The loop of \<^verbatim>\<open>skiplong\<close>: \<open>None\<close> when the stream ends inside the comment.\<close>

fun skip_comment :: "byte list \<Rightarrow> byte list option" where
  "skip_comment [] = None"
| "skip_comment (c # cs) =
    (if c = STAR
     then (case cs of [] \<Rightarrow> None | d # ds \<Rightarrow> if d = SLASH then Some ds else skip_comment cs)
     else skip_comment cs)"

definition skiplong :: "nbuf_lexer \<Rightarrow> nbuf_lexer" where
  "skiplong l =
    (case skip_comment (fin l) of
       None \<Rightarrow> error Comment_not_closed (l\<lparr>fin := []\<rparr>)
     | Some cs \<Rightarrow> l\<lparr>fin := cs\<rparr>)"

fun skip_from :: "byte list \<Rightarrow> nat \<Rightarrow> byte option \<times> byte list \<times> nat" where
  "skip_from [] n = (None, [], n)"
| "skip_from (c # cs) n =
    (let n1 = (if c = NEWLINE then n + 1 else n)
     in if isspace c then skip_from cs n1 else (Some c, cs, n1))"

definition skipspaces :: "nbuf_lexer \<Rightarrow> byte option \<times> nbuf_lexer" where
  "skipspaces l = (let (ch, cs, n) = skip_from (fin l) (lineno l) in (ch, l\<lparr>fin := cs, lineno := n\<rparr>))"

section \<open>Collecting characters\<close>

definition addchr :: "allocator \<Rightarrow> nbuf_buffer \<Rightarrow> byte \<Rightarrow> (bool \<times> nbuf_buffer) option" where
  "addchr al buf ch =
    do { (ok, b) \<leftarrow> nbuf_reserve al buf 1;
         if \<not> ok then Some (False, b)
         else do { blk \<leftarrow> store (buf_base b) (unat (buf_len b)) [ch];
                   Some (True, b\<lparr>buf_base := blk, buf_len := buf_len b + 1\<rparr>) } }"

text \<open>
  A scanner goes on with its state, jumps to \<^verbatim>\<open>nomem\<close> with the lexer as it is, or crashes by an
  access outside a block.  The state: the lexer, the buffer and the current character \<^verbatim>\<open>ch\<close>.
\<close>

datatype 'a scanned = Crash | Nomem nbuf_lexer | Go 'a

type_synonym scan = "nbuf_lexer \<times> nbuf_buffer \<times> byte option"

definition and_then :: "'a scanned \<Rightarrow> ('a \<Rightarrow> 'b scanned) \<Rightarrow> 'b scanned" where
  "and_then r f = (case r of Crash \<Rightarrow> Crash | Nomem l \<Rightarrow> Nomem l | Go a \<Rightarrow> f a)"

lemma and_then_simps [simp]:
  "and_then Crash f = Crash" "and_then (Nomem l) f = Nomem l" "and_then (Go a) f = f a"
  by (simp_all add: and_then_def)

text \<open>\<^verbatim>\<open>EOF\<close> is stored as the byte 255.\<close>

definition NEXT :: "allocator \<Rightarrow> scan \<Rightarrow> scan scanned" where
  "NEXT al = (\<lambda>(l, buf, ch).
    (case addchr al buf (case ch of None \<Rightarrow> 255 | Some c \<Rightarrow> c) of
       None \<Rightarrow> Crash
     | Some (False, b) \<Rightarrow> Nomem l
     | Some (True, b) \<Rightarrow> let (ch1, l1) = getc l in Go (l1, b, ch1)))"

definition NEXT_if :: "allocator \<Rightarrow> bool \<Rightarrow> scan \<Rightarrow> scan scanned" where
  "NEXT_if al c st = (if c then NEXT al st else Go st)"

definition todo :: "nbuf_lexer \<Rightarrow> byte option \<Rightarrow> nat" where
  "todo l ch = length (fin l) + (case ch of None \<Rightarrow> 0 | Some c \<Rightarrow> 1)"

lemma getc_todo: "getc l = (ch, l1) \<Longrightarrow> todo l1 ch = length (fin l)"
  by (auto simp: getc_def todo_def split: list.splits)

lemma NEXT_todo: "NEXT al (l, buf, ch) = Go (l1, b1, ch1) \<Longrightarrow> todo l1 ch1 = length (fin l)"
  by (auto simp: NEXT_def getc_todo split: option.splits prod.splits bool.splits)

text \<open>\<^verbatim>\<open>while (p(ch)) NEXT;\<close>\<close>

function scan_while :: "allocator \<Rightarrow> (byte \<Rightarrow> bool) \<Rightarrow> scan \<Rightarrow> scan scanned" where
  "scan_while al p (l, buf, ch) =
    (if ch_is p ch
     then (case NEXT al (l, buf, ch) of
             Crash \<Rightarrow> Crash
           | Nomem l1 \<Rightarrow> Nomem l1
           | Go st1 \<Rightarrow> scan_while al p st1)
     else Go (l, buf, ch))"
  by pat_completeness auto

termination
proof (relation "measure (\<lambda>(al, p, l, buf, ch). todo l ch)")
  fix al :: allocator and p :: "byte \<Rightarrow> bool" and l buf ch st1
  assume "ch_is p ch" and "NEXT al (l, buf, ch) = Go st1"
  then show "((al, p, st1), al, p, l, buf, ch) \<in> measure (\<lambda>(al, p, l, buf, ch). todo l ch)"
    using NEXT_todo by (cases st1) (auto simp: todo_def split: option.splits)
qed simp

declare scan_while.simps [simp del]

section \<open>Numbers\<close>

fun digit_val :: "byte \<Rightarrow> nat" where
  "digit_val c =
    (if isdigit c then unat c - 48
     else if 97 \<le> c \<and> c \<le> 122 then unat c - 87
     else if 65 \<le> c \<and> c \<le> 90 then unat c - 55
     else 36)"

fun digits_val :: "nat \<Rightarrow> nat \<Rightarrow> byte list \<Rightarrow> nat" where
  "digits_val base acc [] = acc"
| "digits_val base acc (c # cs) =
    (if digit_val c < base then digits_val base (acc * base + digit_val c) cs else acc)"

text \<open>
  The digits \<^verbatim>\<open>strtoull\<close> and \<^verbatim>\<open>strtoll\<close> convert: with base 16 a leading \<^verbatim>\<open>0x\<close> is skipped.  Values
  out of range become the nearest representable one.
\<close>

definition magnitude :: "nat \<Rightarrow> byte list \<Rightarrow> nat" where
  "magnitude base s =
    (case s of
       z # x # ds \<Rightarrow> if base = 16 \<and> z = 48 \<and> (x = 120 \<or> x = 88) then digits_val base 0 ds
                     else digits_val base 0 s
     | _ \<Rightarrow> digits_val base 0 s)"

definition strtoull :: "byte list \<Rightarrow> nat \<Rightarrow> uint64" where
  "strtoull s base = of_nat (min (magnitude base s) (2 ^ 64 - 1))"

text \<open>\<^verbatim>\<open>strtoll\<close> of a text after its minus sign.\<close>

definition strtoll_neg :: "byte list \<Rightarrow> nat \<Rightarrow> int64" where
  "strtoll_neg s base = - of_nat (min (magnitude base s) (2 ^ 63))"

definition scan_int :: "allocator \<Rightarrow> scan \<Rightarrow> (nat \<times> scan) scanned" where
  "scan_int al = (\<lambda>(l, buf, ch).
    if ch = Some 48
    then and_then (NEXT al (l, buf, ch)) (\<lambda>(l1, b1, ch1).
           if ch1 = Some 120 \<or> ch1 = Some 88
           then and_then (NEXT al (l1, b1, ch1)) (\<lambda>st2.
                and_then (scan_while al isxdigit st2) (\<lambda>st3. Go (16, st3)))
           else if ch_is isodigit ch1
           then and_then (NEXT al (l1, b1, ch1)) (\<lambda>st2.
                and_then (scan_while al isodigit st2) (\<lambda>st3. Go (8, st3)))
           else Go (10, l1, b1, ch1))
    else and_then (NEXT al (l, buf, ch)) (\<lambda>st1.
         and_then (scan_while al isdigit st1) (\<lambda>st2. Go (10, st2))))"

definition scan_fraction :: "allocator \<Rightarrow> scan \<Rightarrow> (bool \<times> scan) scanned" where
  "scan_fraction al = (\<lambda>(l, buf, ch).
    if ch = Some DOT
    then and_then (NEXT al (l, buf, ch)) (\<lambda>st1.
         and_then (scan_while al isdigit st1) (\<lambda>st2. Go (True, st2)))
    else Go (False, l, buf, ch))"

definition scan_exponent :: "allocator \<Rightarrow> bool \<times> scan \<Rightarrow> (bool \<times> scan) scanned" where
  "scan_exponent al = (\<lambda>(flt, l, buf, ch).
    if ch = Some 101 \<or> ch = Some 69
    then and_then (NEXT al (l, buf, ch)) (\<lambda>(l1, b1, ch1).
         and_then (NEXT_if al (ch1 = Some PLUS \<or> ch1 = Some MINUS) (l1, b1, ch1)) (\<lambda>st2.
         and_then (scan_while al isdigit st2) (\<lambda>st3. Go (True, st3))))
    else Go (flt, l, buf, ch))"

text \<open>
  The conversion.  Without room for the NUL, \<^verbatim>\<open>strtoull\<close> and its like run past the block: a crash.
\<close>

definition convert_num ::
    "allocator \<Rightarrow> (byte list \<Rightarrow> uint64) \<Rightarrow> nat \<Rightarrow> bool \<Rightarrow> scan \<Rightarrow> (nbuf_Token \<times> nbuf_lexer) scanned" where
  "convert_num al strtod base flt = (\<lambda>(l, buf, ch).
    (case addchr al buf 0 of
       None \<Rightarrow> Crash
     | Some (False, b) \<Rightarrow> Crash
     | Some (True, b) \<Rightarrow>
        (let s = buf_data buf;
             (tok, v) = (if flt then (Tok_FLT, U_float (strtod s))
                         else if ch_is (\<lambda>c. c = MINUS) (case s of [] \<Rightarrow> None | c # _ \<Rightarrow> Some c)
                         then (Tok_INT, U_int (strtoll_neg (tl s) base))
                         else (Tok_INT, U_int (strtoull s base)));
             l1 = l\<lparr>lex_u := v\<rparr>;
             l2 = (case ch of
                     Some c \<Rightarrow> if isalnum c then error (Malformed_number s c) l1 else l1
                   | None \<Rightarrow> l1)
         in Go (tok, ungetc ch l2))))"

definition initial :: "allocator \<Rightarrow> nbuf_buffer" where
  "initial al = snd (nbuf_init_write al None 32)"

text \<open>The label \<^verbatim>\<open>nomem\<close>; \<open>None\<close> is a crash.\<close>

definition scan_result :: "(nbuf_Token \<times> nbuf_lexer) scanned \<Rightarrow> (nbuf_Token \<times> nbuf_lexer) option" where
  "scan_result r =
    (case r of Crash \<Rightarrow> None | Nomem l \<Rightarrow> Some (Tok_UNK, error Out_of_memory l) | Go x \<Rightarrow> Some x)"

definition scannum ::
    "allocator \<Rightarrow> (byte list \<Rightarrow> uint64) \<Rightarrow> nbuf_lexer \<Rightarrow> byte \<Rightarrow> (nbuf_Token \<times> nbuf_lexer) option" where
  "scannum al strtod l ch =
    scan_result
      (and_then (NEXT_if al (ch = MINUS) (l, initial al, Some ch)) (\<lambda>st1.
       and_then (scan_int al st1) (\<lambda>(base, st2).
       and_then (if base = 10
                 then and_then (scan_fraction al st2) (scan_exponent al)
                 else Go (False, st2)) (\<lambda>(flt, st3).
       convert_num al strtod base flt st3))))"

section \<open>Names\<close>

definition isident :: "byte \<Rightarrow> bool" where
  "isident c \<longleftrightarrow> isalnum c \<or> c = UNDERSCORE"

text \<open>The final \<^verbatim>\<open>addchr\<close>, its result dropped.\<close>

definition finish_text :: "allocator \<Rightarrow> nbuf_Token \<Rightarrow> scan \<Rightarrow> (nbuf_Token \<times> nbuf_lexer) scanned" where
  "finish_text al tok = (\<lambda>(l, buf, ch).
    (case addchr al buf 0 of
       None \<Rightarrow> Crash
     | Some (ok, b) \<Rightarrow> Go (tok, (ungetc ch l)\<lparr>lex_u := U_str b\<rparr>)))"

definition scanident :: "allocator \<Rightarrow> nbuf_lexer \<Rightarrow> byte \<Rightarrow> (nbuf_Token \<times> nbuf_lexer) option" where
  "scanident al l ch =
    scan_result
      (and_then (NEXT al (l, initial al, Some ch)) (\<lambda>st1.
       and_then (scan_while al isident st1) (finish_text al Tok_ID)))"

section \<open>Strings\<close>

text \<open>
  The digits of an escape: at most \<open>k\<close> of them, each taken as \<^verbatim>\<open>ch - '0'\<close>, also the letters of a
  hexadecimal one.  The result: the number of digits, the value, and the character after them.
\<close>

fun esc_digits ::
    "(byte \<Rightarrow> bool) \<Rightarrow> nat \<Rightarrow> nat \<Rightarrow> nat \<Rightarrow> nat \<Rightarrow> byte option \<Rightarrow> nbuf_lexer \<Rightarrow>
      nat \<times> nat \<times> byte option \<times> nbuf_lexer" where
  "esc_digits p base 0 n x ch l = (n, x, ch, l)"
| "esc_digits p base (Suc k) n x ch l =
    (case ch of
       None \<Rightarrow> (n, x, ch, l)
     | Some c \<Rightarrow>
        if p c
        then (let (ch1, l1) = getc l in esc_digits p base k (Suc n) (x * base + (unat c - 48)) ch1 l1)
        else (n, x, ch, l))"

definition simple_escapes :: "(byte \<times> byte) list" where
  "simple_escapes = [(97, 7), (98, 8), (102, 12), (110, 10), (114, 13), (116, 9), (118, 11),
    (92, 92), (39, 39), (34, 34)]"

text \<open>What follows a backslash: the character to store, after the error for a bad escape.\<close>

definition escape :: "nbuf_lexer \<Rightarrow> byte option \<times> nbuf_lexer" where
  "escape l =
    (let (ch, l1) = getc l
     in case (case ch of None \<Rightarrow> None | Some c \<Rightarrow> map_of simple_escapes c) of
          Some d \<Rightarrow> (Some d, l1)
        | None \<Rightarrow>
           (let (n, x, ch2, l2) =
                  (if ch = Some 120
                   then (let (ch1, l2) = getc l1 in esc_digits isxdigit 16 2 0 0 ch1 l2)
                   else esc_digits isodigit 8 3 0 0 ch l1);
                l3 = ungetc ch2 l2
            in if n = 0 then (ch2, error Bad_escape l3) else (Some (of_nat x), l3)))"

text \<open>The body of the loop before its \<^verbatim>\<open>NEXT\<close>.\<close>

definition str_char :: "byte \<Rightarrow> nbuf_lexer \<Rightarrow> byte option \<times> nbuf_lexer" where
  "str_char c l =
    (if c = BACKSLASH then escape l
     else if c = NEWLINE
     then (Some c, let l1 = error Newline_in_string l in l1\<lparr>lineno := lineno l1 + 1\<rparr>)
     else (Some c, l))"

lemma getc_fin: "getc l = (ch, l1) \<Longrightarrow> length (fin l1) \<le> length (fin l)"
  by (auto simp: getc_def split: list.splits)

lemma ungetc_fin: "length (fin (ungetc ch l)) = todo l ch"
  by (auto simp: ungetc_def todo_def split: option.splits)

lemma esc_digits_todo:
  "esc_digits p base k n x ch l = (n1, x1, ch1, l1) \<Longrightarrow> todo l1 ch1 \<le> todo l ch"
proof (induction p base k n x ch l rule: esc_digits.induct)
  case (2 p base k n x ch l)
  show ?case
  proof (cases "ch_is p ch")
    case True
    then obtain c where c: "ch = Some c" "p c" by (auto split: option.splits)
    obtain ch2 l2 where g: "getc l = (ch2, l2)" by (cases "getc l")
    have "todo l1 ch1 \<le> todo l2 ch2" using 2 c g by simp
    then show ?thesis using getc_todo [OF g] c(1) by (simp add: todo_def)
  next
    case False
    then show ?thesis using "2.prems" by (auto split: option.splits if_splits)
  qed
qed simp

lemma escape_fin: "escape l = (ch, l1) \<Longrightarrow> length (fin l1) \<le> length (fin l)"
proof -
  assume e: "escape l = (ch, l1)"
  obtain c0 l0 where g: "getc l = (c0, l0)" by (cases "getc l")
  obtain c2 l2 where g2: "getc l0 = (c2, l2)" by (cases "getc l0")
  obtain n x ch3 l3 where d: "(if c0 = Some 120 then esc_digits isxdigit 16 2 0 0 c2 l2
      else esc_digits isodigit 8 3 0 0 c0 l0) = (n, x, ch3, l3)"
    by (metis prod_cases4)
  have "todo l3 ch3 \<le> length (fin l)"
    using d esc_digits_todo getc_todo [OF g] getc_todo [OF g2] getc_fin [OF g]
    by (metis dual_order.trans)
  moreover have "fin l1 = fin l0 \<or> fin l1 = fin (ungetc ch3 l3)"
    using e g g2 d by (auto simp: escape_def Let_def error_def split: option.splits if_splits)
  ultimately show ?thesis using getc_fin [OF g] by (auto simp: ungetc_fin)
qed

lemma str_char_fin: "str_char c l = (ch, l1) \<Longrightarrow> length (fin l1) \<le> length (fin l)"
  by (auto simp: str_char_def escape_fin Let_def error_def split: if_splits)

function str_loop :: "allocator \<Rightarrow> byte \<Rightarrow> scan \<Rightarrow> scan scanned" where
  "str_loop al delim (l, buf, ch) =
    (case ch of
       None \<Rightarrow> Go (error String_not_closed l, buf, ch)
     | Some c \<Rightarrow>
        if c = delim then Go (l, buf, ch)
        else (let (ch1, l1) = str_char c l
              in case NEXT al (l1, buf, ch1) of
                   Crash \<Rightarrow> Crash
                 | Nomem l2 \<Rightarrow> Nomem l2
                 | Go st \<Rightarrow> str_loop al delim st))"
  by pat_completeness auto

termination
proof (relation "measure (\<lambda>(al, delim, l, buf, ch). todo l ch)")
  fix al :: allocator and delim c :: byte and l buf ch x ch1 l1 st
  assume "ch = Some c" and "x = str_char c l" and "(ch1, l1) = x"
    and n: "NEXT al (l1, buf, ch1) = Go st"
  then have "length (fin l1) \<le> length (fin l)" using str_char_fin [of c l ch1 l1] by simp
  then show "((al, delim, st), al, delim, l, buf, ch) \<in> measure (\<lambda>(al, delim, l, buf, ch). todo l ch)"
    using NEXT_todo n \<open>ch = Some c\<close> by (cases st) (auto simp: todo_def)
qed simp

declare str_loop.simps [simp del]

lemma str_loop_todo: "str_loop al delim (l, buf, ch) = Go (l1, b1, ch1) \<Longrightarrow> todo l1 ch1 \<le> todo l ch"
proof (induction al delim "(l, buf, ch)" arbitrary: l buf ch rule: str_loop.induct)
  case (1 al delim l buf ch)
  show ?case
  proof (cases ch)
    case None
    then show ?thesis using "1.prems" by (auto simp: str_loop.simps error_def todo_def)
  next
    case (Some c)
    obtain ch2 l2 where s: "str_char c l = (ch2, l2)" by (cases "str_char c l")
    show ?thesis
    proof (cases "c = delim")
      case True
      then show ?thesis using "1.prems" Some by (simp add: str_loop.simps)
    next
      case False
      then obtain l3 b3 ch3 where n: "NEXT al (l2, buf, ch2) = Go (l3, b3, ch3)"
        using "1.prems" Some s by (auto simp: str_loop.simps [of al delim l] split: scanned.splits)
      have "todo l1 ch1 \<le> todo l3 ch3"
        using "1.prems" Some s False n
        by (intro "1.hyps" [OF Some False s [symmetric] refl n])
          (auto simp: str_loop.simps [of al delim l])
      then show ?thesis using NEXT_todo [OF n] str_char_fin [OF s] Some by (simp add: todo_def)
    qed
  qed
qed

lemma skip_from_fin: "skip_from cs n = (ch, ds, m) \<Longrightarrow>
    length ds + (case ch of None \<Rightarrow> 0 | Some c \<Rightarrow> 1) \<le> length cs"
  by (induction cs n rule: skip_from.induct) (auto simp: Let_def split: if_splits)

lemma skipspaces_todo: "skipspaces l = (ch, l1) \<Longrightarrow> todo l1 ch \<le> length (fin l)"
  using skip_from_fin by (auto simp: skipspaces_def todo_def split: prod.splits)

text \<open>The literals from the label \<^verbatim>\<open>again\<close> on: those with nothing but space between are joined.\<close>

function str_pieces :: "allocator \<Rightarrow> byte \<Rightarrow> nbuf_lexer \<Rightarrow> nbuf_buffer \<Rightarrow> scan scanned" where
  "str_pieces al delim l buf =
    (let (ch, l1) = getc l
     in case str_loop al delim (l1, buf, ch) of
          Crash \<Rightarrow> Crash
        | Nomem l2 \<Rightarrow> Nomem l2
        | Go (l2, b2, ch2) \<Rightarrow>
            (let (ch3, l3) = skipspaces l2
             in if ch3 = Some delim then str_pieces al delim l3 b2 else Go (l3, b2, ch3)))"
  by pat_completeness auto

lemma str_pieces_step:
  assumes "getc l = (ch, l1)" and "str_loop al delim (l1, buf, ch) = Go (l2, b2, ch2)"
    and "skipspaces l2 = (ch3, l3)"
  shows "todo l3 ch3 \<le> length (fin l)"
  using getc_todo [OF assms(1)] str_loop_todo [OF assms(2)] skipspaces_todo [OF assms(3)]
  by (simp add: todo_def split: option.splits)

termination str_pieces
proof (relation "measure (\<lambda>(al, delim, l, buf). length (fin l))")
  fix al :: allocator and delim l buf x ch l1 p l2 q b2 ch2 y ch3 l3
  assume "x = getc l" "(ch, l1) = x" "str_loop al delim (l1, buf, ch) = Go p" "(l2, q) = p"
    "(b2, ch2) = q" "y = skipspaces l2" "(ch3, l3) = y" "ch3 = Some delim"
  then show "((al, delim, l3, b2), al, delim, l, buf) \<in> measure (\<lambda>(al, delim, l, buf). length (fin l))"
    using str_pieces_step [of l ch l1 al delim buf l2 b2 ch2 ch3 l3] by (simp add: todo_def)
qed simp

declare str_pieces.simps [simp del]

definition scanstr :: "allocator \<Rightarrow> nbuf_lexer \<Rightarrow> byte \<Rightarrow> (nbuf_Token \<times> nbuf_lexer) option" where
  "scanstr al l ch =
    scan_result (and_then (str_pieces al ch l (initial al)) (finish_text al Tok_STR))"

section \<open>Tokens\<close>

definition skip_slash :: "nbuf_lexer \<Rightarrow> nbuf_lexer" where
  "skip_slash l =
    (let (ch, l1) = getc l
     in if ch = Some STAR then skiplong l1 else if ch = Some SLASH then skipline l1 else l1)"

lemma skip_to_newline_length: "length (skip_to_newline cs) \<le> length cs"
  by (induction cs) auto

lemma skip_comment_tl:
  "skip_comment (c # cs) = Some ds \<Longrightarrow> (\<exists>d. cs = d # ds) \<or> skip_comment cs = Some ds"
  unfolding skip_comment.simps(2) by (auto split: if_splits list.split_asm simp del: skip_comment.simps)

lemma skip_comment_length: "skip_comment cs = Some ds \<Longrightarrow> length ds \<le> length cs"
proof (induction cs)
  case (Cons c cs)
  show ?case
    using skip_comment_tl [OF Cons.prems] Cons.IH by (auto simp del: skip_comment.simps)
qed simp

lemma skipline_fin: "length (fin (skipline l)) \<le> length (fin l)"
  by (simp add: skipline_def skip_to_newline_length)

lemma skip_slash_fin: "length (fin (skip_slash l)) \<le> length (fin l)"
proof -
  obtain ch l1 where g: "getc l = (ch, l1)" by (cases "getc l")
  have "length (fin (skiplong l1)) \<le> length (fin l1)"
    by (auto simp: skiplong_def error_def skip_comment_length split: option.splits)
  then show ?thesis
    using g getc_fin [OF g] skipline_fin [of l1] by (simp add: skip_slash_def)
qed

function nbuf_lex ::
    "allocator \<Rightarrow> (byte list \<Rightarrow> uint64) \<Rightarrow> nbuf_lexer \<Rightarrow> (nbuf_Token \<times> nbuf_lexer) option" where
  "nbuf_lex al strtod l =
    (let (ch, l1) = skipspaces l
     in case ch of
          None \<Rightarrow> Some (Tok_EOF, l1)
        | Some c \<Rightarrow>
           if c = SLASH then nbuf_lex al strtod (skip_slash l1)
           else if c = HASH then nbuf_lex al strtod (skipline l1)
           else if c = QUOTE then scanstr al l1 c
           else if c = MINUS
           then (let (ch1, l2) = getc l1; l3 = ungetc ch1 l2
                 in if ch_is isdigit ch1 then scannum al strtod l3 MINUS
                    else Some (case ch1 of None \<Rightarrow> Tok_EOF | Some d \<Rightarrow> Tok_char d, l3))
           else if isdigit c then scannum al strtod l1 c
           else if isalpha c \<or> c = UNDERSCORE then scanident al l1 c
           else Some (Tok_char c, l1))"
  by pat_completeness auto

termination
proof (relation "measure (\<lambda>(al, strtod, l). length (fin l))")
  fix al :: allocator and strtod :: "byte list \<Rightarrow> uint64" and l x ch l1 c
  assume "x = skipspaces l" "(ch, l1) = x" "ch = Some (c :: byte)"
  then have "length (fin l1) < length (fin l)" using skipspaces_todo [of l ch l1] by (simp add: todo_def)
  then show "((al, strtod, skip_slash l1), al, strtod, l) \<in> measure (\<lambda>(al, strtod, l). length (fin l))"
    "((al, strtod, skipline l1), al, strtod, l) \<in> measure (\<lambda>(al, strtod, l). length (fin l))"
    using skip_slash_fin [of l1] skipline_fin [of l1] by simp_all
qed simp

declare nbuf_lex.simps [simp del]

section \<open>Collecting with enough memory\<close>

definition all_granted :: "allocator \<Rightarrow> bool" where
  "all_granted al \<longleftrightarrow> (\<forall>n. grants al n)"

text \<open>\<open>grown b s b'\<close>: the buffer \<open>b'\<close> is \<open>b\<close> with the characters \<open>s\<close> added.\<close>

definition grown :: "nbuf_buffer \<Rightarrow> byte list \<Rightarrow> nbuf_buffer \<Rightarrow> bool" where
  "grown b s b' \<longleftrightarrow> buf_wwf b' \<and> buf_data b' = buf_data b @ s \<and>
    unat (buf_len b') = unat (buf_len b) + length s"

lemma grown_trans: "grown b s b1 \<Longrightarrow> grown b1 t b2 \<Longrightarrow> grown b (s @ t) b2"
  by (simp add: grown_def)

lemma grown_refl: "buf_wwf b \<Longrightarrow> grown b [] b"
  by (simp add: grown_def)

lemma grown_wwf: "grown b s b' \<Longrightarrow> buf_wwf b'"
  by (simp add: grown_def)

lemma addchr_ok:
  assumes "all_granted al" and "buf_wwf b" and "unat (buf_len b) + 1 < 2 ^ 62"
  obtains b' where "addchr al b c = Some (True, b')" and "grown b [c] b'"
proof -
  obtain b1 blk where s: "nbuf_reserve al b 1 = Some (True, b1)"
    "store (buf_base b1) (unat (buf_len b1)) [c] = Some blk"
    "buf_wwf (b1\<lparr>buf_base := blk, buf_len := buf_len b1 + 1\<rparr>)"
    "buf_data (b1\<lparr>buf_base := blk, buf_len := buf_len b1 + 1\<rparr>) = buf_data b @ [c]"
    "unat (buf_len b1 + 1) = unat (buf_len b) + 1"
    using load_file_step [OF assms(2,3), of al c] assms(1) unfolding all_granted_def by metis
  then show thesis using that [of "b1\<lparr>buf_base := blk, buf_len := buf_len b1 + 1\<rparr>"]
    by (simp add: addchr_def grown_def)
qed

text \<open>The state of a scanner before the characters \<open>cs\<close>.\<close>

definition scan_at :: "nbuf_lexer \<Rightarrow> nbuf_buffer \<Rightarrow> byte list \<Rightarrow> scan" where
  "scan_at l b cs = (let (ch, l1) = getc (l\<lparr>fin := cs\<rparr>) in (l1, b, ch))"

lemma scan_at_simps [simp]:
  "scan_at l b [] = (l\<lparr>fin := []\<rparr>, b, None)"
  "scan_at l b (c # cs) = (l\<lparr>fin := cs\<rparr>, b, Some c)"
  by (simp_all add: scan_at_def getc_def)

lemma scan_at_getc: "getc l = (ch, l1) \<Longrightarrow> (l1, b, ch) = scan_at l b (fin l)"
  by (simp add: scan_at_def)

lemma scan_at_fin [simp]: "scan_at (l\<lparr>fin := ds\<rparr>) b cs = scan_at l b cs"
  by (simp add: scan_at_def)

lemma scan_atE:
  obtains l1 ch where "scan_at l b cs = (l1, b, ch)" and "ungetc ch l1 = l\<lparr>fin := cs\<rparr>"
    and "l1\<lparr>fin := []\<rparr> = l\<lparr>fin := []\<rparr>" and "ch = (case cs of [] \<Rightarrow> None | c # _ \<Rightarrow> Some c)"
  by (cases cs) (simp_all add: ungetc_def)

lemma NEXT_ok:
  assumes "all_granted al" and "buf_wwf b" and "unat (buf_len b) + 1 < 2 ^ 62"
  obtains b' where "NEXT al (scan_at l b (c # cs)) = Go (scan_at l b' cs)" and "grown b [c] b'"
proof -
  obtain b' where "addchr al b c = Some (True, b')" "grown b [c] b'"
    by (rule addchr_ok [OF assms])
  moreover have "(let (ch1, l1) = getc (l\<lparr>fin := cs\<rparr>) in Go (l1, b', ch1)) = Go (scan_at l b' cs)"
    by (cases cs) (simp_all add: getc_def)
  ultimately show thesis using that [of b'] by (simp add: NEXT_def)
qed

lemma scan_while_step:
  "ch_is p ch \<Longrightarrow> NEXT al (l, b, ch) = Go st \<Longrightarrow> scan_while al p (l, b, ch) = scan_while al p st"
  by (simp add: scan_while.simps [of al p l b ch])

lemma scan_while_ok:
  assumes "all_granted al"
  shows "buf_wwf b \<Longrightarrow> unat (buf_len b) + length cs < 2 ^ 62 \<Longrightarrow>
    \<exists>b'. scan_while al p (scan_at l b cs) = Go (scan_at l b' (dropWhile p cs)) \<and>
      grown b (takeWhile p cs) b'"
proof (induction cs arbitrary: b)
  case Nil
  then show ?case by (simp add: scan_while.simps grown_refl)
next
  case (Cons c cs)
  show ?case
  proof (cases "p c")
    case False
    then show ?thesis using Cons.prems by (simp add: scan_while.simps grown_refl)
  next
    case True
    obtain b1 where b1: "NEXT al (scan_at l b (c # cs)) = Go (scan_at l b1 cs)" "grown b [c] b1"
      using NEXT_ok [OF assms Cons.prems(1)] Cons.prems(2) by (metis add.commute add_lessD1 length_Cons plus_1_eq_Suc add.left_commute)
    have "buf_wwf b1" "unat (buf_len b1) + length cs < 2 ^ 62"
      using b1(2) Cons.prems(2) by (simp_all add: grown_def)
    then obtain b2 where b2: "scan_while al p (scan_at l b1 cs) = Go (scan_at l b2 (dropWhile p cs))"
      "grown b1 (takeWhile p cs) b2" using Cons.IH by blast
    have "scan_while al p (scan_at l b (c # cs)) = scan_while al p (scan_at l b1 cs)"
      using b1(1) True by (simp add: scan_while_step)
    then show ?thesis using b2 grown_trans [OF b1(2) b2(2)] True by auto
  qed
qed

lemma initial_ok: "all_granted al \<Longrightarrow> buf_wwf (initial al)"
  and initial_len: "buf_len (initial al) = 0"
  by (simp_all add: initial_def nbuf_init_write_def malloc_block_def all_granted_def buf_wwf_def)

lemma initial_data [simp]: "buf_data (initial al) = []"
  by (simp add: buf_data_def initial_len)

section \<open>What names and numbers are read as\<close>

lemma scan_steps:
  assumes "all_granted al" and "grown b0 s b" and "unat (buf_len b0) + length s + length cs < 2 ^ 61"
  shows "cs = c # ds \<Longrightarrow> \<exists>b'. NEXT al (scan_at l b cs) = Go (scan_at l b' ds) \<and> grown b0 (s @ [c]) b'"
    and "\<exists>b'. scan_while al p (scan_at l b cs) = Go (scan_at l b' (dropWhile p cs)) \<and>
      grown b0 (s @ takeWhile p cs) b'"
proof -
  have w: "buf_wwf b" "unat (buf_len b) = unat (buf_len b0) + length s"
    using assms(2) by (simp_all add: grown_def)
  have l: "unat (buf_len b) + length cs < 2 ^ 62" using w(2) assms(3) by simp
  show "\<exists>b'. NEXT al (scan_at l b cs) = Go (scan_at l b' ds) \<and> grown b0 (s @ [c]) b'" if "cs = c # ds"
  proof -
    have "unat (buf_len b) + 1 < 2 ^ 62" using l that by simp
    then obtain b' where "NEXT al (scan_at l b (c # ds)) = Go (scan_at l b' ds)" "grown b [c] b'"
      using NEXT_ok [OF assms(1) w(1)] by blast
    then show ?thesis using grown_trans [OF assms(2)] that by blast
  qed
  show "\<exists>b'. scan_while al p (scan_at l b cs) = Go (scan_at l b' (dropWhile p cs)) \<and>
      grown b0 (s @ takeWhile p cs) b'"
    using scan_while_ok [OF assms(1) w(1) l, of p l] grown_trans [OF assms(2)] by blast
qed

lemma finish_ok:
  assumes "all_granted al" and "grown (initial al) s b" and "length s < 2 ^ 61"
  obtains b' where "addchr al b 0 = Some (True, b')" and "grown (initial al) (s @ [0]) b'"
    and "buf_data b = s" and "buf_data b' = s @ [0]" and "buf_wwf b'"
proof -
  have w: "buf_wwf b" "unat (buf_len b) + 1 < 2 ^ 62" "buf_data b = s"
    using assms(2,3) by (simp_all add: grown_def initial_len)
  obtain b' where "addchr al b 0 = Some (True, b')" "grown b [0] b'"
    by (rule addchr_ok [OF assms(1) w(1,2)])
  note g = grown_trans [OF assms(2) this(2)]
  show thesis
    by (rule that [OF \<open>addchr al b 0 = Some (True, b')\<close> g w(3)]) (use g in \<open>simp_all add: grown_def\<close>)
qed

lemma scanident_ok:
  assumes "all_granted al" and "length (fin l) < 2 ^ 60"
  shows "\<exists>b. scanident al l c = Some (Tok_ID, l\<lparr>fin := dropWhile isident (fin l), lex_u := U_str b\<rparr>) \<and>
    buf_data b = c # takeWhile isident (fin l) @ [0] \<and> buf_wwf b"
proof -
  let ?i = "initial al" and ?s = "c # takeWhile isident (fin l)"
  have g0: "grown ?i [] ?i" by (simp add: grown_refl initial_ok assms(1))
  have "unat (buf_len ?i) + length [] + length (c # fin l) < 2 ^ 61"
    using assms(2) by (simp add: initial_len)
  from scan_steps(1) [OF assms(1) g0 this refl, of l] obtain b1 where
    b1: "NEXT al (l, ?i, Some c) = Go (scan_at l b1 (fin l))" "grown ?i [c] b1"
    by auto
  have "unat (buf_len ?i) + length [c] + length (fin l) < 2 ^ 61"
    using assms(2) by (simp add: initial_len)
  from scan_steps(2) [OF assms(1) b1(2) this, of isident l] obtain b2 where
    b2: "scan_while al isident (scan_at l b1 (fin l)) = Go (scan_at l b2 (dropWhile isident (fin l)))"
    "grown ?i ?s b2" by auto
  have "length ?s < 2 ^ 61"
    using assms(2) length_takeWhile_le [of isident "fin l"] by (simp del: length_takeWhile_le)
  then obtain b3 where b3: "addchr al b2 0 = Some (True, b3)" "buf_data b3 = ?s @ [0]" "buf_wwf b3"
    by (rule finish_ok [OF assms(1) b2(2)])
  obtain l1 ch where st: "scan_at l b2 (dropWhile isident (fin l)) = (l1, b2, ch)"
    "ungetc ch l1 = l\<lparr>fin := dropWhile isident (fin l)\<rparr>"
    by (rule scan_atE)
  show ?thesis
    using b1(1) b2(1) b3 st
    by (intro exI [of _ b3]) (simp add: scanident_def scan_result_def finish_text_def)
qed

text \<open>
  How the characters from the first digit on split into the text of a number and the rest.
\<close>

definition int_split :: "byte list \<Rightarrow> nat \<times> byte list \<times> byte list" where
  "int_split cs =
    (case cs of
       c # ds \<Rightarrow>
        if c = 48
        then (case ds of
                x # es \<Rightarrow>
                  if x = 120 \<or> x = 88 then (16, c # x # takeWhile isxdigit es, dropWhile isxdigit es)
                  else if isodigit x then (8, c # takeWhile isodigit ds, dropWhile isodigit ds)
                  else (10, [c], ds)
              | [] \<Rightarrow> (10, [c], []))
        else (10, c # takeWhile isdigit ds, dropWhile isdigit ds)
     | [] \<Rightarrow> (10, [], []))"

definition fraction_split :: "byte list \<Rightarrow> bool \<times> byte list \<times> byte list" where
  "fraction_split cs =
    (case cs of
       c # ds \<Rightarrow> if c = DOT then (True, c # takeWhile isdigit ds, dropWhile isdigit ds) else (False, [], cs)
     | [] \<Rightarrow> (False, [], []))"

definition exponent_split :: "byte list \<Rightarrow> bool \<times> byte list \<times> byte list" where
  "exponent_split cs =
    (case cs of
       c # ds \<Rightarrow>
        if c = 101 \<or> c = 69
        then (case ds of
                x # es \<Rightarrow>
                  if x = PLUS \<or> x = MINUS then (True, c # x # takeWhile isdigit es, dropWhile isdigit es)
                  else (True, c # takeWhile isdigit ds, dropWhile isdigit ds)
              | [] \<Rightarrow> (True, [c], []))
        else (False, [], cs)
     | [] \<Rightarrow> (False, [], []))"

lemma int_split_append: "int_split cs = (base, t, rest) \<Longrightarrow> t @ rest = cs"
  by (auto simp: int_split_def split: list.splits if_splits)

lemma fraction_split_append: "fraction_split cs = (f, t, rest) \<Longrightarrow> t @ rest = cs"
  by (auto simp: fraction_split_def split: list.splits if_splits)

lemma exponent_split_append: "exponent_split cs = (f, t, rest) \<Longrightarrow> t @ rest = cs"
  by (auto simp: exponent_split_def split: list.splits if_splits)

lemma scan_int_ok:
  assumes al: "all_granted al" and g: "grown b0 s b" and cs: "cs \<noteq> []"
    and len: "unat (buf_len b0) + length s + length cs < 2 ^ 61"
    and sp: "int_split cs = (base, t, rest)"
  shows "\<exists>b'. scan_int al (scan_at l b cs) = Go (base, scan_at l b' rest) \<and> grown b0 (s @ t) b'"
proof -
  obtain c ds where c: "cs = c # ds" using cs by (cases cs) auto
  obtain b1 where b1: "NEXT al (scan_at l b cs) = Go (scan_at l b1 ds)" "grown b0 (s @ [c]) b1"
    using scan_steps(1) [OF al g len c, of l] by blast
  have len1: "unat (buf_len b0) + length (s @ [c]) + length ds < 2 ^ 61" using len c by simp
  note w1 = scan_steps(2) [OF al b1(2) len1, of _ l]
  show ?thesis
  proof (cases "c = 48")
    case False
    obtain b2 where "scan_while al isdigit (scan_at l b1 ds) = Go (scan_at l b2 (dropWhile isdigit ds))"
      "grown b0 ((s @ [c]) @ takeWhile isdigit ds) b2" using w1 by blast
    then show ?thesis using False b1(1) sp c by (auto simp: scan_int_def int_split_def)
  next
    case True
    show ?thesis
    proof (cases ds)
      case Nil
      then show ?thesis using True b1 sp c by (auto simp: scan_int_def int_split_def)
    next
      case d: (Cons x es)
      obtain b2 where b2: "NEXT al (scan_at l b1 ds) = Go (scan_at l b2 es)" "grown b0 ((s @ [c]) @ [x]) b2"
        using scan_steps(1) [OF al b1(2) len1 d, of l] by blast
      have "unat (buf_len b0) + length ((s @ [c]) @ [x]) + length es < 2 ^ 61" using len1 d by simp
      note w2 = scan_steps(2) [OF al b2(2) this, of _ l]
      consider "x = 120 \<or> x = 88" | "\<not> (x = 120 \<or> x = 88)" "isodigit x" | "\<not> (x = 120 \<or> x = 88)" "\<not> isodigit x"
        by blast
      then show ?thesis
      proof cases
        case 1
        obtain b3 where "scan_while al isxdigit (scan_at l b2 es) = Go (scan_at l b3 (dropWhile isxdigit es))"
          "grown b0 (((s @ [c]) @ [x]) @ takeWhile isxdigit es) b3" using w2 by blast
        then show ?thesis using 1 True b1(1) b2(1) sp c d by (auto simp: scan_int_def int_split_def)
      next
        case 2
        obtain b3 where "scan_while al isodigit (scan_at l b2 es) = Go (scan_at l b3 (dropWhile isodigit es))"
          "grown b0 (((s @ [c]) @ [x]) @ takeWhile isodigit es) b3" using w2 by blast
        then show ?thesis using 2 True b1(1) b2(1) sp c d by (auto simp: scan_int_def int_split_def)
      next
        case 3
        then show ?thesis using True b1 sp c d by (auto simp: scan_int_def int_split_def)
      qed
    qed
  qed
qed

lemma scan_fraction_ok:
  assumes al: "all_granted al" and g: "grown b0 s b"
    and len: "unat (buf_len b0) + length s + length cs < 2 ^ 61"
    and sp: "fraction_split cs = (f, t, rest)"
  shows "\<exists>b'. scan_fraction al (scan_at l b cs) = Go (f, scan_at l b' rest) \<and> grown b0 (s @ t) b'"
proof (cases "\<exists>ds. cs = DOT # ds")
  case False
  then show ?thesis
    using sp g by (auto simp: scan_fraction_def fraction_split_def split: list.splits if_splits)
next
  case True
  then obtain ds where c: "cs = DOT # ds" by blast
  obtain b1 where b1: "NEXT al (scan_at l b cs) = Go (scan_at l b1 ds)" "grown b0 (s @ [DOT]) b1"
    using scan_steps(1) [OF al g len c, of l] by blast
  have "unat (buf_len b0) + length (s @ [DOT]) + length ds < 2 ^ 61" using len c by simp
  then obtain b2 where "scan_while al isdigit (scan_at l b1 ds) = Go (scan_at l b2 (dropWhile isdigit ds))"
    "grown b0 ((s @ [DOT]) @ takeWhile isdigit ds) b2"
    using scan_steps(2) [OF al b1(2), of ds isdigit l] by blast
  then show ?thesis using b1(1) sp c by (auto simp: scan_fraction_def fraction_split_def)
qed

lemma scan_exponent_ok:
  assumes al: "all_granted al" and g: "grown b0 s b"
    and len: "unat (buf_len b0) + length s + length cs < 2 ^ 61"
    and sp: "exponent_split cs = (f, t, rest)"
  shows "\<exists>b'. scan_exponent al (f0, scan_at l b cs) = Go (f0 \<or> f, scan_at l b' rest) \<and> grown b0 (s @ t) b'"
proof (cases "\<exists>c ds. cs = c # ds \<and> (c = 101 \<or> c = 69)")
  case False
  then show ?thesis
    using sp g by (auto simp: scan_exponent_def exponent_split_def split: list.splits if_splits)
next
  case True
  then obtain c ds where c: "cs = c # ds" "c = 101 \<or> c = 69" by blast
  obtain b1 where b1: "NEXT al (scan_at l b cs) = Go (scan_at l b1 ds)" "grown b0 (s @ [c]) b1"
    using scan_steps(1) [OF al g len c(1), of l] by blast
  have len1: "unat (buf_len b0) + length (s @ [c]) + length ds < 2 ^ 61" using len c by simp
  show ?thesis
  proof (cases "\<exists>x es. ds = x # es \<and> (x = PLUS \<or> x = MINUS)")
    case False
    obtain b2 where "scan_while al isdigit (scan_at l b1 ds) = Go (scan_at l b2 (dropWhile isdigit ds))"
      "grown b0 ((s @ [c]) @ takeWhile isdigit ds) b2"
      using scan_steps(2) [OF al b1(2) len1, of isdigit l] by blast
    then show ?thesis using False b1(1) sp c
      by (cases ds) (auto simp: scan_exponent_def exponent_split_def NEXT_if_def)
  next
    case True
    then obtain x es where d: "ds = x # es" "x = PLUS \<or> x = MINUS" by blast
    obtain b2 where b2: "NEXT al (scan_at l b1 ds) = Go (scan_at l b2 es)" "grown b0 ((s @ [c]) @ [x]) b2"
      using scan_steps(1) [OF al b1(2) len1 d(1), of l] by blast
    have "unat (buf_len b0) + length ((s @ [c]) @ [x]) + length es < 2 ^ 61" using len1 d by simp
    then obtain b3 where "scan_while al isdigit (scan_at l b2 es) = Go (scan_at l b3 (dropWhile isdigit es))"
      "grown b0 (((s @ [c]) @ [x]) @ takeWhile isdigit es) b3"
      using scan_steps(2) [OF al b2(2), of es isdigit l] by blast
    then show ?thesis using b1(1) b2(1) sp c d
      by (auto simp: scan_exponent_def exponent_split_def NEXT_if_def)
  qed
qed

text \<open>The number that starts with the character \<open>c\<close>, a digit or a minus sign: base, whether it is
  a floating-point number, its text, and what follows.\<close>

definition num_split :: "byte \<Rightarrow> byte list \<Rightarrow> nat \<times> bool \<times> byte list \<times> byte list" where
  "num_split c cs =
    (let (neg, cs0) = (if c = MINUS then ([MINUS], cs) else ([], c # cs));
         (base, t1, r1) = int_split cs0
     in if base = 10
        then (let (f1, t2, r2) = fraction_split r1; (f2, t3, r3) = exponent_split r2
              in (10, f1 \<or> f2, neg @ t1 @ t2 @ t3, r3))
        else (base, False, neg @ t1, r1))"

definition num_result ::
    "(byte list \<Rightarrow> uint64) \<Rightarrow> nbuf_lexer \<Rightarrow> nat \<times> bool \<times> byte list \<times> byte list \<Rightarrow> nbuf_Token \<times> nbuf_lexer" where
  "num_result strtod l = (\<lambda>(base, flt, s, rest).
    (if flt then Tok_FLT else Tok_INT,
     let l1 = l\<lparr>lex_u := (if flt then U_float (strtod s)
                         else if take 1 s = [MINUS] then U_int (strtoll_neg (tl s) base)
                         else U_int (strtoull s base))\<rparr>;
         l2 = (case rest of c # _ \<Rightarrow> if isalnum c then error (Malformed_number s c) l1 else l1 | [] \<Rightarrow> l1)
     in l2\<lparr>fin := rest\<rparr>))"

lemma num_split_append: "num_split c cs = (base, flt, s, rest) \<Longrightarrow> s @ rest = c # cs"
  by (auto simp: num_split_def Let_def split: if_splits prod.splits
      dest!: int_split_append fraction_split_append exponent_split_append)

lemma error_fin: "(error e l)\<lparr>fin := cs\<rparr> = error e (l\<lparr>fin := cs\<rparr>)"
  by (simp add: error_def)

lemma convert_num_ok:
  assumes al: "all_granted al" and g: "grown (initial al) s b" and len: "length s < 2 ^ 61"
  shows "convert_num al strtod base flt (scan_at l b rest) = Go (num_result strtod l (base, flt, s, rest))"
proof -
  obtain b' where b': "addchr al b 0 = Some (True, b')" "buf_data b = s"
    by (rule finish_ok [OF al g len])
  show ?thesis
  proof (cases rest)
    case Nil
    then show ?thesis
      using b' by (cases s) (simp_all add: convert_num_def num_result_def ungetc_def Let_def)
  next
    case (Cons c cs)
    then show ?thesis
      using b' by (cases s) (simp_all add: convert_num_def num_result_def ungetc_def error_def Let_def)
  qed
qed

lemma scannum_ok:
  assumes al: "all_granted al" and len: "length (fin l) < 2 ^ 60" and ne: "c = MINUS \<Longrightarrow> fin l \<noteq> []"
  shows "scannum al strtod l c = Some (num_result strtod l (num_split c (fin l)))"
proof -
  let ?i = "initial al"
  define cs0 neg where "cs0 = (if c = MINUS then fin l else c # fin l)"
    and "neg = (if c = MINUS then [MINUS] else [])"
  have cs0: "cs0 \<noteq> []" "neg @ cs0 = c # fin l" using ne by (auto simp: cs0_def neg_def)
  have len0: "unat (buf_len ?i) + length (neg @ cs0) < 2 ^ 61" using len cs0(2) by (simp add: initial_len)
  have g0: "grown ?i [] ?i" by (simp add: grown_refl initial_ok al)
  obtain b1 where b1: "NEXT_if al (c = MINUS) (l, ?i, Some c) = Go (scan_at l b1 cs0)" "grown ?i neg b1"
  proof (cases "c = MINUS")
    case True
    have "unat (buf_len ?i) + length ([] :: byte list) + length (c # fin l) < 2 ^ 61"
      using len by (simp add: initial_len)
    from scan_steps(1) [OF al g0 this refl, of l] show thesis
      using that True by (auto simp: NEXT_if_def cs0_def neg_def)
  next
    case False
    then show thesis using that [of ?i] g0 by (simp add: NEXT_if_def cs0_def neg_def)
  qed
  obtain base t1 r1 where s1: "int_split cs0 = (base, t1, r1)" by (metis prod_cases3)
  have a1: "t1 @ r1 = cs0" by (rule int_split_append [OF s1])
  obtain b2 where b2: "scan_int al (scan_at l b1 cs0) = Go (base, scan_at l b2 r1)" "grown ?i (neg @ t1) b2"
    using scan_int_ok [OF al b1(2) cs0(1) _ s1, of l] len0 by auto
  have sp: "(if c = MINUS then ([MINUS], fin l) else ([], c # fin l)) = (neg, cs0)"
    by (simp add: cs0_def neg_def)
  show ?thesis
  proof (cases "base = 10")
    case False
    have "length (neg @ t1) < 2 ^ 61" using len0 a1 by auto
    then have "convert_num al strtod base False (scan_at l b2 r1) = Go (num_result strtod l (base, False, neg @ t1, r1))"
      by (rule convert_num_ok [OF al b2(2)])
    moreover have "num_split c (fin l) = (base, False, neg @ t1, r1)"
      using s1 sp False by (simp add: num_split_def)
    ultimately show ?thesis using b1(1) b2(1) False by (simp add: scannum_def scan_result_def)
  next
    case True
    obtain f1 t2 r2 where s2: "fraction_split r1 = (f1, t2, r2)" by (metis prod_cases3)
    obtain f2 t3 r3 where s3: "exponent_split r2 = (f2, t3, r3)" by (metis prod_cases3)
    have a2: "t2 @ r2 = r1" by (rule fraction_split_append [OF s2])
    have a3: "t3 @ r3 = r2" by (rule exponent_split_append [OF s3])
    have "unat (buf_len ?i) + length (neg @ t1) + length r1 < 2 ^ 61" using len0 a1 by auto
    then obtain b3 where b3: "scan_fraction al (scan_at l b2 r1) = Go (f1, scan_at l b3 r2)"
      "grown ?i ((neg @ t1) @ t2) b3"
      using scan_fraction_ok [OF al b2(2) _ s2] by blast
    have "unat (buf_len ?i) + length ((neg @ t1) @ t2) + length r2 < 2 ^ 61" using len0 a1 a2 by auto
    then obtain b4 where b4: "scan_exponent al (f1, scan_at l b3 r2) = Go (f1 \<or> f2, scan_at l b4 r3)"
      "grown ?i (((neg @ t1) @ t2) @ t3) b4"
      using scan_exponent_ok [OF al b3(2) _ s3] by blast
    have "length (((neg @ t1) @ t2) @ t3) < 2 ^ 61" using len0 a1 a2 a3 by auto
    then have "convert_num al strtod base (f1 \<or> f2) (scan_at l b4 r3)
        = Go (num_result strtod l (base, f1 \<or> f2, neg @ t1 @ t2 @ t3, r3))"
      using convert_num_ok [OF al b4(2)] by simp
    moreover have "num_split c (fin l) = (base, f1 \<or> f2, neg @ t1 @ t2 @ t3, r3)"
      using s1 s2 s3 sp True by (simp add: num_split_def)
    ultimately show ?thesis using b1(1) b2(1) b3(1) b4(1) True by (simp add: scannum_def scan_result_def)
  qed
qed

section \<open>What strings are read as\<close>

text \<open>The string read from the characters after a quote, and the lexer after it.\<close>

function str_spec :: "byte \<Rightarrow> nbuf_lexer \<Rightarrow> byte list \<times> nbuf_lexer" where
  "str_spec delim l =
    (let (ch, l1) = getc l
     in case ch of
          None \<Rightarrow> ([], error String_not_closed l1)
        | Some c \<Rightarrow>
           if c = delim then ([], l1)
           else (let (ch1, l2) = str_char c l1
                 in case ch1 of
                      None \<Rightarrow> ([255], error String_not_closed l2)
                    | Some d \<Rightarrow> (let (s, l3) = str_spec delim l2 in (d # s, l3))))"
  by pat_completeness auto

termination
proof (relation "measure (\<lambda>(delim, l). length (fin l))")
  fix delim l x ch l1 c y ch1 l2 d
  assume "x = getc l" "(ch, l1) = x" "ch = Some c" "y = str_char c l1" "(ch1, l2) = y"
  then show "((delim, l2), delim, l) \<in> measure (\<lambda>(delim :: byte, l). length (fin l))"
    using getc_todo [of l ch l1] str_char_fin [of c l1 ch1 l2] by (simp add: todo_def)
qed simp

declare str_spec.simps [simp del]

lemma escape_None_fin: "escape l = (None, l1) \<Longrightarrow> fin l1 = []"
proof -
  assume e: "escape l = (None, l1)"
  obtain c0 l0 where g: "getc l = (c0, l0)" by (cases "getc l")
  obtain c2 l2 where g2: "getc l0 = (c2, l2)" by (cases "getc l0")
  show ?thesis
    using e g g2
    by (auto simp: escape_def Let_def error_def ungetc_def getc_def numeral_2_eq_2 numeral_3_eq_3
        split: option.splits if_splits list.splits prod.splits)
qed

lemma str_char_None: "str_char c l = (None, l1) \<Longrightarrow> fin l1 = []"
  by (auto simp: str_char_def escape_None_fin Let_def split: if_splits)

lemma NEXT_getc:
  assumes al: "all_granted al" and g: "grown b0 s b" and len: "unat (buf_len b0) + length s + 1 < 2 ^ 62"
    and gc: "getc l = (ch1, l1)"
  obtains b' where "NEXT al (l, b, ch) = Go (l1, b', ch1)"
    and "grown b0 (s @ [case ch of None \<Rightarrow> 255 | Some c \<Rightarrow> c]) b'"
proof -
  have "buf_wwf b" "unat (buf_len b) + 1 < 2 ^ 62" using g len by (simp_all add: grown_def)
  then obtain b' where "addchr al b (case ch of None \<Rightarrow> 255 | Some c \<Rightarrow> c) = Some (True, b')"
    "grown b [case ch of None \<Rightarrow> 255 | Some c \<Rightarrow> c] b'"
    by (rule addchr_ok [OF al])
  then show thesis using that [of b'] grown_trans [OF g] gc by (simp add: NEXT_def)
qed

lemma str_loop_ok:
  assumes al: "all_granted al"
  shows "grown b0 s b \<Longrightarrow> unat (buf_len b0) + length s + length (fin l) + 2 < 2 ^ 61 \<Longrightarrow>
    getc l = (ch, l1) \<Longrightarrow> str_spec delim l = (t, l') \<Longrightarrow>
    (\<exists>b' ch'. str_loop al delim (l1, b, ch) = Go (l', b', ch') \<and> grown b0 (s @ t) b') \<and>
    length t + length (fin l') \<le> length (fin l) + 1"
proof (induction delim l arbitrary: s b ch l1 t l' rule: str_spec.induct)
  case (1 delim l)
  note g = "1.prems"(1) and len = "1.prems"(2) and gc = "1.prems"(3) and sp = "1.prems"(4)
  show ?case
  proof (cases ch)
    case None
    then have "t = []" "l' = error String_not_closed l1"
      using sp gc by (simp_all add: str_spec.simps [of delim l])
    then show ?thesis using None g gc getc_fin [OF gc]
      by (simp add: str_loop.simps [of al delim l1] error_def)
  next
    case (Some c)
    show ?thesis
    proof (cases "c = delim")
      case True
      then have "t = []" "l' = l1" using sp gc Some by (simp_all add: str_spec.simps [of delim l])
      then show ?thesis using Some True g getc_fin [OF gc] by (simp add: str_loop.simps [of al delim l1])
    next
      case False
      have fl: "Suc (length (fin l1)) = length (fin l)" using getc_todo [OF gc] Some by (simp add: todo_def)
      obtain ch1 l2 where sc: "str_char c l1 = (ch1, l2)" by (cases "str_char c l1")
      have f2: "length (fin l2) \<le> length (fin l1)" by (rule str_char_fin [OF sc])
      obtain ch3 l3 where g3: "getc l2 = (ch3, l3)" by (cases "getc l2")
      have "unat (buf_len b0) + length s + 1 < 2 ^ 62" using len by simp
      then obtain b1 where b1: "NEXT al (l2, b, ch1) = Go (l3, b1, ch3)"
        "grown b0 (s @ [case ch1 of None \<Rightarrow> 255 | Some c \<Rightarrow> c]) b1"
        using NEXT_getc [OF al g _ g3] by blast
      have step: "str_loop al delim (l1, b, ch) = str_loop al delim (l3, b1, ch3)"
        using Some False sc b1(1) by (simp add: str_loop.simps [of al delim l1])
      show ?thesis
      proof (cases ch1)
        case None
        then have "fin l2 = []" using sc str_char_None by simp
        then have e: "ch3 = None" "l3 = l2" using g3 by (simp_all add: getc_def)
        have "t = [255]" "l' = error String_not_closed l2"
          using sp gc Some False sc None by (simp_all add: str_spec.simps [of delim l])
        then show ?thesis using step e b1(2) None fl \<open>fin l2 = []\<close>
          by (simp add: str_loop.simps [of al delim l2] error_def)
      next
        case d: (Some d)
        obtain t2 l4 where s2: "str_spec delim l2 = (t2, l4)" by (cases "str_spec delim l2")
        have t: "t = d # t2" "l' = l4"
          using sp gc Some False sc d s2 by (simp_all add: str_spec.simps [of delim l])
        have "(\<exists>b' ch'. str_loop al delim (l3, b1, ch3) = Go (l4, b', ch') \<and> grown b0 ((s @ [d]) @ t2) b') \<and>
            length t2 + length (fin l4) \<le> length (fin l2) + 1"
          using gc Some False sc d b1(2) len fl f2
          by (intro "1.IH" [OF gc [symmetric] refl Some False sc [symmetric] refl d _ _ g3 s2]) simp_all
        then show ?thesis using step t fl f2 by auto
      qed
    qed
  qed
qed

text \<open>Adjacent literals are joined.\<close>

function pieces_spec :: "byte \<Rightarrow> nbuf_lexer \<Rightarrow> byte list \<times> nbuf_lexer" where
  "pieces_spec delim l =
    (let (s, l1) = str_spec delim l; (ch, l2) = skipspaces l1
     in if ch = Some delim then (let (t, l3) = pieces_spec delim l2 in (s @ t, l3))
        else (s, ungetc ch l2))"
  by pat_completeness auto

lemma str_spec_fin: "str_spec delim l = (t, l') \<Longrightarrow> length (fin l') \<le> length (fin l)"
proof (induction delim l arbitrary: t l' rule: str_spec.induct)
  case (1 delim l)
  obtain ch l1 where gc: "getc l = (ch, l1)" by (cases "getc l")
  show ?case
  proof (cases ch)
    case None
    then show ?thesis using "1.prems" gc getc_fin [OF gc]
      by (auto simp: str_spec.simps [of delim l] error_def)
  next
    case (Some c)
    obtain ch1 l2 where sc: "str_char c l1 = (ch1, l2)" by (cases "str_char c l1")
    note f = getc_fin [OF gc] str_char_fin [OF sc]
    show ?thesis
    proof (cases "c = delim \<or> ch1 = None")
      case True
      then show ?thesis using "1.prems" gc f Some sc
        by (auto simp: str_spec.simps [of delim l] error_def split: if_splits)
    next
      case False
      then obtain d where d: "c \<noteq> delim" "ch1 = Some d" by auto
      obtain t2 l4 where s2: "str_spec delim l2 = (t2, l4)" by (cases "str_spec delim l2")
      have "length (fin l4) \<le> length (fin l2)"
        by (rule "1.IH" [OF gc [symmetric] refl Some d(1) sc [symmetric] refl d(2) s2])
      then show ?thesis using "1.prems" gc f Some sc d s2 by (auto simp: str_spec.simps [of delim l])
    qed
  qed
qed

termination pieces_spec
proof (relation "measure (\<lambda>(delim, l). length (fin l))")
  fix delim l x s l1 y ch l2
  assume "x = str_spec delim l" "(s, l1) = x" "y = skipspaces l1" "(ch, l2) = y" "ch = Some delim"
  then show "((delim, l2), delim, l) \<in> measure (\<lambda>(delim, l). length (fin l))"
    using str_spec_fin [of delim l s l1] skipspaces_todo [of l1 ch l2] by (simp add: todo_def)
qed simp

declare pieces_spec.simps [simp del]

lemma str_pieces_ok:
  assumes al: "all_granted al"
  shows "grown b0 s b \<Longrightarrow> unat (buf_len b0) + length s + length (fin l) + 2 < 2 ^ 61 \<Longrightarrow>
    pieces_spec delim l = (t, l') \<Longrightarrow>
    \<exists>b' ch l2. str_pieces al delim l b = Go (l2, b', ch) \<and> grown b0 (s @ t) b' \<and> ungetc ch l2 = l' \<and>
      length t + length (fin l') \<le> length (fin l) + 1"
proof (induction delim l arbitrary: s b t l' rule: pieces_spec.induct)
  case (1 delim l)
  obtain ch l1 where gc: "getc l = (ch, l1)" by (cases "getc l")
  obtain u l2 where sp: "str_spec delim l = (u, l2)" by (cases "str_spec delim l")
  obtain ch3 l3 where sk: "skipspaces l2 = (ch3, l3)" by (cases "skipspaces l2")
  obtain b1 ch2 where b1: "str_loop al delim (l1, b, ch) = Go (l2, b1, ch2)" "grown b0 (s @ u) b1"
    and u: "length u + length (fin l2) \<le> length (fin l) + 1"
    using str_loop_ok [OF al "1.prems"(1,2) gc sp] by blast
  note sf = skipspaces_todo [OF sk]
  show ?case
  proof (cases "ch3 = Some delim")
    case False
    then have "t = u" "l' = ungetc ch3 l3"
      using "1.prems"(3) sp sk by (simp_all add: pieces_spec.simps [of delim l])
    then show ?thesis using False gc b1 sk u sf
      by (intro exI [of _ b1] exI [of _ ch3] exI [of _ l3]) (simp add: str_pieces.simps [of al delim l] ungetc_fin)
  next
    case True
    obtain v l4 where v: "pieces_spec delim l3 = (v, l4)" by (cases "pieces_spec delim l3")
    have t: "t = u @ v" "l' = l4"
      using "1.prems"(3) sp sk v True by (simp_all add: pieces_spec.simps [of delim l])
    have sf': "length (fin l3) + 1 \<le> length (fin l2)" using sf True by (simp add: todo_def)
    have "\<exists>b' ch l5. str_pieces al delim l3 b1 = Go (l5, b', ch) \<and> grown b0 ((s @ u) @ v) b' \<and>
        ungetc ch l5 = l4 \<and> length v + length (fin l4) \<le> length (fin l3) + 1"
      using "1.prems"(2) u sf'
      by (intro "1.IH" [OF sp [symmetric] refl sk [symmetric] refl True b1(2) _ v]) simp
    then obtain b' ch5 l5 where r: "str_pieces al delim l3 b1 = Go (l5, b', ch5)" "grown b0 ((s @ u) @ v) b'"
      "ungetc ch5 l5 = l4" "length v + length (fin l4) \<le> length (fin l3) + 1" by blast
    then show ?thesis using True gc b1 sk u sf' t
      by (intro exI [of _ b'] exI [of _ ch5] exI [of _ l5]) (simp add: str_pieces.simps [of al delim l])
  qed
qed

lemma ungetc_u: "ungetc ch (l\<lparr>lex_u := u\<rparr>) = (ungetc ch l)\<lparr>lex_u := u\<rparr>"
  by (simp add: ungetc_def split: option.splits)

lemma scanstr_ok:
  assumes al: "all_granted al" and len: "length (fin l) < 2 ^ 60" and sp: "pieces_spec c l = (t, l')"
  shows "\<exists>b. scanstr al l c = Some (Tok_STR, l'\<lparr>lex_u := U_str b\<rparr>) \<and> buf_data b = t @ [0] \<and> buf_wwf b"
    and "length t + length (fin l') \<le> length (fin l) + 1"
proof -
  have g0: "grown (initial al) [] (initial al)" by (simp add: grown_refl initial_ok al)
  have "unat (buf_len (initial al)) + length ([] :: byte list) + length (fin l) + 2 < 2 ^ 61"
    using len by (simp add: initial_len)
  then obtain b1 ch l2 where b1: "str_pieces al c l (initial al) = Go (l2, b1, ch)"
    "grown (initial al) t b1" "ungetc ch l2 = l'" "length t + length (fin l') \<le> length (fin l) + 1"
    using str_pieces_ok [OF al g0 _ sp] by auto
  then have "length t < 2 ^ 61" using len by simp
  then obtain b2 where b2: "addchr al b1 0 = Some (True, b2)" "buf_data b2 = t @ [0]" "buf_wwf b2"
    by (rule finish_ok [OF al b1(2)])
  show "\<exists>b. scanstr al l c = Some (Tok_STR, l'\<lparr>lex_u := U_str b\<rparr>) \<and> buf_data b = t @ [0] \<and> buf_wwf b"
    using b1(1,3) b2 by (intro exI [of _ b2]) (simp add: scanstr_def scan_result_def finish_text_def)
  show "length t + length (fin l') \<le> length (fin l) + 1" by (rule b1(4))
qed

section \<open>The lexer without its buffers\<close>

text \<open>A token with its value, as the caller sees them, and the lexing function with no memory.\<close>

datatype lexeme =
  L_id "byte list" | L_str "byte list" | L_int int64 | L_float uint64 | L_char byte | L_eof

definition lex_num :: "(byte list \<Rightarrow> uint64) \<Rightarrow> nbuf_lexer \<Rightarrow> byte \<Rightarrow> lexeme \<times> nbuf_lexer" where
  "lex_num strtod l c =
    (let (tok, l1) = num_result strtod l (num_split c (fin l))
     in (case lex_u l1 of U_float f \<Rightarrow> L_float f | U_int i \<Rightarrow> L_int i | _ \<Rightarrow> L_eof, l1))"

text \<open>
  Space and comments as they are described: space is skipped and its newlines counted, a line comment
  goes up to the newline, a long one to the first place where its closing characters stand.
\<close>

definition spaces_spec :: "nbuf_lexer \<Rightarrow> byte option \<times> nbuf_lexer" where
  "spaces_spec l =
    (let cs = dropWhile isspace (fin l)
     in (case cs of [] \<Rightarrow> None | c # _ \<Rightarrow> Some c,
         l\<lparr>fin := tl cs, lineno := lineno l + length (filter (\<lambda>c. c = NEWLINE) (takeWhile isspace (fin l)))\<rparr>))"

definition line_spec :: "nbuf_lexer \<Rightarrow> nbuf_lexer" where
  "line_spec l = l\<lparr>fin := dropWhile (\<lambda>c. c \<noteq> NEWLINE) (fin l)\<rparr>"

definition closes :: "byte list \<Rightarrow> nat list" where
  "closes cs = filter (\<lambda>i. take 2 (drop i cs) = [STAR, SLASH]) [0..<length cs]"

definition long_spec :: "nbuf_lexer \<Rightarrow> nbuf_lexer" where
  "long_spec l =
    (case closes (fin l) of
       [] \<Rightarrow> error Comment_not_closed (l\<lparr>fin := []\<rparr>)
     | i # _ \<Rightarrow> l\<lparr>fin := drop (i + 2) (fin l)\<rparr>)"

definition slash_spec :: "nbuf_lexer \<Rightarrow> nbuf_lexer" where
  "slash_spec l =
    (case fin l of
       [] \<Rightarrow> l
     | c # cs \<Rightarrow> let l1 = l\<lparr>fin := cs\<rparr>
                 in if c = STAR then long_spec l1 else if c = SLASH then line_spec l1 else l1)"

lemma spaces_spec_eq: "skipspaces l = spaces_spec l"
proof -
  have nl: "isspace NEWLINE" by (simp add: isspace_def)
  have "skip_from cs n = (case dropWhile isspace cs of [] \<Rightarrow> None | c # _ \<Rightarrow> Some c, tl (dropWhile isspace cs),
      n + length (filter (\<lambda>c. c = NEWLINE) (takeWhile isspace cs)))" for cs n
    by (induction cs n rule: skip_from.induct) (use nl in \<open>auto simp: Let_def\<close>)
  then show ?thesis by (simp add: skipspaces_def spaces_spec_def Let_def)
qed

lemma line_spec_eq: "skipline l = line_spec l"
proof -
  have "skip_to_newline cs = dropWhile (\<lambda>c. c \<noteq> NEWLINE) cs" for cs by (induction cs) auto
  then show ?thesis by (simp add: skipline_def line_spec_def)
qed

lemma closes_Cons: "closes (c # cs) =
    (if c = STAR \<and> (\<exists>ds. cs = SLASH # ds) then [0] else []) @ map Suc (closes cs)"
proof -
  have "closes (c # cs) = filter (\<lambda>i. take 2 (drop i (c # cs)) = [STAR, SLASH]) (0 # map Suc [0..<length cs])"
    unfolding closes_def by (simp add: map_Suc_upt upt_conv_Cons del: upt_Suc)
  then show ?thesis by (cases cs) (auto simp: closes_def filter_map o_def)
qed

lemma skip_comment_closes:
  "skip_comment cs = (case closes cs of [] \<Rightarrow> None | i # _ \<Rightarrow> Some (drop (i + 2) cs))"
proof (induction cs)
  case (Cons c cs)
  show ?case
  proof (cases "c = STAR \<and> (\<exists>ds. cs = SLASH # ds)")
    case True
    then show ?thesis by (auto simp: closes_Cons)
  next
    case False
    then have "skip_comment (c # cs) = skip_comment cs" by (auto split: list.splits)
    then show ?thesis using False Cons by (auto simp: closes_Cons simp del: skip_comment.simps split: list.splits)
  qed
qed (simp add: closes_def)

lemma slash_spec_eq: "skip_slash l = slash_spec l"
  by (cases "fin l")
    (auto simp: skip_slash_def slash_spec_def getc_def skiplong_def long_spec_def skip_comment_closes
      line_spec_eq Let_def split: list.splits)

lemmas skip_specs = spaces_spec_eq line_spec_eq slash_spec_eq

function lex_spec :: "(byte list \<Rightarrow> uint64) \<Rightarrow> nbuf_lexer \<Rightarrow> lexeme \<times> nbuf_lexer" where
  "lex_spec strtod l =
    (let (ch, l1) = spaces_spec l
     in case ch of
          None \<Rightarrow> (L_eof, l1)
        | Some c \<Rightarrow>
           if c = SLASH then lex_spec strtod (slash_spec l1)
           else if c = HASH then lex_spec strtod (line_spec l1)
           else if c = QUOTE then (let (s, l2) = pieces_spec c l1 in (L_str s, l2))
           else if c = MINUS
           then (case fin l1 of
                   [] \<Rightarrow> (L_eof, l1)
                 | d # ds \<Rightarrow> if isdigit d then lex_num strtod l1 MINUS else (L_char d, l1))
           else if isdigit c then lex_num strtod l1 c
           else if isalpha c \<or> c = UNDERSCORE
           then (L_id (c # takeWhile isident (fin l1)), l1\<lparr>fin := dropWhile isident (fin l1)\<rparr>)
           else (L_char c, l1))"
  by pat_completeness auto

termination
proof (relation "measure (\<lambda>(strtod, l). length (fin l))")
  fix strtod :: "byte list \<Rightarrow> uint64" and l x ch l1 c
  assume "x = spaces_spec l" "(ch, l1) = x" "ch = Some (c :: byte)"
  then have "length (fin l1) < length (fin l)" using skipspaces_todo [of l ch l1] by (simp add: todo_def skip_specs)
  then show "((strtod, slash_spec l1), strtod, l) \<in> measure (\<lambda>(strtod, l). length (fin l))"
    "((strtod, line_spec l1), strtod, l) \<in> measure (\<lambda>(strtod, l). length (fin l))"
    using skip_slash_fin [of l1] skipline_fin [of l1] by (simp_all add: skip_specs)
qed simp

declare lex_spec.simps [simp del]

lemmas lex_spec_eqs = lex_spec.simps [folded skip_specs]
lemmas lex_spec_induct = lex_spec.induct [folded skip_specs]

fun reads_as :: "nbuf_Token \<Rightarrow> lex_value \<Rightarrow> lexeme \<Rightarrow> bool" where
  "reads_as tok u (L_id s) \<longleftrightarrow> tok = Tok_ID \<and> (case u of U_str b \<Rightarrow> buf_data b = s @ [0] \<and> buf_wwf b | _ \<Rightarrow> False)"
| "reads_as tok u (L_str s) \<longleftrightarrow> tok = Tok_STR \<and> (case u of U_str b \<Rightarrow> buf_data b = s @ [0] \<and> buf_wwf b | _ \<Rightarrow> False)"
| "reads_as tok u (L_int j) \<longleftrightarrow> tok = Tok_INT \<and> u = U_int j"
| "reads_as tok u (L_float g) \<longleftrightarrow> tok = Tok_FLT \<and> u = U_float g"
| "reads_as tok u (L_char d) \<longleftrightarrow> tok = Tok_char d"
| "reads_as tok u L_eof \<longleftrightarrow> tok = Tok_EOF"

definition forget_u :: "nbuf_lexer \<Rightarrow> nbuf_lexer" where
  "forget_u l = l\<lparr>lex_u := U_none\<rparr>"

definition lexes_to :: "(nbuf_Token \<times> nbuf_lexer) option \<Rightarrow> lexeme \<times> nbuf_lexer \<Rightarrow> bool" where
  "lexes_to r x \<longleftrightarrow> (\<exists>tok l. r = Some (tok, l) \<and> reads_as tok (lex_u l) (fst x) \<and> forget_u l = forget_u (snd x))"

lemma lex_num_ok:
  assumes "all_granted al" and "length (fin l) < 2 ^ 60" and "c = MINUS \<Longrightarrow> fin l \<noteq> []"
  shows "lexes_to (scannum al strtod l c) (lex_num strtod l c)"
proof -
  obtain base flt s rest where n: "num_split c (fin l) = (base, flt, s, rest)" by (metis prod_cases4)
  have "scannum al strtod l c = Some (num_result strtod l (num_split c (fin l)))"
    by (rule scannum_ok) (use assms in auto)
  then show ?thesis
    by (auto simp: lexes_to_def n lex_num_def num_result_def Let_def error_def forget_u_def split: list.splits)
qed

lemma lex_refines:
  assumes al: "all_granted al"
  shows "length (fin l) < 2 ^ 60 \<Longrightarrow> lexes_to (nbuf_lex al strtod l) (lex_spec strtod l)"
proof (induction strtod l rule: lex_spec_induct)
  case (1 strtod l)
  obtain ch l1 where sk: "skipspaces l = (ch, l1)" by (cases "skipspaces l")
  show ?case
  proof (cases ch)
    case None
    then show ?thesis using sk
      by (simp add: nbuf_lex.simps [of al strtod l] lex_spec_eqs [of strtod l] lexes_to_def)
  next
    case (Some c)
    have len: "length (fin l1) < 2 ^ 60" using skipspaces_todo [OF sk] Some "1.prems" by (simp add: todo_def)
    note unf = nbuf_lex.simps [of al strtod l] lex_spec_eqs [of strtod l] sk Some
    consider "c = SLASH" | "c = HASH" | "c = QUOTE" | "c = MINUS"
      | (num) "c \<notin> {SLASH, HASH, QUOTE, MINUS}" "isdigit c"
      | (ident) "c \<notin> {SLASH, HASH, QUOTE, MINUS}" "\<not> isdigit c" "isalpha c \<or> c = UNDERSCORE"
      | (other) "c \<notin> {SLASH, HASH, QUOTE, MINUS}" "\<not> isdigit c" "\<not> (isalpha c \<or> c = UNDERSCORE)"
      by blast
    then show ?thesis
    proof cases
      case 1
      have "lexes_to (nbuf_lex al strtod (skip_slash l1)) (lex_spec strtod (skip_slash l1))"
        using len skip_slash_fin [of l1] by (intro "1.IH"(1) [OF sk [symmetric] refl Some 1]) simp
      then show ?thesis using 1 by (simp add: unf)
    next
      case 2
      then have "c \<noteq> SLASH" by simp
      then have "lexes_to (nbuf_lex al strtod (skipline l1)) (lex_spec strtod (skipline l1))"
        using le_less_trans [OF skipline_fin [of l1] len] by (intro "1.IH"(2) [OF sk [symmetric] refl Some _ 2]) simp_all
      then show ?thesis using 2 by (simp add: unf)
    next
      case 3
      obtain t l2 where p: "pieces_spec c l1 = (t, l2)" by (cases "pieces_spec c l1")
      from scanstr_ok(1) [OF al len p] 3 show ?thesis
        using p by (auto simp: unf lexes_to_def forget_u_def)
    next
      case 4
      show ?thesis
      proof (cases "fin l1")
        case Nil
        then show ?thesis using 4 by (simp add: unf lexes_to_def getc_def ungetc_def)
      next
        case (Cons d ds)
        then have g: "getc l1 = (Some d, l1\<lparr>fin := ds\<rparr>)" "ungetc (Some d) (l1\<lparr>fin := ds\<rparr>) = l1"
          by (simp_all add: getc_def ungetc_def)
        show ?thesis
        proof (cases "isdigit d")
          case True
          then show ?thesis using lex_num_ok [OF al len, of MINUS strtod] 4 Cons g by (simp add: unf)
        next
          case False
          then show ?thesis using 4 Cons g by (simp add: unf lexes_to_def)
        qed
      qed
    next
      case num
      then show ?thesis using lex_num_ok [OF al len, of c strtod] by (auto simp: unf)
    next
      case ident
      then show ?thesis using scanident_ok [OF al len, of c]
        by (auto simp: unf lexes_to_def forget_u_def)
    next
      case other
      then show ?thesis by (auto simp: unf lexes_to_def)
    qed
  qed
qed

text \<open>What is left of the input after a token.\<close>

lemma lex_num_fin: "lex_num strtod l c = (x, l') \<Longrightarrow> c \<noteq> MINUS \<or> fin l \<noteq> [] \<Longrightarrow>
    length (fin l') \<le> length (fin l) \<and> x \<noteq> L_eof"
proof -
  assume n: "lex_num strtod l c = (x, l')" and c: "c \<noteq> MINUS \<or> fin l \<noteq> []"
  obtain base flt s rest where sp: "num_split c (fin l) = (base, flt, s, rest)" by (metis prod_cases4)
  have a: "s @ rest = c # fin l" by (rule num_split_append [OF sp])
  have "s \<noteq> []"
    using sp c by (auto simp: num_split_def int_split_def Let_def split: if_splits prod.splits list.splits)
  then obtain t where "t @ rest = fin l" using a by (cases s) auto
  moreover have "length rest \<le> length (t @ rest)" by simp
  ultimately have "length rest \<le> length (fin l)" by simp
  then show ?thesis using n sp
    by (auto simp: lex_num_def num_result_def Let_def error_def split: if_splits list.splits)
qed

lemma pieces_spec_fin: "pieces_spec delim l = (t, l') \<Longrightarrow> length (fin l') \<le> length (fin l)"
proof (induction delim l arbitrary: t l' rule: pieces_spec.induct)
  case (1 delim l)
  obtain u l2 where sp: "str_spec delim l = (u, l2)" by (cases "str_spec delim l")
  obtain ch3 l3 where sk: "skipspaces l2 = (ch3, l3)" by (cases "skipspaces l2")
  note f = str_spec_fin [OF sp] skipspaces_todo [OF sk]
  show ?case
  proof (cases "ch3 = Some delim")
    case True
    obtain v l4 where v: "pieces_spec delim l3 = (v, l4)" by (cases "pieces_spec delim l3")
    have "length (fin l4) \<le> length (fin l3)" by (rule "1.IH" [OF sp [symmetric] refl sk [symmetric] refl True v])
    then show ?thesis using "1.prems" sp sk v True f by (simp add: pieces_spec.simps [of delim l] todo_def)
  next
    case False
    then show ?thesis using "1.prems" sp sk f by (auto simp: pieces_spec.simps [of delim l] ungetc_fin)
  qed
qed

lemma lex_spec_progress:
  "lex_spec strtod l = (x, l') \<Longrightarrow>
    (x = L_eof \<longrightarrow> fin l' = []) \<and> (x \<noteq> L_eof \<longrightarrow> length (fin l') < length (fin l)) \<and>
    length (fin l') \<le> length (fin l)"
proof (induction strtod l arbitrary: x l' rule: lex_spec_induct)
  case (1 strtod l)
  obtain ch l1 where sk: "skipspaces l = (ch, l1)" by (cases "skipspaces l")
  note f = skipspaces_todo [OF sk]
  show ?case
  proof (cases ch)
    case None
    then have "x = L_eof" "l' = l1" using "1.prems" sk by (simp_all add: lex_spec_eqs [of strtod l])
    moreover have "fin l1 = []"
    proof -
      have "skip_from cs n = (None, ds, m) \<Longrightarrow> ds = []" for cs n ds m
        by (induction cs n rule: skip_from.induct) (auto simp: Let_def split: if_splits)
      then show ?thesis using sk None by (auto simp: skipspaces_def split: prod.splits)
    qed
    ultimately show ?thesis by simp
  next
    case (Some c)
    have f1: "length (fin l1) < length (fin l)" using f Some by (simp add: todo_def)
    note unf = "1.prems" [unfolded lex_spec_eqs [of strtod l]] sk Some
    consider "c = SLASH" | "c = HASH" | "c = QUOTE" | "c = MINUS"
      | (num) "c \<notin> {SLASH, HASH, QUOTE, MINUS}" "isdigit c"
      | (other) "c \<notin> {SLASH, HASH, QUOTE, MINUS}" "\<not> isdigit c"
      by blast
    then show ?thesis
    proof cases
      case 1
      then have "lex_spec strtod (skip_slash l1) = (x, l')" using unf by simp
      from "1.IH"(1) [OF sk [symmetric] refl Some 1 this] show ?thesis
        using skip_slash_fin [of l1] f1 by auto
    next
      case 2
      then have "lex_spec strtod (skipline l1) = (x, l')" "c \<noteq> SLASH" using unf by simp_all
      from "1.IH"(2) [OF sk [symmetric] refl Some this(2) 2 this(1)] show ?thesis
        using skipline_fin [of l1] f1 by auto
    next
      case 3
      then show ?thesis using unf f1 pieces_spec_fin [of c l1] by (auto split: prod.splits)
    next
      case 4
      then show ?thesis using unf f1 lex_num_fin [of strtod l1 MINUS x l']
        by (auto split: list.splits if_splits)
    next
      case num
      then show ?thesis using unf f1 lex_num_fin [of strtod l1 c x l'] by auto
    next
      case other
      then show ?thesis using unf f1 length_dropWhile_le [of isident "fin l1"]
        by (auto split: if_splits)
    qed
  qed
qed

section \<open>What the lexer promises\<close>

text \<open>
  Claim C24.  Lexing always gets on: with memory granted, \<^verbatim>\<open>nbuf_lex\<close> returns a proper token for every
  input, and every token but the end of file consumes at least one byte, so a caller that asks for
  tokens until \<^verbatim>\<open>EOF\<close> stops after at most as many calls as the input has bytes.
\<close>

theorem lexer_makes_progress:
  assumes "all_granted al" and "length (fin l) < 2 ^ 60"
  shows "\<exists>tok l'. nbuf_lex al strtod l = Some (tok, l') \<and> tok \<noteq> Tok_UNK \<and>
    (if tok = Tok_EOF then fin l' = [] else length (fin l') < length (fin l))"
proof -
  obtain x l1 where s: "lex_spec strtod l = (x, l1)" by (cases "lex_spec strtod l")
  from lex_refines [OF assms, of strtod] s obtain tok l' where
    r: "nbuf_lex al strtod l = Some (tok, l')" "reads_as tok (lex_u l') x" "forget_u l' = forget_u l1"
    by (auto simp: lexes_to_def)
  have f: "fin l' = fin l1" using r(3) by (metis forget_u_def nbuf_lexer.select_convs(1) nbuf_lexer.surjective
    nbuf_lexer.update_convs(4))
  have "tok \<noteq> Tok_UNK" "tok = Tok_EOF \<longleftrightarrow> x = L_eof"
    using r(2) by (cases tok; cases "lex_u l'"; cases x; simp)+
  then show ?thesis using r(1) f lex_spec_progress [OF s] by (intro exI conjI) auto
qed

definition roomy :: allocator where
  "roomy = \<lparr>grants = (\<lambda>_. True), junk = (\<lambda>_. 0)\<rparr>"

lemma roomy_all [simp]: "all_granted roomy"
  by (simp add: roomy_def all_granted_def)

theorem lexer_makes_progress_witness:
  "\<exists>tok l'. nbuf_lex roomy (\<lambda>_. 0) (nbuf_lex_init [97, 58, 32, 49]) = Some (tok, l') \<and> tok \<noteq> Tok_UNK \<and>
    length (fin l') \<le> 3"
  using lexer_makes_progress [of roomy "nbuf_lex_init [97, 58, 32, 49]" "\<lambda>_. 0"]
  by (fastforce simp: nbuf_lex_init_def split: if_splits)

text \<open>
  Claim C4.  The lexer reads what a lexer without memory management reads: with memory granted, token,
  value, remaining input, line number and reported errors are those of \<open>lex_spec\<close>, which splits the
  input with \<open>takeWhile\<close> and \<open>dropWhile\<close>, comments included; texts are stored with a terminating NUL.
\<close>

theorem lexer_refines_spec:
  assumes "all_granted al" and "length (fin l) < 2 ^ 60"
  shows "lexes_to (nbuf_lex al strtod l) (lex_spec strtod l)"
  using assms by (rule lex_refines)

theorem lexer_refines_spec_witness:
  "lexes_to (nbuf_lex roomy (\<lambda>_. 0) (nbuf_lex_init [32, 97, 98, 58]))
    (L_id [97, 98], \<lparr>fin = [58], lineno = 1, errors = [], lex_u = U_none\<rparr>)"
proof -
  let ?l = "nbuf_lex_init [32, 97, 98, 58]"
  have "lex_spec (\<lambda>_. 0) ?l = (L_id [97, 98], \<lparr>fin = [58], lineno = 1, errors = [], lex_u = U_none\<rparr>)"
    unfolding nbuf_lex_init_def
    by (subst lex_spec_eqs) (simp add: skipspaces_def isspace_def isdigit_def
        isalpha_def isident_def isalnum_def Let_def)
  then show ?thesis
    using lexer_refines_spec [of roomy ?l "\<lambda>_. 0"] by (simp add: nbuf_lex_init_def)
qed

text \<open>
  A minus sign that no digit follows is dropped, and the character after it is returned without
  being consumed, so it is read twice.
\<close>

lemma lone_minus_repeats_next:
  "nbuf_lex al strtod (nbuf_lex_init (MINUS # 58 # cs))
    = Some (Tok_char 58, \<lparr>fin = 58 # cs, lineno = 1, errors = [], lex_u = U_none\<rparr>)"
  unfolding nbuf_lex_init_def
  by (subst nbuf_lex.simps) (simp add: skipspaces_def isspace_def
      isdigit_def getc_def ungetc_def Let_def)

text \<open>A bad escape stores the character after the backslash twice.\<close>

lemma bad_escape_doubles:
  "pieces_spec QUOTE (nbuf_lex_init [BACKSLASH, 113, QUOTE])
    = ([113, 113], \<lparr>fin = [], lineno = 1, errors = [(1, Bad_escape)], lex_u = U_none\<rparr>)"
  unfolding nbuf_lex_init_def
  by (subst pieces_spec.simps) (simp add: str_spec.simps getc_def
      str_char_def escape_def simple_escapes_def isodigit_def ungetc_def error_def skipspaces_def
      numeral_3_eq_3 Let_def)

text \<open>How \<open>str_spec\<close> goes through the characters of a literal.\<close>

lemma str_spec_end: "str_spec d (l\<lparr>fin := d # cs\<rparr>) = ([], l\<lparr>fin := cs\<rparr>)"
  by (subst str_spec.simps) (simp add: getc_def)

lemma str_spec_plain:
  "c \<noteq> d \<Longrightarrow> c \<noteq> BACKSLASH \<Longrightarrow> c \<noteq> NEWLINE \<Longrightarrow>
    str_spec d (l\<lparr>fin := c # cs\<rparr>) = apfst (Cons c) (str_spec d (l\<lparr>fin := cs\<rparr>))"
  by (subst str_spec.simps) (simp add: getc_def str_char_def apfst_def map_prod_def split_beta)

lemma str_spec_escaped_quote:
  "str_spec QUOTE (l\<lparr>fin := BACKSLASH # QUOTE # cs\<rparr>) = apfst (Cons QUOTE) (str_spec QUOTE (l\<lparr>fin := cs\<rparr>))"
  by (subst str_spec.simps)
    (simp add: getc_def str_char_def escape_def simple_escapes_def apfst_def map_prod_def split_beta)

lemma two_hex_digits:
  assumes "isxdigit a" and "isxdigit b"
  shows "esc_digits isxdigit 16 2 0 0 (Some a) (l\<lparr>fin := b # cs\<rparr>)
    = (2, (unat a - 48) * 16 + (unat b - 48), getc (l\<lparr>fin := cs\<rparr>))"
  unfolding numeral_2_eq_2 using assms by (cases cs) (simp_all add: getc_def)

lemma no_simple_x: "map_of simple_escapes 120 = None"
  by (simp add: simple_escapes_def)

lemma ungetc_getc: "(case getc l of (ch, l1) \<Rightarrow> ungetc ch l1) = l"
  by (auto simp: getc_def ungetc_def split: list.splits)

lemma escape_hex:
  assumes "isxdigit a" and "isxdigit b"
  shows "escape (l\<lparr>fin := 120 # a # b # cs\<rparr>)
    = (Some (of_nat ((unat a - 48) * 16 + (unat b - 48))), l\<lparr>fin := cs\<rparr>)"
proof -
  obtain ch l1 where g: "getc (l\<lparr>fin := cs\<rparr>) = (ch, l1)" by (cases "getc (l\<lparr>fin := cs\<rparr>)")
  have u: "ungetc ch l1 = l\<lparr>fin := cs\<rparr>" using ungetc_getc [of "l\<lparr>fin := cs\<rparr>"] g by simp
  have "getc (l\<lparr>fin := 120 # a # b # cs\<rparr>) = (Some 120, l\<lparr>fin := a # b # cs\<rparr>)"
    "getc (l\<lparr>fin := a # b # cs\<rparr>) = (Some a, l\<lparr>fin := b # cs\<rparr>)" by (simp_all add: getc_def)
  then show ?thesis by (simp add: escape_def no_simple_x two_hex_digits [OF assms] g u Let_def)
qed

lemma str_spec_hex:
  assumes "isxdigit a" and "isxdigit b"
  shows "str_spec QUOTE (l\<lparr>fin := BACKSLASH # 120 # a # b # cs\<rparr>)
    = apfst (Cons (of_nat ((unat a - 48) * 16 + (unat b - 48)))) (str_spec QUOTE (l\<lparr>fin := cs\<rparr>))"
  using escape_hex [OF assms]
  by (subst str_spec.simps) (simp add: getc_def str_char_def apfst_def map_prod_def split_beta)

text \<open>A hexadecimal escape with a letter is decoded wrongly: \<^verbatim>\<open>\xff\<close> becomes the byte 150.\<close>

lemma hex_escape_is_wrong:
  "str_spec QUOTE (l\<lparr>fin := [BACKSLASH, 120, 102, 102, QUOTE]\<rparr>) = ([150], l\<lparr>fin := []\<rparr>)"
  by (simp add: str_spec_hex str_spec_end isxdigit_def isdigit_def)

text \<open>
  When the first 32 bytes of a token buffer are refused, \<^verbatim>\<open>nbuf_init_write\<close> still records their
  capacity, and the first character is written through a null pointer.
\<close>

lemma first_allocation_refused_crashes:
  "\<not> grants al 32 \<Longrightarrow> scanident al l c = None"
  by (simp add: scanident_def scan_result_def NEXT_def addchr_def initial_def nbuf_init_write_def
      malloc_block_def nbuf_reserve_def grow_cap.simps store_def Let_def)

end
