(* ===== verification/Print.thy ===== *)
theory Print
  imports Fuel Ref Lexer
begin

text \<open>
  The printers of \<^verbatim>\<open>lib/print.c\<close>.  What is written to \<^verbatim>\<open>fout\<close> is the result of a printer; the number the
  functions of the code return is its length.  The printers follow the pointers of a message, which
  may lead back: they take fuel, one unit per level of nesting.
\<close>

section \<open>The conversions of \<^verbatim>\<open>printf\<close> used\<close>

fun decimal :: "nat \<Rightarrow> byte list" where
  "decimal n = (if n < 10 then [of_nat (48 + n)] else decimal (n div 10) @ [of_nat (48 + n mod 10)])"

declare decimal.simps [simp del]

definition fmt_u :: "uint64 \<Rightarrow> byte list" where
  "fmt_u v = decimal (unat v)"

definition fmt_d :: "int64 \<Rightarrow> byte list" where
  "fmt_d v = (if sint v < 0 then MINUS # decimal (nat (- sint v)) else decimal (nat (sint v)))"

definition hex_digit :: "nat \<Rightarrow> byte" where
  "hex_digit d = of_nat (if d < 10 then 48 + d else 87 + d)"

definition fmt_02x :: "byte \<Rightarrow> byte list" where
  "fmt_02x c = [hex_digit (unat c div 16), hex_digit (unat c mod 16)]"

definition isprint :: "byte \<Rightarrow> bool" where
  "isprint c \<longleftrightarrow> 32 \<le> c \<and> c < 127"

text \<open>\<^verbatim>\<open>%s\<close> on the memory from a \<^verbatim>\<open>char *\<close> on: undefined without a NUL.\<close>

definition fmt_s :: "byte list \<Rightarrow> byte list option" where
  "fmt_s s = do { _ \<leftarrow> c_strlen s; Some (c_string s) }"

section \<open>Indentation and strings\<close>

record ctx =
  ctx_schema :: nbuf_obj
  ctx_indent :: int
  ctx_indent_inc :: int

definition do_indent :: "int \<Rightarrow> byte list" where
  "do_indent n = (if n \<le> 0 then [] else replicate (nat n) 32)"

fun dumpstr_from :: "byte list \<Rightarrow> nat \<Rightarrow> byte list option" where
  "dumpstr_from s 0 = Some []"
| "dumpstr_from [] (Suc n) = None"
| "dumpstr_from (ch # s) (Suc n) =
    do { rest \<leftarrow> dumpstr_from s n;
         Some ((if ch = QUOTE then [BACKSLASH, QUOTE]
                else if isprint ch then [ch]
                else [BACKSLASH, 120] @ fmt_02x ch) @ rest) }"

text \<open>\<open>s\<close> is the memory from the pointer on; reading past its end is undefined.\<close>

definition dumpstr :: "byte list \<Rightarrow> nat \<Rightarrow> byte list option" where
  "dumpstr s n = do { body \<leftarrow> dumpstr_from s n; Some (QUOTE # body @ [QUOTE]) }"

definition nl :: "ctx \<Rightarrow> byte" where
  "nl c = (if ctx_indent_inc c \<ge> 0 then NEWLINE else 32)"

definition deeper :: "ctx \<Rightarrow> ctx" where
  "deeper c = c\<lparr>ctx_indent := ctx_indent c + ctx_indent_inc c\<rparr>"

definition mem_at :: "world \<Rightarrow> nbuf_obj \<Rightarrow> byte list option" where
  "mem_at w ob =
    do { b \<leftarrow> bufs w (obj_buf ob);
         assert_ok (unat (obj_base ob) \<le> length (buf_base b));
         Some (drop (unat (obj_base ob)) (buf_base b)) }"

definition bounds_ok :: "world \<Rightarrow> nbuf_obj \<Rightarrow> bool option" where
  "bounds_ok w ob =
    do { b \<leftarrow> bufs w (obj_buf ob); Some (nbuf_bounds_check b (obj_base ob) (ucast (ssize ob))) }"

section \<open>Printing without a schema\<close>

text \<open>A vector of bits or bytes is printed as one string; the count is cut to the 16 bits of \<^verbatim>\<open>ssize\<close>.\<close>

definition as_string :: "nbuf_obj \<Rightarrow> nbuf_obj" where
  "as_string oo =
    (if ssize oo \<le> 1 \<and> psize oo = 0 \<and> nelem oo > 0
     then oo\<lparr>ssize := (if ssize oo = 0 then ucast ((nelem oo + 7) div 8) else ucast (nelem oo)), nelem := 1\<rparr>
     else oo)"

text \<open>The loops over the elements of a pointee and over the pointers; \<open>rec\<close> prints a nested object.\<close>

fun raw_elems ::
    "(ctx \<Rightarrow> nbuf_obj \<Rightarrow> byte list run) \<Rightarrow> world \<Rightarrow> ctx \<Rightarrow> nat \<Rightarrow> nat \<Rightarrow> nbuf_obj \<Rightarrow> byte list run" where
  "raw_elems rec w c i 0 oo = Run []"
| "raw_elems rec w c i (Suc k) oo =
    bind_run (of_opt (bounds_ok w oo)) (\<lambda>inside.
      if \<not> inside then Run []
      else bind_run
        (if psize oo = 0
         then of_opt (do { s \<leftarrow> mem_at w oo; dumpstr s (unat (ssize oo)) })
         else bind_run (rec (deeper c) oo) (\<lambda>t.
                Run ([123, nl c] @ t @ do_indent (ctx_indent c) @ [125]))) (\<lambda>item.
      bind_run (raw_elems rec w c i k (oo\<lparr>obj_base := obj_base oo + nbuf_elemsz oo\<rparr>)) (\<lambda>rest.
        Run (do_indent (ctx_indent c) @ fmt_d (of_nat (i + 1)) @ [58, 32] @ item @ [nl c] @ rest))))"

fun raw_ptrs ::
    "(ctx \<Rightarrow> nbuf_obj \<Rightarrow> byte list run) \<Rightarrow> world \<Rightarrow> ctx \<Rightarrow> nbuf_obj \<Rightarrow> nat list \<Rightarrow> byte list run" where
  "raw_ptrs rec w c ob [] = Run []"
| "raw_ptrs rec w c ob (i # is) =
    bind_run (of_opt (nbuf_get_ptr w ob (of_nat i))) (\<lambda>p.
      let oo = as_string p
      in bind_run (raw_elems rec w c i (unat (nelem oo)) oo) (\<lambda>t.
         bind_run (raw_ptrs rec w c ob is) (\<lambda>rest. Run (t @ rest))))"

fun do_print_notype :: "nat \<Rightarrow> world \<Rightarrow> ctx \<Rightarrow> nbuf_obj \<Rightarrow> byte list run" where
  "do_print_notype 0 w c ob = No_fuel"
| "do_print_notype (Suc fuel) w c ob =
    bind_run
      (if ssize ob > 0
       then of_opt (do { s \<leftarrow> mem_at w ob; t \<leftarrow> dumpstr s (unat (ssize ob));
                         Some (do_indent (ctx_indent c) @ [48, 58, 32] @ t @ [nl c]) })
       else Run []) (\<lambda>own.
    bind_run (raw_ptrs (do_print_notype fuel w) w c ob [0..<unat (psize ob)]) (\<lambda>ptrs.
      Run (own @ ptrs)))"

definition nbuf_raw_print :: "nat \<Rightarrow> world \<Rightarrow> nbuf_obj \<Rightarrow> int \<Rightarrow> byte list run" where
  "nbuf_raw_print fuel w ob indent =
    do_print_notype fuel w \<lparr>ctx_schema = null_obj 0, ctx_indent = 0, ctx_indent_inc = indent\<rparr> ob"

section \<open>Printing with a schema\<close>

text \<open>The floating-point operations of the C library the code relies on, on bit patterns.\<close>

record float_lib =
  fl_widen :: "uint32 \<Rightarrow> uint64"
  fl_narrow :: "uint64 \<Rightarrow> uint32"
  fl_of_int :: "int64 \<Rightarrow> uint64"
  fl_strtod :: "byte list \<Rightarrow> uint64"
  fl_fmt_g :: "nat \<Rightarrow> uint64 \<Rightarrow> byte list"

definition FLT_DIG :: nat where "FLT_DIG = 6"
definition DBL_DIG :: nat where "DBL_DIG = 15"

text \<open>The \<^verbatim>\<open>switch\<close> over the kind of a field; \<open>et\<close> and \<open>mt\<close> are its enumeration and message type.\<close>

definition print_value ::
    "float_lib \<Rightarrow> (ctx \<Rightarrow> nbuf_obj \<Rightarrow> nbuf_obj \<Rightarrow> byte list run) \<Rightarrow> world \<Rightarrow> ctx \<Rightarrow> nbuf_obj \<Rightarrow> nbuf_obj \<Rightarrow>
      nbuf_ref \<Rightarrow> byte list run" where
  "print_value fl rec w c et mt ref =
    (case ref_kind ref of
       Kind_BOOL \<Rightarrow> of_opt (do { b \<leftarrow> nbuf_ref_get_bit w ref;
         Some (map of_char (if b then ''true'' else ''false'')) })
     | Kind_INT \<Rightarrow> of_opt (do { v \<leftarrow> nbuf_ref_get_int w ref; Some (fmt_d v) })
     | Kind_UINT \<Rightarrow> of_opt (do { v \<leftarrow> nbuf_ref_get_int w ref; Some (fmt_u v) })
     | Kind_FLOAT \<Rightarrow> of_opt (do { v \<leftarrow> nbuf_ref_get_float (fl_widen fl) w ref;
         Some (fl_fmt_g fl (if ref_tag1 ref = 4 then FLT_DIG else DBL_DIG) v) })
     | Kind_STR \<Rightarrow> of_opt (do { (s, len) \<leftarrow> nbuf_ref_get_str w ref; dumpstr s (unat len) })
     | Kind_ENUM \<Rightarrow> of_opt (do { v \<leftarrow> nbuf_ref_get_int w ref;
         let enum_val = (ucast v :: uint16);
         enum_name \<leftarrow> nbuf_enum_name w et enum_val;
         case enum_name of Some s \<Rightarrow> fmt_s s | None \<Rightarrow> Some (fmt_u (ucast enum_val)) })
     | Kind_PTR \<Rightarrow> bind_run (rec (deeper c) (ref_o ref) mt) (\<lambda>t.
         Run ([123, nl c] @ t @ do_indent (ctx_indent c) @ [125]))
     | Kind_other _ \<Rightarrow> Run [])"

lemma advance_nelem:
  "nbuf_ref_advance ref 1 = Some (True, ref1) \<Longrightarrow> unat (nelem (ref_o ref1)) < unat (nelem (ref_o ref))"
proof -
  assume a: "nbuf_ref_advance ref 1 = Some (True, ref1)"
  then have "nelem (ref_o ref1) = nelem (ref_o ref) - 1" "\<not> ucast (nelem (ref_o ref)) \<le> (1 :: size_t)"
    by (auto simp: nbuf_ref_advance_def Let_def split: if_splits bind_splits)
  then show "unat (nelem (ref_o ref1)) < unat (nelem (ref_o ref))"
    by (cases "nelem (ref_o ref) = 0") (simp_all add: unat_minus_one unat_gt_0)
qed

definition field_label :: "world \<Rightarrow> nbuf_obj \<Rightarrow> byte list option" where
  "field_label w fld = do { (s, _) \<leftarrow> nbuf_FieldDesc_name w fld; fmt_s s }"

text \<open>The \<^verbatim>\<open>do\<close> loop over the elements of a field.\<close>

function print_elems ::
    "float_lib \<Rightarrow> (ctx \<Rightarrow> nbuf_obj \<Rightarrow> nbuf_obj \<Rightarrow> byte list run) \<Rightarrow> world \<Rightarrow> ctx \<Rightarrow> nbuf_obj \<Rightarrow> nbuf_obj \<Rightarrow>
      nbuf_obj \<Rightarrow> nbuf_ref \<Rightarrow> byte list run" where
  "print_elems fl rec w c fld et mt ref =
    bind_run (of_opt (bounds_ok w (ref_o ref))) (\<lambda>inside.
      if \<not> inside then Run []
      else bind_run (of_opt (field_label w fld)) (\<lambda>name.
        bind_run (print_value fl rec w c et mt ref) (\<lambda>v.
        let t = do_indent (ctx_indent c) @ name @ (if ref_kind ref = Kind_PTR then [32] else [58, 32]) @ v @ [nl c]
        in if \<not> ref_list ref then Run t
           else case nbuf_ref_advance ref 1 of
                  None \<Rightarrow> Aborts
                | Some (again, ref1) \<Rightarrow>
                   if again then bind_run (print_elems fl rec w c fld et mt ref1) (\<lambda>rest. Run (t @ rest))
                   else Run t)))"
  by pat_completeness auto

termination print_elems
  by (relation "measure (\<lambda>(fl, rec, w, c, fld, et, mt, ref). unat (nelem (ref_o ref)))")
    (auto intro: advance_nelem)

declare print_elems.simps [simp del]

definition print_field ::
    "float_lib \<Rightarrow> (ctx \<Rightarrow> nbuf_obj \<Rightarrow> nbuf_obj \<Rightarrow> byte list run) \<Rightarrow> world \<Rightarrow> ctx \<Rightarrow> nbuf_obj \<Rightarrow> nbuf_obj \<Rightarrow>
      byte list run" where
  "print_field fl rec w c ob fld =
    bind_run (of_opt (do { r \<leftarrow> nbuf_get_ref w ob fld;
      if ref_list r \<or> ref_kind r = Kind_PTR then nbuf_ref_get_ptr w r else Some r })) (\<lambda>ref.
    if (ref_list ref \<or> ref_kind ref = Kind_PTR) \<and> nelem (ref_o ref) = 0 then Run []
    else bind_run (of_opt (do {
      et \<leftarrow> if ref_kind ref = Kind_ENUM
            then nbuf_Schema_enumTypes w (ctx_schema c) (ucast (ref_tag1 ref)) else Some (null_obj 0);
      mt \<leftarrow> if ref_kind ref = Kind_PTR
            then nbuf_Schema_msgTypes w (ctx_schema c) (ucast (ref_tag1 ref)) else Some (null_obj 0);
      Some (et, mt) })) (\<lambda>(et, mt). print_elems fl rec w c fld et mt ref))"

fun print_fields ::
    "float_lib \<Rightarrow> (ctx \<Rightarrow> nbuf_obj \<Rightarrow> nbuf_obj \<Rightarrow> byte list run) \<Rightarrow> world \<Rightarrow> ctx \<Rightarrow> nbuf_obj \<Rightarrow> nbuf_obj \<Rightarrow>
      nat list \<Rightarrow> byte list run" where
  "print_fields fl rec w c ob msgType [] = Run []"
| "print_fields fl rec w c ob msgType (i # is) =
    bind_run (of_opt (nbuf_MsgType_fields w msgType (of_nat i))) (\<lambda>fld.
    bind_run (print_field fl rec w c ob fld) (\<lambda>t.
    bind_run (print_fields fl rec w c ob msgType is) (\<lambda>rest. Run (t @ rest))))"

fun do_print :: "nat \<Rightarrow> float_lib \<Rightarrow> world \<Rightarrow> ctx \<Rightarrow> nbuf_obj \<Rightarrow> nbuf_obj \<Rightarrow> byte list run" where
  "do_print 0 fl w c ob msgType = No_fuel"
| "do_print (Suc fuel) fl w c ob msgType =
    bind_run (of_opt (nbuf_MsgType_fields_size w msgType)) (\<lambda>n.
      print_fields fl (do_print fuel fl w) w c ob msgType [0..<unat n])"

definition nbuf_print :: "nat \<Rightarrow> float_lib \<Rightarrow> world \<Rightarrow> nbuf_obj \<Rightarrow> int \<Rightarrow> nbuf_obj \<Rightarrow> nbuf_obj \<Rightarrow> byte list run" where
  "nbuf_print fuel fl w ob indent schema msgType =
    do_print fuel fl w \<lparr>ctx_schema = schema, ctx_indent = 0, ctx_indent_inc = indent\<rparr> ob msgType"

section \<open>Printed numbers are read back\<close>

text \<open>What may follow a number so that the lexer does not take it for a part of it.\<close>

definition ends_number :: "byte list \<Rightarrow> bool" where
  "ends_number rest \<longleftrightarrow> (case rest of [] \<Rightarrow> True | c # _ \<Rightarrow> \<not> isalnum c \<and> c \<noteq> DOT)"

lemma unat_digit: "d < 10 \<Longrightarrow> unat (of_nat (48 + d) :: byte) = 48 + d"
  by (simp add: unat_of_nat take_bit_nat_eq_self del: of_nat_add)

lemma isdigit_digit: "d < 10 \<Longrightarrow> isdigit (of_nat (48 + d))"
  using unat_digit [of d] by (simp add: isdigit_def word_le_nat_alt del: of_nat_add)

lemma digit_val_digit: "d < 10 \<Longrightarrow> digit_val (of_nat (48 + d)) = d"
  using unat_digit [of d] isdigit_digit [of d] by (simp del: of_nat_add)

lemma digits_val_append:
  "\<forall>c \<in> set xs. digit_val c < base \<Longrightarrow>
    digits_val base acc (xs @ ys) = digits_val base (digits_val base acc xs) ys"
  by (induction xs arbitrary: acc) auto

lemma decimal_digits: "c \<in> set (decimal n) \<Longrightarrow> isdigit c \<and> digit_val c < 10"
proof (induction n rule: decimal.induct)
  case (1 n)
  have d: "isdigit (of_nat (48 + n mod 10))" "digit_val (of_nat (48 + n mod 10)) < 10"
    using isdigit_digit [of "n mod 10"] digit_val_digit [of "n mod 10"] by (simp_all del: of_nat_add digit_val.simps)
  show ?case
  proof (cases "n < 10")
    case True
    then show ?thesis using "1.prems" d by (simp add: decimal.simps [of n] del: of_nat_add digit_val.simps)
  next
    case False
    then show ?thesis using "1.prems" "1.IH" d
      by (auto simp add: decimal.simps [of n] simp del: of_nat_add digit_val.simps)
  qed
qed

lemma digits_val_decimal: "digits_val 10 0 (decimal n) = n"
proof (induction n rule: decimal.induct)
  case (1 n)
  show ?case
  proof (cases "n < 10")
    case True
    then show ?thesis by (simp add: decimal.simps [of n] digit_val_digit del: of_nat_add digit_val.simps)
  next
    case False
    have d: "digit_val (of_nat (48 + n mod 10)) = n mod 10" by (rule digit_val_digit) simp
    have "digits_val 10 0 (decimal n) = digits_val 10 (n div 10) [of_nat (48 + n mod 10)]"
      using False 1 decimal_digits
      by (simp add: decimal.simps [of n] digits_val_append del: of_nat_add digit_val.simps digits_val.simps)
    then show ?thesis by (simp add: d del: of_nat_add digit_val.simps)
  qed
qed

lemma decimal_Cons: obtains c ds where "decimal n = c # ds" "c = 48 \<longrightarrow> ds = []" "isdigit c"
proof -
  have "decimal n \<noteq> [] \<and> (hd (decimal n) = 48 \<longrightarrow> decimal n = [48])"
  proof (induction n rule: decimal.induct)
    case (1 n)
    show ?case
    proof (cases "n < 10")
      case True
      then show ?thesis by (simp add: decimal.simps [of n])
    next
      case False
      then have "0 < n div 10" by (simp add: div_greater_zero_iff)
      then have "decimal (n div 10) \<noteq> [48]"
        using digits_val_decimal [of "n div 10"] by (auto simp: isdigit_def)
      then show ?thesis using 1 False by (auto simp: decimal.simps [of n])
    qed
  qed
  then show ?thesis using that decimal_digits [of "hd (decimal n)" n]
    by (cases "decimal n") auto
qed

lemma takeWhile_digits:
  assumes "\<forall>c \<in> set ds. isdigit c" and "ends_number rest"
  shows "takeWhile isdigit (ds @ rest) = ds" "dropWhile isdigit (ds @ rest) = rest"
proof -
  have "takeWhile isdigit rest = []" "dropWhile isdigit rest = rest"
    using assms(2) by (auto simp: ends_number_def isalnum_def split: list.splits)
  then show "takeWhile isdigit (ds @ rest) = ds" "dropWhile isdigit (ds @ rest) = rest"
    using assms(1) by (simp_all add: takeWhile_append2 dropWhile_append2)
qed

lemma int_split_decimal:
  assumes "ends_number rest"
  shows "int_split (decimal n @ rest) = (10, decimal n, rest)"
proof -
  obtain c ds where d: "decimal n = c # ds" "c = 48 \<longrightarrow> ds = []" by (rule decimal_Cons)
  then have ds: "\<forall>c \<in> set ds. isdigit c" using decimal_digits [of _ n] by simp
  show ?thesis
  proof (cases "c = 48")
    case True
    then show ?thesis using d assms
      by (auto simp: int_split_def ends_number_def isalnum_def isalpha_def isdigit_def isodigit_def
          word_le_nat_alt split: list.splits)
  next
    case False
    then show ?thesis using d takeWhile_digits [OF ds assms] by (simp add: int_split_def)
  qed
qed

lemma no_fraction:
  "ends_number rest \<Longrightarrow> fraction_split rest = (False, [], rest)"
  "ends_number rest \<Longrightarrow> exponent_split rest = (False, [], rest)"
  by (auto simp: fraction_split_def exponent_split_def ends_number_def isalnum_def isalpha_def split: list.splits)

lemma num_split_decimal:
  assumes "ends_number rest"
  shows "num_split MINUS (decimal n @ rest) = (10, False, MINUS # decimal n, rest)"
    and "decimal n = c # ds \<Longrightarrow> num_split c (ds @ rest) = (10, False, decimal n, rest)"
proof -
  show "num_split MINUS (decimal n @ rest) = (10, False, MINUS # decimal n, rest)"
    using int_split_decimal [OF assms] no_fraction [OF assms] by (simp add: num_split_def)
  assume d: "decimal n = c # ds"
  then have "c \<noteq> MINUS" using decimal_digits [of c n] by (auto simp: isdigit_def)
  then show "num_split c (ds @ rest) = (10, False, decimal n, rest)"
    using int_split_decimal [OF assms, of n] no_fraction [OF assms] d by (simp add: num_split_def)
qed

lemma magnitude_decimal: "magnitude 10 (decimal n) = n"
  using digits_val_decimal [of n] by (auto simp: magnitude_def simp del: digits_val.simps split: list.splits)

lemma lex_number:
  assumes "ends_number rest"
  shows "lex_spec strtod (l\<lparr>fin := decimal n @ rest\<rparr>)
      = (L_int (strtoull (decimal n) 10), l\<lparr>fin := rest, lex_u := U_int (strtoull (decimal n) 10)\<rparr>)"
    and "lex_spec strtod (l\<lparr>fin := MINUS # decimal n @ rest\<rparr>)
      = (L_int (strtoll_neg (decimal n) 10), l\<lparr>fin := rest, lex_u := U_int (strtoll_neg (decimal n) 10)\<rparr>)"
proof -
  obtain c ds where d: "decimal n = c # ds" "isdigit c" by (rule decimal_Cons)
  have c: "\<not> isspace c" "c \<notin> {NEWLINE, SLASH, HASH, QUOTE, MINUS}" "\<not> isspace MINUS"
    using d(2) by (auto simp: isspace_def isdigit_def word_le_nat_alt)
  have s: "skipspaces (l\<lparr>fin := c # ds @ rest\<rparr>) = (Some c, l\<lparr>fin := ds @ rest\<rparr>)"
    "skipspaces (l\<lparr>fin := MINUS # decimal n @ rest\<rparr>) = (Some MINUS, l\<lparr>fin := decimal n @ rest\<rparr>)"
    using c by (simp_all add: skipspaces_def)
  have r: "num_result strtod l1 (10, False, t, rest)
      = (Tok_INT, l1\<lparr>lex_u := U_int (if take 1 t = [MINUS] then strtoll_neg (tl t) 10 else strtoull t 10), fin := rest\<rparr>)"
    for t l1
    using assms by (auto simp: num_result_def ends_number_def Let_def split: list.splits)
  show "lex_spec strtod (l\<lparr>fin := decimal n @ rest\<rparr>)
      = (L_int (strtoull (decimal n) 10), l\<lparr>fin := rest, lex_u := U_int (strtoull (decimal n) 10)\<rparr>)"
    using c d s(1) num_split_decimal(2) [OF assms d(1)]
    by (simp add: lex_spec_eqs [of strtod "l\<lparr>fin := c # ds @ rest\<rparr>"] lex_num_def r)
  show "lex_spec strtod (l\<lparr>fin := MINUS # decimal n @ rest\<rparr>)
      = (L_int (strtoll_neg (decimal n) 10), l\<lparr>fin := rest, lex_u := U_int (strtoll_neg (decimal n) 10)\<rparr>)"
    using c d s(2) num_split_decimal(1) [OF assms, of n]
    by (simp add: lex_spec_eqs [of strtod "l\<lparr>fin := MINUS # c # ds @ rest\<rparr>"] lex_num_def r)
qed

lemma strtoull_decimal: "n < 2 ^ 64 \<Longrightarrow> strtoull (decimal n) 10 = of_nat n"
  by (simp add: strtoull_def magnitude_decimal)

lemma strtoll_decimal: "n \<le> 2 ^ 63 \<Longrightarrow> strtoll_neg (decimal n) 10 = - of_nat n"
  by (simp add: strtoll_neg_def magnitude_decimal)

lemma lex_printed_number:
  assumes "ends_number rest"
  shows "lex_spec strtod (l\<lparr>fin := fmt_u v @ rest\<rparr>) = (L_int v, l\<lparr>fin := rest, lex_u := U_int v\<rparr>)"
    and "lex_spec strtod (l\<lparr>fin := fmt_d v @ rest\<rparr>) = (L_int v, l\<lparr>fin := rest, lex_u := U_int v\<rparr>)"
proof -
  show "lex_spec strtod (l\<lparr>fin := fmt_u v @ rest\<rparr>) = (L_int v, l\<lparr>fin := rest, lex_u := U_int v\<rparr>)"
    using lex_number(1) [OF assms, of strtod "unat v" l] strtoull_decimal [of "unat v"] unat_u64_lt [of v]
    by (simp add: fmt_u_def)
  show "lex_spec strtod (l\<lparr>fin := fmt_d v @ rest\<rparr>) = (L_int v, l\<lparr>fin := rest, lex_u := U_int v\<rparr>)"
  proof (cases "sint v < 0")
    case True
    have "- (2 ^ 63) \<le> sint v" using sint_ge [of v] by simp
    then have "nat (- sint v) \<le> 2 ^ 63" by simp
    moreover have "- of_nat (nat (- sint v)) = v" using True by (simp add: of_nat_nat)
    ultimately show ?thesis using True lex_number(2) [OF assms, of strtod "nat (- sint v)" l]
      by (simp add: fmt_d_def strtoll_decimal)
  next
    case False
    have "sint v < 2 ^ 63" using sint_lt [of v] by simp
    then have "nat (sint v) < 2 ^ 64" by simp
    moreover have "of_nat (nat (sint v)) = v" using False by (simp add: of_nat_nat)
    ultimately show ?thesis using False lex_number(1) [OF assms, of strtod "nat (sint v)" l]
      by (simp add: fmt_d_def strtoull_decimal)
  qed
qed

lemma length_decimal_log: "n < 10 ^ Suc k \<Longrightarrow> length (decimal n) \<le> Suc k"
proof (induction k arbitrary: n)
  case 0
  then show ?case by (simp add: decimal.simps [of n])
next
  case (Suc k)
  show ?case
  proof (cases "n < 10")
    case False
    have "n div 10 < 10 ^ Suc k" using Suc.prems by (simp add: div_less_iff_less_mult)
    then show ?thesis using Suc.IH [of "n div 10"] False by (simp add: decimal.simps [of n])
  qed (simp add: decimal.simps [of n])
qed

lemma printed_length: "length (fmt_d v) \<le> 21" "length (fmt_u v) \<le> 20"
proof -
  have u: "length (decimal n) \<le> 20" if "n < 2 ^ 64" for n
    using length_decimal_log [of n 19] that by simp
  show "length (fmt_u v) \<le> 20" using u [of "unat v"] unat_u64_lt [of v] by (simp add: fmt_u_def)
  have "- (2 ^ 63) \<le> sint v" "sint v < 2 ^ 63" using sint_ge [of v] sint_lt [of v] by simp_all
  then have "nat (- sint v) < 2 ^ 64" "nat (sint v) < 2 ^ 64" by simp_all
  from u [OF this(1)] u [OF this(2)] show "length (fmt_d v) \<le> 21" by (simp add: fmt_d_def)
qed

lemma lexes_toE:
  assumes "lexes_to r (x, l2)"
  obtains tok l1 where "r = Some (tok, l1)" "reads_as tok (lex_u l1) x" "fin l1 = fin l2"
    "lineno l1 = lineno l2" "errors l1 = errors l2"
proof -
  from assms obtain tok l1 where r: "r = Some (tok, l1)" "reads_as tok (lex_u l1) x" "forget_u l1 = forget_u l2"
    by (auto simp: lexes_to_def)
  then show ?thesis using that by (cases l1; cases l2) (simp add: forget_u_def)
qed

lemma lex_number_token:
  assumes "all_granted al" and "length rest < 2 ^ 59" and "ends_number rest"
    and "text = fmt_d v \<or> text = fmt_u v"
  shows "\<exists>l1. nbuf_lex al strtod (l\<lparr>fin := text @ rest\<rparr>) = Some (Tok_INT, l1) \<and> lex_u l1 = U_int v \<and>
    fin l1 = rest \<and> lineno l1 = lineno l \<and> errors l1 = errors l"
proof -
  have len: "length (text @ rest) < 2 ^ 60" using assms(2,4) printed_length [of v] by auto
  have "lexes_to (nbuf_lex al strtod (l\<lparr>fin := text @ rest\<rparr>)) (L_int v, l\<lparr>fin := rest, lex_u := U_int v\<rparr>)"
    using lex_refines [OF assms(1), of "l\<lparr>fin := text @ rest\<rparr>" strtod] len lex_printed_number [OF assms(3), of strtod v l] assms(4)
    by auto
  then show ?thesis
  proof (rule lexes_toE)
    fix tok l1
    assume "nbuf_lex al strtod (l\<lparr>fin := text @ rest\<rparr>) = Some (tok, l1)" "reads_as tok (lex_u l1) (L_int v)"
      "fin l1 = fin (l\<lparr>fin := rest, lex_u := U_int v\<rparr>)" "lineno l1 = lineno (l\<lparr>fin := rest, lex_u := U_int v\<rparr>)"
      "errors l1 = errors (l\<lparr>fin := rest, lex_u := U_int v\<rparr>)"
    then show ?thesis by (cases tok; cases "lex_u l1") auto
  qed
qed

text \<open>
  Claim C15.  A printed integer is read back: whatever the value, what \<^verbatim>\<open>%d\<close> and \<^verbatim>\<open>%u\<close> print for a field
  is lexed as one integer token of that value, without an error, as long as no letter, digit or dot
  follows; the printer always writes a newline, a space or nothing after it.
\<close>

theorem number_text_round_trip:
  assumes "all_granted al" and "length rest < 2 ^ 59" and "ends_number rest"
    and "text = fmt_d v \<or> text = fmt_u v"
  shows "\<exists>l1. nbuf_lex al strtod (l\<lparr>fin := text @ rest\<rparr>) = Some (Tok_INT, l1) \<and> lex_u l1 = U_int v \<and>
    fin l1 = rest \<and> lineno l1 = lineno l \<and> errors l1 = errors l"
  using assms by (rule lex_number_token)

theorem number_text_round_trip_witness:
  "\<exists>l1. nbuf_lex roomy (\<lambda>_. 0) (nbuf_lex_init [] \<lparr>fin := fmt_d (- 5) @ [NEWLINE]\<rparr>) = Some (Tok_INT, l1) \<and>
    lex_u l1 = U_int (- 5)"
  using number_text_round_trip [of roomy "[NEWLINE]" "fmt_d (- 5)" "- 5" "\<lambda>_. 0" "nbuf_lex_init []"]
  by (auto simp: ends_number_def isalnum_def isalpha_def isdigit_def)

section \<open>Printed strings are read back\<close>

text \<open>
  The characters that survive printing and lexing: the printable ones but the backslash, which is
  printed unescaped, and those whose hexadecimal escape has no letter, which the lexer gets wrong.
\<close>

definition readable :: "byte \<Rightarrow> bool" where
  "readable c \<longleftrightarrow> (if isprint c then c \<noteq> BACKSLASH else unat c div 16 < 10 \<and> unat c mod 16 < 10)"

text \<open>No further literal follows, which the lexer would join to the string.\<close>

definition no_literal :: "byte list \<Rightarrow> bool" where
  "no_literal rest \<longleftrightarrow> (case dropWhile isspace rest of [] \<Rightarrow> True | c # _ \<Rightarrow> c \<noteq> QUOTE)"

lemma hex_digit_ok: "d < 10 \<Longrightarrow> isxdigit (hex_digit d) \<and> unat (hex_digit d) = 48 + d"
  using isdigit_digit [of d] unat_digit [of d] by (simp add: hex_digit_def isxdigit_def del: of_nat_add)

lemma str_spec_dumped:
  assumes "dumpstr_from s n = Some body" and "\<forall>c \<in> set (take n s). readable c"
  shows "str_spec QUOTE (l\<lparr>fin := body @ QUOTE # rest\<rparr>) = (take n s, l\<lparr>fin := rest\<rparr>)"
  using assms
proof (induction s n arbitrary: body rule: dumpstr_from.induct)
  case (3 ch s n)
  obtain b where b: "dumpstr_from s n = Some b"
    "body = (if ch = QUOTE then [BACKSLASH, QUOTE] else if isprint ch then [ch]
             else [BACKSLASH, 120] @ fmt_02x ch) @ b"
    using "3.prems"(1) by (auto split: bind_splits)
  have IH: "str_spec QUOTE (l\<lparr>fin := b @ QUOTE # rest\<rparr>) = (take n s, l\<lparr>fin := rest\<rparr>)"
    using "3.IH" [OF b(1)] "3.prems"(2) by simp
  have r: "readable ch" using "3.prems"(2) by simp
  consider "ch = QUOTE" | "ch \<noteq> QUOTE" "isprint ch" | "ch \<noteq> QUOTE" "\<not> isprint ch" by blast
  then show ?case
  proof cases
    case 1
    then show ?thesis using b(2) IH by (simp add: str_spec_escaped_quote)
  next
    case 2
    then have "ch \<noteq> BACKSLASH" "ch \<noteq> NEWLINE" using r by (auto simp: readable_def isprint_def)
    then show ?thesis using 2 b(2) IH by (simp add: str_spec_plain)
  next
    case 3
    let ?a = "unat ch div 16" and ?b = "unat ch mod 16"
    have d: "?a < 10" "?b < 10" using r 3 by (simp_all add: readable_def)
    then have h: "isxdigit (hex_digit ?a)" "isxdigit (hex_digit ?b)"
      "(unat (hex_digit ?a) - 48) * 16 + (unat (hex_digit ?b) - 48) = unat ch"
      using hex_digit_ok by simp_all
    show ?thesis using 3 b(2) IH str_spec_hex [OF h(1,2), of "b @ QUOTE # rest" l]
      unfolding h(3) by (simp add: fmt_02x_def)
  qed
qed (simp_all add: str_spec_end)

lemma lex_dumped_string:
  assumes "dumpstr s n = Some t" and "\<forall>c \<in> set (take n s). readable c" and "no_literal rest"
  obtains l1 where "lex_spec strtod (l\<lparr>fin := t @ rest\<rparr>) = (L_str (take n s), l1)"
    "fin l1 = dropWhile isspace rest" "errors l1 = errors l"
proof -
  obtain b where b: "dumpstr_from s n = Some b" "t = QUOTE # b @ [QUOTE]"
    using assms(1) by (auto simp: dumpstr_def split: bind_splits)
  obtain ch l2 where sk: "skipspaces (l\<lparr>fin := rest\<rparr>) = (ch, l2)" by (cases "skipspaces (l\<lparr>fin := rest\<rparr>)")
  then have l2: "fin (ungetc ch l2) = dropWhile isspace rest" "errors (ungetc ch l2) = errors l" "ch \<noteq> Some QUOTE"
    using assms(3) by (auto simp: spaces_spec_eq spaces_spec_def no_literal_def ungetc_def Let_def
        simp del: dropWhile_eq_Nil_conv split: list.splits)
  have "pieces_spec QUOTE (l\<lparr>fin := b @ QUOTE # rest\<rparr>) = (take n s, ungetc ch l2)"
    using str_spec_dumped [OF b(1) assms(2), of rest l] sk l2(3)
    by (subst pieces_spec.simps) simp
  moreover have "skipspaces (l\<lparr>fin := QUOTE # b @ QUOTE # rest\<rparr>) = (Some QUOTE, l\<lparr>fin := b @ QUOTE # rest\<rparr>)"
    by (simp add: skipspaces_def isspace_def)
  ultimately have "lex_spec strtod (l\<lparr>fin := t @ rest\<rparr>) = (L_str (take n s), ungetc ch l2)"
    by (simp add: b(2) lex_spec_eqs [of strtod "l\<lparr>fin := QUOTE # b @ QUOTE # rest\<rparr>"])
  then show ?thesis using that l2 by blast
qed

lemma dumped_length: "dumpstr s n = Some t \<Longrightarrow> length t \<le> 4 * n + 2 \<and> n \<le> length s"
proof -
  have "length b \<le> 4 * n \<and> n \<le> length s" if "dumpstr_from s n = Some b" for b
    using that
    by (induction s n arbitrary: b rule: dumpstr_from.induct)
      (fastforce simp: fmt_02x_def split: bind_splits if_splits)+
  then show "dumpstr s n = Some t \<Longrightarrow> length t \<le> 4 * n + 2 \<and> n \<le> length s"
    by (fastforce simp: dumpstr_def split: bind_splits)
qed

text \<open>
  Claim C14.  A printed string is read back: the lexer returns the \<open>n\<close> characters \<^verbatim>\<open>dumpstr\<close> has printed,
  with a NUL, for a string of \<open>readable\<close> characters.  Those that are not, the backslash and the bytes
  with a letter in their hexadecimal escape, are printed so that they do not read back.
\<close>

theorem string_text_round_trip:
  assumes "all_granted al" and "dumpstr s n = Some t" and "\<forall>c \<in> set (take n s). readable c"
    and "no_literal rest" and "n < 2 ^ 57" and "length rest < 2 ^ 59"
  shows "\<exists>l1 b. nbuf_lex al strtod (l\<lparr>fin := t @ rest\<rparr>) = Some (Tok_STR, l1) \<and> lex_u l1 = U_str b \<and>
    buf_data b = take n s @ [0] \<and> fin l1 = dropWhile isspace rest \<and> errors l1 = errors l"
proof -
  have len: "length (t @ rest) < 2 ^ 60" using assms(5,6) dumped_length [OF assms(2)] by simp
  obtain l2 where l2: "lex_spec strtod (l\<lparr>fin := t @ rest\<rparr>) = (L_str (take n s), l2)"
    "fin l2 = dropWhile isspace rest" "errors l2 = errors l"
    by (rule lex_dumped_string [OF assms(2-4)])
  have "lexes_to (nbuf_lex al strtod (l\<lparr>fin := t @ rest\<rparr>)) (L_str (take n s), l2)"
    using lex_refines [OF assms(1), of "l\<lparr>fin := t @ rest\<rparr>" strtod] len l2(1) by simp
  then obtain tok l1 where r: "nbuf_lex al strtod (l\<lparr>fin := t @ rest\<rparr>) = Some (tok, l1)"
    "reads_as tok (lex_u l1) (L_str (take n s))" "fin l1 = fin l2" "errors l1 = errors l2"
    by (rule lexes_toE)
  then show ?thesis using l2(2,3) by (cases tok; cases "lex_u l1") auto
qed

theorem string_text_round_trip_witness:
  "\<exists>l1 b. nbuf_lex roomy (\<lambda>_. 0)
      (nbuf_lex_init []\<lparr>fin := [QUOTE, 97, BACKSLASH, QUOTE, BACKSLASH, 120, 48, 50, QUOTE, NEWLINE]\<rparr>)
      = Some (Tok_STR, l1) \<and> lex_u l1 = U_str b \<and> buf_data b = [97, QUOTE, 2, 0]"
proof -
  have "dumpstr [97, QUOTE, 2] 3 = Some [QUOTE, 97, BACKSLASH, QUOTE, BACKSLASH, 120, 48, 50, QUOTE]"
    by (simp add: dumpstr_def numeral_3_eq_3 isprint_def fmt_02x_def hex_digit_def)
  from string_text_round_trip [OF roomy_all this, of "[NEWLINE]" "\<lambda>_. 0" "nbuf_lex_init []"] show ?thesis
    by (auto simp: readable_def isprint_def no_literal_def isspace_def)
qed

text \<open>A backslash is printed as it is, and escapes the closing quote when the string is read back.\<close>

lemma printed_backslash_escapes_quote:
  "dumpstr [BACKSLASH] 1 = Some [QUOTE, BACKSLASH, QUOTE]"
  "str_spec QUOTE (l\<lparr>fin := [BACKSLASH, QUOTE]\<rparr>) = ([QUOTE], error String_not_closed (l\<lparr>fin := []\<rparr>))"
proof -
  show "dumpstr [BACKSLASH] 1 = Some [QUOTE, BACKSLASH, QUOTE]"
    by (simp add: dumpstr_def isprint_def)
  have "str_spec QUOTE (l\<lparr>fin := []\<rparr>) = ([], error String_not_closed (l\<lparr>fin := []\<rparr>))"
    by (subst str_spec.simps) (simp add: getc_def)
  then show "str_spec QUOTE (l\<lparr>fin := [BACKSLASH, QUOTE]\<rparr>) = ([QUOTE], error String_not_closed (l\<lparr>fin := []\<rparr>))"
    by (simp add: str_spec_escaped_quote)
qed

section \<open>Printing any buffer\<close>

text \<open>
  The objects the printer meets.  It follows the pointers of the root, which it prints without
  looking at the number of elements, and of the elements of what it has reached.
\<close>

inductive met :: "nbuf_buffer \<Rightarrow> size_t \<Rightarrow> nbuf_obj \<Rightarrow> bool" for b pos where
  met_root: "nbuf_obj_init b (null_obj a) pos = Some r \<Longrightarrow> met b pos r"
| met_elem: "met b pos r \<Longrightarrow> met b pos (nbuf_get_elem r i)"
| met_ptr: "met b pos r \<Longrightarrow> nelem r \<noteq> 0 \<or> nbuf_obj_init b (null_obj (obj_buf r)) pos = Some r \<Longrightarrow>
    nbuf_get_ptr_plain b r i = Some rr \<Longrightarrow> met b pos rr"

lemma met_reached: "met b pos r \<Longrightarrow> reached b pos r"
  by (induction rule: met.induct) (blast intro: reached.intros)+

abbreviation follows :: "nbuf_buffer \<Rightarrow> size_t \<Rightarrow> nbuf_obj \<Rightarrow> bool" where
  "follows b pos r \<equiv> met b pos r \<and> (nelem r \<noteq> 0 \<or> nbuf_obj_init b (null_obj (obj_buf r)) pos = Some r)"

text \<open>
  The printer steps through a vector by moving the base of the whole vector: \<open>same_elem\<close> says
  that it prints the members of \<open>r\<close>, and a \<open>view\<close> is such an object whose members are in the buffer.
\<close>

definition same_elem :: "nat \<Rightarrow> nbuf_obj \<Rightarrow> nbuf_obj \<Rightarrow> bool" where
  "same_elem a r ob \<longleftrightarrow> obj_buf ob = a \<and> obj_buf r = a \<and> obj_base r = obj_base ob \<and> ssize r = ssize ob \<and>
    psize r = psize ob"

definition view :: "nbuf_buffer \<Rightarrow> size_t \<Rightarrow> nat \<Rightarrow> nbuf_obj \<Rightarrow> bool" where
  "view b pos a ob \<longleftrightarrow> (\<exists>r. follows b pos r \<and> same_elem a r ob) \<and>
    unat (obj_base ob) + esize ob \<le> unat (buf_len b)"

definition plain_buffer :: "world \<Rightarrow> nat \<Rightarrow> nbuf_buffer \<Rightarrow> bool" where
  "plain_buffer w a b \<longleftrightarrow> bufs w a = Some b \<and> buf_wf b \<and> buf_ops b \<noteq> builder_ops"

text \<open>\<^verbatim>\<open>spec.txt\<close>: pointers lead to objects further on.\<close>

definition forward :: "nbuf_buffer \<Rightarrow> size_t \<Rightarrow> bool" where
  "forward b pos \<longleftrightarrow> (\<forall>r i rr. follows b pos r \<and> nbuf_get_ptr_plain b r i = Some rr \<and> nelem rr \<noteq> 0 \<longrightarrow>
    unat (obj_base r) < unat (obj_base rr))"

text \<open>
  A root without elements whose header declares scalars past the end of the memory, or pointers past the
  end of the message.
\<close>

definition root_overruns :: "nbuf_buffer \<Rightarrow> nbuf_obj \<Rightarrow> bool" where
  "root_overruns b r \<longleftrightarrow> nelem r = 0 \<and>
    (ssize r \<noteq> 0 \<and> length (buf_base b) < unat (obj_base r) + unat (ssize r) \<or>
     psize r \<noteq> 0 \<and> past_end b r 0 (esize r))"

text \<open>A run that aborts exactly if \<open>P\<close>, provided \<open>e\<close> says that there was enough fuel.\<close>

definition verdict :: "bool \<Rightarrow> bool \<Rightarrow> 'a run \<Rightarrow> bool" where
  "verdict e P r \<longleftrightarrow> (r = Aborts \<longrightarrow> P) \<and> (e \<longrightarrow> (if P then r = Aborts else \<exists>x. r = Run x))"

lemma verdict_simps [simp]:
  "verdict e P Aborts \<longleftrightarrow> P" "verdict e P (Run x) \<longleftrightarrow> (e \<longrightarrow> \<not> P)" "verdict e P No_fuel \<longleftrightarrow> \<not> e"
  by (cases P; simp add: verdict_def)+

lemma verdict_False [simp]: "verdict e False r \<longleftrightarrow> good e r"
  by (cases r) simp_all

lemma verdict_bind: "good e r \<Longrightarrow> (\<And>x. r = Run x \<Longrightarrow> verdict e P (f x)) \<Longrightarrow> verdict e P (bind_run r f)"
  by (cases r) simp_all

lemma verdict_then: "verdict e P r \<Longrightarrow> verdict e P (bind_run r (\<lambda>x. Run (f x)))"
  by (cases r) simp_all

lemma view_elem:
  assumes "buf_wf b" and "met b pos oo" and "obj_buf oo = a" and "psize oo \<noteq> 0" and "j < unat (nelem oo)"
  shows "view b pos a (oo\<lparr>obj_base := obj_base oo + of_nat j * nbuf_elemsz oo\<rparr>)"
    and "unat (obj_base oo) \<le> unat (obj_base oo + of_nat j * nbuf_elemsz oo)"
proof -
  have j: "unat (of_nat j :: size_t) = j" using assms(5) unat_u32_lt [of "nelem oo"] by (intro unat_of_nat_64) simp
  have e: "esize oo \<noteq> 0" using assms(4) by (simp add: esize_def unat_eq_0)
  let ?r = "nbuf_get_elem oo (of_nat j)"
  have r: "?r = oo\<lparr>obj_base := obj_base oo + of_nat j * nbuf_elemsz oo, nelem := 1\<rparr>"
    using e j assms(5) by (simp add: get_elem_unfold)
  have m: "met b pos ?r" using assms(2) by (rule met_elem)
  have "obj_at b ?r" using reached_at [OF assms(1) met_reached [OF m]] .
  then have "\<not> past_end b ?r 0 (esize ?r)" using r by (intro obj_at_inside) simp_all
  then show "view b pos a (oo\<lparr>obj_base := obj_base oo + of_nat j * nbuf_elemsz oo\<rparr>)"
    using assms(3) m r by (fastforce simp: view_def same_elem_def past_end_def esize_def)
  have "nelem oo \<noteq> 0" using assms(5) by auto
  then have "unat (obj_base oo) + obj_bytes oo \<le> unat (buf_len b)"
    using reached_ok [OF assms(1) met_reached [OF assms(2)]] by (simp add: obj_ok_def in_bounds_def)
  from unat_base_add [OF assms(1) this, of "of_nat j * nbuf_elemsz oo"]
  show "unat (obj_base oo) \<le> unat (obj_base oo + of_nat j * nbuf_elemsz oo)"
    using unat_elem_offs [OF e, of "of_nat j"] j assms(5) by simp
qed

lemma dumpstr_ok: "n \<le> length s \<Longrightarrow> dumpstr s n \<noteq> None"
proof -
  have "n \<le> length s \<Longrightarrow> dumpstr_from s n \<noteq> None"
    by (induction s n rule: dumpstr_from.induct) auto
  then show "n \<le> length s \<Longrightarrow> dumpstr s n \<noteq> None" by (auto simp: dumpstr_def)
qed

lemma dump_ok:
  assumes "plain_buffer w a b" and "obj_buf ob = a" and "unat (obj_base ob) + n \<le> unat (buf_len b)"
  shows "do { s \<leftarrow> mem_at w ob; dumpstr s n } \<noteq> None"
proof -
  have "unat (obj_base ob) + n \<le> length (buf_base b)"
    using assms by (simp add: plain_buffer_def buf_wf_def)
  then show ?thesis using assms dumpstr_ok by (simp add: mem_at_def plain_buffer_def)
qed

lemma bounds_ok_eq:
  assumes "plain_buffer w a b" and "obj_buf ob = a"
  shows "bounds_ok w ob = Some (unat (obj_base ob) + unat (ssize ob) \<le> unat (buf_len b))"
  using assms bounds_check_iff [of b "ucast (ssize ob)" "obj_base ob"] unat_u16_lt [of "ssize ob"]
  by (simp add: bounds_ok_def plain_buffer_def)

lemma raw_elems_good:
  assumes pb: "plain_buffer w a b" and "obj_buf x = a"
    and rec: "\<And>j. psize x \<noteq> 0 \<Longrightarrow> j < k \<Longrightarrow>
      good e (rec (deeper c) (x\<lparr>obj_base := obj_base x + of_nat j * nbuf_elemsz x\<rparr>))"
  shows "good e (raw_elems rec w c i k x)"
  using assms(2,3)
proof (induction k arbitrary: x)
  case (Suc k)
  have "good e (raw_elems rec w c i k (x\<lparr>obj_base := obj_base x + nbuf_elemsz x\<rparr>))"
  proof (rule Suc.IH)
    fix j assume "psize (x\<lparr>obj_base := obj_base x + nbuf_elemsz x\<rparr>) \<noteq> 0" "j < k"
    then show "good e (rec (deeper c) (x\<lparr>obj_base := obj_base x + nbuf_elemsz x,
        obj_base := obj_base (x\<lparr>obj_base := obj_base x + nbuf_elemsz x\<rparr>) +
          of_nat j * nbuf_elemsz (x\<lparr>obj_base := obj_base x + nbuf_elemsz x\<rparr>)\<rparr>))"
      using Suc.prems(2) [of "Suc j"] by (simp add: nbuf_elemsz_def nbuf_ptr_offs_def algebra_simps)
  qed (use Suc.prems in simp)
  moreover have "good e (rec (deeper c) x)" if "psize x \<noteq> 0" using Suc.prems(2) [of 0] that by simp
  moreover have "do { s \<leftarrow> mem_at w x; dumpstr s (unat (ssize x)) } \<noteq> None"
    if "unat (obj_base x) + unat (ssize x) \<le> unat (buf_len b)"
    using dump_ok [OF pb Suc.prems(1) that] .
  ultimately show ?case
    using bounds_ok_eq [OF pb Suc.prems(1)] by (auto intro!: good_bind)
qed simp

lemma get_ptr_same:
  assumes "plain_buffer w a b" and "same_elem a r ob"
  shows "nbuf_get_ptr w ob i = nbuf_get_ptr_plain b r i"
proof -
  have eq: "obj_buf r = obj_buf ob" "obj_base r = obj_base ob" "psize r = psize ob"
    "nbuf_ptr_offs r i = nbuf_ptr_offs ob i"
    using assms(2) by (simp_all add: nbuf_ptr_offs_def same_elem_def)
  have "nbuf_get_ptr_plain b r i = nbuf_get_ptr_plain b ob i"
    unfolding nbuf_get_ptr_plain_def nbuf_get_rel_ptr_def eq ..
  then show ?thesis using assms by (simp add: nbuf_get_ptr_def plain_buffer_def same_elem_def)
qed

lemma ptr_reads_iff:
  assumes "plain_buffer w a b" and "follows b pos r" and "same_elem a r ob"
  shows "(\<exists>i < unat (psize ob). nbuf_get_ptr w ob (of_nat i) = None) \<longleftrightarrow>
    nelem r = 0 \<and> psize ob \<noteq> 0 \<and> past_end b r 0 (esize r)"
proof -
  have wf: "buf_wf b" using assms(1) by (simp add: plain_buffer_def)
  have at: "obj_at b r" using reached_at [OF wf met_reached] assms(2) by blast
  have p: "psize r = psize ob" using assms(3) by (simp add: same_elem_def)
  have u: "unat (of_nat i :: size_t) = i" if "i < unat (psize ob)" for i
    using that unat_u16_lt [of "psize ob"] by (intro unat_of_nat_64) simp
  have eq: "nbuf_get_ptr w ob (of_nat i) = None \<longleftrightarrow> nelem r = 0 \<and> past_end b r (unat (ssize r) + 4 * i) 4"
    if "i < unat (psize ob)" for i
    using that u [OF that] p by (simp add: get_ptr_same [OF assms(1,3)] get_ptr_None_iff [OF wf at])
  have last: "past_end b r (unat (ssize r) + 4 * (unat (psize ob) - 1)) 4 \<longleftrightarrow> past_end b r 0 (esize r)"
    if "0 < unat (psize ob)"
    using that p by (auto simp: past_end_def esize_def)
  have "past_end b r 0 (esize r)" if "past_end b r (unat (ssize r) + 4 * i) 4" "i < unat (psize ob)" for i
    using that p by (auto simp: past_end_def esize_def)
  moreover have "\<exists>i < unat (psize ob). past_end b r (unat (ssize r) + 4 * i) 4"
    if "psize ob \<noteq> 0" "past_end b r 0 (esize r)"
    using that last by (intro exI [of _ "unat (psize ob) - 1"]) (simp add: unat_gt_0)
  ultimately show ?thesis using eq by (auto simp: unat_gt_0)
qed

lemma as_string_pointers: "psize (as_string p) \<noteq> 0 \<Longrightarrow> as_string p = p"
  by (auto simp: as_string_def)

lemma as_string_buf [simp]: "obj_buf (as_string p) = obj_buf p"
  by (simp add: as_string_def)

lemma raw_ptrs_verdict:
  assumes pb: "plain_buffer w a b" and f: "follows b pos r" and m: "same_elem a r ob"
    and rec: "\<And>x. view b pos a x \<Longrightarrow> (forward b pos \<Longrightarrow> unat (obj_base ob) < unat (obj_base x)) \<Longrightarrow>
      good e (rec (deeper c) x)"
  shows "verdict e (\<exists>i \<in> set is. nbuf_get_ptr w ob (of_nat i) = None) (raw_ptrs rec w c ob is)"
proof (induction "is")
  case (Cons i "is")
  have wf: "buf_wf b" using pb by (simp add: plain_buffer_def)
  show ?case
  proof (cases "nbuf_get_ptr w ob (of_nat i)")
    case (Some p)
    then have p: "nbuf_get_ptr_plain b r (of_nat i) = Some p" by (simp add: get_ptr_same [OF pb m])
    then have "met b pos p" "obj_buf p = a"
      using f m get_ptr_at(2) [OF wf p] by (auto intro: met_ptr simp: same_elem_def)
    note pm = this
    have "good e (raw_elems rec w c i (unat (nelem (as_string p))) (as_string p))"
    proof (rule raw_elems_good [OF pb])
      fix j assume j: "psize (as_string p) \<noteq> 0" "j < unat (nelem (as_string p))"
      then have s: "as_string p = p" "psize p \<noteq> 0" "j < unat (nelem p)" "nelem p \<noteq> 0"
        using as_string_pointers [of p] by auto
      note x = view_elem [OF wf pm s(2,3)]
      have "unat (obj_base ob) < unat (obj_base p)" if "forward b pos"
        using that p f m s(4) unfolding forward_def same_elem_def by fastforce
      then show "good e (rec (deeper c) (as_string p\<lparr>obj_base := obj_base (as_string p) +
          of_nat j * nbuf_elemsz (as_string p)\<rparr>))"
        unfolding s(1) using x(2) by (intro rec [OF x(1)]) fastforce
    qed (use pm in simp)
    then show ?thesis using Some Cons.IH by (auto simp: Let_def intro!: verdict_bind verdict_then)
  qed simp
qed simp

lemma do_print_notype_good:
  assumes pb: "plain_buffer w a b" and v: "view b pos a ob"
  shows "good (forward b pos \<and> unat (buf_len b) < unat (obj_base ob) + fuel) (do_print_notype fuel w c ob)"
  using v
proof (induction fuel arbitrary: c ob)
  case 0
  then show ?case by (force simp: view_def)
next
  case (Suc fuel)
  let ?e = "forward b pos \<and> unat (buf_len b) < unat (obj_base ob) + Suc fuel"
  have wf: "buf_wf b" using pb by (simp add: plain_buffer_def)
  obtain r where r: "follows b pos r" "same_elem a r ob" and le: "unat (obj_base ob) + esize ob \<le> unat (buf_len b)"
    using Suc.prems by (auto simp: view_def)
  have "\<not> past_end b r 0 (esize r)" using r(2) le by (simp add: past_end_def esize_def same_elem_def)
  then have p: "\<not> (\<exists>i \<in> set [0..<unat (psize ob)]. nbuf_get_ptr w ob (of_nat i) = None)"
    using ptr_reads_iff [OF pb r] by auto
  have "verdict ?e (\<exists>i \<in> set [0..<unat (psize ob)]. nbuf_get_ptr w ob (of_nat i) = None)
      (raw_ptrs (do_print_notype fuel w) w c ob [0..<unat (psize ob)])"
  proof (rule raw_ptrs_verdict [OF pb r])
    fix x assume x: "view b pos a x" and fw: "forward b pos \<Longrightarrow> unat (obj_base ob) < unat (obj_base x)"
    show "good ?e (do_print_notype fuel w (deeper c) x)"
      by (rule good_mono [OF Suc.IH [OF x]]) (use fw in auto)
  qed
  then have "good ?e (raw_ptrs (do_print_notype fuel w) w c ob [0..<unat (psize ob)])"
    by (simp only: p verdict_False)
  moreover have "unat (obj_base ob) + unat (ssize ob) \<le> unat (buf_len b)" using le by (simp add: esize_def)
  then have "do { s \<leftarrow> mem_at w ob; dumpstr s (unat (ssize ob)) } \<noteq> None"
    using dump_ok [OF pb] r(2) by (simp add: same_elem_def)
  then have "do { s \<leftarrow> mem_at w ob; t \<leftarrow> dumpstr s (unat (ssize ob)); Some (f t) } \<noteq> None" for f :: "byte list \<Rightarrow> byte list"
    by (auto simp: bind_eq_None_conv)
  ultimately show ?case by (auto intro!: good_bind split: if_splits)
qed

text \<open>The scalars of the root are dumped from the memory the buffer points to.\<close>

lemma dumpstr_None_iff: "dumpstr s n = None \<longleftrightarrow> length s < n"
proof (cases "dumpstr s n")
  case None
  then show ?thesis using dumpstr_ok [of n s] not_less [of "length s" n] by blast
next
  case (Some t)
  then show ?thesis using dumped_length [OF Some] by auto
qed

lemma dump_None_iff:
  assumes "plain_buffer w a b" and "obj_buf r = a" and "unat (obj_base r) \<le> unat (buf_len b)"
  shows "do { s \<leftarrow> mem_at w r; t \<leftarrow> dumpstr s n; Some (f t) } = None \<longleftrightarrow>
    length (buf_base b) < unat (obj_base r) + n"
proof -
  have "unat (obj_base r) \<le> length (buf_base b)" using assms by (simp add: plain_buffer_def buf_wf_def)
  then show ?thesis
    using assms by (auto simp: mem_at_def plain_buffer_def Option.bind_eq_None_conv dumpstr_None_iff)
qed

lemma root_verdict:
  assumes pb: "plain_buffer w a b" and r: "nbuf_obj_init b (null_obj a) pos = Some r"
  shows "verdict (forward b pos \<and> unat (buf_len b) \<le> unat (obj_base r) + fuel) (root_overruns b r)
    (do_print_notype (Suc fuel) w c r)"
proof -
  let ?e = "forward b pos \<and> unat (buf_len b) \<le> unat (obj_base r) + fuel"
  let ?past = "psize r \<noteq> 0 \<and> past_end b r 0 (esize r)"
  have wf: "buf_wf b" using pb by (simp add: plain_buffer_def)
  have a: "obj_buf r = a" and at: "obj_at b r" using obj_init_at [OF wf, of a pos] r by auto
  have f: "follows b pos r" and m: "same_elem a r r" using r a by (auto simp: same_elem_def intro: met_root)
  have full: "\<not> past_end b r 0 (esize r)" if "nelem r \<noteq> 0" using obj_at_inside [OF at that] by simp
  have len: "unat (obj_base r) \<le> unat (buf_len b)" "unat (buf_len b) \<le> length (buf_base b)"
    using at wf by (simp_all add: obj_at_def buf_wf_def)
  have ps: "verdict ?e (\<exists>i \<in> set [0..<unat (psize r)]. nbuf_get_ptr w r (of_nat i) = None)
      (raw_ptrs (do_print_notype fuel w) w c r [0..<unat (psize r)])"
  proof (rule raw_ptrs_verdict [OF pb f m])
    fix x assume x: "view b pos a x" and fw: "forward b pos \<Longrightarrow> unat (obj_base r) < unat (obj_base x)"
    show "good ?e (do_print_notype fuel w (deeper c) x)"
      by (rule good_mono [OF do_print_notype_good [OF pb x]]) (use fw in auto)
  qed
  moreover have "(\<exists>i \<in> set [0..<unat (psize r)]. nbuf_get_ptr w r (of_nat i) = None) \<longleftrightarrow> ?past"
    using ptr_reads_iff [OF pb f m] full by auto
  ultimately have ps: "verdict ?e ?past (raw_ptrs (do_print_notype fuel w) w c r [0..<unat (psize r)])" by simp
  note own = dump_None_iff [OF pb a len(1), of "unat (ssize r)"
      "\<lambda>t. do_indent (ctx_indent c) @ [48, 58, 32] @ t @ [nl c]"]
  show ?thesis
  proof (cases "ssize r \<noteq> 0 \<and> length (buf_base b) < unat (obj_base r) + unat (ssize r)")
    case True
    then have "nelem r = 0" using full len by (force simp: past_end_def esize_def)
    then have "root_overruns b r" using True by (simp add: root_overruns_def)
    moreover have "of_opt (do { s \<leftarrow> mem_at w r; t \<leftarrow> dumpstr s (unat (ssize r));
        Some (do_indent (ctx_indent c) @ [48, 58, 32] @ t @ [nl c]) }) = Aborts"
      using True own by (simp only: of_opt_eq)
    ultimately show ?thesis using True by (simp add: word_neq_0_conv)
  next
    case False
    then have o: "root_overruns b r \<longleftrightarrow> ?past" using full by (auto simp: root_overruns_def)
    have "good ?e (if ssize r > 0
       then of_opt (do { s \<leftarrow> mem_at w r; t \<leftarrow> dumpstr s (unat (ssize r));
                         Some (do_indent (ctx_indent c) @ [48, 58, 32] @ t @ [nl c]) })
       else Run [])"
      using False own by (auto simp: word_neq_0_conv simp del: append.simps)
    then show ?thesis unfolding o do_print_notype.simps by (rule verdict_bind) (rule verdict_then [OF ps])
  qed
qed

text \<open>
  Claim C10.  Printing a message without a schema, on any input: whatever the buffer holds, the printer
  aborts only for a root without elements whose header declares scalars or pointers past the end; when
  pointers lead forward, as \<^verbatim>\<open>spec.txt\<close> demands, it does abort for such a root, and for every other one
  it returns a text.
\<close>

theorem raw_print_is_safe:
  assumes "plain_buffer w a b" and "nbuf_obj_init b (null_obj a) pos = Some r"
  shows "(nbuf_raw_print fuel w r indent = Aborts \<longrightarrow> root_overruns b r) \<and>
    (forward b pos \<longrightarrow>
      (if root_overruns b r then nbuf_raw_print (Suc (unat (buf_len b))) w r indent = Aborts
       else \<exists>text. nbuf_raw_print (Suc (unat (buf_len b))) w r indent = Run text))"
proof -
  note v = root_verdict [OF assms]
  have "nbuf_raw_print fuel w r indent = Aborts \<longrightarrow> root_overruns b r"
    using v [of "fuel - 1"] by (cases fuel) (auto simp: nbuf_raw_print_def verdict_def)
  moreover have "if root_overruns b r then nbuf_raw_print (Suc (unat (buf_len b))) w r indent = Aborts
       else \<exists>text. nbuf_raw_print (Suc (unat (buf_len b))) w r indent = Run text" if "forward b pos"
    using v [of "unat (buf_len b)"] that unfolding nbuf_raw_print_def verdict_def
    by (simp del: do_print_notype.simps)
  ultimately show ?thesis by blast
qed

text \<open>A pointer that leads back to its own object is printed without end: no fuel is enough.\<close>

lemma raw_print_loops:
  assumes "nbuf_get_ptr w r 0 = Some r" and "nelem r = 1" and "ssize r = 0" and "psize r = 1" and "bounds_ok w r = Some True"
  shows "do_print_notype fuel w c r = No_fuel"
proof (induction fuel arbitrary: c)
  case (Suc fuel)
  have "as_string r = r" using assms(4) by (simp add: as_string_def)
  then show ?case using assms Suc by simp
qed simp

text \<open>The length of a string is cut to 16 bits: 65536 bytes are printed as an empty string.\<close>

lemma raw_print_cuts_strings:
  "ssize (as_string \<lparr>obj_buf = a, obj_base = p, nelem = 65536, ssize = 1, psize = 0\<rparr>) = 0"
  by (simp add: as_string_def)

definition demo_print_world :: world where
  "demo_print_world = put_buf \<lparr>bufs = (\<lambda>_. None), next_addr = 1\<rparr> 0 demo_buf"

lemma demo_print_plain: "plain_buffer demo_print_world 0 demo_buf"
  using demo_wf by (simp add: plain_buffer_def demo_print_world_def put_buf_def demo_buf_def nbuf_init_read_def)

lemma forward_without_pointers:
  assumes "\<And>a r. nbuf_obj_init b (null_obj a) pos = Some r \<Longrightarrow> psize r = 0"
  shows "forward b pos"
proof -
  have null: "nbuf_get_ptr_plain b r i = Some (null_obj (obj_buf r))" if "psize r = 0" for b r i
    using that by (simp add: nbuf_get_ptr_plain_def nbuf_get_rel_ptr_def Let_def)
  have "psize r = 0" if "met b pos r" for r
    using that
  proof (induction rule: met.induct)
    case (met_elem r i)
    then show ?case by (simp add: get_elem_unfold null_obj_def)
  next
    case (met_ptr r i rr)
    then show ?case by (auto simp: null null_obj_def)
  qed (rule assms)
  then show ?thesis by (auto simp: forward_def null null_obj_def)
qed

lemma demo_forward: "forward demo_buf 0" "forward empty_buf 0"
proof -
  have "psize r = 0" if "nbuf_obj_init demo_buf (null_obj a) 0 = Some r" for a r
    using that unfolding obj_init_eq [OF demo_wf]
    by (auto simp: demo_buf_def nbuf_init_read_def header_obj_def wire_header_def seg_def null_obj_def Let_def
        split: if_splits)
  then show "forward demo_buf 0" by (rule forward_without_pointers)
  have "psize r = 0" if "nbuf_obj_init empty_buf (null_obj a) 0 = Some r" for a r
    using that unfolding obj_init_eq [OF empty_wf]
    by (auto simp: empty_buf_def nbuf_init_read_def header_obj_def wire_header_def seg_def null_obj_def Let_def
        split: if_splits)
  then show "forward empty_buf 0" by (rule forward_without_pointers)
qed

theorem raw_print_is_safe_witness:
  "nbuf_raw_print 1 demo_print_world demo_root 2 \<noteq> Aborts \<and>
    (\<exists>text. nbuf_raw_print 17 demo_print_world demo_root 2 = Run text) \<and>
    nbuf_raw_print 9 (put_buf \<lparr>bufs = (\<lambda>_. None), next_addr = 1\<rparr> 0 empty_buf) empty_root 2 = Aborts"
proof -
  have d: "unat (buf_len demo_buf) = 16" "\<not> root_overruns demo_buf demo_root"
    by (simp_all add: demo_buf_def nbuf_init_read_def demo_root_def root_overruns_def)
  have e: "unat (buf_len empty_buf) = 8" "root_overruns empty_buf empty_root"
    by (simp_all add: empty_buf_def nbuf_init_read_def empty_root_def root_overruns_def)
  have "plain_buffer (put_buf \<lparr>bufs = (\<lambda>_. None), next_addr = 1\<rparr> 0 empty_buf) 0 empty_buf"
    using empty_wf by (simp add: plain_buffer_def put_buf_def empty_buf_def nbuf_init_read_def)
  from raw_print_is_safe [OF this empty_init, of 9 2] raw_print_is_safe [OF demo_print_plain demo_init, of 1 2]
  show ?thesis using d e demo_forward by simp
qed

end
