(* ===== verification/Token_Progress.thy ===== *)
theory Token_Progress
  imports Lexer
begin

text \<open>
  Every token the lexer returns uses up input, with any allocator: the loops of the parser and of the
  schema compiler over tokens come to an end.
\<close>

section \<open>Every token consumes input\<close>

text \<open>
  What a scanner leaves of the input, whatever memory it is granted: \<open>m\<close> measures the state it goes on
  with.
\<close>

definition keeps :: "nat \<Rightarrow> ('a \<Rightarrow> nat) \<Rightarrow> 'a scanned \<Rightarrow> bool" where
  "keeps k m r \<longleftrightarrow> (case r of Crash \<Rightarrow> True | Nomem l \<Rightarrow> length (fin l) \<le> k | Go x \<Rightarrow> m x \<le> k)"

fun left :: "scan \<Rightarrow> nat" where
  "left (l, buf, ch) = todo l ch"

lemma keeps_simps [simp]:
  "keeps k m Crash" "keeps k m (Nomem l) \<longleftrightarrow> length (fin l) \<le> k" "keeps k m (Go x) \<longleftrightarrow> m x \<le> k"
  by (simp_all add: keeps_def)

lemma keeps_and_then:
  "keeps k m r \<Longrightarrow> (\<And>x. r = Go x \<Longrightarrow> m x \<le> k \<Longrightarrow> keeps k m' (f x)) \<Longrightarrow> keeps k m' (and_then r f)"
  by (cases r) simp_all

lemma keeps_NEXT: "length (fin l) \<le> k \<Longrightarrow> keeps k left (NEXT al (l, buf, ch))"
  using getc_todo [of l] by (auto simp: NEXT_def split: option.splits prod.splits bool.splits)

lemma keeps_NEXT': "left st \<le> k \<Longrightarrow> keeps k left (NEXT al st)"
  by (cases st) (auto intro: keeps_NEXT simp: todo_def)

lemma keeps_scan_while: "left st \<le> k \<Longrightarrow> keeps k left (scan_while al q st)"
proof (induction al q st rule: scan_while.induct)
  case (1 al q l buf ch)
  have n: "keeps k left (NEXT al (l, buf, ch))" using "1.prems" by (rule keeps_NEXT')
  show ?case
  proof (cases "NEXT al (l, buf, ch)")
    case (Go st)
    then show ?thesis using "1.IH" [OF _ Go] "1.prems" n by (auto simp: scan_while.simps [of al q l])
  qed (use n "1.prems" in \<open>auto simp: scan_while.simps [of al q l]\<close>)
qed

lemma keeps_NEXT_if: "left st \<le> k \<Longrightarrow> keeps k left (NEXT_if al c st)"
  by (simp add: NEXT_if_def keeps_NEXT')

lemmas keeps_intros = keeps_and_then [where m = left] keeps_NEXT' keeps_scan_while keeps_NEXT_if

lemma keeps_scan_int:
  assumes "length (fin l) \<le> k"
  shows "keeps k (\<lambda>(b, st). left st) (scan_int al (l, buf, ch))"
proof -
  note h = keeps_and_then [OF keeps_NEXT [OF assms, of al buf ch]]
  show ?thesis
  proof (cases "ch = Some 48")
    case True
    show ?thesis unfolding scan_int_def using True
      by (auto intro!: keeps_intros h [unfolded True] simp del: left.simps split: prod.splits)
  next
    case False
    show ?thesis unfolding scan_int_def using False
      by (auto intro!: keeps_intros h simp del: left.simps)
  qed
qed

lemma keeps_scan_fraction: "left st \<le> k \<Longrightarrow> keeps k (\<lambda>(b, st). left st) (scan_fraction al st)"
  unfolding scan_fraction_def by (cases st) (auto intro!: keeps_intros simp del: left.simps)

lemma keeps_scan_exponent: "left st \<le> k \<Longrightarrow> keeps k (\<lambda>(b, st). left st) (scan_exponent al (b, st))"
  unfolding scan_exponent_def by (cases st) (auto intro!: keeps_intros simp del: left.simps)

lemma length_fin_error [simp]: "fin (error e l) = fin l"
  by (simp add: error_def)

lemma keeps_convert:
  "left st \<le> k \<Longrightarrow> keeps k (\<lambda>(tok, l). length (fin l)) (convert_num al strtod base flt st)"
  unfolding convert_num_def
  by (cases st) (auto simp: ungetc_def todo_def Let_def split: option.splits bool.splits if_splits prod.splits)

lemma keeps_result:
  "keeps k (\<lambda>(tok, l). length (fin l)) r \<Longrightarrow> scan_result r = Some (tok, l) \<Longrightarrow> length (fin l) \<le> k"
  by (cases r) (auto simp: scan_result_def)

lemma scannum_consumes:
  assumes "scannum al strtod l ch = Some (tok, l')"
  shows "length (fin l') \<le> length (fin l)"
proof -
  let ?k = "length (fin l)"
  have f: "keeps ?k (\<lambda>(b, st). left st) (and_then (scan_fraction al st) (scan_exponent al))" if "left st \<le> ?k" for st
    by (rule keeps_and_then [OF keeps_scan_fraction [OF that]]) (auto intro: keeps_scan_exponent)
  have i: "keeps ?k (\<lambda>(b, st). left st)
      (and_then (NEXT_if al (ch = MINUS) (l, initial al, Some ch)) (scan_int al))"
  proof (cases "ch = MINUS")
    case True
    show ?thesis unfolding NEXT_if_def using True
      by (auto intro!: keeps_and_then [OF keeps_NEXT [OF order.refl]] keeps_scan_int simp: todo_def)
  qed (simp add: NEXT_if_def keeps_scan_int)
  have assoc: "and_then r (\<lambda>x. and_then (g x) h) = and_then (and_then r g) h"
    for r :: "'x scanned" and g :: "'x \<Rightarrow> 'y scanned" and h :: "'y \<Rightarrow> 'z scanned"
    by (cases r) simp_all
  show ?thesis
    using assms unfolding scannum_def assoc
    by (rule keeps_result [rotated])
      (auto intro!: keeps_and_then [OF i] keeps_and_then [OF f] keeps_convert f simp del: left.simps)
qed

lemma keeps_finish: "left st \<le> k \<Longrightarrow> keeps k (\<lambda>(tok, l). length (fin l)) (finish_text al tok st)"
  unfolding finish_text_def
  by (cases st) (auto simp: ungetc_def todo_def split: option.splits prod.splits)

lemma scanident_consumes:
  assumes "scanident al l ch = Some (tok, l')"
  shows "length (fin l') \<le> length (fin l)"
  using assms unfolding scanident_def
  by (rule keeps_result [rotated])
    (auto intro!: keeps_and_then [OF keeps_NEXT [OF order.refl]] keeps_intros keeps_finish simp del: left.simps)

lemma keeps_str_loop: "left st \<le> k \<Longrightarrow> keeps k left (str_loop al delim st)"
proof (induction al delim st rule: str_loop.induct)
  case (1 al delim l buf ch)
  show ?case
  proof (cases "ch = None \<or> ch = Some delim")
    case True
    then show ?thesis using "1.prems" by (auto simp: str_loop.simps [of al delim l] todo_def)
  next
    case False
    then obtain c where c: "ch = Some c" "c \<noteq> delim" by auto
    obtain ch1 l1 where s: "str_char c l = (ch1, l1)" by (cases "str_char c l")
    have "length (fin l1) \<le> k" using str_char_fin [OF s] "1.prems" by (simp add: todo_def c)
    then have n: "keeps k left (NEXT al (l1, buf, ch1))" by (rule keeps_NEXT)
    then show ?thesis
      using "1.IH" [OF c s [symmetric] refl] c s
      by (cases "NEXT al (l1, buf, ch1)") (auto simp: str_loop.simps [of al delim l])
  qed
qed

lemma keeps_str_pieces: "length (fin l) \<le> k \<Longrightarrow> keeps k left (str_pieces al delim l buf)"
proof (induction al delim l buf rule: str_pieces.induct)
  case (1 al delim l buf)
  obtain ch l1 where g: "getc l = (ch, l1)" by (cases "getc l")
  have "left (l1, buf, ch) \<le> k" using getc_todo [OF g] "1.prems" by simp
  then have s: "keeps k left (str_loop al delim (l1, buf, ch))" by (rule keeps_str_loop)
  show ?case
  proof (cases "str_loop al delim (l1, buf, ch)")
    case (Go st)
    obtain l2 b2 ch2 where st: "st = (l2, b2, ch2)" by (cases st)
    obtain ch3 l3 where sk: "skipspaces l2 = (ch3, l3)" by (cases "skipspaces l2")
    have "length (fin l2) \<le> k" using s Go st by (simp add: todo_def)
    then have "todo l3 ch3 \<le> k" using skipspaces_todo [OF sk] by simp
    then show ?thesis
      using "1.IH" [OF g [symmetric] refl Go st [symmetric] refl sk [symmetric] refl] Go st sk g
      by (auto simp: str_pieces.simps [of al delim l] todo_def)
  qed (use s g in \<open>auto simp: str_pieces.simps [of al delim l]\<close>)
qed

lemma scanstr_consumes:
  assumes "scanstr al l ch = Some (tok, l')"
  shows "length (fin l') \<le> length (fin l)"
  using assms unfolding scanstr_def
  by (rule keeps_result [rotated])
    (auto intro!: keeps_and_then [OF keeps_str_pieces [OF order.refl]] keeps_finish simp del: left.simps)

text \<open>With any allocator: a token that is not the end of the input has used up some of it.\<close>

lemma lex_consumes:
  "nbuf_lex al strtod l = Some (tok, l') \<Longrightarrow>
    length (fin l') \<le> length (fin l) \<and> (tok \<noteq> Tok_EOF \<longrightarrow> length (fin l') < length (fin l))"
proof (induction al strtod l rule: nbuf_lex.induct)
  case (1 al strtod l)
  obtain ch l1 where sk: "skipspaces l = (ch, l1)" by (cases "skipspaces l")
  note f = skipspaces_todo [OF sk]
  show ?case
  proof (cases ch)
    case None
    then show ?thesis using "1.prems" sk f by (auto simp: nbuf_lex.simps [of al strtod l] todo_def)
  next
    case (Some c)
    have f1: "length (fin l1) < length (fin l)" using f Some by (simp add: todo_def)
    note unf = "1.prems" [unfolded nbuf_lex.simps [of al strtod l]] sk Some
    consider "c = SLASH" | "c = HASH" | (other) "c \<noteq> SLASH" "c \<noteq> HASH" by blast
    then show ?thesis
    proof cases
      case 1
      then have "nbuf_lex al strtod (skip_slash l1) = Some (tok, l')" using unf by simp
      from "1.IH"(1) [OF sk [symmetric] refl Some 1 this] show ?thesis
        using skip_slash_fin [of l1] f1 by auto
    next
      case 2
      then have "nbuf_lex al strtod (skipline l1) = Some (tok, l')" "c \<noteq> SLASH" using unf by simp_all
      from "1.IH"(2) [OF sk [symmetric] refl Some this(2) 2 this(1)] show ?thesis
        using skipline_fin [of l1] f1 by auto
    next
      case other
      have "length (fin l') \<le> length (fin l1)"
        using unf other scannum_consumes [of al strtod l1 c tok l'] scanident_consumes [of al l1 c tok l']
          scanstr_consumes [of al l1 c tok l'] scannum_consumes [of al strtod _ MINUS tok l']
          ungetc_getc [of l1]
        by (force split: if_splits prod.splits)
      then show ?thesis using f1 by simp
    qed
  qed
qed

end
