(* ===== verification/Parse.thy ===== *)
theory Parse
  imports Print Token_Progress
begin

text \<open>
  The parser of the text format, \<^verbatim>\<open>lib/parse.c\<close>.  It reads tokens, finds the fields they name in the
  schema and fills a builder through field references.  The state is the parser with its lexer and the
  world with the builder and the schema.  Errors the parser reports through \<^verbatim>\<open>l->error\<close> are collected
  in \<open>p_errors\<close>, those of the lexer in the lexer.  The parser nests as deep as its input: it takes fuel,
  one unit per round of the loop of \<^verbatim>\<open>parse_msg\<close>.
\<close>

section \<open>State\<close>

datatype parse_error =
    Expecting_bool "byte list" | Expecting_int "byte list" | Expecting_number "byte list"
  | No_value "byte list" "byte list" | No_field "byte list" "byte list" | Specified_twice "byte list"
  | Missing byte "byte list" | Expecting_end

record nbuf_parser =
  p_token :: nbuf_Token
  p_lexer :: nbuf_lexer
  p_schema :: nbuf_obj
  p_errors :: "parse_error list"

text \<open>Memory and floating point, as the C library provides them.\<close>

record env =
  env_al :: allocator
  env_fl :: float_lib

definition p_error :: "parse_error \<Rightarrow> nbuf_parser \<Rightarrow> nbuf_parser" where
  "p_error e p = p\<lparr>p_errors := p_errors p @ [e]\<rparr>"

definition next_tok :: "env \<Rightarrow> nbuf_parser \<Rightarrow> nbuf_parser option" where
  "next_tok env p =
    do { (tok, l) \<leftarrow> nbuf_lex (env_al env) (fl_strtod (env_fl env)) (p_lexer p);
         Some (p\<lparr>p_token := tok, p_lexer := l\<rparr>) }"

text \<open>\<^verbatim>\<open>OPTIONAL\<close>, and the condition of \<^verbatim>\<open>EXPECT\<close>: whether the token was there.\<close>

definition optional :: "env \<Rightarrow> byte \<Rightarrow> nbuf_parser \<Rightarrow> (bool \<times> nbuf_parser) option" where
  "optional env c p =
    (if p_token p = Tok_char c then do { p1 \<leftarrow> next_tok env p; Some (True, p1) } else Some (False, p))"

definition expect :: "env \<Rightarrow> byte \<Rightarrow> byte list \<Rightarrow> nbuf_parser \<Rightarrow> (bool \<times> nbuf_parser) option" where
  "expect env c name p =
    do { (ok, p1) \<leftarrow> optional env c p; Some (ok, if ok then p1 else p_error (Missing c name) p1) }"

text \<open>The text of the last token; reading the union when it holds something else is undefined.\<close>

definition tok_text :: "nbuf_parser \<Rightarrow> nbuf_buffer option" where
  "tok_text p = (case lex_u (p_lexer p) of U_str b \<Rightarrow> Some b | _ \<Rightarrow> None)"

definition tok_int :: "nbuf_parser \<Rightarrow> int64 option" where
  "tok_int p = (case lex_u (p_lexer p) of U_int i \<Rightarrow> Some i | _ \<Rightarrow> None)"

definition steal :: "nbuf_parser \<Rightarrow> (byte list \<times> nbuf_parser) option" where
  "steal p =
    do { b \<leftarrow> tok_text p;
         Some (buf_base b, p\<lparr>p_lexer := (p_lexer p)\<lparr>lex_u :=
           U_str (b\<lparr>buf_base := [], buf_len := 0, buf_cap := 0\<rparr>)\<rparr>\<rparr>) }"

definition free_tok :: "nbuf_parser \<Rightarrow> nbuf_parser option" where
  "free_tok p =
    (if p_token p = Tok_ID \<or> p_token p = Tok_STR
     then do { b \<leftarrow> tok_text p; Some (p\<lparr>p_lexer := (p_lexer p)\<lparr>lex_u := U_str (nbuf_free b)\<rparr>\<rparr>) }
     else Some p)"

section \<open>Values\<close>

text \<open>\<^verbatim>\<open>free_tok(p); NEXT; return true;\<close>\<close>

definition value_done :: "env \<Rightarrow> nbuf_parser \<Rightarrow> world \<Rightarrow> (bool \<times> nbuf_parser \<times> world) option" where
  "value_done env p w = do { p1 \<leftarrow> free_tok p; p2 \<leftarrow> next_tok env p1; Some (True, p2, w) }"

definition parse_bool ::
    "env \<Rightarrow> nbuf_ref \<Rightarrow> nbuf_parser \<Rightarrow> byte list \<Rightarrow> world \<Rightarrow> (bool \<times> nbuf_parser \<times> world) option" where
  "parse_bool env ref p name w =
    do { v \<leftarrow> (case p_token p of
           Tok_INT \<Rightarrow> do { i \<leftarrow> tok_int p; Some (Some (i \<noteq> 0)) }
         | Tok_ID \<Rightarrow> do { b \<leftarrow> tok_text p; s \<leftarrow> fmt_s (buf_base b);
             Some (if s = map of_char ''true'' then Some True
                   else if s = map of_char ''false'' then Some False else None) }
         | _ \<Rightarrow> Some None);
         case v of
           None \<Rightarrow> Some (False, p_error (Expecting_bool name) p, w)
         | Some x \<Rightarrow> do { w1 \<leftarrow> nbuf_ref_put_bit w ref x; value_done env p w1 } }"

text \<open>
  For a token that is neither a number nor a name, the token is passed for a \<^verbatim>\<open>%s\<close> of the error message,
  and printing reads from that address: undefined.
\<close>

definition parse_enum ::
    "env \<Rightarrow> nbuf_ref \<Rightarrow> nbuf_parser \<Rightarrow> byte list \<Rightarrow> world \<Rightarrow> (bool \<times> nbuf_parser \<times> world) option" where
  "parse_enum env ref p name w =
    (case p_token p of
       Tok_INT \<Rightarrow> do { i \<leftarrow> tok_int p;
         w1 \<leftarrow> nbuf_ref_put_int w ref (ucast (ucast i :: uint32)); value_done env p w1 }
     | Tok_ID \<Rightarrow> do {
         etype \<leftarrow> nbuf_Schema_enumTypes w (p_schema p) (ucast (ref_tag1 ref));
         b \<leftarrow> tok_text p;
         v \<leftarrow> nbuf_enum_value w etype (buf_base b);
         if v = - 1
         then do { (en, _) \<leftarrow> nbuf_EnumType_name w etype; enum_name \<leftarrow> fmt_s en; s \<leftarrow> fmt_s (buf_base b);
                   Some (False, p_error (No_value enum_name s) p, w) }
         else do { w1 \<leftarrow> nbuf_ref_put_int w ref (ucast v); value_done env p w1 } }
     | _ \<Rightarrow> None)"

definition parse_int ::
    "env \<Rightarrow> nbuf_ref \<Rightarrow> nbuf_parser \<Rightarrow> byte list \<Rightarrow> world \<Rightarrow> (bool \<times> nbuf_parser \<times> world) option" where
  "parse_int env ref p name w =
    (if p_token p \<noteq> Tok_INT then Some (False, p_error (Expecting_int name) p, w)
     else do { i \<leftarrow> tok_int p; w1 \<leftarrow> nbuf_ref_put_int w ref i; value_done env p w1 })"

definition parse_float ::
    "env \<Rightarrow> nbuf_ref \<Rightarrow> nbuf_parser \<Rightarrow> byte list \<Rightarrow> world \<Rightarrow> (bool \<times> nbuf_parser \<times> world) option" where
  "parse_float env ref p name w =
    do { v \<leftarrow> (case p_token p of
           Tok_INT \<Rightarrow> do { i \<leftarrow> tok_int p; Some (Some (fl_of_int (env_fl env) i)) }
         | Tok_FLT \<Rightarrow> (case lex_u (p_lexer p) of U_float f \<Rightarrow> Some (Some f) | _ \<Rightarrow> None)
         | _ \<Rightarrow> Some None);
         case v of
           None \<Rightarrow> Some (False, p_error (Expecting_number name) p, w)
         | Some f \<Rightarrow> do { w1 \<leftarrow> nbuf_ref_put_float (fl_narrow (env_fl env)) w ref f; value_done env p w1 } }"

text \<open>The token is not checked: the union is read as a string whatever it holds.\<close>

definition parse_str ::
    "env \<Rightarrow> nbuf_ref \<Rightarrow> nbuf_parser \<Rightarrow> byte list \<Rightarrow> world \<Rightarrow> (bool \<times> nbuf_parser \<times> world) option" where
  "parse_str env ref p name w =
    do { b \<leftarrow> tok_text p;
         let len = buf_len b;
         assert_ok (len > 0);
         last \<leftarrow> load (buf_base b) (unat (len - 1)) 1;
         assert_ok (last = [0]);
         w1 \<leftarrow> nbuf_ref_put_str (env_al env) w ref (buf_base b) (len - 1);
         value_done env p w1 }"

definition parse_scalar ::
    "env \<Rightarrow> nbuf_ref \<Rightarrow> nbuf_parser \<Rightarrow> byte list \<Rightarrow> world \<Rightarrow> (bool \<times> nbuf_parser \<times> world) option" where
  "parse_scalar env ref p name w =
    (case ref_kind ref of
       Kind_BOOL \<Rightarrow> parse_bool env ref p name w
     | Kind_ENUM \<Rightarrow> parse_enum env ref p name w
     | Kind_INT \<Rightarrow> parse_int env ref p name w
     | Kind_UINT \<Rightarrow> parse_int env ref p name w
     | Kind_FLOAT \<Rightarrow> parse_float env ref p name w
     | Kind_STR \<Rightarrow> parse_str env ref p name w
     | _ \<Rightarrow> Some (True, p, w))"

section \<open>Messages\<close>

text \<open>What happens to the field a name stands for, up to the \<^verbatim>\<open>switch\<close> over its kind.\<close>

datatype field_start = Field_error | Field_ok nbuf_ref

definition start_field ::
    "env \<Rightarrow> nbuf_obj \<Rightarrow> nbuf_parser \<Rightarrow> nbuf_obj \<Rightarrow> byte list \<Rightarrow> world \<Rightarrow>
      (field_start \<times> nbuf_parser \<times> world) option" where
  "start_field env ob p msgType field_name w =
    do { (found, fld) \<leftarrow> nbuf_find_field w (null_obj 0) msgType field_name;
         if \<not> found
         then do { (mn, _) \<leftarrow> nbuf_MsgType_name w msgType; m \<leftarrow> fmt_s mn; s \<leftarrow> fmt_s field_name;
                   Some (Field_error, p_error (No_field m s) p, w) }
         else do {
           ref \<leftarrow> nbuf_get_ref w ob fld;
           twice \<leftarrow> (if ref_kind ref = Kind_PTR \<and> \<not> ref_list ref
                    then do { b \<leftarrow> bufs w (obj_buf (ref_o ref)); nbuf_has_ptr b (ref_o ref) (ucast (ref_tag0 ref)) }
                    else Some False);
           if twice
           then do { s \<leftarrow> fmt_s field_name; Some (Field_error, p_error (Specified_twice s) p, w) }
           else do {
             (ref1, w1) \<leftarrow> (if ref_list ref \<or> ref_kind ref = Kind_PTR
                           then nbuf_ref_init_ptr (env_al env) w ref (p_schema p) else Some (ref, w));
             p1 \<leftarrow> next_tok env p;
             Some (Field_ok ref1, p1, w1) } } }"

text \<open>\<^verbatim>\<open>if (p->token == ',' || p->token == ';') NEXT;\<close>\<close>

definition separator :: "env \<Rightarrow> nbuf_parser \<Rightarrow> nbuf_parser option" where
  "separator env p =
    (if p_token p = Tok_char 44 \<or> p_token p = Tok_char 59 then next_tok env p else Some p)"

text \<open>
  The \<^verbatim>\<open>switch\<close> over the kind of the field, with what is expected before and after its value; \<open>rec\<close>
  parses a nested message.
\<close>

type_synonym msg_parser = "nbuf_obj \<Rightarrow> nbuf_parser \<Rightarrow> nbuf_obj \<Rightarrow> world \<Rightarrow> (bool \<times> nbuf_parser \<times> world) run"

definition parse_nested ::
    "msg_parser \<Rightarrow> env \<Rightarrow> nbuf_ref \<Rightarrow> nbuf_parser \<Rightarrow> byte list \<Rightarrow> world \<Rightarrow> (bool \<times> nbuf_parser \<times> world) run" where
  "parse_nested rec env ref p field_name w =
    bind_run (of_opt (do { (_, p1) \<leftarrow> optional env 58 p; expect env 123 field_name p1 })) (\<lambda>(ok, p2).
    if \<not> ok then Run (False, p2, w)
    else bind_run (of_opt (nbuf_Schema_msgTypes w (p_schema p2) (ucast (ref_tag1 ref)))) (\<lambda>mt.
         bind_run (rec (ref_o ref) p2 mt w) (\<lambda>(ok1, p3, w1).
         if \<not> ok1 then Run (False, p3, w1)
         else bind_run (of_opt (expect env 125 field_name p3)) (\<lambda>(ok2, p4). Run (ok2, p4, w1)))))"

definition parse_field ::
    "msg_parser \<Rightarrow> env \<Rightarrow> nbuf_ref \<Rightarrow> nbuf_parser \<Rightarrow> byte list \<Rightarrow> world \<Rightarrow> (bool \<times> nbuf_parser \<times> world) run" where
  "parse_field rec env ref p field_name w =
    (if ref_kind ref = Kind_PTR then parse_nested rec env ref p field_name w
     else of_opt (do { (ok, p1) \<leftarrow> expect env 58 field_name p;
                       if \<not> ok then Some (False, p1, w) else parse_scalar env ref p1 field_name w }))"

fun parse_msg :: "nat \<Rightarrow> env \<Rightarrow> msg_parser" where
  "parse_msg 0 env ob p msgType w = No_fuel"
| "parse_msg (Suc fuel) env ob p msgType w =
    (if p_token p \<noteq> Tok_ID then Run (True, p, w)
     else bind_run (of_opt (steal p)) (\<lambda>(field_name, p0).
     bind_run (of_opt (start_field env ob p0 msgType field_name w)) (\<lambda>(st, p1, w1).
     case st of
       Field_error \<Rightarrow> Run (True, p1, w1)
     | Field_ok ref \<Rightarrow>
        bind_run (parse_field (parse_msg fuel env) env ref p1 field_name w1) (\<lambda>(ok, p2, w2).
        if \<not> ok then Run (False, p2, w2)
        else bind_run (of_opt (separator env p2)) (\<lambda>p3. parse_msg fuel env ob p3 msgType w2)))))"

definition nbuf_parse ::
    "nat \<Rightarrow> env \<Rightarrow> world \<Rightarrow> nat \<Rightarrow> nbuf_lexer \<Rightarrow> nbuf_obj \<Rightarrow> nbuf_obj \<Rightarrow> (bool \<times> nbuf_parser \<times> world) run" where
  "nbuf_parse fuel env w a l schema msgType =
    bind_run (of_opt (do {
      (_, w1) \<leftarrow> nbuf_init_builder (env_al env) w a 1;
      s \<leftarrow> nbuf_MsgType_ssize w1 msgType;
      ps \<leftarrow> nbuf_MsgType_psize w1 msgType;
      (ob, w2) \<leftarrow> nbuf_create (env_al env) w1 a 1 s ps;
      p \<leftarrow> next_tok env \<lparr>p_token = Tok_UNK, p_lexer = l, p_schema = schema, p_errors = []\<rparr>;
      Some (ob, p, w2) })) (\<lambda>(ob, p, w2).
    bind_run (parse_msg fuel env ob p msgType w2) (\<lambda>(ok, p1, w3).
    of_opt (do {
      (ok1, p2) \<leftarrow> (if ok \<and> p_token p1 \<noteq> Tok_EOF
                   then do { p2 \<leftarrow> free_tok (p_error Expecting_end p1); Some (False, p2) }
                   else Some (ok, p1));
      (_, w4) \<leftarrow> nbuf_serialize (env_al env) w3 a;
      Some (ok1, p2, w4) })))"

section \<open>Parsing comes to an end\<close>

text \<open>The tokens a parser can still see: at most one per byte left, and the current one.\<close>

definition ahead :: "nbuf_parser \<Rightarrow> nat" where
  "ahead p = length (fin (p_lexer p)) + (if p_token p = Tok_EOF then 0 else 1)"

lemma next_tok_ahead:
  "next_tok env p = Some p1 \<Longrightarrow> ahead p1 \<le> ahead p \<and> (p_token p \<noteq> Tok_EOF \<longrightarrow> ahead p1 < ahead p)"
  by (auto simp: next_tok_def ahead_def dest!: lex_consumes split: bind_splits)

lemma p_error_ahead [simp]: "ahead (p_error e p) = ahead p"
  by (simp add: p_error_def ahead_def)

lemma steal_ahead: "steal p = Some (s, p1) \<Longrightarrow> ahead p1 = ahead p \<and> p_token p1 = p_token p"
  by (auto simp: steal_def ahead_def split: bind_splits)

lemma free_tok_ahead: "free_tok p = Some p1 \<Longrightarrow> ahead p1 = ahead p"
  by (auto simp: free_tok_def ahead_def split: bind_splits if_splits)

lemma optional_ahead: "optional env c p = Some (ok, p1) \<Longrightarrow> ahead p1 \<le> ahead p"
  by (auto simp: optional_def dest!: next_tok_ahead split: bind_splits if_splits)

lemma expect_ahead: "expect env c name p = Some (ok, p1) \<Longrightarrow> ahead p1 \<le> ahead p"
  by (auto simp: expect_def dest!: optional_ahead split: bind_splits)

lemma value_done_ahead: "value_done env p w = Some (ok, p1, w1) \<Longrightarrow> ahead p1 \<le> ahead p"
  by (auto simp: value_done_def dest!: next_tok_ahead free_tok_ahead split: bind_splits)

lemma separator_ahead: "separator env p = Some p1 \<Longrightarrow> ahead p1 \<le> ahead p"
  by (auto simp: separator_def dest!: next_tok_ahead split: bind_splits if_splits)

lemma parse_values_ahead:
  "parse_bool env ref p name w = Some (ok, p1, w1) \<Longrightarrow> ahead p1 \<le> ahead p"
  "parse_enum env ref p name w = Some (ok, p1, w1) \<Longrightarrow> ahead p1 \<le> ahead p"
  "parse_int env ref p name w = Some (ok, p1, w1) \<Longrightarrow> ahead p1 \<le> ahead p"
  "parse_float env ref p name w = Some (ok, p1, w1) \<Longrightarrow> ahead p1 \<le> ahead p"
  "parse_str env ref p name w = Some (ok, p1, w1) \<Longrightarrow> ahead p1 \<le> ahead p"
  by (auto simp: parse_bool_def parse_enum_def parse_int_def parse_float_def parse_str_def Let_def
      dest!: value_done_ahead split: bind_splits option.splits nbuf_Token.splits if_splits)

lemma parse_scalar_ahead: "parse_scalar env ref p name w = Some (ok, p1, w1) \<Longrightarrow> ahead p1 \<le> ahead p"
  by (auto simp: parse_scalar_def dest: parse_values_ahead split: nbuf_Kind.splits)

lemma start_field_ahead:
  "start_field env ob p mt name w = Some (st, p1, w1) \<Longrightarrow>
    ahead p1 \<le> ahead p \<and> (st \<noteq> Field_error \<longrightarrow> p_token p \<noteq> Tok_EOF \<longrightarrow> ahead p1 < ahead p)"
  by (auto simp: start_field_def dest!: next_tok_ahead split: bind_splits if_splits)

definition ends :: "nat \<Rightarrow> (bool \<times> nbuf_parser \<times> world) run \<Rightarrow> bool" where
  "ends k r \<longleftrightarrow> (case r of Run (ok, p, w) \<Rightarrow> ahead p \<le> k | Aborts \<Rightarrow> True | No_fuel \<Rightarrow> False)"

lemma ends_simps [simp]:
  "ends k (Run (ok, p, w)) \<longleftrightarrow> ahead p \<le> k" "ends k Aborts" "\<not> ends k No_fuel"
  by (simp_all add: ends_def)

lemma ends_bind_opt: "(\<And>x. y = Some x \<Longrightarrow> ends k (f x)) \<Longrightarrow> ends k (bind_run (of_opt y) f)"
  by (cases y) simp_all

lemma ends_opt: "(\<And>ok p w. y = Some (ok, p, w) \<Longrightarrow> ahead p \<le> k) \<Longrightarrow> ends k (of_opt y)"
  by (cases y) auto

lemma ends_bind: "ends k r \<Longrightarrow> (\<And>ok p w. ahead p \<le> k \<Longrightarrow> ends k' (f (ok, p, w))) \<Longrightarrow> ends k' (bind_run r f)"
  by (cases r) auto

lemma ends_mono: "ends k r \<Longrightarrow> k \<le> k' \<Longrightarrow> ends k' r"
  by (cases r) auto

lemma parse_nested_ends:
  assumes "\<And>ob p' mt w. ahead p' \<le> ahead p \<Longrightarrow> ends (ahead p) (rec ob p' mt w)"
  shows "ends (ahead p) (parse_nested rec env ref p name w)"
  unfolding parse_nested_def
proof (rule ends_bind_opt, clarify)
  fix ok p2
  assume "do { (_, p1) \<leftarrow> optional env 58 p; expect env 123 name p1 } = Some (ok, p2)"
  then have "ahead p2 \<le> ahead p" using optional_ahead expect_ahead by (fastforce split: bind_splits intro: le_trans)
  then show "ends (ahead p) (if \<not> ok then Run (False, p2, w)
    else bind_run (of_opt (nbuf_Schema_msgTypes w (p_schema p2) (ucast (ref_tag1 ref)))) (\<lambda>mt.
         bind_run (rec (ref_o ref) p2 mt w) (\<lambda>(ok1, p3, w1).
         if \<not> ok1 then Run (False, p3, w1)
         else bind_run (of_opt (expect env 125 name p3)) (\<lambda>(ok2, p4). Run (ok2, p4, w1)))))"
    by (auto intro!: ends_bind_opt ends_bind [OF assms] dest!: expect_ahead)
qed

lemma parse_field_ends:
  assumes "\<And>ob p' mt w. ahead p' \<le> ahead p \<Longrightarrow> ends (ahead p) (rec ob p' mt w)"
  shows "ends (ahead p) (parse_field rec env ref p name w)"
proof (cases "ref_kind ref = Kind_PTR")
  case True
  then show ?thesis using parse_nested_ends [OF assms] by (simp add: parse_field_def)
next
  case False
  then show ?thesis unfolding parse_field_def
    by (auto intro!: ends_opt split: bind_splits if_splits dest!: expect_ahead parse_scalar_ahead)
qed

lemma parse_msg_ends: "ahead p < fuel \<Longrightarrow> ends (ahead p) (parse_msg fuel env ob p mt w)"
proof (induction fuel arbitrary: ob p mt w)
  case (Suc fuel)
  have nested: "ends k (parse_msg fuel env ob' p' mt' w')" if "ahead p' \<le> k" "k < ahead p" for ob' p' mt' w' k
    using Suc.IH [of p' ob' mt' w'] Suc.prems that by (auto intro: ends_mono)
  have go_on: "ends (ahead p) (bind_run (parse_field (parse_msg fuel env) env ref p1 s w1) (\<lambda>(ok, p2, w2).
        if \<not> ok then Run (False, p2, w2)
        else bind_run (of_opt (separator env p2)) (\<lambda>p3. parse_msg fuel env ob p3 mt w2)))"
    if p1: "ahead p1 < ahead p" for p1 ref s w1
  proof (rule ends_bind [OF parse_field_ends], rule nested, assumption, rule p1, clarify)
    fix ok p2 w2
    assume p2: "ahead p2 \<le> ahead p1"
    then have "ends (ahead p) (parse_msg fuel env ob p3 mt w2)" if "ahead p3 \<le> ahead p2" for p3
      using that p1 p2 by (intro ends_mono [OF nested [of p3 "ahead p1"]]) auto
    then show "ends (ahead p) (if \<not> ok then Run (False, p2, w2)
        else bind_run (of_opt (separator env p2)) (\<lambda>p3. parse_msg fuel env ob p3 mt w2))"
      using p1 p2 by (auto intro!: ends_bind_opt dest: separator_ahead)
  qed
  show ?case
  proof (cases "p_token p = Tok_ID")
    case True
    have "ends (ahead p) (case st of Field_error \<Rightarrow> Run (True, p1, w1)
        | Field_ok ref \<Rightarrow> bind_run (parse_field (parse_msg fuel env) env ref p1 s w1) (\<lambda>(ok, p2, w2).
            if \<not> ok then Run (False, p2, w2)
            else bind_run (of_opt (separator env p2)) (\<lambda>p3. parse_msg fuel env ob p3 mt w2)))"
      if "steal p = Some (s, p0)" "start_field env ob p0 mt s w = Some (st, p1, w1)" for s p0 st p1 w1
      using go_on start_field_ahead [OF that(2)] steal_ahead [OF that(1)] True by (cases st) auto
    then show ?thesis using True by (auto intro!: ends_bind_opt)
  qed simp
qed simp

text \<open>
  Claim C11.  The parser comes to an end: whatever the text, the schema and the memory granted, one unit
  of fuel per byte of input and one more are enough.  Each round of the loop of \<^verbatim>\<open>parse_msg\<close>, nested or
  not, takes the token of the field's name away.
\<close>

theorem parser_returns:
  assumes "length (fin l) < fuel"
  shows "nbuf_parse fuel env w a l schema msgType \<noteq> No_fuel"
proof
  assume "nbuf_parse fuel env w a l schema msgType = No_fuel"
  then obtain p ob w2 where
    p: "next_tok env \<lparr>p_token = Tok_UNK, p_lexer = l, p_schema = schema, p_errors = []\<rparr> = Some p"
    and m: "parse_msg fuel env ob p msgType w2 = No_fuel"
    by (auto simp: nbuf_parse_def run_eqs split: bind_splits)
  have "ahead p < fuel" using next_tok_ahead [OF p] assms by (simp add: ahead_def split: if_splits)
  from parse_msg_ends [OF this, of env ob msgType w2] m show False by simp
qed

theorem parser_returns_witness:
  "\<forall>env w a schema msgType. nbuf_parse 3 env w a (nbuf_lex_init [97, 58]) schema msgType \<noteq> No_fuel"
  by (intro allI parser_returns) (simp add: nbuf_lex_init_def)

section \<open>What is printed for an integer field is parsed back\<close>

lemma lex_colon:
  "nbuf_lex al strtod (l\<lparr>fin := 58 # cs\<rparr>) = Some (Tok_char 58, l\<lparr>fin := cs\<rparr>)"
  by (subst nbuf_lex.simps) (simp add: skipspaces_def isspace_def isdigit_def isalpha_def Let_def)

lemma lex_space:
  "nbuf_lex al strtod (l\<lparr>fin := 32 # cs\<rparr>) = nbuf_lex al strtod (l\<lparr>fin := cs\<rparr>)"
proof -
  have "skipspaces (l\<lparr>fin := 32 # cs\<rparr>) = skipspaces (l\<lparr>fin := cs\<rparr>)"
    by (simp add: skipspaces_def isspace_def split: prod.splits)
  then show ?thesis
    by (simp only: nbuf_lex.simps [of al strtod "l\<lparr>fin := 32 # cs\<rparr>"] nbuf_lex.simps [of al strtod "l\<lparr>fin := cs\<rparr>"])
qed

lemma lex_granted:
  assumes "all_granted al" and "length (fin l) < 2 ^ 60"
  shows "\<exists>tok l'. nbuf_lex al strtod l = Some (tok, l')"
  using lex_refines [OF assms, of strtod] by (auto simp: lexes_to_def)

lemma next_tok_eq:
  "nbuf_lex (env_al env) (fl_strtod (env_fl env)) (p_lexer p) = Some (tok, l) \<Longrightarrow>
    next_tok env p = Some (p\<lparr>p_token := tok, p_lexer := l\<rparr>)"
  by (simp add: next_tok_def)

text \<open>
  Claim C6.  Printing and parsing agree on integer fields: after the name of a signed or unsigned field,
  what the printer writes for a value of the field (a colon, a space, the number, a newline) makes the
  parser store that very value, so that the field reads as it did when it was printed; the parser then
  goes on behind the number.
\<close>

theorem printed_integer_parses_back:
  assumes "all_granted (env_al env)"
    and "p_token p = Tok_ID" and "tok_text p = Some b"
    and "nbuf_find_field w (null_obj 0) mt (buf_base b) = Some (True, fld)"
    and "nbuf_get_ref w ob fld = Some ref" and "ref_kind ref = Kind_INT \<or> ref_kind ref = Kind_UINT"
    and "\<not> ref_list ref" and "w_writable (ref_o ref) w"
    and "cell_fits (unat (ssize (ref_o ref))) (Int_cell (ucast (ref_tag0 ref)) (ucast (ref_size ref)))"
    and "nbuf_ref_get_int printed ref = Some v"
    and "fin (p_lexer p) = [58, 32] @ (if ref_kind ref = Kind_INT then fmt_d v else fmt_u v) @ NEWLINE # rest"
    and "length rest < 2 ^ 58"
  shows "\<exists>w' p1 p2. nbuf_ref_get_int w' ref = Some v \<and> fin (p_lexer p1) = NEWLINE # rest \<and>
    next_tok env p1 = Some p2 \<and>
    parse_msg (Suc fuel) env ob p mt w
      = bind_run (of_opt (separator env p2)) (\<lambda>p3. parse_msg fuel env ob p3 mt w')"
proof -
  let ?text = "if ref_kind ref = Kind_INT then fmt_d v else fmt_u v" and ?rest = "NEWLINE # rest"
  let ?lex = "nbuf_lex (env_al env) (fl_strtod (env_fl env))"
  have i: "int_size (ucast (ref_size ref))" using assms(9) by simp
  obtain w' where w': "nbuf_ref_put_int w ref v = Some w'" "nbuf_ref_get_int w' ref = Some v"
    using ref_put_get_int [OF assms(8) _ assms(9), of v] ref_value_fits [OF assms(10) i] assms(6)
    by (auto simp: ref_is_int_def)
  obtain p0 where p0: "steal p = Some (buf_base b, p0)" "fin (p_lexer p0) = 58 # 32 # ?text @ ?rest"
    "p_token p0 = Tok_ID"
    using assms(2,3,11) by (simp add: steal_def)
  define l where "l = p_lexer p0"
  have l0: "p_lexer p0 = l\<lparr>fin := 58 # 32 # ?text @ ?rest\<rparr>" using p0(2) by (simp add: l_def)
  define pa where "pa = p0\<lparr>p_token := Tok_char 58, p_lexer := l\<lparr>fin := 32 # ?text @ ?rest\<rparr>\<rparr>"
  have na: "next_tok env p0 = Some pa"
    unfolding pa_def by (rule next_tok_eq) (simp only: l0 lex_colon)
  have "ends_number ?rest" by (simp add: ends_number_def isalnum_def isalpha_def isdigit_def)
  moreover have "?text = fmt_d v \<or> ?text = fmt_u v" "length ?rest < 2 ^ 59" using assms(12) by simp_all
  ultimately obtain l1 where l1: "?lex (l\<lparr>fin := ?text @ ?rest\<rparr>) = Some (Tok_INT, l1)" "lex_u l1 = U_int v" "fin l1 = ?rest"
    using lex_number_token [OF assms(1)] by blast
  define pb where "pb = pa\<lparr>p_token := Tok_INT, p_lexer := l1\<rparr>"
  have nb: "next_tok env pa = Some pb"
    unfolding pb_def by (rule next_tok_eq) (simp add: pa_def lex_space l1(1))
  obtain tok l2 where "?lex l1 = Some (tok, l2)"
    using lex_granted [OF assms(1), of l1 "fl_strtod (env_fl env)"] l1(3) assms(12) by auto
  then obtain p2 where n2: "next_tok env pb = Some p2" by (simp add: pb_def next_tok_def)
  have st: "start_field env ob p0 mt (buf_base b) w = Some (Field_ok ref, pa, w)"
    using assms(4-7) na by (auto simp: start_field_def)
  have "parse_int env ref pb (buf_base b) w = Some (True, p2, w')"
    using w'(1) n2 l1(2) by (simp add: parse_int_def value_done_def free_tok_def tok_int_def pb_def)
  moreover have "expect env 58 (buf_base b) pa = Some (True, pb)"
    using nb by (simp add: expect_def optional_def) (simp add: pa_def)
  ultimately have "parse_field (parse_msg fuel env) env ref pa (buf_base b) w = Run (True, p2, w')"
    using assms(6) by (auto simp: parse_field_def parse_scalar_def)
  then have "parse_msg (Suc fuel) env ob p mt w
      = bind_run (of_opt (separator env p2)) (\<lambda>p3. parse_msg fuel env ob p3 mt w')"
    using assms(2) p0(1) st by simp
  moreover have "fin (p_lexer pb) = ?rest" using l1(3) by (simp add: pb_def)
  ultimately show ?thesis using w'(2) n2 by blast
qed

text \<open>A message of the type \<^verbatim>\<open>m\<close> of the small schema at address 3, with the value \<open>v\<close> in its field.\<close>

definition demo_message_world :: "byte \<Rightarrow> world" where
  "demo_message_world v = put_buf demo_schema_world 3
    \<lparr>buf_base = [2,0,0,0, 4,0,0,0, v,0,0,0, 0,0,0,0], buf_len = 16, buf_cap = 16, buf_ops = NULL_ops\<rparr>"

definition demo_root_3 :: nbuf_obj where
  "demo_root_3 = \<lparr>obj_buf = 3, obj_base = 8, nelem = 1, ssize = 4, psize = 0\<rparr>"

definition demo_ref_3 :: nbuf_ref where
  "demo_ref_3 = \<lparr>ref_o = demo_root_3, ref_kind = Kind_UINT, ref_list = False, ref_tag0 = 0, ref_tag1 = 4\<rparr>"

lemma demo_message_bufs:
  "bufs (demo_message_world v) 2 = Some (nbuf_init_read demo_schema_bytes 168)"
  "bufs (demo_message_world v) 3 = Some
    \<lparr>buf_base = [2,0,0,0, 4,0,0,0, v,0,0,0, 0,0,0,0], buf_len = 16, buf_cap = 16, buf_ops = NULL_ops\<rparr>"
  using demo_buf_2 by (simp_all add: demo_message_world_def put_buf_def)

lemmas demo_message_eval = read_eval demo_message_bufs nbuf_init_read_def demo_schema_bytes_def demo_field_def demo_msg_def

lemma demo_message_schema:
  "nbuf_MsgType_fields_size (demo_message_world v) demo_msg = Some 1"
  "nbuf_MsgType_fields (demo_message_world v) demo_msg 0 = Some demo_field"
  "nbuf_FieldDesc_name (demo_message_world v) demo_field = Some (drop 96 demo_schema_bytes, 1)"
  by (simp_all add: nbuf_MsgType_fields_size_def nbuf_MsgType_fields_def nbuf_FieldDesc_name_def demo_message_eval)

lemma demo_message_ref: "nbuf_get_ref (demo_message_world v) demo_root_3 demo_field = Some demo_ref_3"
  by (simp add: nbuf_get_ref_def nbuf_FieldDesc_kind_def nbuf_FieldDesc_list_def nbuf_FieldDesc_tag0_def
      nbuf_FieldDesc_tag1_def obj_get_int_def nbuf_get_int_def nbuf_get_bit_def kind_of_int_def demo_message_eval demo_ref_3_def)

lemma demo_message_find:
  "nbuf_find_field (demo_message_world v) (null_obj 0) demo_msg [97, 0] = Some (True, demo_field)"
  using demo_message_schema
  by (simp add: nbuf_find_field_def name_matches_def memcmp_eq_def c_strlen_def demo_schema_bytes_def
      load_def seg_def)

lemma demo_message_writable: "w_writable demo_root_3 (demo_message_world v)"
  by (simp add: w_writable_def demo_root_3_def demo_message_bufs writable_obj_def buf_wwf_def obj_safe_def
      in_bounds_def obj_bytes_def esize_def)

lemma demo_message_value: "nbuf_ref_get_int (demo_message_world 9) demo_ref_3 = Some 9"
  by (simp add: nbuf_ref_get_int_def demo_ref_3_def demo_root_3_def ref_is_int_def ref_size_def obj_get_int_def
      nbuf_get_int_def demo_message_eval mask_eq_exp_minus_1)

theorem printed_integer_parses_back_witness:
  "let p = \<lparr>p_token = Tok_ID,
      p_lexer = \<lparr>fin = [58, 32, 57, NEWLINE], lineno = 1, errors = [],
        lex_u = U_str \<lparr>buf_base = [97, 0], buf_len = 2, buf_cap = 2, buf_ops = NULL_ops\<rparr>\<rparr>,
      p_schema = demo_schema, p_errors = []\<rparr>;
      env = \<lparr>env_al = roomy, env_fl = \<lparr>fl_widen = \<lambda>_. 0, fl_narrow = \<lambda>_. 0, fl_of_int = id, fl_strtod = \<lambda>_. 0,
        fl_fmt_g = \<lambda>_ _. []\<rparr>\<rparr>
    in \<exists>w' p1 p2. nbuf_ref_get_int w' demo_ref_3 = Some 9 \<and> fin (p_lexer p1) = [NEWLINE] \<and> next_tok env p1 = Some p2 \<and>
      parse_msg 2 env demo_root_3 p demo_msg (demo_message_world 0)
        = bind_run (of_opt (separator env p2)) (\<lambda>p3. parse_msg 1 env demo_root_3 p3 demo_msg w')"
proof -
  let ?b = "\<lparr>buf_base = [97, 0], buf_len = 2, buf_cap = 2, buf_ops = NULL_ops\<rparr>"
  let ?p = "\<lparr>p_token = Tok_ID, p_lexer = \<lparr>fin = [58, 32, 57, NEWLINE], lineno = 1, errors = [], lex_u = U_str ?b\<rparr>,
      p_schema = demo_schema, p_errors = []\<rparr>"
  let ?env = "\<lparr>env_al = roomy, env_fl = \<lparr>fl_widen = \<lambda>_. 0, fl_narrow = \<lambda>_. 0, fl_of_int = id, fl_strtod = \<lambda>_. 0,
        fl_fmt_g = \<lambda>_ _. []\<rparr>\<rparr>"
  have u: "fmt_u 9 = [57]" by (simp add: fmt_u_def decimal.simps)
  have t: "tok_text ?p = Some ?b" by (simp add: tok_text_def)
  have f: "cell_fits (unat (ssize (ref_o demo_ref_3)))
      (Int_cell (ucast (ref_tag0 demo_ref_3)) (ucast (ref_size demo_ref_3)))"
    by (simp add: demo_ref_3_def demo_root_3_def ref_size_def int_size_def)
  note app = printed_integer_parses_back [OF _ _ t _ demo_message_ref [of 0] _ _ _ f demo_message_value,
      where env = ?env and mt = demo_msg and rest = "[]" and fuel = 1]
  have "\<exists>w' p1 p2. nbuf_ref_get_int w' demo_ref_3 = Some 9 \<and> fin (p_lexer p1) = [NEWLINE] \<and> next_tok ?env p1 = Some p2 \<and>
      parse_msg (Suc 1) ?env demo_root_3 ?p demo_msg (demo_message_world 0)
        = bind_run (of_opt (separator ?env p2)) (\<lambda>p3. parse_msg 1 ?env demo_root_3 p3 demo_msg w')"
    by (rule app) (use demo_message_find demo_message_writable in \<open>simp_all add: demo_ref_3_def u\<close>)
  then show ?thesis by (simp add: Let_def numeral_2_eq_2 del: parse_msg.simps)
qed

section \<open>What the parser takes for granted\<close>

text \<open>
  \<^verbatim>\<open>parse_str\<close> does not look at the token: for an integer it takes the number for a string.  The error
  message of \<^verbatim>\<open>parse_enum\<close> for any other token passes the token for a \<^verbatim>\<open>%s\<close>.
\<close>

lemma string_field_misreads_integer:
  "lex_u (p_lexer p) = U_int i \<Longrightarrow> parse_str env ref p name w = None"
  by (simp add: parse_str_def tok_text_def)

lemma enum_field_error_crashes:
  "p_token p \<noteq> Tok_INT \<Longrightarrow> p_token p \<noteq> Tok_ID \<Longrightarrow> parse_enum env ref p name w = None"
  by (cases "p_token p") (simp_all add: parse_enum_def)

end
