(* ===== verification/Printf.thy ===== *)
theory Printf
  imports Print Types
begin

text \<open>
  What the generators of \<^verbatim>\<open>nbufc\<close> have in common: \<^verbatim>\<open>fprintf\<close> with the conversions they use, loops that
  print, and the reading of a whole schema through its accessors.
\<close>

section \<open>Formatted output\<close>

text \<open>
  The arguments after the format: a \<^verbatim>\<open>char *\<close> (the memory from it on), an integer of 32 bits (also one
  promoted to \<^verbatim>\<open>int\<close>), one of 64 bits, a character.
\<close>

datatype arg = Str "byte list" | Num uint32 | Long uint64 | Chr byte

definition lit :: "string \<Rightarrow> byte list" where
  "lit s = map of_char s"

definition pad_left :: "nat \<Rightarrow> byte list \<Rightarrow> byte list" where
  "pad_left n s = replicate (n - length s) 32 @ s"

text \<open>One conversion; \<open>f\<close> is the format after the percent sign.  The result: the text and what is left of the format.\<close>

definition convert :: "string \<Rightarrow> arg \<Rightarrow> (byte list \<times> string) option" where
  "convert f a =
    (case a of
       Str s \<Rightarrow> if take 1 f = ''s'' then do { t \<leftarrow> fmt_s s; Some (t, drop 1 f) } else None
     | Num v \<Rightarrow>
        if take 1 f = ''d'' then Some (fmt_d (scast v), drop 1 f)
        else if take 1 f = ''u'' then Some (fmt_u (ucast v), drop 1 f)
        else if take 2 f = ''3u'' then Some (pad_left 3 (fmt_u (ucast v)), drop 2 f)
        else None
     | Long v \<Rightarrow> if take 2 f = ''lu'' then Some (fmt_u v, drop 2 f) else None
     | Chr c \<Rightarrow> if take 1 f = ''c'' then Some ([c], drop 1 f) else None)"

lemma convert_shorter: "convert f a = Some (t, g) \<Longrightarrow> length g < length f"
  by (cases f) (auto simp: convert_def split: arg.splits if_splits bind_splits)

text \<open>\<open>None\<close>: an argument is missing or does not fit its conversion, which is undefined.\<close>

function printf :: "string \<Rightarrow> arg list \<Rightarrow> byte list option" where
  "printf [] as = Some []"
| "printf (c # f) as =
    (if c \<noteq> CHR ''%'' then map_option ((#) (of_char c)) (printf f as)
     else if take 1 f = ''%'' then map_option ((#) (of_char c)) (printf (tl f) as)
     else case as of
       [] \<Rightarrow> None
     | a # as1 \<Rightarrow> (case convert f a of None \<Rightarrow> None | Some (t, g) \<Rightarrow> map_option ((@) t) (printf g as1)))"
  by pat_completeness auto

termination printf
  by (relation "measure (\<lambda>(f, as). length f)") (auto dest: convert_shorter)


text \<open>A \<^verbatim>\<open>char *\<close> to the characters \<open>s\<close> and a NUL.\<close>

definition cstr :: "string \<Rightarrow> byte list" where
  "cstr s = lit s @ [0]"

definition chars :: "byte list \<Rightarrow> string" where
  "chars t = map (\<lambda>b. char_of (unat b)) t"

lemma lit_chars [simp]: "lit (chars t) = t"
proof -
  have "of_char (char_of (unat b)) = b" for b :: byte
  proof -
    have "(of_char (char_of (unat b)) :: byte) = of_nat (of_char (char_of (unat b)))"
      by (simp only: of_nat_of_char)
    then show ?thesis using unsigned_less [of b, where 'a = nat] by simp
  qed
  then show ?thesis by (simp add: lit_def chars_def map_idI)
qed

lemma chars_lit [simp]: "chars (lit s) = s"
proof -
  have "char_of (unat (of_char c :: byte)) = c" for c
  proof -
    have "(of_char c :: byte) = of_nat (of_char c)" by (simp only: of_nat_of_char)
    moreover have "(of_char c :: nat) < 256" by simp
    ultimately have "unat (of_char c :: byte) = of_char c" by (simp add: unat_of_nat take_bit_nat_eq_self)
    then show ?thesis by (simp add: char_of_char)
  qed
  then show ?thesis by (simp add: lit_def chars_def map_idI)
qed

lemma lit_simps [simp]: "lit [] = []" "lit (c # s) = of_char c # lit s" "lit (s @ t) = lit s @ lit t"
  "length (lit s) = length s"
  by (simp_all add: lit_def)

lemma fmt_s_append: "0 \<notin> set s \<Longrightarrow> fmt_s (s @ 0 # rest) = Some s"
proof -
  assume "0 \<notin> set s"
  then have "takeWhile (\<lambda>b. b \<noteq> 0) (s @ 0 # rest) = s" by (induction s) auto
  then show ?thesis by (simp add: fmt_s_def c_strlen_def c_string_def)
qed

section \<open>Loops\<close>

fun collect :: "('a \<Rightarrow> 'b option) \<Rightarrow> 'a list \<Rightarrow> 'b list option" where
  "collect f [] = Some []"
| "collect f (x # xs) = do { y \<leftarrow> f x; ys \<leftarrow> collect f xs; Some (y # ys) }"

text \<open>A loop that prints \<open>f i\<close> for every index.\<close>

definition out_each :: "('a \<Rightarrow> byte list option) \<Rightarrow> 'a list \<Rightarrow> byte list option" where
  "out_each f xs = map_option concat (collect f xs)"

lemma out_each_simps [simp]:
  "out_each f [] = Some []"
  "out_each f (x # xs) = do { t \<leftarrow> f x; rest \<leftarrow> out_each f xs; Some (t @ rest) }"
  by (auto simp: out_each_def map_option_bind split: option.splits bind_splits)

text \<open>What is printed from the entries of a table is printed from what they were read as.\<close>

lemma out_table:
  assumes "collect rd xs = Some vs"
    and "\<And>x v. x \<in> set xs \<Longrightarrow> v \<in> set vs \<Longrightarrow> rd x = Some v \<Longrightarrow> f x = Some (g v)"
  shows "out_each f xs = Some (concat (map g vs))"
  using assms
proof (induction xs arbitrary: vs)
  case (Cons x xs)
  then obtain v ws where v: "rd x = Some v" "collect rd xs = Some ws" "vs = v # ws" by (auto split: bind_splits)
  have "f x = Some (g v)" using Cons.prems(2) [of x v] v by simp
  moreover have "out_each f xs = Some (concat (map g ws))" using Cons.IH [OF v(2)] Cons.prems(2) v(3) by simp
  ultimately show ?case using v(3) by simp
qed simp

lemma out_each_Some: "(\<And>x. x \<in> set xs \<Longrightarrow> f x = Some (g x)) \<Longrightarrow> out_each f xs = Some (concat (map g xs))"
  by (induction xs) simp_all

section \<open>Reading a schema\<close>

text \<open>A string as \<^verbatim>\<open>%s\<close> prints it.\<close>

definition text_of :: "(byte list \<times> size_t) option \<Rightarrow> string option" where
  "text_of r = do { (s, _) \<leftarrow> r; t \<leftarrow> fmt_s s; Some (chars t) }"

definition read_enum :: "world \<Rightarrow> nbuf_obj \<Rightarrow> enumType option" where
  "read_enum w e =
    do { name \<leftarrow> text_of (nbuf_EnumType_name w e);
         n \<leftarrow> nbuf_EnumType_values_size w e;
         vals \<leftarrow> collect (\<lambda>i. do {
             d \<leftarrow> nbuf_EnumType_values w e (of_nat i);
             name \<leftarrow> text_of (nbuf_EnumDesc_name w d);
             v \<leftarrow> nbuf_EnumDesc_value w d;
             Some \<lparr>ed_name = name, ed_val = v\<rparr> }) [0..<unat n];
         Some \<lparr>et_name = name, et_vals = vals\<rparr> }"

definition read_field :: "world \<Rightarrow> nbuf_obj \<Rightarrow> field_out option" where
  "read_field w fld =
    do { name \<leftarrow> text_of (nbuf_FieldDesc_name w fld);
         k \<leftarrow> nbuf_FieldDesc_kind w fld;
         lst \<leftarrow> nbuf_FieldDesc_list w fld;
         t0 \<leftarrow> nbuf_FieldDesc_tag0 w fld;
         t1 \<leftarrow> nbuf_FieldDesc_tag1 w fld;
         Some \<lparr>out_name = name, out_kind = k, out_list = lst, out_tag0 = t0, out_tag1 = t1\<rparr> }"

definition read_msg :: "world \<Rightarrow> nbuf_obj \<Rightarrow> msg_out option" where
  "read_msg w m =
    do { name \<leftarrow> text_of (nbuf_MsgType_name w m);
         n \<leftarrow> nbuf_MsgType_fields_size w m;
         flds \<leftarrow> collect (\<lambda>i. do { fld \<leftarrow> nbuf_MsgType_fields w m (of_nat i); read_field w fld }) [0..<unat n];
         s \<leftarrow> nbuf_MsgType_ssize w m;
         p \<leftarrow> nbuf_MsgType_psize w m;
         Some \<lparr>mout_name = name, mout_fields = flds, mout_ssize = s, mout_psize = p\<rparr> }"

text \<open>A whole schema; the length of its package name is that of the text.\<close>

record schema_view =
  sv_pkgName :: string
  sv_enums :: "enumType list"
  sv_msgs :: "msg_out list"

definition read_schema :: "world \<Rightarrow> nbuf_obj \<Rightarrow> schema_view option" where
  "read_schema w sch =
    do { (p, len) \<leftarrow> nbuf_Schema_pkgName w sch;
         pkg \<leftarrow> text_of (Some (p, len));
         assert_ok (unat len = length pkg);
         ne \<leftarrow> nbuf_Schema_enumTypes_size w sch;
         enums \<leftarrow> collect (\<lambda>i. do { e \<leftarrow> nbuf_Schema_enumTypes w sch (of_nat i); read_enum w e }) [0..<unat ne];
         nm \<leftarrow> nbuf_Schema_msgTypes_size w sch;
         msgs \<leftarrow> collect (\<lambda>i. do { m \<leftarrow> nbuf_Schema_msgTypes w sch (of_nat i); read_msg w m }) [0..<unat nm];
         Some \<lparr>sv_pkgName = pkg, sv_enums = enums, sv_msgs = msgs\<rparr> }"

lemma text_of_Some:
  "text_of r = Some t \<longleftrightarrow> (\<exists>s n. r = Some (s, n) \<and> fmt_s s = Some (lit t))"
  by (auto simp: text_of_def split: bind_splits)

lemma read_names:
  "read_enum w e = Some v \<Longrightarrow> \<exists>s n. nbuf_EnumType_name w e = Some (s, n) \<and> fmt_s s = Some (lit (et_name v))"
  "read_msg w m = Some u \<Longrightarrow> \<exists>s n. nbuf_MsgType_name w m = Some (s, n) \<and> fmt_s s = Some (lit (mout_name u))"
  by (auto simp: read_enum_def read_msg_def text_of_Some split: bind_splits)

end
