(* ===== verification/Grammar.thy ===== *)
theory Grammar
  imports Printf Token_Progress
begin

text \<open>
  The front end of the schema compiler: the scanner \<^verbatim>\<open>yylex\<close> of \<^verbatim>\<open>nbufc/lex.stub.c\<close> over the lexer of
  the library, and the grammar of \<^verbatim>\<open>nbufc/nbuf.y\<close> with its actions, as recursive functions over the
  tokens.  The lemmas at the end say what the tokens of a text are, piece by piece.
\<close>

section \<open>Tokens\<close>

text \<open>
  The character tokens of the grammar have names here; \<open>OTHER\<close> is a token that it does not have, and
  \<open>CRASH\<close> marks the place where the lexer aborts.
\<close>

datatype yytoken =
  PACKAGE | ENUM | MESSAGE | ID string | INTEGER uint32 |
  LBRACE | RBRACE | LBRACK | RBRACK | COLON | EQUALS | OTHER | CRASH

definition char_token :: "byte \<Rightarrow> yytoken" where
  "char_token c =
    (if c = 123 then LBRACE else if c = 125 then RBRACE else if c = 91 then LBRACK
     else if c = 93 then RBRACK else if c = 58 then COLON else if c = 61 then EQUALS else OTHER)"

definition id_token :: "string \<Rightarrow> yytoken" where
  "id_token s =
    (if s = ''package'' then PACKAGE else if s = ''message'' then MESSAGE
     else if s = ''enum'' then ENUM else ID s)"

text \<open>\<^verbatim>\<open>yylex\<close>; the inner \<open>None\<close> is 0, the end, which a NUL in the input gives as well.\<close>

definition yylex ::
    "allocator \<Rightarrow> (byte list \<Rightarrow> uint64) \<Rightarrow> nbuf_lexer \<Rightarrow> (yytoken option \<times> nbuf_lexer) option" where
  "yylex al strtod l =
    do { (token, l1) \<leftarrow> nbuf_lex al strtod l;
         t \<leftarrow> (case token of
                Tok_STR \<Rightarrow> Some (Some OTHER)
              | Tok_UNK \<Rightarrow> Some (Some OTHER)
              | Tok_FLT \<Rightarrow> Some (Some OTHER)
              | Tok_ID \<Rightarrow> (case lex_u l1 of
                    U_str b \<Rightarrow> do { s \<leftarrow> fmt_s (buf_base b); Some (Some (id_token (chars s))) }
                  | _ \<Rightarrow> None)
              | Tok_INT \<Rightarrow> (case lex_u l1 of U_int i \<Rightarrow> Some (Some (INTEGER (ucast i))) | _ \<Rightarrow> None)
              | Tok_EOF \<Rightarrow> Some None
              | Tok_char c \<Rightarrow> Some (if c = 0 then None else Some (char_token c)));
         Some (t, l1) }"

lemma yylex_consumes: "yylex al strtod l = Some (Some t, l1) \<Longrightarrow> length (fin l1) < length (fin l)"
  by (auto simp: yylex_def dest!: lex_consumes split: bind_splits nbuf_Token.splits)

text \<open>All tokens of the input.\<close>

function yytokens :: "allocator \<Rightarrow> (byte list \<Rightarrow> uint64) \<Rightarrow> nbuf_lexer \<Rightarrow> yytoken list" where
  "yytokens al strtod l =
    (case yylex al strtod l of
       None \<Rightarrow> [CRASH]
     | Some (None, l1) \<Rightarrow> []
     | Some (Some t, l1) \<Rightarrow> t # yytokens al strtod l1)"
  by pat_completeness auto

termination yytokens
  by (relation "measure (\<lambda>(al, strtod, l). length (fin l))") (auto intro: yylex_consumes)

declare yytokens.simps [simp del]

section \<open>The grammar\<close>

text \<open>
  The ways the parser ends without a schema: \<^verbatim>\<open>yyerror\<close>, which exits; an abort of the lexer; and, when
  \<^verbatim>\<open>malloc\<close> has refused a node of the lists, the store through NULL that follows.
\<close>

datatype stop = Syntax_error | Lexer_aborts | Null_node

definition sizeof_enumType :: nat where "sizeof_enumType = 24"
definition sizeof_enumDesc :: nat where "sizeof_enumDesc = 24"
definition sizeof_msgType :: nat where "sizeof_msgType = 24"
definition sizeof_fldDesc :: nat where "sizeof_fldDesc = 32"

definition unexpected :: "yytoken list \<Rightarrow> stop" where
  "unexpected ts = (case ts of t # _ \<Rightarrow> if t = CRASH then Lexer_aborts else Syntax_error | [] \<Rightarrow> Syntax_error)"

definition and_parse :: "stop + 'a \<Rightarrow> ('a \<Rightarrow> stop + 'b) \<Rightarrow> stop + 'b" where
  "and_parse r f = (case r of Inl e \<Rightarrow> Inl e | Inr x \<Rightarrow> f x)"

lemma and_parse_simps [simp]: "and_parse (Inl e) f = Inl e" "and_parse (Inr x) f = f x"
  by (simp_all add: and_parse_def)

lemma and_parse_cong [fundef_cong]:
  "r = r' \<Longrightarrow> (\<And>x. r' = Inr x \<Longrightarrow> f x = g x) \<Longrightarrow> and_parse r f = and_parse r' g"
  by (cases r') simp_all

lemma and_parse_Inr: "and_parse r f = Inr y \<longleftrightarrow> (\<exists>x. r = Inr x \<and> f x = Inr y)"
  by (cases r) simp_all

definition expect_tok :: "yytoken \<Rightarrow> yytoken list \<Rightarrow> stop + yytoken list" where
  "expect_tok t ts = (case ts of u # us \<Rightarrow> if u = t then Inr us else Inl (unexpected ts) | [] \<Rightarrow> Inl Syntax_error)"

definition expect_ID :: "yytoken list \<Rightarrow> stop + (string \<times> yytoken list)" where
  "expect_ID ts = (case ts of ID s # us \<Rightarrow> Inr (s, us) | _ \<Rightarrow> Inl (unexpected ts))"

definition expect_INT :: "yytoken list \<Rightarrow> stop + (uint32 \<times> yytoken list)" where
  "expect_INT ts = (case ts of INTEGER i # us \<Rightarrow> Inr (i, us) | _ \<Rightarrow> Inl (unexpected ts))"

lemma expect_simps [simp]:
  "expect_tok t (t # ts) = Inr ts" "expect_ID (ID s # ts) = Inr (s, ts)" "expect_INT (INTEGER i # ts) = Inr (i, ts)"
  by (simp_all add: expect_tok_def expect_ID_def expect_INT_def)

lemma expect_shorter:
  "expect_tok t ts = Inr us \<Longrightarrow> length us < length ts"
  "expect_ID ts = Inr (s, us) \<Longrightarrow> length us < length ts"
  "expect_INT ts = Inr (i, us) \<Longrightarrow> length us < length ts"
  by (auto simp: expect_tok_def expect_ID_def expect_INT_def split: list.splits yytoken.splits if_splits)

text \<open>The value of a constant, an \<^verbatim>\<open>int\<close>, and the new \<^verbatim>\<open>nextEnumVal\<close>.\<close>

definition eq_int_opt :: "uint16 \<Rightarrow> yytoken list \<Rightarrow> stop + (uint32 \<times> uint16 \<times> yytoken list)" where
  "eq_int_opt nextEnumVal ts =
    (case ts of
       EQUALS # ts1 \<Rightarrow> and_parse (expect_INT ts1) (\<lambda>(i, ts2). Inr (i, ucast i + 1, ts2))
     | _ \<Rightarrow> Inr (ucast nextEnumVal, nextEnumVal + 1, ts))"

lemma eq_int_opt_shorter: "eq_int_opt n ts = Inr (x, m, us) \<Longrightarrow> length us \<le> length ts"
  by (auto simp: eq_int_opt_def and_parse_Inr dest: expect_shorter split: list.splits yytoken.splits)

function enum_field_list ::
    "allocator \<Rightarrow> uint16 \<Rightarrow> yytoken list \<Rightarrow> stop + (enumDesc list \<times> yytoken list)" where
  "enum_field_list al nextEnumVal ts =
    (case ts of
       ID name # ts1 \<Rightarrow>
         and_parse (eq_int_opt nextEnumVal ts1) (\<lambda>(val, next, ts2).
         if \<not> grants al sizeof_enumDesc then Inl Null_node else
         and_parse (enum_field_list al next ts2) (\<lambda>(ds, rest).
           Inr (\<lparr>ed_name = name, ed_val = ucast val\<rparr> # ds, rest)))
     | _ \<Rightarrow> Inr ([], ts))"
  by pat_completeness auto

termination enum_field_list
  by (relation "measure (\<lambda>(al, n, ts). length ts)") (auto dest: eq_int_opt_shorter)

definition list_spec :: "yytoken list \<Rightarrow> stop + (bool \<times> yytoken list)" where
  "list_spec ts =
    (case ts of
       LBRACK # ts1 \<Rightarrow> and_parse (expect_tok RBRACK ts1) (\<lambda>ts2. Inr (True, ts2))
     | _ \<Rightarrow> Inr (False, ts))"

lemma list_spec_shorter: "list_spec ts = Inr (x, us) \<Longrightarrow> length us \<le> length ts"
  by (auto simp: list_spec_def and_parse_Inr dest: expect_shorter split: list.splits yytoken.splits)

function msg_field_list :: "allocator \<Rightarrow> yytoken list \<Rightarrow> stop + (fldDesc list \<times> yytoken list)" where
  "msg_field_list al ts =
    (case ts of
       ID name # ts1 \<Rightarrow>
         and_parse (expect_tok COLON ts1) (\<lambda>ts2.
         and_parse (list_spec ts2) (\<lambda>(lst, ts3).
         and_parse (expect_ID ts3) (\<lambda>(typeid, ts4).
         if \<not> grants al sizeof_fldDesc then Inl Null_node else
         and_parse (msg_field_list al ts4) (\<lambda>(ds, rest).
           Inr (\<lparr>fld_name = name, fld_tname = typeid, fld_list = lst\<rparr> # ds, rest)))))
     | _ \<Rightarrow> Inr ([], ts))"
  by pat_completeness auto

termination msg_field_list
  by (relation "measure (\<lambda>(al, ts). length ts)") (auto dest!: expect_shorter list_spec_shorter)

declare enum_field_list.simps [simp del] msg_field_list.simps [simp del]

lemma field_list_simps [simp]:
  "enum_field_list al n (ID name # ts) =
    and_parse (eq_int_opt n ts) (\<lambda>(val, next, ts2).
    if \<not> grants al sizeof_enumDesc then Inl Null_node else
    and_parse (enum_field_list al next ts2) (\<lambda>(ds, rest). Inr (\<lparr>ed_name = name, ed_val = ucast val\<rparr> # ds, rest)))"
  "\<nexists>name us. ts = ID name # us \<Longrightarrow> enum_field_list al n ts = Inr ([], ts)"
  "msg_field_list al (ID name # ts) =
    and_parse (expect_tok COLON ts) (\<lambda>ts2.
    and_parse (list_spec ts2) (\<lambda>(lst, ts3).
    and_parse (expect_ID ts3) (\<lambda>(typeid, ts4).
    if \<not> grants al sizeof_fldDesc then Inl Null_node else
    and_parse (msg_field_list al ts4) (\<lambda>(ds, rest).
      Inr (\<lparr>fld_name = name, fld_tname = typeid, fld_list = lst\<rparr> # ds, rest)))))"
  "\<nexists>name us. ts = ID name # us \<Longrightarrow> msg_field_list al ts = Inr ([], ts)"
  by (simp_all add: enum_field_list.simps [of al n] msg_field_list.simps [of al "ID name # ts"]
      msg_field_list.simps [of al ts] split: list.splits yytoken.splits)

lemma enum_field_list_shorter: "enum_field_list al n ts = Inr (es, us) \<Longrightarrow> length us \<le> length ts"
proof (induction al n ts arbitrary: es us rule: enum_field_list.induct)
  case (1 al n ts)
  show ?case
  proof (cases "\<exists>name us. ts = ID name # us")
    case True
    then obtain name ts1 where ts: "ts = ID name # ts1" by blast
    obtain v m ts2 ds where r: "eq_int_opt n ts1 = Inr (v, m, ts2)" "enum_field_list al m ts2 = Inr (ds, us)"
      and g: "\<not> \<not> grants al sizeof_enumDesc"
      using "1.prems" ts by (auto simp: and_parse_Inr split: if_splits)
    then show ?thesis using "1.IH" [OF ts refl r(1) refl refl g r(2)] eq_int_opt_shorter [OF r(1)] ts by simp
  qed (use "1.prems" in simp)
qed

lemma msg_field_list_shorter: "msg_field_list al ts = Inr (ds, us) \<Longrightarrow> length us \<le> length ts"
proof (induction al ts arbitrary: ds us rule: msg_field_list.induct)
  case (1 al ts)
  show ?case
  proof (cases "\<exists>name us. ts = ID name # us")
    case True
    then obtain name ts1 where ts: "ts = ID name # ts1" by blast
    obtain ts2 lst ts3 t ts4 ds1 where r: "expect_tok COLON ts1 = Inr ts2" "list_spec ts2 = Inr (lst, ts3)"
      "expect_ID ts3 = Inr (t, ts4)" "msg_field_list al ts4 = Inr (ds1, us)"
      and g: "\<not> \<not> grants al sizeof_fldDesc"
      using "1.prems" ts by (auto simp: and_parse_Inr split: if_splits)
    then show ?thesis
      using "1.IH" [OF ts refl r(1,2) refl r(3) refl g r(4)] expect_shorter(1) [OF r(1)] list_spec_shorter [OF r(2)]
        expect_shorter(2) [OF r(3)] ts by simp
  qed (use "1.prems" in simp)
qed

function dcl_list :: "allocator \<Rightarrow> yytoken list \<Rightarrow> stop + (enumType list \<times> msgType list \<times> yytoken list)" where
  "dcl_list al ts =
    (case ts of
       ENUM # ts1 \<Rightarrow>
         and_parse (expect_ID ts1) (\<lambda>(name, ts2).
         if \<not> grants al sizeof_enumType then Inl Null_node else
         and_parse (expect_tok LBRACE ts2) (\<lambda>ts3.
         and_parse (enum_field_list al 0 ts3) (\<lambda>(vals, ts4).
         and_parse (expect_tok RBRACE ts4) (\<lambda>ts5.
         and_parse (dcl_list al ts5) (\<lambda>(es, ms, rest).
           Inr (\<lparr>et_name = name, et_vals = vals\<rparr> # es, ms, rest))))))
     | MESSAGE # ts1 \<Rightarrow>
         and_parse (expect_ID ts1) (\<lambda>(name, ts2).
         if \<not> grants al sizeof_msgType then Inl Null_node else
         and_parse (expect_tok LBRACE ts2) (\<lambda>ts3.
         and_parse (msg_field_list al ts3) (\<lambda>(flds, ts4).
         and_parse (expect_tok RBRACE ts4) (\<lambda>ts5.
         and_parse (dcl_list al ts5) (\<lambda>(es, ms, rest).
           Inr (es, \<lparr>msg_name = name, msg_flds = flds\<rparr> # ms, rest))))))
     | _ \<Rightarrow> Inr ([], [], ts))"
  by pat_completeness auto

termination dcl_list
  by (relation "measure (\<lambda>(al, ts). length ts)")
    (auto dest!: expect_shorter enum_field_list_shorter msg_field_list_shorter)

declare dcl_list.simps [simp del]

definition package_opt :: "yytoken list \<Rightarrow> stop + (string option \<times> yytoken list)" where
  "package_opt ts =
    (case ts of
       PACKAGE # ts1 \<Rightarrow> and_parse (expect_ID ts1) (\<lambda>(name, ts2). Inr (Some name, ts2))
     | _ \<Rightarrow> Inr (None, ts))"

text \<open>\<^verbatim>\<open>yyparse\<close>: the schema that it leaves in \<^verbatim>\<open>schema\<close>.\<close>

definition yyparse :: "allocator \<Rightarrow> yytoken list \<Rightarrow> stop + schemaDesc" where
  "yyparse al ts =
    and_parse (package_opt ts) (\<lambda>(pkg, ts1).
    and_parse (dcl_list al ts1) (\<lambda>(es, ms, rest).
      if rest = [] then Inr \<lparr>sd_pkgName = pkg, sd_enums = es, sd_msgs = ms\<rparr> else Inl (unexpected rest)))"

text \<open>No rule looks at the result of \<^verbatim>\<open>malloc\<close>: the node is stored to when it has been refused.\<close>

lemma refused_node_crashes:
  "\<not> grants al sizeof_enumType \<Longrightarrow> dcl_list al (ENUM # ID name # ts) = Inl Null_node"
  "\<not> grants al sizeof_msgType \<Longrightarrow> dcl_list al (MESSAGE # ID name # ts) = Inl Null_node"
  by (simp_all add: dcl_list.simps)

section \<open>The tokens of a text\<close>

text \<open>With memory granted, the tokens of the input \<open>cs\<close> are \<open>ts\<close>, wherever it starts.\<close>

definition toks :: "byte list \<Rightarrow> yytoken list \<Rightarrow> bool" where
  "toks cs ts \<longleftrightarrow>
    (\<forall>al strtod l. all_granted al \<and> length cs < 2 ^ 60 \<longrightarrow> yytokens al strtod (l\<lparr>fin := cs\<rparr>) = ts)"

fun lexeme_token :: "lexeme \<Rightarrow> yytoken option" where
  "lexeme_token (L_id s) = Some (id_token (chars s))"
| "lexeme_token (L_int i) = Some (INTEGER (ucast i))"
| "lexeme_token (L_char c) = (if c = 0 then None else Some (char_token c))"
| "lexeme_token L_eof = None"
| "lexeme_token _ = Some OTHER"

lemma fmt_s_data:
  assumes "buf_data b = s @ [0]" and "0 \<notin> set s" and "buf_wwf b"
  shows "fmt_s (buf_base b) = Some s"
proof -
  obtain r where r: "buf_base b = s @ 0 # r"
    using assms(1) unfolding buf_data_def by (metis append.assoc append_Cons append_Nil append_take_drop_id)
  have t: "takeWhile (\<lambda>b. b \<noteq> 0) (s @ 0 # r) = s" using assms(2) by (induction s) auto
  show ?thesis using t by (simp add: fmt_s_def c_strlen_def c_string_def r)
qed

lemma yylex_reads:
  assumes al: "all_granted al" and len: "length cs < 2 ^ 60"
    and s: "lex_spec strtod (l\<lparr>fin := cs\<rparr>) = (x, l2)" and nz: "\<And>t. x = L_id t \<Longrightarrow> 0 \<notin> set t"
  shows "\<exists>l1. yylex al strtod (l\<lparr>fin := cs\<rparr>) = Some (lexeme_token x, l1) \<and> fin l1 = fin l2"
proof -
  have "lexes_to (nbuf_lex al strtod (l\<lparr>fin := cs\<rparr>)) (x, l2)"
    using lex_refines [OF al, of "l\<lparr>fin := cs\<rparr>" strtod] len s by simp
  then obtain tok l1 where r: "nbuf_lex al strtod (l\<lparr>fin := cs\<rparr>) = Some (tok, l1)"
    "reads_as tok (lex_u l1) x" "fin l1 = fin l2" by (rule lexes_toE)
  have "yylex al strtod (l\<lparr>fin := cs\<rparr>) = Some (lexeme_token x, l1)"
    using r(1,2) nz by (cases tok; cases "lex_u l1"; cases x; auto simp: yylex_def fmt_s_data)
  then show ?thesis using r(3) by blast
qed

lemma toks_step:
  assumes "\<And>strtod l. \<exists>l2. lex_spec strtod (l\<lparr>fin := cs\<rparr>) = (x, l2) \<and> fin l2 = rest"
    and "\<And>t. x = L_id t \<Longrightarrow> 0 \<notin> set t" and "lexeme_token x = Some t" and "toks rest ts"
    and "length rest \<le> length cs"
  shows "toks cs (t # ts)"
  unfolding toks_def
proof (intro allI impI)
  fix al :: allocator and strtod :: "byte list \<Rightarrow> uint64" and l
  assume a: "all_granted al \<and> length cs < 2 ^ 60"
  obtain l2 where l2: "lex_spec strtod (l\<lparr>fin := cs\<rparr>) = (x, l2)" "fin l2 = rest" using assms(1) by blast
  obtain l1 where l1: "yylex al strtod (l\<lparr>fin := cs\<rparr>) = Some (Some t, l1)" "fin l1 = rest"
    using yylex_reads [OF _ _ l2(1) assms(2)] a assms(3) l2(2) by auto
  have "l1 = l1\<lparr>fin := rest\<rparr>" using l1(2) by simp
  then have "yytokens al strtod l1 = ts" using assms(4,5) a unfolding toks_def by (metis order.strict_trans1)
  then show "yytokens al strtod (l\<lparr>fin := cs\<rparr>) = t # ts"
    using l1(1) by (simp add: yytokens.simps [of al strtod "l\<lparr>fin := cs\<rparr>"])
qed

lemma yytokens_same_lex:
  "nbuf_lex al strtod l = nbuf_lex al strtod l' \<Longrightarrow> yytokens al strtod l = yytokens al strtod l'"
  by (simp add: yytokens.simps [of al strtod l] yytokens.simps [of al strtod l'] yylex_def)

lemma nbuf_lex_same_spaces:
  "skipspaces l = skipspaces l' \<Longrightarrow> nbuf_lex al strtod l = nbuf_lex al strtod l'"
  by (simp add: nbuf_lex.simps [of al strtod l] nbuf_lex.simps [of al strtod l'])

lemma toks_same_lex:
  assumes "\<And>al strtod l. \<exists>l'. nbuf_lex al strtod (l\<lparr>fin := cs\<rparr>) = nbuf_lex al strtod (l'\<lparr>fin := cs'\<rparr>)"
    and "toks cs' ts" and "length cs' \<le> length cs"
  shows "toks cs ts"
  unfolding toks_def
proof (intro allI impI)
  fix al :: allocator and strtod :: "byte list \<Rightarrow> uint64" and l
  assume a: "all_granted al \<and> length cs < 2 ^ 60"
  obtain l' where "nbuf_lex al strtod (l\<lparr>fin := cs\<rparr>) = nbuf_lex al strtod (l'\<lparr>fin := cs'\<rparr>)" using assms(1) by blast
  then show "yytokens al strtod (l\<lparr>fin := cs\<rparr>) = ts"
    using assms(2,3) a by (auto simp: toks_def dest: yytokens_same_lex)
qed

lemma toks_end: "toks [] []"
  by (simp add: toks_def yytokens.simps yylex_def nbuf_lex.simps skipspaces_def)

lemma toks_space:
  assumes "isspace c" and "toks cs ts"
  shows "toks (c # cs) ts"
proof (rule toks_same_lex [OF _ assms(2)])
  fix al :: allocator and strtod :: "byte list \<Rightarrow> uint64" and l :: nbuf_lexer
  let ?l = "l\<lparr>lineno := lineno l + (if c = NEWLINE then 1 else 0)\<rparr>"
  have "skipspaces (l\<lparr>fin := c # cs\<rparr>) = skipspaces (?l\<lparr>fin := cs\<rparr>)"
    using assms(1) by (simp add: spaces_spec_eq spaces_spec_def Let_def)
  then show "\<exists>l'. nbuf_lex al strtod (l\<lparr>fin := c # cs\<rparr>) = nbuf_lex al strtod (l'\<lparr>fin := cs\<rparr>)"
    using nbuf_lex_same_spaces by blast
qed simp

lemma toks_spaces:
  assumes "\<forall>c \<in> set s. isspace (of_char c)" and "toks rest ts"
  shows "toks (lit s @ rest) ts"
  using assms by (induction s) (auto intro: toks_space)

lemma toks_comment:
  assumes "NEWLINE \<notin> set s" and "toks cs ts"
  shows "toks (SLASH # SLASH # s @ NEWLINE # cs) ts"
proof (rule toks_same_lex)
  show "toks (NEWLINE # cs) ts" using assms(2) by (rule toks_space [rotated]) (simp add: isspace_def)
  fix al :: allocator and strtod :: "byte list \<Rightarrow> uint64" and l :: nbuf_lexer
  have "skipspaces (l\<lparr>fin := SLASH # SLASH # s @ NEWLINE # cs\<rparr>) = (Some SLASH, l\<lparr>fin := SLASH # s @ NEWLINE # cs\<rparr>)"
    by (simp add: spaces_spec_eq spaces_spec_def isspace_def Let_def)
  moreover have "dropWhile (\<lambda>c. c \<noteq> NEWLINE) (s @ NEWLINE # cs) = NEWLINE # cs"
    using assms(1) by (induction s) auto
  then have "skip_slash (l\<lparr>fin := SLASH # s @ NEWLINE # cs\<rparr>) = l\<lparr>fin := NEWLINE # cs\<rparr>"
    by (simp add: slash_spec_eq slash_spec_def line_spec_def)
  ultimately show "\<exists>l'. nbuf_lex al strtod (l\<lparr>fin := SLASH # SLASH # s @ NEWLINE # cs\<rparr>)
      = nbuf_lex al strtod (l'\<lparr>fin := NEWLINE # cs\<rparr>)"
    by (intro exI [of _ l]) (simp add: nbuf_lex.simps [of al strtod "l\<lparr>fin := SLASH # SLASH # s @ NEWLINE # cs\<rparr>"])
qed simp

definition plain_char :: "byte \<Rightarrow> bool" where
  "plain_char c \<longleftrightarrow> \<not> isspace c \<and> \<not> isdigit c \<and> \<not> isalpha c \<and>
    c \<notin> {0, SLASH, HASH, QUOTE, MINUS, UNDERSCORE}"

lemma toks_char:
  assumes "plain_char c" and "toks cs ts"
  shows "toks (c # cs) (char_token c # ts)"
proof (rule toks_step [OF _ _ _ assms(2)])
  show "\<exists>l2. lex_spec strtod (l\<lparr>fin := c # cs\<rparr>) = (L_char c, l2) \<and> fin l2 = cs" for strtod l
    using assms(1) by (simp add: plain_char_def lex_spec.simps [of strtod "l\<lparr>fin := c # cs\<rparr>"] spaces_spec_def Let_def)
qed (use assms(1) in \<open>simp_all add: plain_char_def\<close>)

lemmas char_defs = plain_char_def char_token_def isspace_def isdigit_def isalpha_def isalnum_def isident_def

lemma toks_chars:
  assumes "toks rest ts"
  shows "toks (lit ''{'' @ rest) (LBRACE # ts)" "toks (lit ''}'' @ rest) (RBRACE # ts)"
    "toks (lit ''['' @ rest) (LBRACK # ts)" "toks (lit '']'' @ rest) (RBRACK # ts)"
    "toks (lit '':'' @ rest) (COLON # ts)" "toks (lit ''='' @ rest) (EQUALS # ts)"
  using toks_char [OF _ assms, of 123] toks_char [OF _ assms, of 125] toks_char [OF _ assms, of 91]
    toks_char [OF _ assms, of 93] toks_char [OF _ assms, of 58] toks_char [OF _ assms, of 61]
  by (simp_all add: char_defs)

definition ident_name :: "string \<Rightarrow> bool" where
  "ident_name s \<longleftrightarrow> (case lit s of [] \<Rightarrow> False | c # cs \<Rightarrow> (isalpha c \<or> c = UNDERSCORE) \<and> (\<forall>d \<in> set cs. isident d))"

definition ends_ident :: "byte list \<Rightarrow> bool" where
  "ends_ident rest \<longleftrightarrow> (case rest of [] \<Rightarrow> True | c # _ \<Rightarrow> \<not> isident c)"

lemma toks_id:
  assumes "ident_name s" and "ends_ident rest" and "toks rest ts"
  shows "toks (lit s @ rest) (id_token s # ts)"
proof (rule toks_step [OF _ _ _ assms(3)])
  obtain c cs where s: "lit s = c # cs" "isalpha c \<or> c = UNDERSCORE" "\<forall>d \<in> set cs. isident d"
    using assms(1) by (auto simp: ident_name_def split: list.splits)
  have c: "\<not> isspace c" "c \<notin> {SLASH, HASH, QUOTE, MINUS}" "\<not> isdigit c"
    using s(2) by (auto simp: isalpha_def isspace_def isdigit_def word_le_nat_alt)
  have "takeWhile isident (cs @ rest) = cs" "dropWhile isident (cs @ rest) = rest"
    using s(3) assms(2) by (auto simp: ends_ident_def takeWhile_append dropWhile_append split: list.splits)
  then show "\<exists>l2. lex_spec strtod (l\<lparr>fin := lit s @ rest\<rparr>) = (L_id (lit s), l2) \<and> fin l2 = rest" for strtod l
    using s c by (simp add: lex_spec.simps [of strtod "l\<lparr>fin := c # cs @ rest\<rparr>"] spaces_spec_def Let_def)
  have "0 \<notin> set (lit s)"
    using s by (auto simp: isalpha_def isident_def isalnum_def isdigit_def)
  then show "0 \<notin> set t" if "L_id (lit s) = L_id t" for t using that by simp
qed simp_all

lemma toks_number:
  assumes "ends_number rest" and "toks rest ts"
  shows "toks (fmt_d v @ rest) (INTEGER (ucast v) # ts)"
proof (rule toks_step [OF _ _ _ assms(2)])
  show "\<exists>l2. lex_spec strtod (l\<lparr>fin := fmt_d v @ rest\<rparr>) = (L_int v, l2) \<and> fin l2 = rest" for strtod l
    using lex_printed_number(2) [OF assms(1)] by simp
qed simp_all

section \<open>Parsing the tokens of a schema\<close>

definition value_tokens :: "enumDesc \<Rightarrow> yytoken list" where
  "value_tokens d = [ID (ed_name d), EQUALS, INTEGER (ucast (ed_val d))]"

definition enum_tokens :: "enumType \<Rightarrow> yytoken list" where
  "enum_tokens e = [ENUM, ID (et_name e), LBRACE] @ concat (map value_tokens (et_vals e)) @ [RBRACE]"

definition field_tokens :: "fldDesc \<Rightarrow> yytoken list" where
  "field_tokens f = [ID (fld_name f), COLON] @ (if fld_list f then [LBRACK, RBRACK] else []) @ [ID (fld_tname f)]"

definition msg_tokens :: "msgType \<Rightarrow> yytoken list" where
  "msg_tokens m = [MESSAGE, ID (msg_name m), LBRACE] @ concat (map field_tokens (msg_flds m)) @ [RBRACE]"

definition source_tokens :: "schemaDesc \<Rightarrow> yytoken list" where
  "source_tokens d = (case sd_pkgName d of None \<Rightarrow> [] | Some p \<Rightarrow> [PACKAGE, ID p]) @
    concat (map enum_tokens (sd_enums d)) @ concat (map msg_tokens (sd_msgs d))"

lemma ucast_ucast_val [simp]: "ucast (ucast (x :: uint16) :: uint32) = x"
  by (rule bit_word_eqI) (auto simp: bit_simps dest: bit_imp_le_length)

lemma parse_values:
  "all_granted al \<Longrightarrow> enum_field_list al n (concat (map value_tokens ds) @ RBRACE # ts) = Inr (ds, RBRACE # ts)"
  by (induction ds arbitrary: n) (simp_all add: value_tokens_def eq_int_opt_def all_granted_def)

lemma parse_fields:
  "all_granted al \<Longrightarrow> msg_field_list al (concat (map field_tokens fs) @ RBRACE # ts) = Inr (fs, RBRACE # ts)"
  by (induction fs) (simp_all add: field_tokens_def list_spec_def all_granted_def)

lemma parse_msgs: "all_granted al \<Longrightarrow> dcl_list al (concat (map msg_tokens ms)) = Inr ([], ms, [])"
  by (induction ms) (simp_all add: dcl_list.simps msg_tokens_def parse_fields, simp_all add: all_granted_def)

lemma parse_dcls:
  assumes al: "all_granted al"
  shows "dcl_list al (concat (map enum_tokens es) @ concat (map msg_tokens ms)) = Inr (es, ms, [])"
proof (induction es)
  case (Cons e es)
  then show ?case
    using al parse_values [OF al]
    by (simp add: dcl_list.simps [of al "ENUM # ts" for ts] enum_tokens_def all_granted_def)
qed (simp add: parse_msgs [OF al])

text \<open>With memory granted the parser reads the tokens of a schema back, whatever its names are.\<close>

lemma yyparse_tokens: "all_granted al \<Longrightarrow> yyparse al (source_tokens d) = Inr d"
proof (cases "sd_pkgName d")
  case None
  have "package_opt (concat (map enum_tokens es) @ concat (map msg_tokens ms))
      = Inr (None, concat (map enum_tokens es) @ concat (map msg_tokens ms))" for es ms
    by (cases es; cases ms) (simp_all add: package_opt_def enum_tokens_def msg_tokens_def)
  moreover assume "all_granted al"
  ultimately show ?thesis using None by (simp add: yyparse_def source_tokens_def parse_dcls)
next
  case (Some p)
  moreover assume "all_granted al"
  ultimately show ?thesis by (simp add: yyparse_def source_tokens_def parse_dcls package_opt_def)
qed

text \<open>Names that a schema can have.\<close>

definition name_ok :: "string \<Rightarrow> bool" where
  "name_ok s \<longleftrightarrow> ident_name s \<and> s \<notin> {''package'', ''message'', ''enum''}"

definition names_ok :: "schemaDesc \<Rightarrow> bool" where
  "names_ok d \<longleftrightarrow>
    (case sd_pkgName d of None \<Rightarrow> True | Some p \<Rightarrow> name_ok p) \<and>
    (\<forall>e \<in> set (sd_enums d). name_ok (et_name e) \<and> (\<forall>x \<in> set (et_vals e). name_ok (ed_name x))) \<and>
    (\<forall>m \<in> set (sd_msgs d). name_ok (msg_name m) \<and>
       (\<forall>f \<in> set (msg_flds m). name_ok (fld_name f) \<and> name_ok (fld_tname f)))"

lemma toks_name:
  assumes "name_ok s" and "ends_ident rest" and "toks rest ts"
  shows "toks (lit s @ rest) (ID s # ts)"
  using toks_id [of s rest ts] assms by (simp add: name_ok_def id_token_def)

lemma toks_keywords:
  assumes "ends_ident rest" and "toks rest ts"
  shows "toks (lit ''package'' @ rest) (PACKAGE # ts)" "toks (lit ''message'' @ rest) (MESSAGE # ts)"
    "toks (lit ''enum'' @ rest) (ENUM # ts)"
  using toks_id [OF _ assms, of "''package''"] toks_id [OF _ assms, of "''message''"]
    toks_id [OF _ assms, of "''enum''"]
  by (simp_all add: ident_name_def id_token_def char_defs word_le_nat_alt)

end
