(* ===== verification/B2t.thy ===== *)
theory B2t
  imports Grammar
begin

text \<open>
  The decompiler \<^verbatim>\<open>nbufc/b2t.c\<close>: a schema in a buffer is printed as the text it could have been
  compiled from, with the places of the fields as comments.
\<close>

section \<open>The code\<close>

definition print_enum_value :: "world \<Rightarrow> nbuf_obj \<Rightarrow> nat \<Rightarrow> byte list option" where
  "print_enum_value w e i =
    do { enumDesc \<leftarrow> nbuf_EnumType_values w e (of_nat i);
         (name, _) \<leftarrow> nbuf_EnumDesc_name w enumDesc;
         value \<leftarrow> nbuf_EnumDesc_value w enumDesc;
         printf ''	%s = %d\<newline>'' [Str name, Num (ucast value)] }"

definition print_enum :: "world \<Rightarrow> nbuf_obj \<Rightarrow> byte list option" where
  "print_enum w e =
    do { (name, _) \<leftarrow> nbuf_EnumType_name w e;
         head \<leftarrow> printf ''\<newline>enum %s {\<newline>'' [Str name];
         n \<leftarrow> nbuf_EnumType_values_size w e;
         body \<leftarrow> out_each (print_enum_value w e) [0..<unat n];
         foot \<leftarrow> printf ''}\<newline>'' [];
         Some (head @ body @ foot) }"

text \<open>The memory from the returned \<^verbatim>\<open>char *\<close> on; \<^verbatim>\<open>buf\<close> holds what \<^verbatim>\<open>sprintf\<close> prints.\<close>

definition typestr :: "world \<Rightarrow> nbuf_obj \<Rightarrow> nbuf_Kind \<Rightarrow> uint32 \<Rightarrow> byte list option" where
  "typestr w schema kind tag1 =
    (case kind of
       Kind_BOOL \<Rightarrow> Some (cstr ''bool'')
     | Kind_INT \<Rightarrow> do { buf \<leftarrow> printf ''int%d'' [Num (tag1 * 8)]; Some (buf @ [0]) }
     | Kind_UINT \<Rightarrow> do { buf \<leftarrow> printf ''uint%d'' [Num (tag1 * 8)]; Some (buf @ [0]) }
     | Kind_FLOAT \<Rightarrow> Some (if tag1 = 4 then cstr ''float'' else cstr ''double'')
     | Kind_STR \<Rightarrow> Some (cstr ''string'')
     | Kind_ENUM \<Rightarrow>
         do { e \<leftarrow> nbuf_Schema_enumTypes w schema (ucast tag1); (s, _) \<leftarrow> nbuf_EnumType_name w e; Some s }
     | Kind_PTR \<Rightarrow>
         do { m \<leftarrow> nbuf_Schema_msgTypes w schema (ucast tag1); (s, _) \<leftarrow> nbuf_MsgType_name w m; Some s }
     | Kind_other _ \<Rightarrow> None)"

definition print_field_desc :: "world \<Rightarrow> nbuf_obj \<Rightarrow> nbuf_obj \<Rightarrow> nat \<Rightarrow> byte list option" where
  "print_field_desc w schema msgType i =
    do { field \<leftarrow> nbuf_MsgType_fields w msgType (of_nat i);
         kind \<leftarrow> nbuf_FieldDesc_kind w field;
         (name, _) \<leftarrow> nbuf_FieldDesc_name w field;
         lst \<leftarrow> nbuf_FieldDesc_list w field;
         tag1 \<leftarrow> nbuf_FieldDesc_tag1 w field;
         typ \<leftarrow> typestr w schema kind tag1;
         tag0 \<leftarrow> nbuf_FieldDesc_tag0 w field;
         printf ''	%s: %s%s  // %c%u\<newline>''
           [Str name, Str (if lst then cstr ''[]'' else cstr ''''), Str typ,
            Chr (of_char (if kind = Kind_PTR \<or> kind = Kind_STR \<or> lst then CHR ''p''
                          else if kind = Kind_BOOL then CHR ''b'' else CHR ''s'')),
            Num tag0] }"

definition print_msgtype :: "world \<Rightarrow> nbuf_obj \<Rightarrow> nbuf_obj \<Rightarrow> byte list option" where
  "print_msgtype w schema msgType =
    do { (name, _) \<leftarrow> nbuf_MsgType_name w msgType;
         head \<leftarrow> printf ''\<newline>message %s {\<newline>'' [Str name];
         n \<leftarrow> nbuf_MsgType_fields_size w msgType;
         body \<leftarrow> out_each (print_field_desc w schema msgType) [0..<unat n];
         ss \<leftarrow> nbuf_MsgType_ssize w msgType;
         ps \<leftarrow> nbuf_MsgType_psize w msgType;
         foot \<leftarrow> printf ''}  // (%us, %up)\<newline>'' [Num (ucast ss), Num (ucast ps)];
         Some (head @ body @ foot) }"

definition print_schema :: "world \<Rightarrow> nbuf_obj \<Rightarrow> byte list option" where
  "print_schema w schema =
    do { (pkgName, n) \<leftarrow> nbuf_Schema_pkgName w schema;
         pkg \<leftarrow> (if n > 0 then printf ''package %s\<newline>'' [Str pkgName] else Some []);
         ne \<leftarrow> nbuf_Schema_enumTypes_size w schema;
         enums \<leftarrow> out_each (\<lambda>i. do { e \<leftarrow> nbuf_Schema_enumTypes w schema (of_nat i); print_enum w e }) [0..<unat ne];
         nm \<leftarrow> nbuf_Schema_msgTypes_size w schema;
         msgs \<leftarrow> out_each (\<lambda>i. do { m \<leftarrow> nbuf_Schema_msgTypes w schema (of_nat i); print_msgtype w schema m })
           [0..<unat nm];
         Some (pkg @ enums @ msgs) }"

definition nbuf_b2t :: "world \<Rightarrow> nat \<Rightarrow> byte list option" where
  "nbuf_b2t w buf = do { schema \<leftarrow> nbuf_get_Schema w buf; print_schema w schema }"

section \<open>The text of a schema\<close>

text \<open>What is printed, from what the schema says.\<close>

definition value_text :: "enumDesc \<Rightarrow> byte list" where
  "value_text d = lit ''	'' @ lit (ed_name d) @ lit '' '' @ lit ''='' @ lit '' '' @ fmt_d (ucast (ed_val d)) @ lit ''\<newline>''"

definition enum_text :: "enumType \<Rightarrow> byte list" where
  "enum_text e = lit ''\<newline>'' @ lit ''enum'' @ lit '' '' @ lit (et_name e) @ lit '' '' @ lit ''{'' @ lit ''\<newline>'' @
    concat (map value_text (et_vals e)) @ lit ''}'' @ lit ''\<newline>''"

definition type_name :: "schema_view \<Rightarrow> field_out \<Rightarrow> string" where
  "type_name v f =
    (case out_kind f of
       Kind_BOOL \<Rightarrow> ''bool''
     | Kind_INT \<Rightarrow> ''int'' @ chars (fmt_d (scast (out_tag1 f * 8)))
     | Kind_UINT \<Rightarrow> ''uint'' @ chars (fmt_d (scast (out_tag1 f * 8)))
     | Kind_FLOAT \<Rightarrow> if out_tag1 f = 4 then ''float'' else ''double''
     | Kind_STR \<Rightarrow> ''string''
     | Kind_ENUM \<Rightarrow> et_name (sv_enums v ! unat (out_tag1 f))
     | Kind_PTR \<Rightarrow> mout_name (sv_msgs v ! unat (out_tag1 f))
     | Kind_other _ \<Rightarrow> [])"

text \<open>The kind of a field is known, and the type its \<^verbatim>\<open>tag1\<close> names is there.\<close>

definition known_field :: "schema_view \<Rightarrow> field_out \<Rightarrow> bool" where
  "known_field v f \<longleftrightarrow>
    (case out_kind f of
       Kind_ENUM \<Rightarrow> unat (out_tag1 f) < length (sv_enums v)
     | Kind_PTR \<Rightarrow> unat (out_tag1 f) < length (sv_msgs v)
     | Kind_other _ \<Rightarrow> False
     | _ \<Rightarrow> True)"

definition known_fields :: "schema_view \<Rightarrow> bool" where
  "known_fields v \<longleftrightarrow> (\<forall>m \<in> set (sv_msgs v). \<forall>f \<in> set (mout_fields m). known_field v f)"

text \<open>The comments: the place of a field, the sizes of a message.\<close>

definition place_comment :: "field_out \<Rightarrow> byte list" where
  "place_comment f = lit '' '' @ lit (if out_kind f = Kind_PTR \<or> out_kind f = Kind_STR \<or> out_list f then ''p''
     else if out_kind f = Kind_BOOL then ''b'' else ''s'') @ fmt_u (ucast (out_tag0 f))"

definition size_comment :: "msg_out \<Rightarrow> byte list" where
  "size_comment m = lit '' ('' @ fmt_u (ucast (mout_ssize m)) @ lit ''s, '' @ fmt_u (ucast (mout_psize m)) @ lit ''p)''"

definition field_text :: "schema_view \<Rightarrow> field_out \<Rightarrow> byte list" where
  "field_text v f = lit ''	'' @ lit (out_name f) @ lit '':'' @ lit '' '' @
    (if out_list f then lit ''['' @ lit '']'' else []) @ lit (type_name v f) @ lit ''  '' @ lit ''//'' @
    place_comment f @ lit ''\<newline>''"

definition msg_text :: "schema_view \<Rightarrow> msg_out \<Rightarrow> byte list" where
  "msg_text v m = lit ''\<newline>'' @ lit ''message'' @ lit '' '' @ lit (mout_name m) @ lit '' '' @ lit ''{'' @ lit ''\<newline>'' @
    concat (map (field_text v) (mout_fields m)) @ lit ''}'' @ lit ''  '' @ lit ''//'' @
    size_comment m @ lit ''\<newline>''"

definition schema_text :: "schema_view \<Rightarrow> byte list" where
  "schema_text v = (if sv_pkgName v = [] then [] else lit ''package'' @ lit '' '' @ lit (sv_pkgName v) @ lit ''\<newline>'') @
    concat (map enum_text (sv_enums v)) @ concat (map (msg_text v) (sv_msgs v))"

lemma fmt_s_cstr [simp]: "0 \<notin> set (lit s) \<Longrightarrow> fmt_s (cstr s) = Some (lit s)"
proof -
  assume "0 \<notin> set (lit s)"
  then have "takeWhile (\<lambda>b. b \<noteq> 0) (lit s @ [0]) = lit s" by (induction s) auto
  then show ?thesis by (simp add: fmt_s_def c_strlen_def c_string_def cstr_def)
qed

lemma scast_ucast_16 [simp]: "scast (ucast (x :: uint16) :: uint32) = (ucast x :: int64)"
  by (rule bit_word_eqI) (auto simp: bit_simps min_def split: if_splits dest: bit_imp_le_length)

lemma ucast_ucast_16 [simp]: "ucast (ucast (x :: uint16) :: uint32) = (ucast x :: uint64)"
  by (rule bit_word_eqI) (auto simp: bit_simps dest: bit_imp_le_length)

lemma ucast_ucast_16s [simp]: "ucast (ucast (x :: uint16) :: int64) = (ucast x :: uint32)"
  by (rule bit_word_eqI) (auto simp: bit_simps dest: bit_imp_le_length)

lemma print_enum_text:
  assumes "read_enum w e = Some v"
  shows "print_enum w e = Some (enum_text v)"
proof -
  obtain s k n vals where r: "nbuf_EnumType_name w e = Some (s, k)" "fmt_s s = Some (lit (et_name v))"
    "nbuf_EnumType_values_size w e = Some n"
    "collect (\<lambda>i. do { d \<leftarrow> nbuf_EnumType_values w e (of_nat i); name \<leftarrow> text_of (nbuf_EnumDesc_name w d);
       v \<leftarrow> nbuf_EnumDesc_value w d; Some \<lparr>ed_name = name, ed_val = v\<rparr> }) [0..<unat n] = Some (et_vals v)"
    using assms by (auto simp: read_enum_def text_of_Some split: bind_splits)
  have "out_each (print_enum_value w e) [0..<unat n] = Some (concat (map value_text (et_vals v)))"
    by (rule out_table [OF r(4)])
      (auto simp: print_enum_value_def text_of_Some value_text_def convert_def split: bind_splits)
  then show ?thesis
    using r(1-3) by (simp add: print_enum_def enum_text_def convert_def)
qed

text \<open>Tables of the schema, read by index.\<close>

lemma collect_nth: "collect f xs = Some ys \<Longrightarrow> length ys = length xs \<and> (\<forall>i < length xs. f (xs ! i) = Some (ys ! i))"
proof (induction xs arbitrary: ys)
  case (Cons x xs)
  then obtain y zs where "f x = Some y" "collect f xs = Some zs" "ys = y # zs" by (auto split: bind_splits)
  then show ?case using Cons.IH [of zs] by (auto simp: less_Suc_eq_0_disj)
qed simp

lemma collect_table:
  assumes "collect (\<lambda>i. f (of_nat i :: size_t)) [0..<unat (n :: size_t)] = Some vs" and "unat (t :: uint32) < length vs"
  shows "f (ucast t) = Some (vs ! unat t)"
proof -
  have "f (of_nat ([0..<unat n] ! unat t)) = Some (vs ! unat t)"
    using collect_nth [OF assms(1)] assms(2) by auto
  moreover have "[0..<unat n] ! unat t = unat t" using collect_nth [OF assms(1)] assms(2) by simp
  ultimately show ?thesis by simp
qed

lemma read_schemaE:
  assumes "read_schema w sch = Some v"
  obtains p k ne nm where
    "nbuf_Schema_pkgName w sch = Some (p, k)" "fmt_s p = Some (lit (sv_pkgName v))"
    "unat k = length (sv_pkgName v)" "nbuf_Schema_enumTypes_size w sch = Some ne"
    "collect (\<lambda>i. do { e \<leftarrow> nbuf_Schema_enumTypes w sch (of_nat i); read_enum w e }) [0..<unat ne] = Some (sv_enums v)"
    "nbuf_Schema_msgTypes_size w sch = Some nm"
    "collect (\<lambda>i. do { m \<leftarrow> nbuf_Schema_msgTypes w sch (of_nat i); read_msg w m }) [0..<unat nm] = Some (sv_msgs v)"
  using assms that by (auto simp: read_schema_def text_of_Some split: bind_splits)

lemma read_tablesE:
  assumes "read_schema w sch = Some v"
  obtains ne nm :: size_t where
    "collect (\<lambda>i. do { e \<leftarrow> nbuf_Schema_enumTypes w sch (of_nat i); read_enum w e }) [0..<unat ne] = Some (sv_enums v)"
    "collect (\<lambda>i. do { m \<leftarrow> nbuf_Schema_msgTypes w sch (of_nat i); read_msg w m }) [0..<unat nm] = Some (sv_msgs v)"
  using assms by (rule read_schemaE) (rule that)

lemma typestr_text:
  assumes "read_schema w sch = Some v" and "known_field v f"
  shows "\<exists>s. typestr w sch (out_kind f) (out_tag1 f) = Some s \<and> fmt_s s = Some (lit (type_name v f))"
proof -
  obtain ne nm :: size_t where t:
    "collect (\<lambda>i. do { e \<leftarrow> nbuf_Schema_enumTypes w sch (of_nat i); read_enum w e }) [0..<unat ne] = Some (sv_enums v)"
    "collect (\<lambda>i. do { m \<leftarrow> nbuf_Schema_msgTypes w sch (of_nat i); read_msg w m }) [0..<unat nm] = Some (sv_msgs v)"
    using assms(1) by (rule read_tablesE)
  have num: "fmt_s (lit s @ fmt_d k @ [0]) = Some (lit s @ fmt_d k)" if "0 \<notin> set (lit s)" for s k
  proof -
    have "0 \<notin> set (fmt_d k)"
      using decimal_digits [of 0] by (auto simp: fmt_d_def isdigit_def)
    then show ?thesis using that fmt_s_cstr [of "s @ chars (fmt_d k)"] by (simp add: cstr_def)
  qed
  show ?thesis
  proof (cases "out_kind f")
    case Kind_INT
    then show ?thesis using num [of "''int''"] by (simp add: typestr_def type_name_def convert_def)
  next
    case Kind_UINT
    then show ?thesis using num [of "''uint''"] by (simp add: typestr_def type_name_def convert_def)
  next
    case Kind_ENUM
    then have "do { e \<leftarrow> nbuf_Schema_enumTypes w sch (ucast (out_tag1 f)); read_enum w e }
        = Some (sv_enums v ! unat (out_tag1 f))"
      using collect_table [OF t(1)] assms(2) by (simp add: known_field_def)
    then show ?thesis using Kind_ENUM
      by (auto simp: typestr_def type_name_def dest!: read_names split: bind_splits)
  next
    case Kind_PTR
    then have "do { m \<leftarrow> nbuf_Schema_msgTypes w sch (ucast (out_tag1 f)); read_msg w m }
        = Some (sv_msgs v ! unat (out_tag1 f))"
      using collect_table [OF t(2)] assms(2) by (simp add: known_field_def)
    then show ?thesis using Kind_PTR
      by (auto simp: typestr_def type_name_def dest!: read_names split: bind_splits)
  qed (use assms(2) in \<open>auto simp: typestr_def type_name_def known_field_def\<close>)
qed

lemma print_field_text:
  assumes "read_schema w sch = Some v" and "known_field v f" and "nbuf_MsgType_fields w m (of_nat i) = Some fld"
    and "read_field w fld = Some f"
  shows "print_field_desc w sch m i = Some (field_text v f)"
proof -
  obtain t where t: "typestr w sch (out_kind f) (out_tag1 f) = Some t" "fmt_s t = Some (lit (type_name v f))"
    using typestr_text [OF assms(1,2)] by blast
  obtain s n where r: "nbuf_FieldDesc_name w fld = Some (s, n)" "fmt_s s = Some (lit (out_name f))"
    "nbuf_FieldDesc_kind w fld = Some (out_kind f)" "nbuf_FieldDesc_list w fld = Some (out_list f)"
    "nbuf_FieldDesc_tag0 w fld = Some (out_tag0 f)" "nbuf_FieldDesc_tag1 w fld = Some (out_tag1 f)"
    using assms(4) by (auto simp: read_field_def text_of_Some split: bind_splits)
  show ?thesis using t r assms(3)
    by (simp add: print_field_desc_def convert_def field_text_def place_comment_def)
qed

lemma print_msg_text:
  assumes "read_schema w sch = Some v" and "read_msg w m = Some mo" and "\<forall>f \<in> set (mout_fields mo). known_field v f"
  shows "print_msgtype w sch m = Some (msg_text v mo)"
proof -
  obtain s k n where r: "nbuf_MsgType_name w m = Some (s, k)" "fmt_s s = Some (lit (mout_name mo))"
    "nbuf_MsgType_fields_size w m = Some n"
    "collect (\<lambda>i. do { fld \<leftarrow> nbuf_MsgType_fields w m (of_nat i); read_field w fld }) [0..<unat n] = Some (mout_fields mo)"
    "nbuf_MsgType_ssize w m = Some (mout_ssize mo)" "nbuf_MsgType_psize w m = Some (mout_psize mo)"
    using assms(2) by (auto simp: read_msg_def text_of_Some split: bind_splits)
  have "out_each (print_field_desc w sch m) [0..<unat n] = Some (concat (map (field_text v) (mout_fields mo)))"
    by (rule out_table [OF r(4)]) (use print_field_text [OF assms(1)] assms(3) in \<open>auto split: bind_splits\<close>)
  then show ?thesis
    using r by (simp add: print_msgtype_def msg_text_def convert_def size_comment_def)
qed

lemma print_schema_text:
  assumes v: "read_schema w sch = Some v" and k: "known_fields v"
  shows "print_schema w sch = Some (schema_text v)"
proof -
  obtain p n ne nm where r: "nbuf_Schema_pkgName w sch = Some (p, n)" "fmt_s p = Some (lit (sv_pkgName v))"
    "unat n = length (sv_pkgName v)" "nbuf_Schema_enumTypes_size w sch = Some ne"
    "collect (\<lambda>i. do { e \<leftarrow> nbuf_Schema_enumTypes w sch (of_nat i); read_enum w e }) [0..<unat ne] = Some (sv_enums v)"
    "nbuf_Schema_msgTypes_size w sch = Some nm"
    "collect (\<lambda>i. do { m \<leftarrow> nbuf_Schema_msgTypes w sch (of_nat i); read_msg w m }) [0..<unat nm] = Some (sv_msgs v)"
    using v by (rule read_schemaE)
  have es: "out_each (\<lambda>i. do { e \<leftarrow> nbuf_Schema_enumTypes w sch (of_nat i); print_enum w e }) [0..<unat ne]
      = Some (concat (map enum_text (sv_enums v)))"
    by (rule out_table [OF r(5)]) (use print_enum_text in \<open>auto split: bind_splits\<close>)
  have ms: "out_each (\<lambda>i. do { m \<leftarrow> nbuf_Schema_msgTypes w sch (of_nat i); print_msgtype w sch m }) [0..<unat nm]
      = Some (concat (map (msg_text v) (sv_msgs v)))"
    by (rule out_table [OF r(7)]) (use print_msg_text [OF v] k in \<open>auto simp: known_fields_def split: bind_splits\<close>)
  have "n > 0 \<longleftrightarrow> sv_pkgName v \<noteq> []" using r(3) by (cases "n = 0") (auto simp: unat_eq_0 word_gt_0)
  then show ?thesis
    using r(1,2,4,6) es ms by (auto simp: print_schema_def schema_text_def convert_def)
qed

section \<open>The text compiles back\<close>

text \<open>The source that a schema was compiled from.\<close>

definition source_of :: "schema_view \<Rightarrow> schemaDesc" where
  "source_of v =
    \<lparr>sd_pkgName = (if sv_pkgName v = [] then None else Some (sv_pkgName v)), sd_enums = sv_enums v,
     sd_msgs = map (\<lambda>m. \<lparr>msg_name = mout_name m,
       msg_flds = map (\<lambda>f. \<lparr>fld_name = out_name f, fld_tname = type_name v f, fld_list = out_list f\<rparr>)
         (mout_fields m)\<rparr>) (sv_msgs v)\<rparr>"

lemma ends_lit [simp]: "ends_ident (lit (c # s) @ rest) \<longleftrightarrow> \<not> isident (of_char c)"
  "ends_number (lit (c # s) @ rest) \<longleftrightarrow> \<not> isalnum (of_char c) \<and> of_char c \<noteq> DOT"
  by (simp_all add: ends_ident_def ends_number_def)

lemma toks_blanks:
  assumes "toks rest ts"
  shows "toks (lit ''\<newline>'' @ rest) ts" "toks (lit '' '' @ rest) ts" "toks (lit ''  '' @ rest) ts"
    "toks (lit ''	'' @ rest) ts"
  using toks_spaces [OF _ assms, of "''\<newline>''"] toks_spaces [OF _ assms, of "'' ''"]
    toks_spaces [OF _ assms, of "''  ''"] toks_spaces [OF _ assms, of "''	''"]
  by (simp_all add: isspace_def)

lemma toks_lit_comment:
  "NEWLINE \<notin> set s \<Longrightarrow> toks cs ts \<Longrightarrow> toks (lit ''//'' @ s @ lit ''\<newline>'' @ cs) ts"
  using toks_comment [of s cs ts] by simp

lemmas toks_pieces = toks_blanks toks_chars toks_name toks_keywords toks_lit_comment

lemma no_newline [simp]: "NEWLINE \<notin> set (fmt_u x)"
  using decimal_digits [of NEWLINE "unat x"] by (auto simp: fmt_u_def isdigit_def)

lemma comments_no_newline [simp]:
  "NEWLINE \<notin> set (place_comment f)" "NEWLINE \<notin> set (size_comment m)"
  by (simp_all add: place_comment_def size_comment_def)

lemma toks_values:
  assumes "\<forall>d \<in> set ds. name_ok (ed_name d)" and "toks rest ts"
  shows "toks (concat (map value_text ds) @ rest) (concat (map value_tokens ds) @ ts)"
  using assms(1)
proof (induction ds)
  case (Cons d ds)
  let ?rest = "lit ''\<newline>'' @ concat (map value_text ds) @ rest"
  have "toks ?rest (concat (map value_tokens ds) @ ts)" using Cons by (simp add: toks_pieces del: lit_simps)
  then have "toks (fmt_d (ucast (ed_val d)) @ ?rest) (INTEGER (ucast (ed_val d)) # concat (map value_tokens ds) @ ts)"
    using toks_number [of ?rest _ "ucast (ed_val d)"] by (simp add: char_defs del: lit_simps)
  then show ?case
    using Cons.prems
    by (auto simp: value_text_def [of d] value_tokens_def [of d] char_defs simp del: lit_simps intro!: toks_pieces)
qed (use assms(2) in simp)

lemma toks_enum:
  assumes "name_ok (et_name e)" and "\<forall>d \<in> set (et_vals e). name_ok (ed_name d)" and "toks rest ts"
  shows "toks (enum_text e @ rest) (enum_tokens e @ ts)"
  using assms toks_values [OF assms(2), of "lit ''}'' @ lit ''\<newline>'' @ rest" "RBRACE # ts"]
  by (auto simp: enum_text_def enum_tokens_def char_defs simp del: lit_simps intro!: toks_pieces)

lemma toks_field:
  assumes "name_ok (out_name f)" and "name_ok (type_name v f)" and "toks rest ts"
  shows "toks (field_text v f @ rest)
    (field_tokens \<lparr>fld_name = out_name f, fld_tname = type_name v f, fld_list = out_list f\<rparr> @ ts)"
  using assms
  by (auto simp: field_text_def field_tokens_def char_defs simp del: lit_simps intro!: toks_pieces)

lemma toks_fields:
  assumes "\<forall>f \<in> set fs. name_ok (out_name f) \<and> name_ok (type_name v f)" and "toks rest ts"
  shows "toks (concat (map (field_text v) fs) @ rest)
    (concat (map (\<lambda>f. field_tokens \<lparr>fld_name = out_name f, fld_tname = type_name v f, fld_list = out_list f\<rparr>) fs) @ ts)"
  using assms(1)
proof (induction fs)
  case (Cons f fs)
  then show ?case
    using toks_field [of f v "concat (map (field_text v) fs) @ rest"] by simp
qed (use assms(2) in simp)

lemma toks_msg:
  assumes "name_ok (mout_name m)" and "\<forall>f \<in> set (mout_fields m). name_ok (out_name f) \<and> name_ok (type_name v f)"
    and "toks rest ts"
  shows "toks (msg_text v m @ rest) (msg_tokens \<lparr>msg_name = mout_name m,
       msg_flds = map (\<lambda>f. \<lparr>fld_name = out_name f, fld_tname = type_name v f, fld_list = out_list f\<rparr>)
         (mout_fields m)\<rparr> @ ts)"
proof -
  let ?rest = "lit ''}'' @ lit ''  '' @ lit ''//'' @ size_comment m @ lit ''\<newline>'' @ rest"
  have "toks ?rest (RBRACE # ts)" using assms(3) by (auto simp del: lit_simps intro!: toks_pieces)
  from toks_fields [OF assms(2) this] show ?thesis
    using assms(1)
    by (auto simp: msg_text_def msg_tokens_def char_defs o_def simp del: lit_simps intro!: toks_pieces)
qed

lemma toks_each:
  assumes "\<And>x rest ts. x \<in> set xs \<Longrightarrow> toks rest ts \<Longrightarrow> toks (text x @ rest) (tokens x @ ts)" and "toks rest ts"
  shows "toks (concat (map text xs) @ rest) (concat (map tokens xs) @ ts)"
  using assms by (induction xs) simp_all

lemma toks_schema:
  assumes n: "names_ok (source_of v)"
  shows "toks (schema_text v) (source_tokens (source_of v))"
proof -
  have e: "name_ok (et_name e) \<and> (\<forall>d \<in> set (et_vals e). name_ok (ed_name d))" if "e \<in> set (sv_enums v)" for e
    using that n by (simp add: names_ok_def source_of_def)
  have m: "name_ok (mout_name m) \<and> (\<forall>f \<in> set (mout_fields m). name_ok (out_name f) \<and> name_ok (type_name v f))"
    if "m \<in> set (sv_msgs v)" for m
    using that n by (simp add: names_ok_def source_of_def)
  let ?src = "\<lambda>m. \<lparr>msg_name = mout_name m, msg_flds = map (\<lambda>f. \<lparr>fld_name = out_name f,
    fld_tname = type_name v f, fld_list = out_list f\<rparr>) (mout_fields m)\<rparr>"
  have "toks (concat (map (msg_text v) (sv_msgs v)) @ []) (concat (map (\<lambda>m. msg_tokens (?src m)) (sv_msgs v)) @ [])"
    by (rule toks_each [OF _ toks_end]) (use m toks_msg in auto)
  then have "toks (concat (map (msg_text v) (sv_msgs v))) (concat (map (\<lambda>m. msg_tokens (?src m)) (sv_msgs v)))"
    by simp
  then have "toks (concat (map enum_text (sv_enums v)) @ concat (map (msg_text v) (sv_msgs v)))
      (concat (map enum_tokens (sv_enums v)) @ concat (map (\<lambda>m. msg_tokens (?src m)) (sv_msgs v)))"
    by (rule toks_each [rotated]) (use e toks_enum in auto)
  moreover have "name_ok (sv_pkgName v)" if "sv_pkgName v \<noteq> []"
    using that n by (simp add: names_ok_def source_of_def)
  ultimately show ?thesis
    by (auto simp: schema_text_def source_tokens_def source_of_def char_defs o_def
        simp del: lit_simps intro!: toks_pieces)
qed

text \<open>
  Claim C8.  The decompiler's text compiles back: for a schema that can be read and whose names are
  identifiers, what \<^verbatim>\<open>nbuf_b2t\<close> prints is a text that the scanner and the grammar of the schema compiler
  accept, and the schema they read is the source of the one printed: its package, the enumerations with
  all their values, and the messages with the names, types and list marks of all fields, in order.
\<close>

theorem decompiled_text_parses_back:
  assumes "read_schema w sch = Some v" and "known_fields v" and "names_ok (source_of v)"
    and "all_granted al" and "length (schema_text v) < 2 ^ 60"
  shows "\<exists>t. print_schema w sch = Some t \<and> yyparse al (yytokens al strtod (nbuf_lex_init t)) = Inr (source_of v)"
proof -
  have "(nbuf_lex_init (schema_text v))\<lparr>fin := schema_text v\<rparr> = nbuf_lex_init (schema_text v)"
    by (simp add: nbuf_lex_init_def)
  then have "yytokens al strtod (nbuf_lex_init (schema_text v)) = source_tokens (source_of v)"
    using toks_schema [OF assms(3)] assms(4,5) unfolding toks_def by metis
  then show ?thesis using print_schema_text [OF assms(1,2)] by (simp add: yyparse_tokens [OF assms(4)])
qed

definition demo_view :: schema_view where
  "demo_view =
    \<lparr>sv_pkgName = [], sv_enums = [\<lparr>et_name = ''E'', et_vals = [\<lparr>ed_name = ''b'', ed_val = 7\<rparr>]\<rparr>],
     sv_msgs = [\<lparr>mout_name = ''m'', mout_fields = [\<lparr>out_name = ''a'', out_kind = Kind_UINT, out_list = False,
       out_tag0 = 0, out_tag1 = 4\<rparr>], mout_ssize = 4, mout_psize = 0\<rparr>]\<rparr>"

lemma demo_texts:
  "nbuf_Schema_pkgName demo_schema_world demo_schema = Some ([0], 0)"
  "text_of (Some ([0], n)) = Some []"
  "text_of (Some (drop 56 demo_schema_bytes, n)) = Some ''m''"
  "text_of (Some (drop 96 demo_schema_bytes, n)) = Some ''a''"
  "text_of (Some (drop 128 demo_schema_bytes, n)) = Some ''E''"
  "text_of (Some (drop 160 demo_schema_bytes, n)) = Some ''b''"
  by (simp_all add: nbuf_Schema_pkgName_def demo_eval text_of_Some fmt_s_def c_strlen_def c_string_def)

lemma demo_scalars:
  "nbuf_FieldDesc_kind demo_schema_world demo_field = Some Kind_UINT"
  "nbuf_FieldDesc_list demo_schema_world demo_field = Some False"
  "nbuf_FieldDesc_tag0 demo_schema_world demo_field = Some 0"
  "nbuf_FieldDesc_tag1 demo_schema_world demo_field = Some 4"
  "nbuf_MsgType_ssize demo_schema_world demo_msg = Some 4"
  "nbuf_MsgType_psize demo_schema_world demo_msg = Some 0"
  by (simp_all add: nbuf_FieldDesc_kind_def nbuf_FieldDesc_list_def nbuf_FieldDesc_tag0_def
      nbuf_FieldDesc_tag1_def nbuf_MsgType_ssize_def nbuf_MsgType_psize_def obj_get_int_def nbuf_get_int_def
      nbuf_get_bit_def kind_of_int_def demo_eval)

lemma demo_read: "read_schema demo_schema_world demo_schema = Some demo_view"
  by (simp add: read_schema_def demo_tables demo_counts read_enum_def read_msg_def read_field_def demo_names
      demo_texts demo_scalars demo_view_def)

theorem decompiled_text_parses_back_witness:
  "\<exists>t. print_schema demo_schema_world demo_schema = Some t \<and>
    yyparse roomy (yytokens roomy (\<lambda>_. 0) (nbuf_lex_init t)) = Inr
      \<lparr>sd_pkgName = None, sd_enums = [\<lparr>et_name = ''E'', et_vals = [\<lparr>ed_name = ''b'', ed_val = 7\<rparr>]\<rparr>],
       sd_msgs = [\<lparr>msg_name = ''m'', msg_flds = [\<lparr>fld_name = ''a'', fld_tname = ''uint32'', fld_list = False\<rparr>]\<rparr>]\<rparr>"
proof -
  have src: "source_of demo_view =
    \<lparr>sd_pkgName = None, sd_enums = [\<lparr>et_name = ''E'', et_vals = [\<lparr>ed_name = ''b'', ed_val = 7\<rparr>]\<rparr>],
     sd_msgs = [\<lparr>msg_name = ''m'', msg_flds = [\<lparr>fld_name = ''a'', fld_tname = ''uint32'', fld_list = False\<rparr>]\<rparr>]\<rparr>"
    by (simp add: source_of_def demo_view_def type_name_def fmt_d_def decimal.simps chars_def char_of_def bit_Suc_0_iff)
  have n: "names_ok (source_of demo_view)"
    unfolding src by (simp add: names_ok_def name_ok_def ident_name_def char_defs word_le_nat_alt)
  have k: "known_fields demo_view" by (simp add: demo_view_def known_fields_def known_field_def)
  have l: "length (schema_text demo_view) < 2 ^ 60"
    by (simp add: schema_text_def demo_view_def enum_text_def value_text_def msg_text_def field_text_def
        type_name_def fmt_d_def fmt_u_def decimal.simps chars_def size_comment_def place_comment_def)
  show ?thesis
    using decompiled_text_parses_back [OF demo_read k n roomy_all l, of "\<lambda>_. 0"] unfolding src .
qed

end
