(* ===== verification/B2c.thy ===== *)
theory B2c
  imports B2t
begin

text \<open>
  The generator of C data, \<^verbatim>\<open>nbufc/b2c.c\<close>: a schema as an array of bytes in a C file, with an object for
  every enumeration and message in it.
\<close>

section \<open>The code\<close>

text \<open>\<^verbatim>\<open>struct nbuf_b2c\<close>; \<open>prefix\<close> is the memory of the string.\<close>

record nbuf_b2c_ctx =
  c_schema :: nbuf_obj
  c_prefix :: "byte list"

definition ident_byte :: "byte \<Rightarrow> byte" where
  "ident_byte ch = (if isalnum ch then ch else UNDERSCORE)"

text \<open>The first \<open>n\<close> characters from a pointer on; reading past the block is undefined.\<close>

definition read_chars :: "byte list \<Rightarrow> nat \<Rightarrow> byte list option" where
  "read_chars s n = do { assert_ok (n \<le> length s); Some (take n s) }"

text \<open>\<^verbatim>\<open>strdup\<close> and \<^verbatim>\<open>malloc\<close> are not checked: storing through a null pointer aborts.\<close>

definition make_prefix :: "allocator \<Rightarrow> world \<Rightarrow> nbuf_obj \<Rightarrow> byte list option" where
  "make_prefix al w schema =
    do { (pkgName, len) \<leftarrow> nbuf_Schema_pkgName w schema;
         if len = 0 then do { blk \<leftarrow> malloc_block al 1; store blk 0 (cstr '''') }
         else do { blk \<leftarrow> malloc_block al (unat (len + 2));
                   cs \<leftarrow> read_chars pkgName (unat len);
                   blk1 \<leftarrow> store blk 0 (map ident_byte cs);
                   store blk1 (unat len) (cstr ''_'') } }"

text \<open>Prefix and text.\<close>

definition outhdr_c :: "allocator \<Rightarrow> world \<Rightarrow> nbuf_obj \<Rightarrow> byte list \<Rightarrow> (nbuf_b2c_ctx \<times> byte list) option" where
  "outhdr_c al w schema srcname =
    do { prefix \<leftarrow> make_prefix al w schema;
         a \<leftarrow> printf ''/* Generated from %s.  DO NOT EDIT. */\<newline>\<newline>'' [Str srcname];
         b \<leftarrow> printf ''#include \"nbuf.nb.h\"\<newline>\<newline>'' [];
         c \<leftarrow> printf ''#include <stdint.h>\<newline>'' [];
         Some (\<lparr>c_schema = schema, c_prefix = prefix\<rparr>, a @ b @ c) }"

definition out_byte :: "nbuf_buffer \<Rightarrow> nat \<Rightarrow> byte list option" where
  "out_byte buf i =
    do { assert_ok (i < length (buf_base buf));
         printf ''%s%3u,'' [Str (cstr (if i mod 16 = 0 then ''\<newline>'' else '' '')), Num (ucast (buf_base buf ! i) AND 255)] }"

definition outbuf :: "nbuf_buffer \<Rightarrow> byte list option" where
  "outbuf buf =
    do { a \<leftarrow> printf ''\<newline>static const union { unsigned char b[%lu]; uint64_t u; } buf_data = {{'' [Long (buf_len buf)];
         b \<leftarrow> out_each (out_byte buf) [0..<unat (buf_len buf)];
         c \<leftarrow> printf ''\<newline>}};\<newline>'' [];
         d \<leftarrow> printf ''\<newline>static struct nbuf_buffer buf = {(char *) buf_data.b, sizeof buf_data, 0};\<newline>'' [];
         Some (a @ b @ c @ d) }"

text \<open>One object: where it is in the buffer.\<close>

definition out_obj :: "nbuf_b2c_ctx \<Rightarrow> byte list \<Rightarrow> nbuf_obj \<Rightarrow> bool \<Rightarrow> byte list option" where
  "out_obj b2c name e final =
    printf ''%srefl_%s = {{&buf, %lu, 1, %u, %u}}%c\<newline>''
      [Str (c_prefix b2c), Str name, Long (obj_base e), Num (ucast (ssize e)), Num (ucast (psize e)),
       Chr (of_char (if final then CHR '';'' else CHR '',''))]"

definition genenums_c :: "world \<Rightarrow> nbuf_b2c_ctx \<Rightarrow> byte list option" where
  "genenums_c w b2c =
    do { n \<leftarrow> nbuf_Schema_enumTypes_size w (c_schema b2c);
         a \<leftarrow> (if n > 0 then printf ''\<newline>nbuf_EnumType\<newline>'' [] else Some []);
         b \<leftarrow> out_each (\<lambda>i. do {
             e \<leftarrow> nbuf_Schema_enumTypes w (c_schema b2c) (of_nat i);
             (ename, _) \<leftarrow> nbuf_EnumType_name w e;
             out_obj b2c ename e (of_nat i = n - 1) }) [0..<unat n];
         Some (a @ b) }"

definition genmsgs_c :: "world \<Rightarrow> nbuf_b2c_ctx \<Rightarrow> byte list option" where
  "genmsgs_c w b2c =
    do { n \<leftarrow> nbuf_Schema_msgTypes_size w (c_schema b2c);
         a \<leftarrow> (if n > 0 then printf ''\<newline>nbuf_MsgType\<newline>'' [] else Some []);
         b \<leftarrow> out_each (\<lambda>i. do {
             m \<leftarrow> nbuf_Schema_msgTypes w (c_schema b2c) (of_nat i);
             (mname, _) \<leftarrow> nbuf_MsgType_name w m;
             out_obj b2c mname m (of_nat i = n - 1) }) [0..<unat n];
         Some (a @ b) }"

definition outftr_c :: "nbuf_b2c_ctx \<Rightarrow> byte list option" where
  "outftr_c b2c =
    do { let ob = c_schema b2c;
         a \<leftarrow> printf ''\<newline>nbuf_Schema %srefl_schema = '' [Str (c_prefix b2c)];
         b \<leftarrow> printf ''{{&buf, %lu, 1, %u, %u}};\<newline>'' [Long (obj_base ob), Num (ucast (ssize ob)), Num (ucast (psize ob))];
         Some (a @ b) }"

definition nbuf_b2c :: "allocator \<Rightarrow> world \<Rightarrow> nat \<Rightarrow> byte list \<Rightarrow> byte list option" where
  "nbuf_b2c al w a srcname =
    do { schema \<leftarrow> nbuf_get_Schema w a;
         buf \<leftarrow> bufs w a;
         (b2c, hdr) \<leftarrow> outhdr_c al w schema srcname;
         dat \<leftarrow> outbuf buf;
         es \<leftarrow> genenums_c w b2c;
         ms \<leftarrow> genmsgs_c w b2c;
         ftr \<leftarrow> outftr_c b2c;
         Some (hdr @ dat @ es @ ms @ ftr) }"

section \<open>The data\<close>

text \<open>The numbers in the initializer of an array, as C reads them: decimal, separated by commas.\<close>

function init_list :: "byte list \<Rightarrow> nat list" where
  "init_list cs =
    (let ds = dropWhile isspace cs; n = takeWhile isdigit ds; rest = dropWhile isdigit ds
     in if n = [] then []
        else digits_val 10 0 n # (case rest of [] \<Rightarrow> [] | c # rest1 \<Rightarrow> if c = 44 then init_list rest1 else []))"
  by pat_completeness auto

termination init_list
proof (relation "measure length")
  fix cs ds n rest :: "byte list" and c rest1
  assume "ds = dropWhile isspace cs" "rest = dropWhile isdigit ds" "rest = c # rest1"
  then have "Suc (length rest1) \<le> length ds" "length ds \<le> length cs"
    by (metis length_Cons length_dropWhile_le) (simp add: \<open>ds = _\<close> length_dropWhile_le)
  then show "(rest1, cs) \<in> measure length" by simp
qed simp

declare init_list.simps [simp del]

definition byte_text :: "nat \<Rightarrow> byte \<Rightarrow> byte list" where
  "byte_text i b = lit (if i mod 16 = 0 then ''\<newline>'' else '' '') @ pad_left 3 (decimal (unat b)) @ [44]"

lemma and_255 [simp]: "ucast (b :: byte) AND (255 :: uint32) = ucast b"
proof -
  have "b' AND 255 = take_bit 8 b'" for b' :: uint32 by (simp add: take_bit_eq_mask mask_eq_exp_minus_1)
  moreover have "take_bit 8 (ucast b :: uint32) = ucast b"
    by (rule bit_word_eqI) (auto simp: bit_simps dest: bit_imp_le_length)
  ultimately show ?thesis by simp
qed

lemma unat_ucast_byte [simp]: "unat (ucast (b :: byte) :: uint64) = unat b" "unat (ucast b :: uint32) = unat b"
  using unsigned_less [of b, where 'a = nat] by (simp_all add: unsigned_ucast_eq take_bit_nat_def)

lemma out_byte_eq:
  assumes "i < length (buf_base buf)"
  shows "out_byte buf i = Some (byte_text i (buf_base buf ! i))"
  using assms by (simp add: out_byte_def byte_text_def convert_def fmt_u_def)

lemma init_list_byte: "init_list (byte_text i b @ rest) = unat b # init_list rest"
proof -
  have d: "takeWhile isdigit (decimal n @ 44 # rest) = decimal n" "dropWhile isdigit (decimal n @ 44 # rest) = 44 # rest" for n
    using decimal_digits [of _ n] by (auto simp: takeWhile_append dropWhile_append isdigit_def)
  obtain c ds where c: "decimal (unat b) = c # ds" "isdigit c" by (rule decimal_Cons)
  have "dropWhile isspace (byte_text i b @ rest) = decimal (unat b) @ 44 # rest"
    using c by (auto simp: byte_text_def pad_left_def dropWhile_append isspace_def isdigit_def word_le_nat_alt)
  then show ?thesis
    using d [of "unat b"] c(1) digits_val_decimal [of "unat b"]
    by (subst init_list.simps) (simp add: Let_def)
qed

definition data_text :: "byte list \<Rightarrow> byte list" where
  "data_text bs = concat (map (\<lambda>i. byte_text i (bs ! i)) [0..<length bs])"

lemma init_list_bytes:
  "init_list (concat (map (\<lambda>i. byte_text i (bs ! i)) is) @ rest) = map (\<lambda>i. unat (bs ! i)) is @ init_list rest"
  by (induction "is") (simp_all add: init_list_byte)

lemma init_list_data: "init_list (data_text bs @ lit ''\<newline>'') = map unat bs"
proof -
  have "init_list (lit ''\<newline>'') = []" by (simp add: init_list.simps isspace_def)
  then show ?thesis
    by (simp add: data_text_def init_list_bytes) (metis map_map map_nth comp_def map_cong)
qed

lemma outbuf_eq:
  assumes "unat (buf_len b) \<le> length (buf_base b)"
  shows "outbuf b = Some (lit ''\<newline>static const union { unsigned char b['' @ fmt_u (buf_len b) @
    lit '']; uint64_t u; } '' @ lit ''buf_data = {{'' @ (data_text (buf_data b) @ lit ''\<newline>'') @ lit ''}};'' @
    lit ''\<newline>\<newline>static struct nbuf_buffer buf = {(char *) buf_data.b, sizeof buf_data, 0};\<newline>'')"
proof -
  have "out_each (out_byte b) [0..<unat (buf_len b)] = Some (concat (map (\<lambda>i. byte_text i (buf_base b ! i)) [0..<unat (buf_len b)]))"
    using assms by (intro out_each_Some) (simp add: out_byte_eq)
  moreover have "concat (map (\<lambda>i. byte_text i (buf_base b ! i)) [0..<unat (buf_len b)]) = data_text (buf_data b)"
    unfolding data_text_def using assms by (auto simp: buf_data_def intro!: arg_cong [of _ _ concat])
  ultimately show ?thesis by (simp add: outbuf_def convert_def)
qed

text \<open>The whole file is printed for every schema that can be read.\<close>

lemma ident_byte: "isident (ident_byte c)" "ident_byte c \<noteq> 0"
  by (auto simp: ident_byte_def isident_def isalnum_def isalpha_def isdigit_def)

lemma fmt_s_prefix: "fmt_s p = Some t \<Longrightarrow> length t < length p \<and> take (length t) p = t"
proof -
  assume "fmt_s p = Some t"
  then have t: "t = takeWhile (\<lambda>b. b \<noteq> 0) p" "0 \<in> set p"
    by (auto simp: fmt_s_def c_strlen_def c_string_def split: bind_splits if_splits)
  then have "takeWhile (\<lambda>b. b \<noteq> 0) p \<noteq> p" by (metis (mono_tags, lifting) set_takeWhileD)
  then have "length t < length p" using t(1) length_takeWhile_le [of "\<lambda>b. b \<noteq> 0" p]
    by (metis le_neq_implies_less takeWhile_eq_take take_all_iff order.refl)
  then show ?thesis using t(1) by (metis takeWhile_eq_take)
qed

lemma store_two:
  assumes "length blk = length a + length b"
  shows "do { blk1 \<leftarrow> store blk 0 a; store blk1 (length a) b } = Some (a @ b)"
  using assms by (simp add: store_def splice_at_def)

lemma store_all: "length blk = length a \<Longrightarrow> store blk 0 a = Some a"
  by (simp add: store_def splice_at_def)

lemma pkg_length: "nbuf_Schema_pkgName w sch = Some (p, n) \<Longrightarrow> unat n < 2 ^ 32"
proof -
  assume "nbuf_Schema_pkgName w sch = Some (p, n)"
  then have "n = 0 \<or> (\<exists>k :: uint32. n = ucast k)"
    by (auto simp: nbuf_Schema_pkgName_def nbuf_get_str_def nbuf_str_of_def split: bind_splits if_splits)
  then show ?thesis using unat_u32_lt by auto
qed

lemma make_prefix_ok:
  assumes "read_schema w sch = Some v" and "all_granted al"
  shows "\<exists>s. make_prefix al w sch = Some (s @ [0]) \<and> (\<forall>c \<in> set s. isident c)"
proof -
  obtain p n where p: "nbuf_Schema_pkgName w sch = Some (p, n)" "fmt_s p = Some (lit (sv_pkgName v))"
    "unat n = length (sv_pkgName v)"
    using assms(1) by (rule read_schemaE)
  show ?thesis
  proof (cases "n = 0")
    case True
    then show ?thesis using p(1) assms(2)
      by (simp add: make_prefix_def malloc_block_def all_granted_def cstr_def store_all)
  next
    case False
    have u: "unat n \<le> length p" "unat n < 2 ^ 32"
      using fmt_s_prefix [OF p(2)] p(3) pkg_length [OF p(1)] by simp_all
    have l: "unat (n + 2) = unat n + 2" using u(2) by (subst unat_add_nowrap) simp_all
    let ?cs = "map ident_byte (take (unat n) p)" and ?blk = "map (junk al) [0..<unat (n + 2)]"
    have n: "length ?cs = unat n" using u(1) by simp
    have "length ?blk = length ?cs + length (cstr ''_'')" using n l by (simp add: cstr_def)
    from store_two [OF this] have
      "do { blk1 \<leftarrow> store ?blk 0 ?cs; store blk1 (unat n) (cstr ''_'') } = Some (?cs @ cstr ''_'')"
      unfolding n .
    then have "make_prefix al w sch = Some ((?cs @ [UNDERSCORE]) @ [0])"
      using False p(1) assms(2) u(1)
      by (simp add: make_prefix_def malloc_block_def all_granted_def cstr_def read_chars_def)
    moreover have "isident UNDERSCORE" by (simp add: isident_def)
    ultimately show ?thesis using ident_byte(1) by (intro exI conjI) auto
  qed
qed

lemma out_obj_ok:
  assumes "fmt_s (c_prefix c) = Some p" and "fmt_s name = Some n"
  shows "out_obj c name e final \<noteq> None"
  using assms by (simp add: out_obj_def convert_def)

lemma collect_out_each:
  assumes "collect rd xs = Some vs" and "\<And>x v. x \<in> set xs \<Longrightarrow> rd x = Some v \<Longrightarrow> f x \<noteq> None"
  shows "out_each f xs \<noteq> None"
  using assms
proof (induction xs arbitrary: vs)
  case (Cons x xs)
  then obtain v ws where v: "rd x = Some v" "collect rd xs = Some ws" by (auto split: bind_splits)
  obtain t where "f x = Some t" using Cons.prems(2) [of x v] v(1) by auto
  moreover obtain r where "out_each f xs = Some r" using Cons.IH [OF v(2)] Cons.prems(2) by auto
  ultimately show ?case by simp
qed simp

lemma tables_c_ok:
  assumes "read_schema w (c_schema c) = Some v" and "fmt_s (c_prefix c) = Some p"
  shows "genenums_c w c \<noteq> None" and "genmsgs_c w c \<noteq> None"
proof -
  obtain q n ne nm where r: "nbuf_Schema_pkgName w (c_schema c) = Some (q, n)"
    "fmt_s q = Some (lit (sv_pkgName v))" "unat n = length (sv_pkgName v)"
    "nbuf_Schema_enumTypes_size w (c_schema c) = Some ne"
    "collect (\<lambda>i. do { e \<leftarrow> nbuf_Schema_enumTypes w (c_schema c) (of_nat i); read_enum w e }) [0..<unat ne]
      = Some (sv_enums v)"
    "nbuf_Schema_msgTypes_size w (c_schema c) = Some nm"
    "collect (\<lambda>i. do { m \<leftarrow> nbuf_Schema_msgTypes w (c_schema c) (of_nat i); read_msg w m }) [0..<unat nm]
      = Some (sv_msgs v)"
    using assms(1) by (rule read_schemaE)
  have "out_each (\<lambda>i. do { e \<leftarrow> nbuf_Schema_enumTypes w (c_schema c) (of_nat i); (ename, _) \<leftarrow> nbuf_EnumType_name w e;
      out_obj c ename e (of_nat i = ne - 1) }) [0..<unat ne] \<noteq> None"
    by (rule collect_out_each [OF r(5)]) (use out_obj_ok [OF assms(2)] in \<open>auto dest!: read_names split: bind_splits\<close>)
  then show "genenums_c w c \<noteq> None" using r(4) by (auto simp: genenums_c_def)
  have "out_each (\<lambda>i. do { m \<leftarrow> nbuf_Schema_msgTypes w (c_schema c) (of_nat i); (mname, _) \<leftarrow> nbuf_MsgType_name w m;
      out_obj c mname m (of_nat i = nm - 1) }) [0..<unat nm] \<noteq> None"
    by (rule collect_out_each [OF r(7)]) (use out_obj_ok [OF assms(2)] in \<open>auto dest!: read_names split: bind_splits\<close>)
  then show "genmsgs_c w c \<noteq> None" using r(6) by (auto simp: genmsgs_c_def)
qed

text \<open>
  Claim C12.  The C data is the schema: for every schema that can be read \<^verbatim>\<open>nbuf_b2c\<close> prints a file, whose
  array, read as C reads the numbers of an initializer, has exactly the bytes of the schema's buffer, in
  order; the objects are declared after it.
\<close>

theorem c_data_holds_schema:
  assumes "nbuf_get_Schema w a = Some sch" and "read_schema w sch = Some v" and "bufs w a = Some b" and "buf_wf b"
    and "all_granted al" and "fmt_s srcname = Some src"
  shows "\<exists>pre dat post. nbuf_b2c al w a srcname = Some (pre @ lit ''buf_data = {{'' @ dat @ lit ''}};'' @ post) \<and>
    init_list dat = map unat (buf_data b)"
proof -
  obtain s where s: "make_prefix al w sch = Some (s @ [0])" "\<forall>c \<in> set s. isident c"
    using make_prefix_ok [OF assms(2,5)] by blast
  then have "0 \<notin> set s" by (auto simp: isident_def isalnum_def isalpha_def isdigit_def)
  then have p: "fmt_s (s @ [0]) = Some s" by (rule fmt_s_append)
  let ?c = "\<lparr>c_schema = sch, c_prefix = s @ [0]\<rparr>"
  obtain h where h: "outhdr_c al w sch srcname = Some (?c, h)"
    using s(1) assms(6) by (simp add: outhdr_c_def convert_def)
  obtain es ms where t: "genenums_c w ?c = Some es" "genmsgs_c w ?c = Some ms"
    using tables_c_ok [of w ?c v s] assms(2) p by auto
  obtain f where f: "outftr_c ?c = Some f" using p by (simp add: outftr_c_def convert_def Let_def)
  have "unat (buf_len b) \<le> length (buf_base b)" using assms(4) by (simp add: buf_wf_def)
  note o = outbuf_eq [OF this]
  let ?pre = "h @ lit ''\<newline>static const union { unsigned char b['' @ fmt_u (buf_len b) @ lit '']; uint64_t u; } ''"
  let ?post = "lit ''\<newline>\<newline>static struct nbuf_buffer buf = {(char *) buf_data.b, sizeof buf_data, 0};\<newline>'' @ es @ ms @ f"
  have "nbuf_b2c al w a srcname
      = Some (?pre @ lit ''buf_data = {{'' @ (data_text (buf_data b) @ lit ''\<newline>'') @ lit ''}};'' @ ?post)"
    using assms(1,3) h t f o by (simp add: nbuf_b2c_def del: lit_simps)
  then show ?thesis using init_list_data by blast
qed

theorem c_data_holds_schema_witness:
  "\<exists>pre dat post. nbuf_b2c roomy demo_schema_world 2 (cstr ''m.nbs'') =
      Some (pre @ lit ''buf_data = {{'' @ dat @ lit ''}};'' @ post) \<and> length (init_list dat) = 168"
proof -
  have g: "nbuf_get_Schema demo_schema_world 2 = Some demo_schema"
    by (simp add: nbuf_get_Schema_def demo_eval)
  have l: "length (buf_data (nbuf_init_read demo_schema_bytes 168)) = 168"
    "buf_wf (nbuf_init_read demo_schema_bytes 168)"
    by (simp_all add: buf_data_def buf_wf_def nbuf_init_read_def demo_schema_bytes_def)
  have src: "fmt_s (cstr ''m.nbs'') = Some (lit ''m.nbs'')" by (rule fmt_s_cstr) simp
  from c_data_holds_schema [OF g demo_read demo_buf_2 l(2) roomy_all src] show ?thesis
    using l(1) by (metis length_map)
qed

end
