(* ===== verification/B2h.thy ===== *)
theory B2h
  imports B2c Ref
begin

text \<open>
  The generator of C headers, \<^verbatim>\<open>nbufc/b2h.c\<close> and \<^verbatim>\<open>nbufc/b2h_common.h\<close>: the accessors of every field of
  a schema.  The generator of C++ headers shares its context, its type names and its prefix.
\<close>

section \<open>Context\<close>

text \<open>\<^verbatim>\<open>struct nbuf_b2h\<close>: the strings are memory blocks; \<^verbatim>\<open>scratch\<close> is the result of \<^verbatim>\<open>typestr\<close>.\<close>

record nbuf_b2h_ctx =
  h_schema :: nbuf_obj
  h_prefix :: "byte list"
  h_guard :: "byte list"

definition maybeprefix :: "nbuf_b2h_ctx \<Rightarrow> nbuf_Kind \<Rightarrow> byte list" where
  "maybeprefix ctx kind = (if kind = Kind_ENUM \<or> kind = Kind_PTR then h_prefix ctx else cstr '''')"

definition nbuf_b2h_typestr :: "world \<Rightarrow> nbuf_b2h_ctx \<Rightarrow> nbuf_Kind \<Rightarrow> uint32 \<Rightarrow> byte list option" where
  "nbuf_b2h_typestr w ctx kind tag1 =
    (case kind of
       Kind_BOOL \<Rightarrow> Some (cstr ''bool'')
     | Kind_INT \<Rightarrow> do { scratch \<leftarrow> printf ''int%d_t'' [Num (tag1 * 8)]; Some (scratch @ [0]) }
     | Kind_UINT \<Rightarrow> do { scratch \<leftarrow> printf ''uint%d_t'' [Num (tag1 * 8)]; Some (scratch @ [0]) }
     | Kind_FLOAT \<Rightarrow> Some (if tag1 = 4 then cstr ''float'' else cstr ''double'')
     | Kind_STR \<Rightarrow> Some (cstr ''const char *'')
     | Kind_ENUM \<Rightarrow>
         do { e \<leftarrow> nbuf_Schema_enumTypes w (h_schema ctx) (ucast tag1); (s, _) \<leftarrow> nbuf_EnumType_name w e; Some s }
     | Kind_PTR \<Rightarrow>
         do { m \<leftarrow> nbuf_Schema_msgTypes w (h_schema ctx) (ucast tag1); (s, _) \<leftarrow> nbuf_MsgType_name w m; Some s }
     | Kind_other _ \<Rightarrow> None)"

definition toupper :: "byte \<Rightarrow> byte" where
  "toupper c = (if 97 \<le> c \<and> c \<le> 122 then c - 32 else c)"

text \<open>Prefix and include guard, stored piece by piece into the blocks allocated for them.\<close>

definition nbuf_b2h_makeprefix ::
    "allocator \<Rightarrow> world \<Rightarrow> nbuf_obj \<Rightarrow> byte list \<Rightarrow> string \<Rightarrow> string \<Rightarrow> nbuf_b2h_ctx option" where
  "nbuf_b2h_makeprefix al w schema srcname prefix_suffix guard_suffix =
    do { (pkgName, len) \<leftarrow> nbuf_Schema_pkgName w schema;
         if len = 0 then do {
           blk \<leftarrow> malloc_block al 1;
           prefix \<leftarrow> store blk 0 (cstr '''');
           n \<leftarrow> c_strlen srcname;
           guard \<leftarrow> malloc_block al (n + length guard_suffix + 1);
           cs \<leftarrow> read_chars srcname n;
           guard1 \<leftarrow> store guard 0 (map (\<lambda>ch. toupper (ident_byte ch)) cs);
           guard2 \<leftarrow> store guard1 n (cstr guard_suffix);
           Some \<lparr>h_schema = schema, h_prefix = prefix, h_guard = guard2\<rparr> }
         else do {
           prefix \<leftarrow> malloc_block al (unat len + 2);
           guard \<leftarrow> malloc_block al (unat len + length guard_suffix + 3);
           cs \<leftarrow> read_chars pkgName (unat len);
           prefix1 \<leftarrow> store prefix 0 (map ident_byte cs);
           guard1 \<leftarrow> store guard 0 (map (\<lambda>ch. toupper (ident_byte ch)) cs);
           prefix2 \<leftarrow> store prefix1 (unat len) (cstr prefix_suffix);
           guard2 \<leftarrow> store guard1 (unat len) (cstr ''_NB'');
           guard3 \<leftarrow> store guard2 (unat len + 3) (cstr guard_suffix);
           Some \<lparr>h_schema = schema, h_prefix = prefix2, h_guard = guard3\<rparr> } }"

section \<open>The pieces of a header\<close>

text \<open>Several calls of \<^verbatim>\<open>fprintf\<close>, one after the other.\<close>

definition outs :: "byte list option list \<Rightarrow> byte list option" where
  "outs ts = out_each (\<lambda>t. t) ts"

definition genvalue_h :: "world \<Rightarrow> nbuf_b2h_ctx \<Rightarrow> nbuf_obj \<Rightarrow> byte list \<Rightarrow> nat \<Rightarrow> byte list option" where
  "genvalue_h w ctx e ename j =
    do { d \<leftarrow> nbuf_EnumType_values w e (of_nat j);
         (name, _) \<leftarrow> nbuf_EnumDesc_name w d;
         value \<leftarrow> nbuf_EnumDesc_value w d;
         printf ''	%s%s_%s = %d,\<newline>'' [Str (h_prefix ctx), Str ename, Str name, Num (ucast value)] }"

definition genenum_h :: "world \<Rightarrow> nbuf_b2h_ctx \<Rightarrow> nbuf_obj \<Rightarrow> byte list option" where
  "genenum_h w ctx e =
    do { (ename, _) \<leftarrow> nbuf_EnumType_name w e;
         m \<leftarrow> nbuf_EnumType_values_size w e;
         outs
           [printf ''\<newline>typedef enum {\<newline>'' [],
            out_each (genvalue_h w ctx e ename) [0..<unat m],
            printf ''} %s%s;\<newline>'' [Str (h_prefix ctx), Str ename]] }"

definition genenums_h :: "world \<Rightarrow> nbuf_b2h_ctx \<Rightarrow> byte list option" where
  "genenums_h w ctx =
    do { n \<leftarrow> nbuf_Schema_enumTypes_size w (h_schema ctx);
         out_each (\<lambda>i. do { e \<leftarrow> nbuf_Schema_enumTypes w (h_schema ctx) (of_nat i); genenum_h w ctx e }) [0..<unat n] }"

text \<open>What every generator of an accessor reads of its field: \<^verbatim>\<open>fname, kind, list, tag0, tag1, typ\<close>.\<close>

definition field_vars ::
    "world \<Rightarrow> nbuf_b2h_ctx \<Rightarrow> nbuf_obj \<Rightarrow> (byte list \<times> nbuf_Kind \<times> bool \<times> uint32 \<times> uint32 \<times> byte list) option" where
  "field_vars w ctx fld =
    do { (fname, _) \<leftarrow> nbuf_FieldDesc_name w fld;
         kind \<leftarrow> nbuf_FieldDesc_kind w fld;
         lst \<leftarrow> nbuf_FieldDesc_list w fld;
         tag0 \<leftarrow> nbuf_FieldDesc_tag0 w fld;
         tag1 \<leftarrow> nbuf_FieldDesc_tag1 w fld;
         typ \<leftarrow> nbuf_b2h_typestr w ctx kind tag1;
         Some (fname, kind, lst, tag0, tag1, typ) }"

text \<open>The \<^verbatim>\<open>if (list)\<close> at the start of getters and setters.\<close>

definition load_elem_h :: "bool \<Rightarrow> uint32 \<Rightarrow> byte list option" where
  "load_elem_h lst tag0 =
    (if lst then outs [printf ''	o.o = nbuf_get_ptr(&o.o, %u);\<newline>'' [Num tag0],
                       printf ''	o.o = nbuf_get_elem(&o.o, i);\<newline>'' []]
     else Some [])"

definition get_return_h ::
    "nbuf_b2h_ctx \<Rightarrow> nbuf_Kind \<Rightarrow> bool \<Rightarrow> uint32 \<Rightarrow> uint32 \<Rightarrow> byte list \<Rightarrow> byte list option" where
  "get_return_h ctx kind lst tag0 tag1 typ =
    (case kind of
       Kind_BOOL \<Rightarrow> outs
         [printf ''	return nbuf_get_bit(&o.o, '' [],
          if \<not> lst then printf ''%u);\<newline>'' [Num tag0] else printf ''i%%8);\<newline>'' []]
     | Kind_INT \<Rightarrow> printf ''	return nbuf_get_int(&o.o, %u, %u);\<newline>'' [Num tag0, Num tag1]
     | Kind_UINT \<Rightarrow> printf ''	return nbuf_get_int(&o.o, %u, %u);\<newline>'' [Num tag0, Num tag1]
     | Kind_ENUM \<Rightarrow> printf ''	return (%s%s) nbuf_get_int(&o.o, %u, 2);\<newline>'' [Str (h_prefix ctx), Str typ, Num tag0]
     | Kind_FLOAT \<Rightarrow> printf ''	return nbuf_get_f%d(&o.o, %u);\<newline>'' [Num (tag1 * 8), Num tag0]
     | Kind_STR \<Rightarrow> printf ''	return nbuf_get_str(&o.o, %u, lenp);\<newline>'' [Num tag0]
     | Kind_PTR \<Rightarrow> outs
         [printf ''	return (%s%s) '' [Str (h_prefix ctx), Str typ],
          if \<not> lst then printf ''{nbuf_get_ptr(&o.o, %u)};\<newline>'' [Num tag0] else printf ''{o.o};\<newline>'' []]
     | Kind_other _ \<Rightarrow> None)"

definition gengetter_h :: "world \<Rightarrow> nbuf_b2h_ctx \<Rightarrow> nbuf_obj \<Rightarrow> byte list \<Rightarrow> byte list option" where
  "gengetter_h w ctx fld mname =
    do { (fname, kind, lst, tag0, tag1, typ) \<leftarrow> field_vars w ctx fld;
         outs
           [printf ''\<newline>static inline %s%s\<newline>'' [Str (maybeprefix ctx kind), Str typ],
            printf ''%s%s_%s(%s%s o%s%s)\<newline>{\<newline>''
              [Str (h_prefix ctx), Str mname, Str fname, Str (h_prefix ctx), Str mname,
               Str (if lst then cstr '', size_t i'' else cstr ''''),
               Str (if kind = Kind_STR then cstr '', size_t *lenp'' else cstr '''')],
            load_elem_h lst tag0,
            get_return_h ctx kind lst (if lst then 0 else tag0) tag1 typ,
            printf ''}\<newline>'' [],
            if lst then outs
              [printf ''\<newline>static inline size_t\<newline>'' [],
               printf ''%s%s_%s_size(%s%s o)\<newline>{\<newline>''
                 [Str (h_prefix ctx), Str mname, Str fname, Str (h_prefix ctx), Str mname],
               printf ''	return nbuf_get_ptr(&o.o, %u).nelem;\<newline>'' [Num tag0],
               printf ''}\<newline>'' []]
            else Some []] }"

definition put_return_h :: "nbuf_Kind \<Rightarrow> bool \<Rightarrow> uint32 \<Rightarrow> uint32 \<Rightarrow> byte list option" where
  "put_return_h kind lst tag0 tag1 =
    (case kind of
       Kind_BOOL \<Rightarrow> outs
         [printf ''	return nbuf_put_bit(&o.o, '' [],
          if \<not> lst then printf ''%u, v);\<newline>'' [Num tag0] else printf ''i%%8, v);\<newline>'' []]
     | Kind_INT \<Rightarrow> printf ''	return nbuf_put_int(&o.o, %u, %u, v);\<newline>'' [Num tag0, Num tag1]
     | Kind_UINT \<Rightarrow> printf ''	return nbuf_put_int(&o.o, %u, %u, v);\<newline>'' [Num tag0, Num tag1]
     | Kind_ENUM \<Rightarrow> printf ''	return nbuf_put_int(&o.o, %u, 2, (uint16_t) v);\<newline>'' [Num tag0]
     | Kind_FLOAT \<Rightarrow> printf ''	return nbuf_put_f%d(&o.o, %u, v);\<newline>'' [Num (tag1 * 8), Num tag0]
     | Kind_STR \<Rightarrow> printf ''	return nbuf_put_str(&o.o, %u, v, len);\<newline>'' [Num tag0]
     | Kind_PTR \<Rightarrow> None
     | Kind_other _ \<Rightarrow> None)"

definition gensetter_h :: "world \<Rightarrow> nbuf_b2h_ctx \<Rightarrow> nbuf_obj \<Rightarrow> byte list \<Rightarrow> byte list option" where
  "gensetter_h w ctx fld mname =
    do { (fname, kind, lst, tag0, tag1, typ) \<leftarrow> field_vars w ctx fld;
         if kind = Kind_PTR then Some []
         else outs
           [printf ''\<newline>static inline void\<newline>'' [],
            printf ''%s%s_set_%s(%s%s o%s, %s%s v%s)\<newline>{\<newline>''
              [Str (h_prefix ctx), Str mname, Str fname, Str (h_prefix ctx), Str mname,
               Str (if lst then cstr '', size_t i'' else cstr ''''),
               Str (maybeprefix ctx kind), Str typ,
               Str (if kind = Kind_STR then cstr '', size_t len'' else cstr '''')],
            load_elem_h lst tag0,
            put_return_h kind lst (if lst then 0 else tag0) tag1,
            printf ''}\<newline>'' []] }"

definition geniniter_h :: "world \<Rightarrow> nbuf_b2h_ctx \<Rightarrow> nbuf_obj \<Rightarrow> byte list \<Rightarrow> byte list option" where
  "geniniter_h w ctx fld mname =
    do { (fname, kind, lst, tag0, tag1, typ) \<leftarrow> field_vars w ctx fld;
         if kind \<noteq> Kind_PTR \<and> \<not> lst then Some []
         else do {
           a \<leftarrow> outs
             [printf ''\<newline>static inline '' [],
              if lst then printf ''void'' [] else printf ''%s%s'' [Str (h_prefix ctx), Str typ],
              printf ''\<newline>%s%s_init_%s(%s%s o%s)\<newline>{\<newline>''
                [Str (h_prefix ctx), Str mname, Str fname, Str (h_prefix ctx), Str mname,
                 Str (if lst then cstr '', size_t n'' else cstr '''')]];
           (s, p) \<leftarrow> nbuf_get_size_of w (h_schema ctx) kind tag1;
           b \<leftarrow> outs
             [printf ''	struct nbuf_obj oo = nbuf_create(o.o.buf, %s, %u, %u);\<newline>''
                [Str (if lst then cstr ''n'' else cstr ''1''), Num (ucast s), Num (ucast p)],
              printf ''	nbuf_put_ptr(&o.o, %u, oo);\<newline>'' [Num tag0],
              if \<not> lst then printf ''	return (%s%s) {oo};\<newline>'' [Str (h_prefix ctx), Str typ] else Some [],
              printf ''}\<newline>'' []];
           Some (a @ b) } }"

definition genhasfld_h :: "world \<Rightarrow> nbuf_b2h_ctx \<Rightarrow> nbuf_obj \<Rightarrow> byte list \<Rightarrow> byte list option" where
  "genhasfld_h w ctx fld mname =
    do { (fname, _) \<leftarrow> nbuf_FieldDesc_name w fld;
         kind \<leftarrow> nbuf_FieldDesc_kind w fld;
         lst \<leftarrow> nbuf_FieldDesc_list w fld;
         tag0 \<leftarrow> nbuf_FieldDesc_tag0 w fld;
         if kind \<noteq> Kind_PTR \<and> \<not> lst then Some []
         else outs
           [printf ''\<newline>static inline bool\<newline>'' [],
            printf ''%s%s_has_%s(%s%s o)\<newline>{\<newline>''
              [Str (h_prefix ctx), Str mname, Str fname, Str (h_prefix ctx), Str mname],
            printf ''	return nbuf_has_ptr(&o.o, %u);\<newline>'' [Num tag0],
            printf ''}\<newline>'' []] }"

text \<open>The two passes: the types, then the accessors.\<close>

definition gentype_h :: "world \<Rightarrow> nbuf_b2h_ctx \<Rightarrow> nbuf_obj \<Rightarrow> byte list option" where
  "gentype_h w ctx m =
    do { (mname, _) \<leftarrow> nbuf_MsgType_name w m;
         ss \<leftarrow> nbuf_MsgType_ssize w m;
         ps \<leftarrow> nbuf_MsgType_psize w m;
         outs
           [printf ''\<newline>typedef struct {\<newline>	struct nbuf_obj o;\<newline>} %s%s;\<newline>'' [Str (h_prefix ctx), Str mname],
            printf ''\<newline>static inline %s%s\<newline>'' [Str (h_prefix ctx), Str mname],
            printf ''%sget_%s(struct nbuf_buffer *buf)\<newline>'' [Str (h_prefix ctx), Str mname],
            printf ''{\<newline>	%s%s o = {{buf}};\<newline>	nbuf_obj_init(&o.o, 0);\<newline>	return o;\<newline>}\<newline>''
              [Str (h_prefix ctx), Str mname],
            printf ''\<newline>static inline %s%s\<newline>'' [Str (h_prefix ctx), Str mname],
            printf ''%snew_%s(struct nbuf_buffer *buf)\<newline>'' [Str (h_prefix ctx), Str mname],
            printf ''{\<newline>	%s%s o;\<newline>	o.o = nbuf_create(buf, 1, %u, %u);\<newline>	return o;\<newline>}\<newline>''
              [Str (h_prefix ctx), Str mname, Num (ucast ss), Num (ucast ps)]] }"

definition genaccessors_h :: "world \<Rightarrow> nbuf_b2h_ctx \<Rightarrow> nbuf_obj \<Rightarrow> byte list option" where
  "genaccessors_h w ctx msg =
    do { (mname, _) \<leftarrow> nbuf_MsgType_name w msg;
         m \<leftarrow> nbuf_MsgType_fields_size w msg;
         out_each (\<lambda>j. do {
           fld \<leftarrow> nbuf_MsgType_fields w msg (of_nat j);
           outs [gengetter_h w ctx fld mname, gensetter_h w ctx fld mname,
                 geniniter_h w ctx fld mname, genhasfld_h w ctx fld mname] }) [0..<unat m] }"

definition genmsgs_h :: "world \<Rightarrow> nbuf_b2h_ctx \<Rightarrow> byte list option" where
  "genmsgs_h w ctx =
    do { n \<leftarrow> nbuf_Schema_msgTypes_size w (h_schema ctx);
         outs
           [out_each (\<lambda>i. do { m \<leftarrow> nbuf_Schema_msgTypes w (h_schema ctx) (of_nat i); gentype_h w ctx m }) [0..<unat n],
            out_each (\<lambda>i. do { m \<leftarrow> nbuf_Schema_msgTypes w (h_schema ctx) (of_nat i); genaccessors_h w ctx m })
              [0..<unat n]] }"

definition outhdr_h :: "nbuf_b2h_ctx \<Rightarrow> byte list \<Rightarrow> byte list option" where
  "outhdr_h ctx srcname = outs
    [printf ''/* Generated from %s.  DO NOT EDIT. */\<newline>\<newline>'' [Str srcname],
     printf ''#ifndef %s\<newline>#define %s\<newline>\<newline>'' [Str (h_guard ctx), Str (h_guard ctx)],
     printf ''#include \"nbuf.h\"\<newline>'' [],
     printf ''#include \"nbuf.nb.h\"\<newline>'' []]"

definition outftr_h :: "world \<Rightarrow> nbuf_b2h_ctx \<Rightarrow> byte list option" where
  "outftr_h w ctx =
    do { ne \<leftarrow> nbuf_Schema_enumTypes_size w (h_schema ctx);
         nm \<leftarrow> nbuf_Schema_msgTypes_size w (h_schema ctx);
         outs
           [if ne > 0 then printf ''\<newline>extern nbuf_EnumType\<newline>'' [] else Some [],
            out_each (\<lambda>i. do {
              e \<leftarrow> nbuf_Schema_enumTypes w (h_schema ctx) (of_nat i);
              (ename, _) \<leftarrow> nbuf_EnumType_name w e;
              printf ''%srefl_%s%c\<newline>'' [Str (h_prefix ctx), Str ename,
                Chr (of_char (if of_nat i = ne - 1 then CHR '';'' else CHR '',''))] }) [0..<unat ne],
            if nm > 0 then printf ''\<newline>extern nbuf_MsgType\<newline>'' [] else Some [],
            out_each (\<lambda>i. do {
              m \<leftarrow> nbuf_Schema_msgTypes w (h_schema ctx) (of_nat i);
              (mname, _) \<leftarrow> nbuf_MsgType_name w m;
              printf ''%srefl_%s%c\<newline>'' [Str (h_prefix ctx), Str mname,
                Chr (of_char (if of_nat i = nm - 1 then CHR '';'' else CHR '',''))] }) [0..<unat nm],
            printf ''\<newline>extern nbuf_Schema %srefl_schema;\<newline>'' [Str (h_prefix ctx)],
            printf ''\<newline>#endif  /* %s */\<newline>'' [Str (h_guard ctx)]] }"

definition nbuf_b2h :: "allocator \<Rightarrow> world \<Rightarrow> nat \<Rightarrow> byte list \<Rightarrow> byte list option" where
  "nbuf_b2h al w a srcname =
    do { schema \<leftarrow> nbuf_get_Schema w a;
         ctx \<leftarrow> nbuf_b2h_makeprefix al w schema srcname ''_'' ''_H'';
         outs [outhdr_h ctx srcname, genenums_h w ctx, genmsgs_h w ctx, outftr_h w ctx] }"

end
