(* ===== verification/B2hh.thy ===== *)
theory B2hh
  imports B2h
begin

text \<open>
  The generator of C++ headers, \<^verbatim>\<open>nbufc/b2hh.c\<close>: a class for every message, whose methods are declared
  in the class and defined after all classes.
\<close>

definition genvalue_hh :: "world \<Rightarrow> nbuf_obj \<Rightarrow> nat \<Rightarrow> byte list option" where
  "genvalue_hh w e j =
    do { d \<leftarrow> nbuf_EnumType_values w e (of_nat j);
         (name, _) \<leftarrow> nbuf_EnumDesc_name w d;
         value \<leftarrow> nbuf_EnumDesc_value w d;
         printf ''	%s = %d,\<newline>'' [Str name, Num (ucast value)] }"

definition genenum_hh :: "world \<Rightarrow> nbuf_obj \<Rightarrow> byte list option" where
  "genenum_hh w e =
    do { (ename, _) \<leftarrow> nbuf_EnumType_name w e;
         m \<leftarrow> nbuf_EnumType_values_size w e;
         outs
           [printf ''\<newline>enum class %s {\<newline>'' [Str ename],
            out_each (genvalue_hh w e) [0..<unat m],
            printf ''};\<newline>'' []] }"

definition genenums_hh :: "world \<Rightarrow> nbuf_b2h_ctx \<Rightarrow> byte list option" where
  "genenums_hh w ctx =
    do { n \<leftarrow> nbuf_Schema_enumTypes_size w (h_schema ctx);
         out_each (\<lambda>i. do { e \<leftarrow> nbuf_Schema_enumTypes w (h_schema ctx) (of_nat i); genenum_hh w e }) [0..<unat n] }"

definition outfnhdr :: "byte list \<Rightarrow> byte list \<Rightarrow> string \<Rightarrow> byte list \<Rightarrow> bool \<Rightarrow> byte list option" where
  "outfnhdr typ mname prefix fname defn = outs
    [printf ''%s%s%s''
       [Str (if defn then cstr ''\<newline>'' else cstr ''	inline ''), Str typ,
        Str (if defn then cstr ''\<newline>'' else cstr '' '')],
     if defn then printf ''%s::'' [Str mname] else Some [],
     printf ''%s%s'' [Str (cstr prefix), Str fname]]"

text \<open>The \<^verbatim>\<open>if (list)\<close> of getters and setters, and the object \<^verbatim>\<open>o\<close> the rest works on.\<close>

definition load_elem_hh :: "bool \<Rightarrow> uint32 \<Rightarrow> byte list option" where
  "load_elem_hh lst tag0 =
    (if lst then outs [printf ''	nbuf_obj t = nbuf_get_ptr(this, %u);\<newline>'' [Num tag0],
                       printf ''	t = nbuf_get_elem(&t, i);\<newline>'' []]
     else Some [])"

definition self_hh :: "bool \<Rightarrow> byte list" where
  "self_hh lst = (if lst then cstr ''&t'' else cstr ''this'')"

definition get_return_hh :: "nbuf_Kind \<Rightarrow> bool \<Rightarrow> uint32 \<Rightarrow> uint32 \<Rightarrow> byte list \<Rightarrow> byte list option" where
  "get_return_hh kind lst tag0 tag1 typ =
    (case kind of
       Kind_BOOL \<Rightarrow> outs
         [printf ''	return nbuf_get_bit(%s, '' [Str (self_hh lst)],
          if \<not> lst then printf ''%u);\<newline>'' [Num tag0] else printf ''i%%8);\<newline>'' []]
     | Kind_INT \<Rightarrow> printf ''	return nbuf_get_int(%s, %u, %u);\<newline>'' [Str (self_hh lst), Num tag0, Num tag1]
     | Kind_UINT \<Rightarrow> printf ''	return nbuf_get_int(%s, %u, %u);\<newline>'' [Str (self_hh lst), Num tag0, Num tag1]
     | Kind_ENUM \<Rightarrow> printf ''	return (%s) nbuf_get_int(%s, %u, 2);\<newline>'' [Str typ, Str (self_hh lst), Num tag0]
     | Kind_FLOAT \<Rightarrow> printf ''	return nbuf_get_f%d(%s, %u);\<newline>'' [Num (tag1 * 8), Str (self_hh lst), Num tag0]
     | Kind_STR \<Rightarrow> printf ''	return nbuf_get_str(%s, %u, lenp);\<newline>'' [Str (self_hh lst), Num tag0]
     | Kind_PTR \<Rightarrow>
         (if \<not> lst then printf ''	return %s(nbuf_get_ptr(this, %u));\<newline>'' [Str typ, Num tag0]
          else printf ''	return %s(t);\<newline>'' [Str typ])
     | Kind_other _ \<Rightarrow> None)"

definition gengetter_hh :: "world \<Rightarrow> nbuf_b2h_ctx \<Rightarrow> nbuf_obj \<Rightarrow> byte list \<Rightarrow> bool \<Rightarrow> byte list option" where
  "gengetter_hh w ctx fld mname defn =
    do { (fname, kind, lst, tag0, tag1, typ) \<leftarrow> field_vars w ctx fld;
         a \<leftarrow> outs
           [outfnhdr typ mname '''' fname defn,
            printf ''('' [],
            if lst then printf ''size_t i'' [] else Some [],
            if kind = Kind_STR then printf ''%ssize_t *lenp%s''
              [Str (if lst then cstr '', '' else cstr ''''), Str (if defn then cstr '''' else cstr '' = NULL'')]
            else Some [],
            printf '') const%s\<newline>'' [Str (if defn then cstr ''\<newline>{'' else cstr '';'')]];
         if \<not> defn
         then do {
           b \<leftarrow> (if lst then printf ''	inline size_t %s_size() const;\<newline>'' [Str fname] else Some []);
           Some (a @ b) }
         else do {
           b \<leftarrow> outs
             [load_elem_hh lst tag0,
              get_return_hh kind lst (if lst then 0 else tag0) tag1 typ,
              printf ''}\<newline>'' [],
              if lst then outs
                [printf ''\<newline>size_t\<newline>'' [],
                 printf ''%s::%s_size() const\<newline>{\<newline>'' [Str mname, Str fname],
                 printf ''	nbuf_obj t = nbuf_get_ptr(this, %u);\<newline>'' [Num tag0],
                 printf ''	return t.nelem;\<newline>'' [],
                 printf ''}\<newline>'' []]
              else Some []];
           Some (a @ b) } }"

definition put_return_hh :: "nbuf_Kind \<Rightarrow> bool \<Rightarrow> uint32 \<Rightarrow> uint32 \<Rightarrow> byte list option" where
  "put_return_hh kind lst tag0 tag1 =
    (case kind of
       Kind_BOOL \<Rightarrow> outs
         [printf ''	return nbuf_put_bit(%s, '' [Str (self_hh lst)],
          if \<not> lst then printf ''%u, v);\<newline>'' [Num tag0] else printf ''i%%8, v);\<newline>'' []]
     | Kind_INT \<Rightarrow> printf ''	return nbuf_put_int(%s, %u, %u, v);\<newline>'' [Str (self_hh lst), Num tag0, Num tag1]
     | Kind_UINT \<Rightarrow> printf ''	return nbuf_put_int(%s, %u, %u, v);\<newline>'' [Str (self_hh lst), Num tag0, Num tag1]
     | Kind_ENUM \<Rightarrow> printf ''	return nbuf_put_int(%s, %u, 2, (uint16_t) v);\<newline>'' [Str (self_hh lst), Num tag0]
     | Kind_FLOAT \<Rightarrow> printf ''	return nbuf_put_f%d(%s, %u, v);\<newline>'' [Num (tag1 * 8), Str (self_hh lst), Num tag0]
     | Kind_STR \<Rightarrow> printf ''	return nbuf_put_str(%s, %u, v, len);\<newline>'' [Str (self_hh lst), Num tag0]
     | Kind_PTR \<Rightarrow> None
     | Kind_other _ \<Rightarrow> None)"

definition gensetter_hh :: "world \<Rightarrow> nbuf_b2h_ctx \<Rightarrow> nbuf_obj \<Rightarrow> byte list \<Rightarrow> bool \<Rightarrow> byte list option" where
  "gensetter_hh w ctx fld mname defn =
    do { (fname, kind, lst, tag0, tag1, typ) \<leftarrow> field_vars w ctx fld;
         if kind = Kind_PTR then Some []
         else do {
           a \<leftarrow> outs
             [outfnhdr (cstr ''void'') mname ''set_'' fname defn,
              printf ''(%s%s v%s)%s\<newline>''
                [Str (if lst then cstr ''size_t i, '' else cstr ''''), Str typ,
                 Str (if kind = Kind_STR then if defn then cstr '', size_t len'' else cstr '', size_t len = -1''
                      else cstr ''''),
                 Str (if defn then cstr ''\<newline>{'' else cstr '';'')]];
           if \<not> defn then Some a
           else do {
             b \<leftarrow> outs [load_elem_hh lst tag0,
                        put_return_hh kind lst (if lst then 0 else tag0) tag1,
                        printf ''}\<newline>'' []];
             Some (a @ b) } } }"

definition geniniter_hh :: "world \<Rightarrow> nbuf_b2h_ctx \<Rightarrow> nbuf_obj \<Rightarrow> byte list \<Rightarrow> bool \<Rightarrow> byte list option" where
  "geniniter_hh w ctx fld mname defn =
    do { (fname, kind, lst, tag0, tag1, typ) \<leftarrow> field_vars w ctx fld;
         if kind \<noteq> Kind_PTR \<and> \<not> lst then Some []
         else do {
           a \<leftarrow> outs
             [outfnhdr (if lst then cstr ''void'' else typ) mname ''init_'' fname defn,
              printf ''(%s)%s\<newline>''
                [Str (if lst then cstr ''size_t n'' else cstr ''''),
                 Str (if defn then cstr ''\<newline>{'' else cstr '';'')]];
           if \<not> defn then Some a
           else do {
             (s, p) \<leftarrow> nbuf_get_size_of w (h_schema ctx) kind tag1;
             b \<leftarrow> outs
               [printf ''	nbuf_obj oo = nbuf_create(buf, %s, %u, %u);\<newline>''
                  [Str (if lst then cstr ''n'' else cstr ''1''), Num (ucast s), Num (ucast p)],
                printf ''	nbuf_put_ptr(this, %u, oo);\<newline>'' [Num tag0],
                if \<not> lst then printf ''return %s(oo);'' [Str typ] else Some [],
                printf ''}\<newline>'' []];
             Some (a @ b) } } }"

definition genhasfld_hh :: "world \<Rightarrow> nbuf_b2h_ctx \<Rightarrow> nbuf_obj \<Rightarrow> byte list \<Rightarrow> bool \<Rightarrow> byte list option" where
  "genhasfld_hh w ctx fld mname defn =
    do { (fname, _) \<leftarrow> nbuf_FieldDesc_name w fld;
         kind \<leftarrow> nbuf_FieldDesc_kind w fld;
         lst \<leftarrow> nbuf_FieldDesc_list w fld;
         tag0 \<leftarrow> nbuf_FieldDesc_tag0 w fld;
         if kind \<noteq> Kind_PTR \<and> \<not> lst then Some []
         else do {
           a \<leftarrow> outs
             [outfnhdr (cstr ''bool'') mname ''has_'' fname defn,
              printf ''() const%s\<newline>'' [Str (if defn then cstr ''\<newline>{'' else cstr '';'')]];
           if \<not> defn then Some a
           else do {
             b \<leftarrow> outs [printf ''	return nbuf_has_ptr(this, %u);\<newline>'' [Num tag0], printf ''}\<newline>'' []];
             Some (a @ b) } } }"

text \<open>All methods of a message, declared or defined.\<close>

definition genmethods_hh :: "world \<Rightarrow> nbuf_b2h_ctx \<Rightarrow> nbuf_obj \<Rightarrow> byte list \<Rightarrow> bool \<Rightarrow> byte list option" where
  "genmethods_hh w ctx msg mname defn =
    do { m \<leftarrow> nbuf_MsgType_fields_size w msg;
         out_each (\<lambda>j. do {
           fld \<leftarrow> nbuf_MsgType_fields w msg (of_nat j);
           outs [gengetter_hh w ctx fld mname defn, gensetter_hh w ctx fld mname defn,
                 geniniter_hh w ctx fld mname defn, genhasfld_hh w ctx fld mname defn] }) [0..<unat m] }"

definition genclass_hh :: "world \<Rightarrow> nbuf_b2h_ctx \<Rightarrow> nbuf_obj \<Rightarrow> byte list option" where
  "genclass_hh w ctx msg =
    do { (mname, _) \<leftarrow> nbuf_MsgType_name w msg;
         ss \<leftarrow> nbuf_MsgType_ssize w msg;
         ps \<leftarrow> nbuf_MsgType_psize w msg;
         outs
           [printf ''\<newline>struct %s : public nbuf_obj {\<newline>'' [Str mname],
            printf ''	explicit %s(nbuf_obj o) : nbuf_obj(o) {}\<newline>\<newline>'' [Str mname],
            genmethods_hh w ctx msg mname False,
            printf ''};\<newline>'' [],
            printf ''\<newline>static inline %s\<newline>'' [Str mname],
            printf ''get_%s(nbuf_buffer *buf)\<newline>'' [Str mname],
            printf ''{\<newline>	nbuf_obj o = {buf};\<newline>	nbuf_obj_init(&o, 0);\<newline>	return %s(o);\<newline>}\<newline>'' [Str mname],
            printf ''\<newline>static inline %s\<newline>'' [Str mname],
            printf ''new_%s(nbuf_buffer *buf)\<newline>'' [Str mname],
            printf ''{\<newline>	return %s(nbuf_create(buf, 1, %u, %u));\<newline>}\<newline>'' [Str mname, Num (ucast ss), Num (ucast ps)]] }"

definition genmsgs_hh :: "world \<Rightarrow> nbuf_b2h_ctx \<Rightarrow> byte list option" where
  "genmsgs_hh w ctx =
    do { n \<leftarrow> nbuf_Schema_msgTypes_size w (h_schema ctx);
         outs
           [printf ''\<newline>'' [],
            out_each (\<lambda>i. do {
              m \<leftarrow> nbuf_Schema_msgTypes w (h_schema ctx) (of_nat i);
              (mname, _) \<leftarrow> nbuf_MsgType_name w m;
              printf ''struct %s;\<newline>'' [Str mname] }) [0..<unat n],
            out_each (\<lambda>i. do { msg \<leftarrow> nbuf_Schema_msgTypes w (h_schema ctx) (of_nat i); genclass_hh w ctx msg })
              [0..<unat n],
            out_each (\<lambda>i. do {
              msg \<leftarrow> nbuf_Schema_msgTypes w (h_schema ctx) (of_nat i);
              (mname, _) \<leftarrow> nbuf_MsgType_name w msg;
              genmethods_hh w ctx msg mname True }) [0..<unat n]] }"

text \<open>\<^verbatim>\<open>ctx->prefix[0]\<close> is read of the block.\<close>

definition has_prefix :: "nbuf_b2h_ctx \<Rightarrow> bool option" where
  "has_prefix ctx = (case h_prefix ctx of [] \<Rightarrow> None | c # _ \<Rightarrow> Some (c \<noteq> 0))"

definition outhdr_hh :: "nbuf_b2h_ctx \<Rightarrow> byte list \<Rightarrow> byte list option" where
  "outhdr_hh ctx srcname = outs
    [printf ''// Generated from %s.  DO NOT EDIT.\<newline>\<newline>'' [Str srcname],
     printf ''#ifndef %s\<newline>#define %s\<newline>\<newline>'' [Str (h_guard ctx), Str (h_guard ctx)],
     printf ''#include \"nbuf.h\"\<newline>'' [],
     printf ''#include \"nbuf.nb.h\"\<newline>'' [],
     do { p \<leftarrow> has_prefix ctx;
          if p then printf ''\<newline>namespace %s {\<newline>'' [Str (h_prefix ctx)] else Some [] }]"

definition outftr_hh :: "world \<Rightarrow> nbuf_b2h_ctx \<Rightarrow> byte list option" where
  "outftr_hh w ctx =
    do { ne \<leftarrow> nbuf_Schema_enumTypes_size w (h_schema ctx);
         nm \<leftarrow> nbuf_Schema_msgTypes_size w (h_schema ctx);
         outs
           [do { p \<leftarrow> has_prefix ctx;
                 if p then printf ''\<newline>}  // namespace %s\<newline>'' [Str (h_prefix ctx)] else Some [] },
            if ne > 0 then printf ''\<newline>extern nbuf_EnumType\<newline>'' [] else Some [],
            out_each (\<lambda>i. do {
              e \<leftarrow> nbuf_Schema_enumTypes w (h_schema ctx) (of_nat i);
              (ename, _) \<leftarrow> nbuf_EnumType_name w e;
              printf ''%s_refl_%s%c\<newline>'' [Str (h_prefix ctx), Str ename,
                Chr (of_char (if of_nat i = ne - 1 then CHR '';'' else CHR '',''))] }) [0..<unat ne],
            if nm > 0 then printf ''\<newline>extern nbuf_MsgType\<newline>'' [] else Some [],
            out_each (\<lambda>i. do {
              m \<leftarrow> nbuf_Schema_msgTypes w (h_schema ctx) (of_nat i);
              (mname, _) \<leftarrow> nbuf_MsgType_name w m;
              printf ''%s_refl_%s%c\<newline>'' [Str (h_prefix ctx), Str mname,
                Chr (of_char (if of_nat i = nm - 1 then CHR '';'' else CHR '',''))] }) [0..<unat nm],
            printf ''\<newline>extern nbuf_Schema %s_refl_schema;\<newline>'' [Str (h_prefix ctx)],
            printf ''\<newline>#endif  // %s\<newline>'' [Str (h_guard ctx)]] }"

definition nbuf_b2hh :: "allocator \<Rightarrow> world \<Rightarrow> nat \<Rightarrow> byte list \<Rightarrow> byte list option" where
  "nbuf_b2hh al w a srcname =
    do { schema \<leftarrow> nbuf_get_Schema w a;
         ctx \<leftarrow> nbuf_b2h_makeprefix al w schema srcname '''' ''_HPP'';
         outs [outhdr_hh ctx srcname, genenums_hh w ctx, genmsgs_hh w ctx, outftr_hh w ctx] }"

end
