(* ===== verification/Accessors.thy ===== *)
theory Accessors
  imports B2hh
begin

text \<open>
  What the generated accessors do.  The body of a getter is a few statements; the two generators print
  the same ones, in C and in C++, and executed on a message they give what a field reference of
  \<open>Ref\<close> gives for the same field.  \<open>run_getter\<close> is not code of the repository: it is the meaning C and
  C++ give to these few statements, in a function of the type that the printed head declares and with the
  type that the printed text casts to.
\<close>

section \<open>The statements of a getter\<close>

datatype stmt =
  Load_list uint32 | Load_elem | Return_bit uint32 | Return_index_bit | Return_int uint32 uint32 |
  Return_enum uint32 | Return_float uint32 uint32 | Return_str uint32 | Return_ptr uint32 | Return_self

definition loads :: "field_out \<Rightarrow> stmt list" where
  "loads f = (if out_list f then [Load_list (out_tag0 f), Load_elem] else [])"

definition return_stmt :: "field_out \<Rightarrow> stmt" where
  "return_stmt f =
    (let off = (if out_list f then 0 else out_tag0 f)
     in case out_kind f of
          Kind_BOOL \<Rightarrow> if out_list f then Return_index_bit else Return_bit off
        | Kind_INT \<Rightarrow> Return_int off (out_tag1 f)
        | Kind_UINT \<Rightarrow> Return_int off (out_tag1 f)
        | Kind_ENUM \<Rightarrow> Return_enum off
        | Kind_FLOAT \<Rightarrow> Return_float (out_tag1 f * 8) off
        | Kind_STR \<Rightarrow> Return_str off
        | _ \<Rightarrow> if out_list f then Return_self else Return_ptr off)"

definition getter_code :: "field_out \<Rightarrow> stmt list" where
  "getter_code f = loads f @ [return_stmt f]"

text \<open>The statements in C; \<open>p\<close> is the prefix, \<open>t\<close> the type of the result.\<close>

definition num :: "uint32 \<Rightarrow> byte list" where
  "num n = fmt_u (ucast n)"

fun c_stmt :: "byte list \<Rightarrow> byte list \<Rightarrow> stmt \<Rightarrow> byte list" where
  "c_stmt p t (Load_list k) = lit ''	o.o = nbuf_get_ptr(&o.o, '' @ num k @ lit '');\<newline>''"
| "c_stmt p t Load_elem = lit ''	o.o = nbuf_get_elem(&o.o, i);\<newline>''"
| "c_stmt p t (Return_bit k) = lit ''	return nbuf_get_bit(&o.o, '' @ num k @ lit '');\<newline>''"
| "c_stmt p t Return_index_bit = lit ''	return nbuf_get_bit(&o.o, i%8);\<newline>''"
| "c_stmt p t (Return_int k s) = lit ''	return nbuf_get_int(&o.o, '' @ num k @ lit '', '' @ num s @ lit '');\<newline>''"
| "c_stmt p t (Return_enum k) = lit ''	return ('' @ p @ t @ lit '') nbuf_get_int(&o.o, '' @ num k @ lit '', 2);\<newline>''"
| "c_stmt p t (Return_float b k) =
    lit ''	return nbuf_get_f'' @ fmt_d (scast b) @ lit ''(&o.o, '' @ num k @ lit '');\<newline>''"
| "c_stmt p t (Return_str k) = lit ''	return nbuf_get_str(&o.o, '' @ num k @ lit '', lenp);\<newline>''"
| "c_stmt p t (Return_ptr k) = lit ''	return ('' @ p @ t @ lit '') {nbuf_get_ptr(&o.o, '' @ num k @ lit '')};\<newline>''"
| "c_stmt p t Return_self = lit ''	return ('' @ p @ t @ lit '') {o.o};\<newline>''"

text \<open>And in C++, where \<open>o\<close> is the expression for the current object.\<close>

fun cpp_stmt :: "byte list \<Rightarrow> byte list \<Rightarrow> stmt \<Rightarrow> byte list" where
  "cpp_stmt ob t (Load_list k) = lit ''	nbuf_obj t = nbuf_get_ptr(this, '' @ num k @ lit '');\<newline>''"
| "cpp_stmt ob t Load_elem = lit ''	t = nbuf_get_elem(&t, i);\<newline>''"
| "cpp_stmt ob t (Return_bit k) = lit ''	return nbuf_get_bit('' @ ob @ lit '', '' @ num k @ lit '');\<newline>''"
| "cpp_stmt ob t Return_index_bit = lit ''	return nbuf_get_bit('' @ ob @ lit '', i%8);\<newline>''"
| "cpp_stmt ob t (Return_int k s) =
    lit ''	return nbuf_get_int('' @ ob @ lit '', '' @ num k @ lit '', '' @ num s @ lit '');\<newline>''"
| "cpp_stmt ob t (Return_enum k) =
    lit ''	return ('' @ t @ lit '') nbuf_get_int('' @ ob @ lit '', '' @ num k @ lit '', 2);\<newline>''"
| "cpp_stmt ob t (Return_float b k) =
    lit ''	return nbuf_get_f'' @ fmt_d (scast b) @ lit ''('' @ ob @ lit '', '' @ num k @ lit '');\<newline>''"
| "cpp_stmt ob t (Return_str k) = lit ''	return nbuf_get_str('' @ ob @ lit '', '' @ num k @ lit '', lenp);\<newline>''"
| "cpp_stmt ob t (Return_ptr k) = lit ''	return '' @ t @ lit ''(nbuf_get_ptr(this, '' @ num k @ lit ''));\<newline>''"
| "cpp_stmt ob t Return_self = lit ''	return '' @ t @ lit ''(t);\<newline>''"

definition self_name :: "field_out \<Rightarrow> byte list" where
  "self_name f = lit (if out_list f then ''&t'' else ''this'')"

section \<open>Executing them\<close>

text \<open>Values of the fields; a \<^verbatim>\<open>float\<close> is widened to a \<^verbatim>\<open>double\<close>.\<close>

datatype field_value = V_bool bool | V_int int64 | V_float uint64 | V_str "byte list \<times> size_t" | V_obj nbuf_obj

text \<open>
  \<^verbatim>\<open>return\<close> converts its expression to the type the function is declared with, here given by its text:
  \<^verbatim>\<open>intN_t\<close> and \<^verbatim>\<open>uintN_t\<close> keep the low bits, \<^verbatim>\<open>float\<close> rounds.  Declarations that do not fit the expression
  have no meaning here.
\<close>

definition int_result :: "byte list \<Rightarrow> int64 \<Rightarrow> int64 option" where
  "int_result ty v =
    (if ty = lit ''int8_t'' then Some (int_conv 1 v)
     else if ty = lit ''int16_t'' then Some (int_conv 2 v)
     else if ty = lit ''int32_t'' then Some (int_conv 4 v)
     else if ty = lit ''int64_t'' then Some (int_conv 8 v)
     else if ty = lit ''uint8_t'' then Some (take_bit 8 v)
     else if ty = lit ''uint16_t'' then Some (take_bit 16 v)
     else if ty = lit ''uint32_t'' then Some (take_bit 32 v)
     else if ty = lit ''uint64_t'' then Some (take_bit 64 v)
     else None)"

text \<open>
  What the C compiler decides: the conversions between \<^verbatim>\<open>float\<close> and \<^verbatim>\<open>double\<close>, and the conversion of a number
  to an enumeration, whose integer type is its choice.
\<close>

record c_types =
  ct_widen :: "uint32 \<Rightarrow> uint64"
  ct_narrow :: "uint64 \<Rightarrow> uint32"
  ct_enum :: "int64 \<Rightarrow> int64"

definition f32_result :: "c_types \<Rightarrow> byte list \<Rightarrow> uint32 \<Rightarrow> uint64 option" where
  "f32_result ct ty v =
    (if ty = lit ''float'' \<or> ty = lit ''double'' then Some (ct_widen ct v) else None)"

definition f64_result :: "c_types \<Rightarrow> byte list \<Rightarrow> uint64 \<Rightarrow> uint64 option" where
  "f64_result ct ty v =
    (if ty = lit ''float'' then Some (ct_widen ct (ct_narrow ct v))
     else if ty = lit ''double'' then Some v else None)"

text \<open>
  \<open>ty\<close> is the declared type of the result and \<open>ca\<close> the type that enumerations and objects are cast to, or
  constructed with; the two have to be the same type.
\<close>

fun run_getter ::
    "c_types \<Rightarrow> world \<Rightarrow> byte list \<Rightarrow> byte list \<Rightarrow> size_t \<Rightarrow> nbuf_obj \<Rightarrow> stmt list \<Rightarrow> field_value option" where
  "run_getter ct w ty ca i ob [] = None"
| "run_getter ct w ty ca i ob (s # ss) =
    (case s of
       Load_list k \<Rightarrow> do { ob1 \<leftarrow> nbuf_get_ptr w ob (ucast k); run_getter ct w ty ca i ob1 ss }
     | Load_elem \<Rightarrow> run_getter ct w ty ca i (nbuf_get_elem ob i) ss
     | Return_bit k \<Rightarrow> do { assert_ok (ty = lit ''bool'');
         b \<leftarrow> bufs w (obj_buf ob); map_option V_bool (nbuf_get_bit b ob (ucast k)) }
     | Return_index_bit \<Rightarrow> do { assert_ok (ty = lit ''bool'');
         b \<leftarrow> bufs w (obj_buf ob); map_option V_bool (nbuf_get_bit b ob (i mod 8)) }
     | Return_int k sz \<Rightarrow> do {
         v \<leftarrow> obj_get_int w ob (ucast k) (ucast sz); map_option V_int (int_result ty v) }
     | Return_enum k \<Rightarrow> do { assert_ok (ca = ty);
         map_option (V_int \<circ> ct_enum ct) (obj_get_int w ob (ucast k) 2) }
     | Return_float b k \<Rightarrow> do {
         buf \<leftarrow> bufs w (obj_buf ob);
         if b = 32 then do { v \<leftarrow> nbuf_get_f32 buf ob (ucast k); map_option V_float (f32_result ct ty v) }
         else if b = 64 then do { v \<leftarrow> nbuf_get_f64 buf ob (ucast k); map_option V_float (f64_result ct ty v) }
         else None }
     | Return_str k \<Rightarrow> do { assert_ok (ty = lit ''const char *'');
         map_option V_str (nbuf_get_str w ob (ucast k)) }
     | Return_ptr k \<Rightarrow> do { assert_ok (ca = ty); map_option V_obj (nbuf_get_ptr w ob (ucast k)) }
     | Return_self \<Rightarrow> do { assert_ok (ca = ty); Some (V_obj ob) })"

text \<open>The same field read through a reference; the index \<open>i\<close> counts the calls of \<^verbatim>\<open>nbuf_ref_advance\<close>.\<close>

definition ref_value :: "(uint32 \<Rightarrow> uint64) \<Rightarrow> world \<Rightarrow> nbuf_ref \<Rightarrow> field_value option" where
  "ref_value widen w r =
    (case ref_kind r of
       Kind_BOOL \<Rightarrow> map_option V_bool (nbuf_ref_get_bit w r)
     | Kind_FLOAT \<Rightarrow> map_option V_float (nbuf_ref_get_float widen w r)
     | Kind_STR \<Rightarrow> map_option V_str (nbuf_ref_get_str w r)
     | Kind_PTR \<Rightarrow> Some (V_obj (ref_o r))
     | _ \<Rightarrow> map_option V_int (nbuf_ref_get_int w r))"

definition as_element :: "field_value \<Rightarrow> field_value" where
  "as_element v = (case v of V_obj ob \<Rightarrow> V_obj (ob\<lparr>nelem := 1\<rparr>) | _ \<Rightarrow> v)"

definition read_by_ref :: "(uint32 \<Rightarrow> uint64) \<Rightarrow> world \<Rightarrow> nbuf_ref \<Rightarrow> nat \<Rightarrow> field_value option" where
  "read_by_ref widen w r i =
    (if ref_list r
     then do { lst \<leftarrow> nbuf_ref_get_ptr w r; (ok, e) \<leftarrow> advances i lst; assert_ok ok;
               map_option as_element (ref_value widen w e) }
     else if ref_kind r = Kind_PTR then do { p \<leftarrow> nbuf_ref_get_ptr w r; ref_value widen w p }
     else ref_value widen w r)"

section \<open>The text\<close>

text \<open>The printed strings of a field and of the context.\<close>

definition prints_field :: "world \<Rightarrow> nbuf_b2h_ctx \<Rightarrow> nbuf_obj \<Rightarrow> field_out \<Rightarrow> byte list \<Rightarrow> byte list \<Rightarrow> bool" where
  "prints_field w ctx fld f p t \<longleftrightarrow> read_field w fld = Some f \<and> fmt_s (h_prefix ctx) = Some p \<and>
    (\<exists>s. nbuf_b2h_typestr w ctx (out_kind f) (out_tag1 f) = Some s \<and> fmt_s s = Some t)"

lemma field_vars_eq:
  assumes "prints_field w ctx fld f p t"
  shows "\<exists>fname s. field_vars w ctx fld = Some (fname, out_kind f, out_list f, out_tag0 f, out_tag1 f, s) \<and>
    fmt_s fname = Some (lit (out_name f)) \<and> fmt_s s = Some t"
    and "\<And>k. out_kind f \<noteq> Kind_other k"
proof -
  obtain s where s: "nbuf_b2h_typestr w ctx (out_kind f) (out_tag1 f) = Some s" "fmt_s s = Some t"
    "read_field w fld = Some f" using assms by (auto simp: prints_field_def)
  obtain fname n where r: "nbuf_FieldDesc_name w fld = Some (fname, n)" "fmt_s fname = Some (lit (out_name f))"
    "nbuf_FieldDesc_kind w fld = Some (out_kind f)" "nbuf_FieldDesc_list w fld = Some (out_list f)"
    "nbuf_FieldDesc_tag0 w fld = Some (out_tag0 f)" "nbuf_FieldDesc_tag1 w fld = Some (out_tag1 f)"
    using s(3) by (auto simp: read_field_def text_of_Some split: bind_splits)
  show "\<exists>fname s. field_vars w ctx fld = Some (fname, out_kind f, out_list f, out_tag0 f, out_tag1 f, s) \<and>
    fmt_s fname = Some (lit (out_name f)) \<and> fmt_s s = Some t"
    using s r by (simp add: field_vars_def)
  show "out_kind f \<noteq> Kind_other k" for k using s(1) by (auto simp: nbuf_b2h_typestr_def)
qed

lemma outs_simps [simp]: "outs [] = Some []" "outs (t # ts) = do { x \<leftarrow> t; xs \<leftarrow> outs ts; Some (x @ xs) }"
  by (simp_all add: outs_def)

lemma body_h:
  assumes "fmt_s (h_prefix ctx) = Some p" and "fmt_s s = Some t" and "\<And>k. out_kind f \<noteq> Kind_other k"
  shows "load_elem_h (out_list f) (out_tag0 f) = Some (concat (map (c_stmt p t) (loads f)))"
    and "get_return_h ctx (out_kind f) (out_list f) (if out_list f then 0 else out_tag0 f) (out_tag1 f) s
      = Some (c_stmt p t (return_stmt f))"
  using assms by (auto simp: load_elem_h_def get_return_h_def loads_def return_stmt_def convert_def num_def Let_def
      split: nbuf_Kind.splits)

lemma body_hh:
  assumes "fmt_s s = Some t" and "\<And>k. out_kind f \<noteq> Kind_other k"
  shows "load_elem_hh (out_list f) (out_tag0 f) = Some (concat (map (cpp_stmt (self_name f) t) (loads f)))"
    and "get_return_hh (out_kind f) (out_list f) (if out_list f then 0 else out_tag0 f) (out_tag1 f) s
      = Some (cpp_stmt (self_name f) t (return_stmt f))"
  using assms by (auto simp: load_elem_hh_def get_return_hh_def loads_def return_stmt_def convert_def num_def Let_def
      self_hh_def self_name_def split: nbuf_Kind.splits)

text \<open>What stands before and after the statements; \<open>decl_h\<close> is the type a C getter is declared with.\<close>

definition decl_h :: "field_out \<Rightarrow> byte list \<Rightarrow> byte list \<Rightarrow> byte list" where
  "decl_h f p t = (if out_kind f = Kind_ENUM \<or> out_kind f = Kind_PTR then p else []) @ t"

definition head_h :: "field_out \<Rightarrow> byte list \<Rightarrow> byte list \<Rightarrow> byte list \<Rightarrow> byte list" where
  "head_h f p t m =
    lit ''\<newline>static inline '' @ decl_h f p t @ lit ''\<newline>'' @
    p @ m @ lit ''_'' @ lit (out_name f) @ lit ''('' @ p @ m @ lit '' o'' @
    (if out_list f then lit '', size_t i'' else []) @ (if out_kind f = Kind_STR then lit '', size_t *lenp'' else []) @
    lit '')\<newline>{\<newline>''"

definition tail_h :: "field_out \<Rightarrow> byte list \<Rightarrow> byte list \<Rightarrow> byte list" where
  "tail_h f p m = lit ''}\<newline>'' @
    (if out_list f
     then lit ''\<newline>static inline size_t\<newline>'' @ p @ m @ lit ''_'' @ lit (out_name f) @ lit ''_size('' @ p @ m @
       lit '' o)\<newline>{\<newline>	return nbuf_get_ptr(&o.o, '' @ num (out_tag0 f) @ lit '').nelem;\<newline>}\<newline>''
     else [])"

definition head_hh :: "field_out \<Rightarrow> byte list \<Rightarrow> byte list \<Rightarrow> byte list" where
  "head_hh f t m =
    lit ''\<newline>'' @ t @ lit ''\<newline>'' @ m @ lit ''::'' @ lit (out_name f) @ lit ''('' @
    (if out_list f then lit ''size_t i'' else []) @
    (if out_kind f = Kind_STR then (if out_list f then lit '', '' else []) @ lit ''size_t *lenp'' else []) @
    lit '') const\<newline>{\<newline>''"

definition tail_hh :: "field_out \<Rightarrow> byte list \<Rightarrow> byte list" where
  "tail_hh f m = lit ''}\<newline>'' @
    (if out_list f
     then lit ''\<newline>size_t\<newline>'' @ m @ lit ''::'' @ lit (out_name f) @ lit ''_size() const\<newline>{\<newline>	nbuf_obj t = nbuf_get_ptr(this, '' @
       num (out_tag0 f) @ lit '');\<newline>	return t.nelem;\<newline>}\<newline>''
     else [])"

lemma gengetter_h_text:
  assumes "prints_field w ctx fld f p t" and "fmt_s mname = Some m"
  shows "gengetter_h w ctx fld mname = Some (head_h f p t m @ concat (map (c_stmt p t) (getter_code f)) @ tail_h f p m)"
proof -
  obtain fname s where v: "field_vars w ctx fld = Some (fname, out_kind f, out_list f, out_tag0 f, out_tag1 f, s)"
    "fmt_s fname = Some (lit (out_name f))" "fmt_s s = Some t"
    using field_vars_eq(1) [OF assms(1)] by blast
  have p: "fmt_s (h_prefix ctx) = Some p" using assms(1) by (simp add: prints_field_def)
  have "fmt_s (maybeprefix ctx (out_kind f))
      = Some (if out_kind f = Kind_ENUM \<or> out_kind f = Kind_PTR then p else [])"
    using p by (simp add: maybeprefix_def)
  moreover note b = body_h [OF p v(3) field_vars_eq(2) [OF assms(1)]]
  ultimately show ?thesis
    using v p assms(2)
    by (simp add: gengetter_h_def b head_h_def decl_h_def tail_h_def getter_code_def convert_def num_def)
qed

lemma gengetter_hh_text:
  assumes "prints_field w ctx fld f p t" and "fmt_s mname = Some m"
  shows "gengetter_hh w ctx fld mname True
    = Some (head_hh f t m @ concat (map (cpp_stmt (self_name f) t) (getter_code f)) @ tail_hh f m)"
proof -
  obtain fname s where v: "field_vars w ctx fld = Some (fname, out_kind f, out_list f, out_tag0 f, out_tag1 f, s)"
    "fmt_s fname = Some (lit (out_name f))" "fmt_s s = Some t"
    using field_vars_eq(1) [OF assms(1)] by blast
  note b = body_hh [OF v(3) field_vars_eq(2) [OF assms(1)]]
  show ?thesis
    using v assms(2)
    by (simp add: gengetter_hh_def b head_hh_def tail_hh_def getter_code_def convert_def num_def outfnhdr_def)
qed

section \<open>Statements and references\<close>

text \<open>The fields a compiled schema has.\<close>

definition sized_field :: "field_out \<Rightarrow> bool" where
  "sized_field f \<longleftrightarrow>
    (case out_kind f of
       Kind_INT \<Rightarrow> int_size (ucast (out_tag1 f))
     | Kind_UINT \<Rightarrow> int_size (ucast (out_tag1 f))
     | Kind_FLOAT \<Rightarrow> out_tag1 f = 4 \<or> out_tag1 f = 8
     | Kind_other _ \<Rightarrow> False
     | _ \<Rightarrow> True)"

lemma nelem_irrelevant [simp]:
  "obj_get_int w (ob\<lparr>nelem := n\<rparr>) off sz = obj_get_int w ob off sz"
  "nbuf_get_int b (ob\<lparr>nelem := n\<rparr>) off sz = nbuf_get_int b ob off sz"
  "nbuf_get_bit b (ob\<lparr>nelem := n\<rparr>) off = nbuf_get_bit b ob off"
  "nbuf_get_f32 b (ob\<lparr>nelem := n\<rparr>) off = nbuf_get_f32 b ob off"
  "nbuf_get_f64 b (ob\<lparr>nelem := n\<rparr>) off = nbuf_get_f64 b ob off"
  "nbuf_get_ptr w (ob\<lparr>nelem := n\<rparr>) j = nbuf_get_ptr w ob j"
  "nbuf_get_str w (ob\<lparr>nelem := n\<rparr>) j = nbuf_get_str w ob j"
proof -
  show i: "nbuf_get_int b (ob\<lparr>nelem := n\<rparr>) off sz = nbuf_get_int b ob off sz" for b off sz
    by (simp add: nbuf_get_int_def)
  show p: "nbuf_get_ptr w (ob\<lparr>nelem := n\<rparr>) j = nbuf_get_ptr w ob j" for j
    by (simp add: nbuf_get_ptr_def builder_get_ptr_def nbuf_get_ptr_plain_def nbuf_get_rel_ptr_def nbuf_ptr_offs_def
        cong: if_cong)
  show "obj_get_int w (ob\<lparr>nelem := n\<rparr>) off sz = obj_get_int w ob off sz"
    "nbuf_get_bit b (ob\<lparr>nelem := n\<rparr>) off = nbuf_get_bit b ob off"
    "nbuf_get_f32 b (ob\<lparr>nelem := n\<rparr>) off = nbuf_get_f32 b ob off"
    "nbuf_get_f64 b (ob\<lparr>nelem := n\<rparr>) off = nbuf_get_f64 b ob off"
    by (simp_all add: obj_get_int_def nbuf_get_bit_def nbuf_get_f32_def nbuf_get_f64_def i)
  show "nbuf_get_str w (ob\<lparr>nelem := n\<rparr>) j = nbuf_get_str w ob j"
    by (simp add: nbuf_get_str_def p)
qed

text \<open>The declared type of a field is one its values fit.\<close>

definition declares :: "field_out \<Rightarrow> byte list \<Rightarrow> bool" where
  "declares f ty \<longleftrightarrow>
    (case out_kind f of
       Kind_BOOL \<Rightarrow> ty = lit ''bool''
     | Kind_INT \<Rightarrow> (\<forall>v. int_result ty v = Some (int_conv (ucast (out_tag1 f)) v))
     | Kind_UINT \<Rightarrow> (\<forall>v. int_result ty v = Some (take_bit (8 * unat (out_tag1 f)) v))
     | Kind_FLOAT \<Rightarrow> ty = lit (if out_tag1 f = 4 then ''float'' else ''double'')
     | Kind_STR \<Rightarrow> ty = lit ''const char *''
     | _ \<Rightarrow> True)"

lemma int_size_tag:
  assumes "int_size (ucast (k :: uint32))"
  shows "k \<in> {1, 2, 4, 8}"
proof -
  have "unat (ucast k :: size_t) \<in> {1, 2, 4, 8}" using assms by (cases rule: int_sizeE) simp_all
  then show ?thesis by (auto simp: unat_arith_simps)
qed

lemma int_type_texts:
  "fmt_s (cstr ''int8_t'') = Some (lit ''int8_t'')" "fmt_s (cstr ''uint8_t'') = Some (lit ''uint8_t'')"
  "fmt_s (cstr ''int16_t'') = Some (lit ''int16_t'')" "fmt_s (cstr ''uint16_t'') = Some (lit ''uint16_t'')"
  "fmt_s (cstr ''int32_t'') = Some (lit ''int32_t'')" "fmt_s (cstr ''uint32_t'') = Some (lit ''uint32_t'')"
  "fmt_s (cstr ''int64_t'') = Some (lit ''int64_t'')" "fmt_s (cstr ''uint64_t'') = Some (lit ''uint64_t'')"
  by simp_all

lemma typestr_declares:
  assumes "nbuf_b2h_typestr w ctx (out_kind f) (out_tag1 f) = Some s" and "fmt_s s = Some t" and "sized_field f"
  shows "declares f t"
proof (cases "out_kind f = Kind_INT \<or> out_kind f = Kind_UINT")
  case True
  then have "out_tag1 f \<in> {1, 2, 4, 8}" using assms(3) int_size_tag [of "out_tag1 f"] by (auto simp: sized_field_def)
  then show ?thesis
    using True assms(1,2) int_type_texts
    by (auto simp: declares_def nbuf_b2h_typestr_def convert_def fmt_d_def decimal.simps int_result_def cstr_def)
next
  case False
  then show ?thesis using assms
    by (auto simp: declares_def nbuf_b2h_typestr_def sized_field_def fmt_s_cstr split: nbuf_Kind.splits if_splits)
qed

text \<open>What is declared and cast to for a field, in C and in C++.\<close>

lemma prints_declares:
  assumes "prints_field w ctx fld f p t" and "sized_field f"
  shows "declares f (decl_h f p t)" "declares f t"
    and "out_kind f = Kind_ENUM \<or> out_kind f = Kind_PTR \<Longrightarrow> decl_h f p t = p @ t"
proof -
  show "declares f t" using assms typestr_declares by (auto simp: prints_field_def)
  then show "declares f (decl_h f p t)" by (auto simp: decl_h_def declares_def split: nbuf_Kind.splits)
qed (simp add: decl_h_def)

lemma int_agrees:
  assumes "ref_kind r \<in> {Kind_INT, Kind_UINT}" and "out_kind f = ref_kind r" and "out_tag1 f = ref_tag1 r"
    and "int_size (ucast (ref_tag1 r))" and "declares f ty"
  shows "nbuf_ref_get_int w r = do {
    v \<leftarrow> obj_get_int w (ref_o r) (ucast (ref_tag0 r)) (ucast (ref_tag1 r)); int_result ty v }"
proof (cases "obj_get_int w (ref_o r) (ucast (ref_tag0 r)) (ucast (ref_tag1 r))")
  case (Some u)
  let ?sz = "ucast (ref_tag1 r) :: size_t"
  have z: "int_conv ?sz 0 = 0" by (simp add: int_conv_def)
  have c: "int_conv ?sz u = u"
    using Some z by (auto simp: obj_get_int_def nbuf_get_int_def nbuf_read_int_safe_def
        dest: read_int_fits split: bind_splits if_splits)
  have "u AND drop_bit (unat ((8 - ref_tag1 r) * 8)) (- 1) = take_bit (8 * unat ?sz) u"
    using uint_mask(2) [OF assms(4) refl, of u] c by simp
  then show ?thesis
    using Some c assms(1-3,5) uint_mask(1) [OF assms(4) refl]
    by (auto simp: nbuf_ref_get_int_def ref_is_int_def ref_size_def declares_def Let_def simp del: drop_bit_minus_one)
qed (use assms(1) in \<open>auto simp: nbuf_ref_get_int_def ref_size_def ref_is_int_def\<close>)

text \<open>A getter of an enumeration returns the number as the compiler converts it.\<close>

definition enum_result :: "(int64 \<Rightarrow> int64) \<Rightarrow> field_out \<Rightarrow> field_value \<Rightarrow> field_value" where
  "enum_result conv f v =
    (case v of V_int x \<Rightarrow> V_int (if out_kind f = Kind_ENUM then conv x else x) | _ \<Rightarrow> v)"

lemma enum_result_id: "out_kind f \<noteq> Kind_ENUM \<Longrightarrow> enum_result conv f = id"
  by (auto simp: enum_result_def split: field_value.splits)

lemma enum_result_elem: "enum_result conv f (as_element v) = as_element (enum_result conv f v)"
  by (simp add: enum_result_def as_element_def split: field_value.splits)

text \<open>A value that is not an object: the statement and the reference at the same place.\<close>

lemma scalar_agrees:
  assumes "ref_kind r = out_kind f" and "ref_tag1 r = out_tag1 f" and "sized_field f"
    and "out_kind f \<noteq> Kind_PTR" and "ob = (ref_o r)\<lparr>nelem := n\<rparr>"
    and "s = (case out_kind f of Kind_BOOL \<Rightarrow> Return_bit k | Kind_ENUM \<Rightarrow> Return_enum k
      | Kind_FLOAT \<Rightarrow> Return_float (out_tag1 f * 8) k | Kind_STR \<Rightarrow> Return_str k | _ \<Rightarrow> Return_int k (out_tag1 f))"
    and "ref_tag0 r = k"
    and ty: "declares f ty" "out_kind f = Kind_ENUM \<Longrightarrow> ca = ty"
  shows "run_getter ct w ty ca i ob [s] = map_option (enum_result (ct_enum ct) f) (ref_value (ct_widen ct) w r)"
proof (cases "out_kind f")
  case Kind_INT
  then show ?thesis using int_agrees [of r f ty w] assms
    by (simp add: ref_value_def sized_field_def enum_result_id map_option_bind option.map_id0 comp_def)
next
  case Kind_UINT
  then show ?thesis using int_agrees [of r f ty w] assms
    by (simp add: ref_value_def sized_field_def enum_result_id map_option_bind option.map_id0 comp_def)
next
  case Kind_ENUM
  then show ?thesis using assms
    by (auto simp: ref_value_def nbuf_ref_get_int_def ref_is_int_def ref_size_def enum_result_def option.map_comp comp_def)
next
  case Kind_FLOAT
  then have "out_tag1 f = 4 \<or> out_tag1 f = 8" using assms(3) by (simp add: sized_field_def)
  then show ?thesis using assms Kind_FLOAT
    by (auto simp: ref_value_def nbuf_ref_get_float_def enum_result_id option.map_id option.map_comp map_option_bind
        declares_def f32_result_def f64_result_def split: option.splits bind_splits)
qed (use assms in \<open>auto simp: ref_value_def sized_field_def nbuf_ref_get_bit_def nbuf_ref_get_str_def declares_def
       enum_result_id option.map_id map_option_bind comp_def split: option.splits\<close>)

lemma nth_elem:
  assumes "list_ref r l" and "k < unat (nelem l)"
  shows "(ref_o (nth_ref r l k))\<lparr>nelem := 1\<rparr> = nbuf_get_elem l (of_nat k)"
proof -
  have k: "k < 2 ^ 64" using assms(2) unat_u32_lt [of "nelem l"] by simp
  have "(of_nat k :: size_t) < ucast (nelem l)"
    using assms(2) unat_of_nat_64 [OF k] by (simp add: word_less_nat_alt)
  then show ?thesis
    using assms(1) of_nat_div_8 [OF k] by (auto simp: nbuf_get_elem_def nth_ref_def list_ref_def null_obj_def Let_def)
qed


lemma getter_reads:
  assumes s: "sized_field f"
    and r: "r = \<lparr>ref_o = ob, ref_kind = out_kind f, ref_list = out_list f, ref_tag0 = out_tag0 f, ref_tag1 = out_tag1 f\<rparr>"
    and l: "out_list f \<Longrightarrow> \<exists>l. nbuf_get_ptr w ob (ucast (out_tag0 f)) = Some l \<and> i < unat (nelem l) \<and>
      (out_kind f = Kind_BOOL \<longleftrightarrow> nbuf_elemsz l = 0)"
    and ty: "declares f ty" "out_kind f = Kind_ENUM \<or> out_kind f = Kind_PTR \<Longrightarrow> ca = ty"
  shows "run_getter ct w ty ca (of_nat i) ob (getter_code f)
    = map_option (enum_result (ct_enum ct) f) (read_by_ref (ct_widen ct) w r i)"
proof (cases "out_list f")
  case False
  note nl = this
  show ?thesis
  proof (cases "out_kind f = Kind_PTR")
    case True
    then show ?thesis using nl r ty(2) enum_result_id [of f "ct_enum ct"]
      by (auto simp: getter_code_def loads_def return_stmt_def read_by_ref_def nbuf_ref_get_ptr_def ref_value_def
          map_option_bind comp_def split: option.splits bind_splits)
  next
    case False
    have k: "\<And>v. out_kind f \<noteq> Kind_other v" using s by (auto simp: sized_field_def)
    have "getter_code f = [case out_kind f of Kind_BOOL \<Rightarrow> Return_bit (out_tag0 f) | Kind_ENUM \<Rightarrow> Return_enum (out_tag0 f)
      | Kind_FLOAT \<Rightarrow> Return_float (out_tag1 f * 8) (out_tag0 f) | Kind_STR \<Rightarrow> Return_str (out_tag0 f)
      | _ \<Rightarrow> Return_int (out_tag0 f) (out_tag1 f)]"
      using nl False k by (auto simp: getter_code_def loads_def return_stmt_def split: nbuf_Kind.splits)
    moreover have "ob = (ref_o r)\<lparr>nelem := nelem ob\<rparr>" using r by simp
    ultimately show ?thesis
      using scalar_agrees [OF _ _ s False, of r ob "nelem ob" _ "out_tag0 f" ty ca] r nl False ty
      by (simp add: read_by_ref_def)
  qed
next
  case True
  obtain v where v: "nbuf_get_ptr w ob (ucast (out_tag0 f)) = Some v" "i < unat (nelem v)"
    "out_kind f = Kind_BOOL \<longleftrightarrow> nbuf_elemsz v = 0" using l [OF True] by blast
  define lst where "lst = r\<lparr>ref_o := (if out_kind f = Kind_BOOL then v\<lparr>ssize := 1\<rparr> else v), ref_tag0 := 0\<rparr>"
  have lst: "nbuf_ref_get_ptr w r = Some lst" "list_ref lst v"
    using r v True by (simp_all add: nbuf_ref_get_ptr_def lst_def list_ref_def)
  define e where "e = nth_ref lst v i"
  have e: "advances i lst = Some (True, e)" "(ref_o e)\<lparr>nelem := 1\<rparr> = nbuf_get_elem v (of_nat i)"
    "ref_kind e = out_kind f" "ref_tag1 e = out_tag1 f"
    using advances_nth [OF lst(2) v(2)] nth_elem [OF lst(2) v(2)] r by (simp_all add: e_def nth_ref_def lst_def)
  have t: "ref_tag0 e = (if out_kind f = Kind_BOOL then of_nat (i mod 8) else 0)"
    using r by (simp add: e_def nth_ref_tag lst_def)
  have run: "run_getter ct w ty ca (of_nat i) ob (getter_code f)
      = run_getter ct w ty ca (of_nat i) (nbuf_get_elem v (of_nat i)) [return_stmt f]"
    using True v(1) by (simp add: getter_code_def loads_def)
  have rd: "read_by_ref (ct_widen ct) w r i = map_option as_element (ref_value (ct_widen ct) w e)"
    using True r lst(1) e(1) by (simp add: read_by_ref_def)
  have k: "\<And>v. out_kind f \<noteq> Kind_other v" using s by (auto simp: sized_field_def)
  show ?thesis
  proof (cases "out_kind f = Kind_PTR")
    case True
    then show ?thesis using run rd e \<open>out_list f\<close> ty(2)
      by (simp add: return_stmt_def ref_value_def as_element_def enum_result_def)
  next
    case False
    let ?s = "case out_kind f of Kind_BOOL \<Rightarrow> Return_bit (ref_tag0 e) | Kind_ENUM \<Rightarrow> Return_enum (ref_tag0 e)
      | Kind_FLOAT \<Rightarrow> Return_float (out_tag1 f * 8) (ref_tag0 e) | Kind_STR \<Rightarrow> Return_str (ref_tag0 e)
      | _ \<Rightarrow> Return_int (ref_tag0 e) (out_tag1 f)"
    have "map_option as_element (ref_value (ct_widen ct) w e) = ref_value (ct_widen ct) w e"
      using e(3) False k by (auto simp: ref_value_def as_element_def option.map_comp comp_def split: nbuf_Kind.splits)
    moreover have "run_getter ct w ty ca (of_nat i) (nbuf_get_elem v (of_nat i)) [?s]
        = map_option (enum_result (ct_enum ct) f) (ref_value (ct_widen ct) w e)"
      by (rule scalar_agrees [OF e(3,4) s False e(2) [symmetric] refl refl ty(1)]) (use ty(2) in simp)
    moreover have "run_getter ct w ty ca (of_nat i) ob' [return_stmt f] = run_getter ct w ty ca (of_nat i) ob' [?s]" for ob'
    proof (cases "out_kind f = Kind_BOOL")
      case True
      have "i < 2 ^ 64" using v(2) unat_u32_lt [of "nelem v"] by simp
      then have "unat ((of_nat i :: size_t) mod 8) = i mod 8" by (simp add: unat_mod unat_of_nat_64)
      moreover have "unat (ucast (of_nat (i mod 8) :: uint32) :: size_t) = i mod 8"
        by (simp add: unat_of_nat take_bit_nat_eq_self)
      ultimately have "(of_nat i :: size_t) mod 8 = ucast (of_nat (i mod 8) :: uint32)"
        by (simp only: word_unat_eq_iff)
      then show ?thesis using True \<open>out_list f\<close> t by (simp add: return_stmt_def)
    next
      case False
      then show ?thesis using \<open>out_list f\<close> \<open>out_kind f \<noteq> Kind_PTR\<close> k t
        by (auto simp: return_stmt_def split: nbuf_Kind.splits)
    qed
    ultimately show ?thesis using run rd by simp
  qed
qed

text \<open>
  The constants of a C++ \<^verbatim>\<open>enum class\<close> are of type \<^verbatim>\<open>int\<close>, which holds every value \<^verbatim>\<open>nbuf_get_int\<close> returns for 2
  bytes.
\<close>

lemma int_conv_2_4:
  assumes "int_conv 2 v = v"
  shows "int_conv 4 v = v"
proof -
  have v: "v = scast (ucast v :: 16 word)" using assms by (simp add: int_conv_def)
  have "sint (scast x :: int64) = sint x" for x :: "16 word" by (simp add: is_up sint_up_scast)
  from this [of "ucast v"] have "sint v = sint (ucast v :: 16 word)" unfolding v [symmetric] .
  then show ?thesis
    using sint_ge [of "ucast v :: 16 word"] sint_lt [of "ucast v :: 16 word"] by (intro int_conv_fits) simp_all
qed

lemma cpp_enum_result:
  assumes "ref_kind r = out_kind f"
  shows "map_option (enum_result (int_conv 4) f) (ref_value widen w r) = ref_value widen w r"
proof (cases "out_kind f = Kind_ENUM")
  case True
  have "int_conv 4 v = v" if "nbuf_ref_get_int w r = Some v" for v
    using ref_value_fits [OF that] True assms by (intro int_conv_2_4) (simp add: ref_size_def)
  then show ?thesis using True assms
    by (cases "nbuf_ref_get_int w r") (simp_all add: ref_value_def enum_result_def)
qed (simp add: enum_result_id option.map_id)

lemma advance_kind: "nbuf_ref_advance r n = Some (ok, e) \<Longrightarrow> ref_kind e = ref_kind r"
  by (auto simp: nbuf_ref_advance_def Let_def split: bind_splits if_splits)

lemma advances_kind: "advances n r = Some (ok, e) \<Longrightarrow> ref_kind e = ref_kind r"
  by (induction n arbitrary: ok e) (fastforce split: bind_splits if_splits dest: advance_kind)+

lemma cpp_enum_read:
  assumes "ref_kind r = out_kind f"
  shows "map_option (enum_result (int_conv 4) f) (read_by_ref widen w r i) = read_by_ref widen w r i"
proof -
  have "map_option (enum_result (int_conv 4) f) (map_option as_element (ref_value widen w e))
      = map_option as_element (ref_value widen w e)" if "ref_kind e = out_kind f" for e
    using cpp_enum_result [OF that, of widen w]
    by (cases "ref_value widen w e") (simp_all add: enum_result_elem)
  moreover have "ref_kind l = out_kind f" if "nbuf_ref_get_ptr w r = Some l" for l
    using that assms by (auto simp: nbuf_ref_get_ptr_def split: bind_splits)
  moreover note advances_kind
  ultimately have "map_option (enum_result (int_conv 4) f) (map_option as_element (ref_value widen w e))
      = map_option as_element (ref_value widen w e)"
    "map_option (enum_result (int_conv 4) f) (ref_value widen w l) = ref_value widen w l"
    if "nbuf_ref_get_ptr w r = Some l" "advances i l = Some (True, e)" for l e
    using that cpp_enum_result by metis+
  moreover have "map_option (enum_result (int_conv 4) f) (ref_value widen w l) = ref_value widen w l"
    if "nbuf_ref_get_ptr w r = Some l" for l
    using that cpp_enum_result assms by (auto simp: nbuf_ref_get_ptr_def split: bind_splits)
  ultimately show ?thesis
    using cpp_enum_result [OF assms]
    by (auto simp: read_by_ref_def split: Option.bind_splits)
qed

text \<open>
  Claim C9.  The generated getters are right: for a field with a valid size the C and the C++ generator
  print the same statements, each in its syntax, between the head of the function and its end, and these
  statements, executed on any object of any message in a function of the type that the head declares, give
  the value that a field reference gives for the field, for a list the value of the element with the index
  asked for, when the vector has that element and is one of bits exactly for booleans.  In C an enumeration is the number as the compiler's cast converts it; in C++, where the type
  of the constants is \<^verbatim>\<open>int\<close>, the number itself.
\<close>

theorem getters_agree_with_references:
  assumes "prints_field w ctx fld f p t" and "fmt_s mname = Some m" and "sized_field f"
    and "read_field w' fld' = Some f" and "nbuf_get_ref w' ob fld' = Some r"
    and "out_list f \<Longrightarrow> \<exists>l. nbuf_get_ptr w' ob (ucast (out_tag0 f)) = Some l \<and> i < unat (nelem l) \<and>
      (out_kind f = Kind_BOOL \<longleftrightarrow> nbuf_elemsz l = 0)"
  shows "gengetter_h w ctx fld mname = Some (head_h f p t m @ concat (map (c_stmt p t) (getter_code f)) @ tail_h f p m) \<and>
    run_getter ct w' (decl_h f p t) (p @ t) (of_nat i) ob (getter_code f)
      = map_option (enum_result (ct_enum ct) f) (read_by_ref (ct_widen ct) w' r i) \<and>
    gengetter_hh w ctx fld mname True
      = Some (head_hh f t m @ concat (map (cpp_stmt (self_name f) t) (getter_code f)) @ tail_hh f m) \<and>
    run_getter (ct\<lparr>ct_enum := int_conv 4\<rparr>) w' t t (of_nat i) ob (getter_code f) = read_by_ref (ct_widen ct) w' r i"
proof -
  have r: "r = \<lparr>ref_o = ob, ref_kind = out_kind f, ref_list = out_list f, ref_tag0 = out_tag0 f, ref_tag1 = out_tag1 f\<rparr>"
    using assms(4,5) by (auto simp: read_field_def nbuf_get_ref_def split: bind_splits)
  note d = prints_declares [OF assms(1,3)]
  note g = getter_reads [OF assms(3) r assms(6)]
  have "run_getter ct w' (decl_h f p t) (p @ t) (of_nat i) ob (getter_code f)
      = map_option (enum_result (ct_enum ct) f) (read_by_ref (ct_widen ct) w' r i)"
    by (rule g [OF _ d(1)]) (use d(3) in auto)
  moreover have "run_getter (ct\<lparr>ct_enum := int_conv 4\<rparr>) w' t t (of_nat i) ob (getter_code f)
      = read_by_ref (ct_widen ct) w' r i"
    using g [OF _ d(2), of t "ct\<lparr>ct_enum := int_conv 4\<rparr>"] cpp_enum_read [of r f "ct_widen ct" w' i] r by simp
  ultimately show ?thesis
    using gengetter_h_text [OF assms(1,2)] gengetter_hh_text [OF assms(1,2)] by blast
qed

definition demo_types :: c_types where
  "demo_types = \<lparr>ct_widen = (\<lambda>_. 0), ct_narrow = (\<lambda>_. 0), ct_enum = take_bit 32\<rparr>"

definition demo_ctx :: nbuf_b2h_ctx where
  "demo_ctx = \<lparr>h_schema = demo_schema, h_prefix = cstr '''', h_guard = cstr ''M_H''\<rparr>"

definition demo_field_out :: field_out where
  "demo_field_out = \<lparr>out_name = ''a'', out_kind = Kind_UINT, out_list = False, out_tag0 = 0, out_tag1 = 4\<rparr>"

theorem getters_agree_with_references_witness:
  "gengetter_h demo_schema_world demo_ctx demo_field (cstr ''m'') =
    Some (lit ''\<newline>static inline uint32_t\<newline>m_a(m o)\<newline>{\<newline>	return nbuf_get_int(&o.o, 0, 4);\<newline>}\<newline>'') \<and>
   run_getter demo_types demo_schema_world (lit ''uint32_t'') (lit ''uint32_t'') 0 demo_value (getter_code demo_field_out)
     = Some (V_int 7)"
proof -
  have rd: "read_field demo_schema_world demo_field = Some demo_field_out"
    by (simp add: read_field_def demo_names demo_texts demo_scalars demo_field_out_def)
  have p: "prints_field demo_schema_world demo_ctx demo_field demo_field_out [] (lit ''uint32_t'')"
    using rd fmt_s_cstr [of "''uint32_t''"] fmt_s_cstr [of "''''"]
    by (simp add: prints_field_def demo_ctx_def demo_field_out_def nbuf_b2h_typestr_def convert_def cstr_def
        fmt_d_def decimal.simps)
  have m: "fmt_s (cstr ''m'') = Some (lit ''m'')" by (rule fmt_s_cstr) simp
  have s: "sized_field demo_field_out" by (simp add: sized_field_def demo_field_out_def int_size_def)
  obtain r where r: "nbuf_get_ref demo_schema_world demo_value demo_field = Some r"
    by (simp add: nbuf_get_ref_def demo_scalars)
  have o: "run_getter demo_types demo_schema_world (lit ''uint32_t'') (lit ''uint32_t'') 0 demo_value
      (getter_code demo_field_out) = Some (V_int 7)"
    by (simp add: getter_code_def loads_def return_stmt_def demo_field_out_def obj_get_int_def nbuf_get_int_def
        demo_eval int_result_def)
  show ?thesis
    using getters_agree_with_references [OF p m s rd r, of 0 demo_types] o
    by (simp add: demo_field_out_def head_h_def decl_h_def tail_h_def getter_code_def loads_def return_stmt_def num_def
        fmt_u_def decimal.simps)
qed


end
