(* ===== verification/Typed_Fields.thy ===== *)
theory Typed_Fields
  imports Types Parse Accessors
begin

text \<open>
  Compiled schemas at run time: the fields \<^verbatim>\<open>nbufc\<close> has laid out (\<open>Layout\<close>, \<open>Types\<close>), accessed through
  field references (\<open>Ref\<close>) in any message, also one that was written with another version of the schema
  or by an adversary.
\<close>

text \<open>What a field descriptor and its reference hold of a field that \<^verbatim>\<open>outmsgs\<close> writes.\<close>

definition field_ref :: "nbuf_obj \<Rightarrow> field_out \<Rightarrow> nbuf_ref" where
  "field_ref ob f = \<lparr>ref_o = ob, ref_kind = out_kind f, ref_list = out_list f, ref_tag0 = out_tag0 f,
     ref_tag1 = out_tag1 f\<rparr>"

text \<open>The values of a type: signed ones, and enumerations, in two's complement.\<close>

definition typed_value :: "field_out \<Rightarrow> int64 \<Rightarrow> bool" where
  "typed_value f v \<longleftrightarrow>
    (if out_kind f = Kind_UINT then unat v < 2 ^ (8 * out_size f)
     else - (2 ^ (8 * out_size f - 1)) \<le> sint v \<and> sint v < 2 ^ (8 * out_size f - 1))"

text \<open>The getter of the field's kind: the object of a list or message, the value of anything else.\<close>

definition field_get :: "(uint32 \<Rightarrow> uint64) \<Rightarrow> world \<Rightarrow> nbuf_obj \<Rightarrow> field_out \<Rightarrow> field_value option" where
  "field_get widen w ob f =
    (if out_list f \<or> out_kind f = Kind_PTR then map_option (V_obj \<circ> ref_o) (nbuf_ref_get_ptr w (field_ref ob f))
     else ref_value widen w (field_ref ob f))"

text \<open>
  When it aborts: on an object without elements whose header puts the field in the object but past the
  end of the buffer, and for a string that is a vector of bits with more bits than bytes left.
\<close>

definition missing :: "nbuf_buffer \<Rightarrow> nbuf_obj \<Rightarrow> nat \<Rightarrow> nat \<Rightarrow> nat \<Rightarrow> bool" where
  "missing b r off n end \<longleftrightarrow> nelem r = 0 \<and> off + n \<le> end \<and> past_end b r off n"

definition bits_as_string :: "nbuf_buffer \<Rightarrow> nbuf_obj \<Rightarrow> size_t \<Rightarrow> bool" where
  "bits_as_string b r i \<longleftrightarrow>
    (case nbuf_get_ptr_plain b r i of
       None \<Rightarrow> False
     | Some p \<Rightarrow> nelem p \<noteq> 0 \<and> esize p = 0 \<and> past_end b p (unat (nelem p) - 1) 1)"

definition field_aborts :: "nbuf_buffer \<Rightarrow> nbuf_obj \<Rightarrow> field_out \<Rightarrow> bool" where
  "field_aborts b r f \<longleftrightarrow>
    (let t = unat (out_tag0 f);
         ptr = missing b r (unat (ssize r) + 4 * t) 4 (esize r)
     in if out_list f then ptr
        else case out_kind f of
          Kind_PTR \<Rightarrow> ptr
        | Kind_STR \<Rightarrow> ptr \<or> bits_as_string b r (ucast (out_tag0 f))
        | Kind_BOOL \<Rightarrow> missing b r (t div 8) 1 (unat (ssize r))
        | _ \<Rightarrow> missing b r t (out_size f) (unat (ssize r)))"

section \<open>Fields come from the table of types\<close>

lemma place_fields_entry:
  "place_fields lk ms ds = Some (os, ms1) \<Longrightarrow> f \<in> set os \<Longrightarrow>
    \<exists>t e. lk t = Some e \<and> out_kind f = ent_kind e \<and> out_tag1 f = field_tag1 e"
  by (induction lk ms ds arbitrary: os ms1 rule: place_fields.induct)
    (fastforce simp: Let_def split: bind_splits prod.splits)+

lemma outmsgs_entry:
  "outmsgs_from lk al ms = Some os \<Longrightarrow> m \<in> set os \<Longrightarrow> f \<in> set (mout_fields m) \<Longrightarrow>
    \<exists>t e. lk t = Some e \<and> out_kind f = ent_kind e \<and> out_tag1 f = field_tag1 e"
  by (induction lk al ms arbitrary: os rule: outmsgs_from.induct)
    (fastforce split: bind_splits dest: place_fields_entry)+

lemma unat_small_tag: "n < 2 ^ 32 \<Longrightarrow> unat (of_nat n :: uint32) = n"
  by (simp add: unat_of_nat take_bit_nat_eq_self)

lemma out_size_cases:
  assumes "ent_ok e" and "out_kind f = ent_kind e" and "out_tag1 f = field_tag1 e"
  shows "case out_kind f of
      Kind_BOOL \<Rightarrow> out_size f = 0
    | Kind_ENUM \<Rightarrow> out_size f = 2
    | Kind_INT \<Rightarrow> out_size f \<in> {1, 2, 4, 8}
    | Kind_UINT \<Rightarrow> out_size f \<in> {1, 2, 4, 8}
    | Kind_FLOAT \<Rightarrow> out_size f \<in> {4, 8}
    | Kind_other _ \<Rightarrow> False
    | _ \<Rightarrow> True"
  using assms by (auto simp: out_size_def field_tag1_def split: nbuf_Kind.splits)

section \<open>Values\<close>

lemma int_conv_range:
  assumes "int_conv sz v = v" and "int_size sz"
  shows "- (2 ^ (8 * unat sz - 1)) \<le> sint v" and "sint v < 2 ^ (8 * unat sz - 1)"
proof -
  have r: "sint (scast (x :: 'a::len word) :: int64) = sint x" if "LENGTH('a) \<le> 64" for x
    using that by (simp add: is_up sint_up_scast)
  have "- (2 ^ (8 * unat sz - 1)) \<le> sint v \<and> sint v < 2 ^ (8 * unat sz - 1)"
    using assms(2)
  proof (cases rule: int_sizeE)
    case 1
    then have "v = scast (ucast v :: 8 word)" using assms(1) by (simp add: int_conv_def)
    then have "sint v = sint (ucast v :: 8 word)" using r [of "ucast v :: 8 word"] by simp
    then show ?thesis using 1 sint_ge [of "ucast v :: 8 word"] sint_lt [of "ucast v :: 8 word"] by simp
  next
    case 2
    then have "v = scast (ucast v :: 16 word)" using assms(1) by (simp add: int_conv_def)
    then have "sint v = sint (ucast v :: 16 word)" using r [of "ucast v :: 16 word"] by simp
    then show ?thesis using 2 sint_ge [of "ucast v :: 16 word"] sint_lt [of "ucast v :: 16 word"] by simp
  next
    case 3
    then have "v = scast (ucast v :: 32 word)" using assms(1) by (simp add: int_conv_def)
    then have "sint v = sint (ucast v :: 32 word)" using r [of "ucast v :: 32 word"] by simp
    then show ?thesis using 3 sint_ge [of "ucast v :: 32 word"] sint_lt [of "ucast v :: 32 word"] by simp
  next
    case 4
    then show ?thesis using sint_ge [of v] sint_lt [of v] by simp
  qed
  then show "- (2 ^ (8 * unat sz - 1)) \<le> sint v" "sint v < 2 ^ (8 * unat sz - 1)" by simp_all
qed

lemma take_bit_range: "take_bit n (v :: int64) = v \<Longrightarrow> unat v < 2 ^ n"
  by (metis take_bit_nat_less_exp unsigned_take_bit_eq)

section \<open>Reading\<close>

lemma ref_size_field: "unat (ref_size (field_ref ob f)) = out_size f"
  by (simp add: ref_size_def field_ref_def out_size_def)

lemma scalar_offset:
  assumes "\<forall>c \<in> set (msg_cells m). cell_fits s c" and "f \<in> set (mout_fields m)" and "out_scalar f"
    and "out_size f \<in> {1, 2, 4, 8}"
  shows "int_size (ucast (ref_size (field_ref ob f)))"
    and "(ucast (out_tag0 f) :: size_t) mod ucast (ref_size (field_ref ob f)) = 0"
proof -
  have "place_cell (out_place f) \<in> set (msg_cells m)"
    using assms(2,3) by (force simp: msg_cells_def places_def)
  then have "cell_fits s (place_cell (out_place f))" using assms(1) by blast
  moreover have "place_cell (out_place f) = Int_cell (ucast (out_tag0 f)) (ucast (ref_size (field_ref ob f)))"
    using assms(4) unfolding place_cell_def out_place_def ref_size_field [of ob f, symmetric] by auto
  ultimately show "int_size (ucast (ref_size (field_ref ob f)))"
    "(ucast (out_tag0 f) :: size_t) mod ucast (ref_size (field_ref ob f)) = 0" by simp_all
qed

text \<open>When the readers of an object in a plain buffer abort.\<close>

lemma plain_reads:
  assumes "plain_buffer w a b" and "obj_at b r" and "obj_buf r = a"
  shows "int_size sz \<Longrightarrow> (ucast (t :: uint32) :: size_t) mod sz = 0 \<Longrightarrow>
      nbuf_get_int b r (ucast t) sz = None \<longleftrightarrow> missing b r (unat t) (unat sz) (unat (ssize r))"
    and "nbuf_get_bit b r (ucast t) = None \<longleftrightarrow> missing b r (unat t div 8) 1 (unat (ssize r))"
    and "nbuf_get_ptr w r (ucast t) = None \<longleftrightarrow> missing b r (unat (ssize r) + 4 * unat t) 4 (esize r)"
    and "nbuf_get_str w r (ucast t) = None \<longleftrightarrow>
      missing b r (unat (ssize r) + 4 * unat t) 4 (esize r) \<or> bits_as_string b r (ucast t)"
proof -
  have wf: "buf_wf b" and w: "bufs w (obj_buf r) = Some b" "buf_ops b \<noteq> builder_ops"
    using assms(1,3) by (auto simp: plain_buffer_def)
  show "nbuf_get_int b r (ucast t) sz = None \<longleftrightarrow> missing b r (unat t) (unat sz) (unat (ssize r))"
    if "int_size sz" "(ucast (t :: uint32) :: size_t) mod sz = 0"
    using get_int_None_iff [OF wf assms(2) that] unat_u32_lt [of t] by (simp add: missing_def)
  show "nbuf_get_bit b r (ucast t) = None \<longleftrightarrow> missing b r (unat t div 8) 1 (unat (ssize r))"
    using get_bit_None_iff [OF wf assms(2), of "ucast t"] by (simp add: missing_def Suc_le_eq)
  have p: "nbuf_get_ptr_plain b r (ucast t) = None \<longleftrightarrow> missing b r (unat (ssize r) + 4 * unat t) 4 (esize r)"
    using get_ptr_None_iff [OF wf assms(2), of "ucast t"] by (auto simp: missing_def esize_def)
  then show "nbuf_get_ptr w r (ucast t) = None \<longleftrightarrow> missing b r (unat (ssize r) + 4 * unat t) 4 (esize r)"
    using w by (simp add: nbuf_get_ptr_def)
  have g: "nbuf_get_ptr w r (ucast t) = nbuf_get_ptr_plain b r (ucast t)" using w by (simp add: nbuf_get_ptr_def)
  have "nbuf_get_str w r (ucast t) = nbuf_get_str_plain b r (ucast t)"
  proof (cases "nbuf_get_ptr_plain b r (ucast t)")
    case (Some p)
    then show ?thesis unfolding nbuf_get_str_def nbuf_get_str_plain_def g
      using w get_ptr_at(2) [OF wf Some] by simp
  qed (simp add: nbuf_get_str_def nbuf_get_str_plain_def g)
  then show "nbuf_get_str w r (ucast t) = None \<longleftrightarrow>
      missing b r (unat (ssize r) + 4 * unat t) 4 (esize r) \<or> bits_as_string b r (ucast t)"
    using p by (auto simp: get_str_None_iff [OF wf] bits_as_string_def split: option.splits)
qed

lemma ref_get_int_total:
  assumes "obj_get_int w (ref_o ref) (ucast (ref_tag0 ref)) (ucast (ref_size ref)) = Some u"
    and "ref_is_int ref" and "int_size (ucast (ref_size ref))"
  shows "\<exists>v. nbuf_ref_get_int w ref = Some v"
  using assms uint_mask(1) [OF assms(3) refl] by (simp add: nbuf_ref_get_int_def Let_def del: drop_bit_minus_one)

text \<open>
  Claim C7.  Fields of a compiled schema, read in any message: for every field of every message type the
  compiler lays out and every object that is reached in any buffer, however it was made, the getter of the
  field's kind (for a string the one that returns its characters) aborts exactly on the objects described
  by \<open>field_aborts\<close>, and an integer it returns is a value of the field's type.
\<close>

theorem compiled_fields_are_typed:
  assumes "makelookup d = Inr ts" and "outmsgs (lookup ts) (sd_msgs d) = Some os"
    and "\<forall>m \<in> set (sd_msgs d). length (msg_flds m) \<le> 4094"
    and "m \<in> set os" and "f \<in> set (mout_fields m)"
    and "plain_buffer w a b" and "reached b pos r" and "obj_buf r = a"
  shows "(field_get widen w r f = None \<longleftrightarrow> field_aborts b r f) \<and>
    (\<forall>v. field_get widen w r f = Some (V_int v) \<longrightarrow> typed_value f v)"
proof -
  have wf: "buf_wf b" and w: "bufs w a = Some b" "buf_ops b \<noteq> builder_ops"
    using assms(6) by (auto simp: plain_buffer_def)
  note rd = plain_reads [OF assms(6) reached_at [OF wf assms(7)] assms(8)]
  obtain t e where e: "lookup ts t = Some e" "out_kind f = ent_kind e" "out_tag1 f = field_tag1 e"
    using outmsgs_entry assms(2,4,5) unfolding outmsgs_def by blast
  note sz = out_size_cases [OF table_entry_ok [OF assms(1) e(1)] e(2,3)]
  show ?thesis
  proof (cases "out_list f \<or> out_kind f = Kind_PTR")
    case True
    then show ?thesis using rd(3) [of "out_tag0 f"]
      by (auto simp: field_get_def field_aborts_def nbuf_ref_get_ptr_def field_ref_def Let_def)
  next
    case False
    have safe: "\<forall>c \<in> set (msg_cells m). cell_fits (unat (mout_ssize m)) c"
      using outmsgs_safe [OF table_entry_ok [OF assms(1)] assms(2-4)] by simp
    show ?thesis
    proof (cases "out_kind f \<in> {Kind_INT, Kind_UINT, Kind_ENUM, Kind_FLOAT}")
      case True
      then have o: "out_size f \<in> {1, 2, 4, 8}" "out_scalar f"
        using sz False by (auto simp: out_scalar_def is_scalar_def)
      note off = scalar_offset [OF safe assms(5) o(2,1), of r]
      have ab: "field_aborts b r f \<longleftrightarrow> missing b r (unat (out_tag0 f)) (out_size f) (unat (ssize r))"
        using True False by (auto simp: field_aborts_def Let_def)
      have ux: "nbuf_get_int b r (ucast (out_tag0 f)) (ucast (ref_size (field_ref r f))) = None \<longleftrightarrow>
          field_aborts b r f"
        using rd(1) [OF off] ref_size_field [of r f] ab by simp
      show ?thesis
      proof (cases "out_kind f = Kind_FLOAT")
        case True
        then have "out_tag1 f = 4 \<or> out_tag1 f = 8"
          using sz by (auto simp: out_size_def unat_arith_simps)
        then show ?thesis using True False ux w assms(8)
          by (auto simp: field_get_def ref_value_def nbuf_ref_get_float_def field_ref_def ref_size_def
              nbuf_get_f32_def nbuf_get_f64_def)
      next
        case fl: False
        have g: "field_get widen w r f = map_option V_int (nbuf_ref_get_int w (field_ref r f))"
          using True False fl by (auto simp: field_get_def ref_value_def field_ref_def)
        have i: "nbuf_ref_get_int w (field_ref r f) = None \<longleftrightarrow> field_aborts b r f"
          using ref_get_int_total [OF _ _ off(1), of w] ux True fl w assms(8)
          by (cases "nbuf_get_int b r (ucast (out_tag0 f)) (ucast (ref_size (field_ref r f)))")
            (auto simp: field_ref_def ref_is_int_def nbuf_ref_get_int_def obj_get_int_def)
        have "typed_value f v" if v: "nbuf_ref_get_int w (field_ref r f) = Some v" for v
          using ref_value_fits [OF v off(1)] int_conv_range [OF _ off(1), of v] take_bit_range [of _ v]
            ref_size_field [of r f]
          by (auto simp: typed_value_def field_ref_def split: if_splits)
        then show ?thesis using g i by auto
      qed
    next
      case other: False
      have "ref_kind (field_ref r f) = out_kind f" "ref_o (field_ref r f) = r" "ref_tag0 (field_ref r f) = out_tag0 f"
        by (simp_all add: field_ref_def)
      moreover have "out_kind f = Kind_BOOL \<or> out_kind f = Kind_STR"
        using other False sz by (auto split: nbuf_Kind.splits)
      ultimately show ?thesis using False rd(2,4) [of "out_tag0 f"] w assms(8)
        by (auto simp: field_get_def field_aborts_def ref_value_def nbuf_ref_get_bit_def nbuf_ref_get_str_def Let_def)
    qed
  qed
qed

text \<open>The same schema on a message that holds its fields, and on an empty root that puts them past the end.\<close>

theorem compiled_fields_are_typed_witness:
  "\<exists>ts. makelookup mixed_schema = Inr ts \<and> outmsgs (lookup ts) (sd_msgs mixed_schema) = Some [mixed_out] \<and>
    field_get (\<lambda>_. 0) demo_print_world demo_root (hd (mout_fields mixed_out)) \<noteq> None \<and>
    field_get (\<lambda>_. 0) (put_buf \<lparr>bufs = (\<lambda>_. None), next_addr = 1\<rparr> 0 empty_buf) empty_root
      (hd (mout_fields mixed_out)) = None"
proof -
  obtain ts where ts: "makelookup mixed_schema = Inr ts" "\<And>t. t \<noteq> ''M'' \<Longrightarrow> lookup ts t = builtin_lookup t"
    using mixed_table by blast
  have o: "outmsgs (lookup ts) (sd_msgs mixed_schema) = Some [mixed_out]"
    by (simp add: mixed_schema_def schema_of_def mixed_out_def layout_eval ts(2))
  have n: "\<forall>m \<in> set (sd_msgs mixed_schema). length (msg_flds m) \<le> 4094"
    by (simp add: mixed_schema_def schema_of_def plain_msg_def)
  have f: "hd (mout_fields mixed_out) \<in> set (mout_fields mixed_out)" by (simp add: mixed_out_def)
  have p: "plain_buffer (put_buf \<lparr>bufs = (\<lambda>_. None), next_addr = 1\<rparr> 0 empty_buf) 0 empty_buf"
    using empty_wf by (simp add: plain_buffer_def put_buf_def empty_buf_def nbuf_init_read_def)
  have a: "\<not> field_aborts demo_buf demo_root (hd (mout_fields mixed_out))"
    "field_aborts empty_buf empty_root (hd (mout_fields mixed_out))"
    by (simp_all add: field_aborts_def missing_def past_end_def mixed_out_def demo_root_def empty_root_def
        empty_buf_def nbuf_init_read_def out_size_def Let_def)
  note c = compiled_fields_are_typed [OF ts(1) o n _ f]
  have "field_get (\<lambda>_. 0) demo_print_world demo_root (hd (mout_fields mixed_out)) \<noteq> None"
    using c [OF _ demo_print_plain reached_root [OF demo_init]] a(1) by (simp add: demo_root_def)
  moreover have "field_get (\<lambda>_. 0) (put_buf \<lparr>bufs = (\<lambda>_. None), next_addr = 1\<rparr> 0 empty_buf) empty_root
      (hd (mout_fields mixed_out)) = None"
    using c [OF _ p reached_root [OF empty_init]] a(2) by (simp add: empty_root_def)
  ultimately show ?thesis using ts(1) o by blast
qed

end
