(* ===== verification/Headers.thy ===== *)
theory Headers
  imports Accessors
begin

text \<open>
  When the header generators return: for every readable schema without a package, and for none with one,
  whose include guard does not fit the block allocated for it.
\<close>

section \<open>The include guard\<close>

text \<open>
  With a package name of length \<open>n\<close> the guard takes \<open>n + 3\<close> characters, the suffix and a NUL, but
  \<^verbatim>\<open>malloc\<close> is asked for one byte less.
\<close>

lemma guard_overflows:
  assumes "nbuf_Schema_pkgName w sch = Some (p, n)" and "n \<noteq> 0"
  shows "nbuf_b2h_makeprefix al w sch srcname ps gs = None"
proof -
  have "store g3 (unat n + 3) (cstr gs) = None"
    if "malloc_block al (unat n + length gs + 3) = Some g" "store g 0 a = Some g1" "store g1 (unat n) b = Some g3" for g g1 g3 a b
  proof -
    have "length g = unat n + length gs + 3" using that(1) by (auto simp: malloc_block_def split: if_splits)
    then have "length g3 = unat n + length gs + 3"
      using that(2,3) by (auto simp: store_def splice_at_def split: if_splits)
    then show ?thesis by (simp add: store_def cstr_def)
  qed
  then show ?thesis using assms by (auto simp: nbuf_b2h_makeprefix_def split: bind_splits option.splits)
qed

lemma guard_fits:
  assumes "nbuf_Schema_pkgName w sch = Some (p, 0)" and "all_granted al" and "fmt_s srcname = Some src"
  shows "nbuf_b2h_makeprefix al w sch srcname ps gs = Some \<lparr>h_schema = sch, h_prefix = cstr '''',
    h_guard = map (\<lambda>ch. toupper (ident_byte ch)) src @ cstr gs\<rparr>"
proof -
  have c: "c_strlen srcname = Some (length src)"
    using assms(3) by (auto simp: fmt_s_def c_strlen_def c_string_def split: bind_splits if_splits)
  have t: "length src \<le> length srcname" "take (length src) srcname = src"
    using fmt_s_prefix [OF assms(3)] by simp_all
  let ?up = "map (\<lambda>ch. toupper (ident_byte ch)) src"
  let ?g = "map (junk al) [0..<length src + length gs + 1]"
  obtain g1 where "store ?g 0 ?up = Some g1" "store g1 (length src) (cstr gs) = Some (?up @ cstr gs)"
    using store_two [of ?g ?up "cstr gs"] by (auto simp: cstr_def split: bind_splits)
  then show ?thesis
    using assms(1,2) c t
    by (simp add: nbuf_b2h_makeprefix_def malloc_block_def all_granted_def store_all cstr_def read_chars_def
        del: upt_Suc)
qed

section \<open>The parts of a header\<close>

lemma outs_None: "outs ts \<noteq> None \<longleftrightarrow> (\<forall>t \<in> set ts. t \<noteq> None)"
  by (induction ts) (auto split: bind_splits)

lemma out_each_None: "out_each f xs \<noteq> None \<longleftrightarrow> (\<forall>x \<in> set xs. f x \<noteq> None)"
  by (induction xs) (auto split: bind_splits)

lemma outs_ex: "(\<exists>y. outs ts = Some y) \<longleftrightarrow> (\<forall>t \<in> set ts. \<exists>y. t = Some y)"
  using outs_None [of ts] by simp

lemma out_each_ex: "(\<exists>y. out_each f xs = Some y) \<longleftrightarrow> (\<forall>x \<in> set xs. \<exists>y. f x = Some y)"
  using out_each_None [of f xs] by simp

lemma bind_ex: "(\<exists>y. Option.bind x f = Some y) \<longleftrightarrow> (\<exists>z. x = Some z \<and> (\<exists>y. f z = Some y))"
  by (cases x) simp_all

lemmas returns = outs_ex out_each_ex bind_ex

text \<open>A context whose strings end.\<close>

definition ctx_ok :: "nbuf_b2h_ctx \<Rightarrow> bool" where
  "ctx_ok ctx \<longleftrightarrow> fmt_s (h_prefix ctx) \<noteq> None \<and> fmt_s (h_guard ctx) \<noteq> None \<and> h_prefix ctx \<noteq> []"

lemma known_prints:
  assumes "read_schema w (h_schema ctx) = Some v" and "known_field v f" and "read_field w fld = Some f" and "ctx_ok ctx"
  shows "\<exists>p t. prints_field w ctx fld f p t"
proof -
  obtain ne nm :: size_t where t:
    "collect (\<lambda>i. do { e \<leftarrow> nbuf_Schema_enumTypes w (h_schema ctx) (of_nat i); read_enum w e }) [0..<unat ne] = Some (sv_enums v)"
    "collect (\<lambda>i. do { m \<leftarrow> nbuf_Schema_msgTypes w (h_schema ctx) (of_nat i); read_msg w m }) [0..<unat nm] = Some (sv_msgs v)"
    using assms(1) by (rule read_tablesE)
  have num: "fmt_s (lit s @ fmt_d k @ lit u @ [0]) \<noteq> None" for s k u
    by (simp add: fmt_s_def c_strlen_def)
  have "\<exists>s t. nbuf_b2h_typestr w ctx (out_kind f) (out_tag1 f) = Some s \<and> fmt_s s = Some t"
  proof (cases "out_kind f")
    case Kind_ENUM
    then have "do { e \<leftarrow> nbuf_Schema_enumTypes w (h_schema ctx) (ucast (out_tag1 f)); read_enum w e }
        = Some (sv_enums v ! unat (out_tag1 f))"
      using collect_table [OF t(1)] assms(2) by (simp add: known_field_def)
    then show ?thesis using Kind_ENUM
      by (auto simp: nbuf_b2h_typestr_def dest!: read_names split: bind_splits)
  next
    case Kind_PTR
    then have "do { m \<leftarrow> nbuf_Schema_msgTypes w (h_schema ctx) (ucast (out_tag1 f)); read_msg w m }
        = Some (sv_msgs v ! unat (out_tag1 f))"
      using collect_table [OF t(2)] assms(2) by (simp add: known_field_def)
    then show ?thesis using Kind_PTR
      by (auto simp: nbuf_b2h_typestr_def dest!: read_names split: bind_splits)
  qed (use assms(2) num [of "''int''" _ "''_t''"] num [of "''uint''" _ "''_t''"] in
      \<open>auto simp: nbuf_b2h_typestr_def known_field_def convert_def\<close>)
  then show ?thesis using assms(3,4) by (auto simp: prints_field_def ctx_ok_def)
qed

lemma known_size:
  assumes "read_schema w sch = Some v" and "known_field v f"
  shows "nbuf_get_size_of w sch (out_kind f) (out_tag1 f) \<noteq> None"
proof -
  obtain ne nm :: size_t where t:
    "collect (\<lambda>i. do { m \<leftarrow> nbuf_Schema_msgTypes w sch (of_nat i); read_msg w m }) [0..<unat nm] = Some (sv_msgs v)"
    using assms(1) by (rule read_tablesE)
  show ?thesis
  proof (cases "out_kind f = Kind_PTR")
    case True
    then have "do { m \<leftarrow> nbuf_Schema_msgTypes w sch (ucast (out_tag1 f)); read_msg w m }
        = Some (sv_msgs v ! unat (out_tag1 f))"
      using collect_table [OF t] assms(2) by (simp add: known_field_def)
    then show ?thesis using True by (auto simp: nbuf_get_size_of_def read_msg_def split: bind_splits)
  qed (use assms(2) in \<open>auto simp: nbuf_get_size_of_def known_field_def split: nbuf_Kind.splits\<close>)
qed

lemma gen_h_ok:
  assumes "prints_field w ctx fld f p t" and "fmt_s mname = Some m"
    and "nbuf_get_size_of w (h_schema ctx) (out_kind f) (out_tag1 f) \<noteq> None"
  shows "gengetter_h w ctx fld mname \<noteq> None" "gensetter_h w ctx fld mname \<noteq> None"
    "geniniter_h w ctx fld mname \<noteq> None" "genhasfld_h w ctx fld mname \<noteq> None"
proof -
  show "gengetter_h w ctx fld mname \<noteq> None" using gengetter_h_text [OF assms(1,2)] by simp
  obtain fname s where v: "field_vars w ctx fld = Some (fname, out_kind f, out_list f, out_tag0 f, out_tag1 f, s)"
    "fmt_s fname = Some (lit (out_name f))" "fmt_s s = Some t"
    using field_vars_eq(1) [OF assms(1)] by blast
  have p: "fmt_s (h_prefix ctx) = Some p" using assms(1) by (simp add: prints_field_def)
  have mp: "fmt_s (maybeprefix ctx (out_kind f))
      = Some (if out_kind f = Kind_ENUM \<or> out_kind f = Kind_PTR then p else [])"
    using p by (simp add: maybeprefix_def)
  note k = field_vars_eq(2) [OF assms(1)]
  have pr: "put_return_h (out_kind f) l a b \<noteq> None" if "out_kind f \<noteq> Kind_PTR" for l a b
    using k that by (auto simp: put_return_h_def convert_def split: nbuf_Kind.splits)
  show "gensetter_h w ctx fld mname \<noteq> None"
  proof (cases "out_kind f = Kind_PTR")
    case False
    obtain r where r: "put_return_h (out_kind f) (out_list f) (if out_list f then 0 else out_tag0 f) (out_tag1 f) = Some r"
      using pr [OF False] by blast
    have "\<exists>t. load_elem_h (out_list f) (out_tag0 f) = Some t" by (simp add: load_elem_h_def convert_def)
    then obtain e where e: "load_elem_h (out_list f) (out_tag0 f) = Some e" by blast
    show ?thesis
      using v p mp assms(2) r e False by (simp add: gensetter_h_def convert_def)
  qed (use v in \<open>simp add: gensetter_h_def\<close>)
  show "geniniter_h w ctx fld mname \<noteq> None"
    using v p assms(2,3) by (auto simp: geniniter_h_def convert_def)
  show "genhasfld_h w ctx fld mname \<noteq> None"
    using v p assms(1,2) by (auto simp: genhasfld_h_def convert_def prints_field_def read_field_def text_of_Some split: bind_splits)
qed

lemma field_vars_reads:
  assumes "field_vars w ctx fld = Some (fname, k, l, t0, t1, s)"
  shows "\<exists>n. nbuf_FieldDesc_name w fld = Some (fname, n)" "nbuf_FieldDesc_kind w fld = Some k"
    "nbuf_FieldDesc_list w fld = Some l" "nbuf_FieldDesc_tag0 w fld = Some t0"
  using assms by (auto simp: field_vars_def split: bind_splits)

lemma fnhdr_ok:
  assumes "fmt_s typ \<noteq> None" and "fmt_s mname \<noteq> None" and "fmt_s fname \<noteq> None" and "0 \<notin> set (lit prefix)"
  shows "\<exists>t. outfnhdr typ mname prefix fname defn = Some t"
  using assms by (auto simp: outfnhdr_def convert_def)

lemma gen_hh_ok:
  assumes "prints_field w ctx fld f p t" and "fmt_s mname = Some m"
    and "nbuf_get_size_of w (h_schema ctx) (out_kind f) (out_tag1 f) \<noteq> None"
  shows "gengetter_hh w ctx fld mname defn \<noteq> None" "gensetter_hh w ctx fld mname defn \<noteq> None"
    "geniniter_hh w ctx fld mname defn \<noteq> None" "genhasfld_hh w ctx fld mname defn \<noteq> None"
proof -
  obtain fname s where v: "field_vars w ctx fld = Some (fname, out_kind f, out_list f, out_tag0 f, out_tag1 f, s)"
    "fmt_s fname = Some (lit (out_name f))" "fmt_s s = Some t"
    using field_vars_eq(1) [OF assms(1)] by blast
  note k = field_vars_eq(2) [OF assms(1)]
  have "fmt_s (cstr ''void'') = Some (lit ''void'')" "fmt_s (cstr ''bool'') = Some (lit ''bool'')"
    by (rule fmt_s_cstr; simp)+
  then have h: "\<exists>x. outfnhdr s mname '''' fname defn = Some x" "\<exists>x. outfnhdr (cstr ''void'') mname ''set_'' fname defn = Some x"
    "\<exists>x. outfnhdr (if out_list f then cstr ''void'' else s) mname ''init_'' fname defn = Some x"
    "\<exists>x. outfnhdr (cstr ''bool'') mname ''has_'' fname defn = Some x"
    using v(2,3) assms(2) by (intro fnhdr_ok; simp)+
  obtain h1 h2 h3 h4 where hd: "outfnhdr s mname '''' fname defn = Some h1"
    "outfnhdr (cstr ''void'') mname ''set_'' fname defn = Some h2"
    "outfnhdr (if out_list f then cstr ''void'' else s) mname ''init_'' fname defn = Some h3"
    "outfnhdr (cstr ''bool'') mname ''has_'' fname defn = Some h4"
    using h by blast
  note b = body_hh [OF v(3) k]
  show "gengetter_hh w ctx fld mname defn \<noteq> None"
    using v assms(2) hd(1) gengetter_hh_text [OF assms(1,2)]
    by (cases defn) (simp_all add: gengetter_hh_def convert_def)
  show "gensetter_hh w ctx fld mname defn \<noteq> None"
  proof (cases "out_kind f = Kind_PTR")
    case False
    have le: "\<exists>e. load_elem_hh l a = Some e" for l a by (simp add: load_elem_hh_def convert_def)
    have "\<exists>r. put_return_hh q l a c = Some r" if "q \<noteq> Kind_PTR" "\<And>x. q \<noteq> Kind_other x" for q l a c
      using that by (auto simp: put_return_hh_def convert_def self_hh_def split: nbuf_Kind.splits)
    then have pr: "\<exists>r. put_return_hh (out_kind f) l a c = Some r" "\<exists>r. put_return_hh Kind_STR l a c = Some r" for l a c
      using k False by simp_all
    obtain e0 e1 where e: "load_elem_hh True (out_tag0 f) = Some e0" "load_elem_hh False (out_tag0 f) = Some e1"
      using le by meson
    obtain r0 r1 r2 r3 where r: "put_return_hh (out_kind f) True 0 (out_tag1 f) = Some r0"
      "put_return_hh (out_kind f) False (out_tag0 f) (out_tag1 f) = Some r1"
      "put_return_hh Kind_STR True 0 (out_tag1 f) = Some r2"
      "put_return_hh Kind_STR False (out_tag0 f) (out_tag1 f) = Some r3"
      using pr by meson
    show ?thesis using v hd(2) e r False by (simp add: gensetter_hh_def convert_def)
  qed (use v in \<open>simp add: gensetter_hh_def\<close>)
  show "geniniter_hh w ctx fld mname defn \<noteq> None"
    using v assms(3) hd(3) by (auto simp: geniniter_hh_def convert_def)
  show "genhasfld_hh w ctx fld mname defn \<noteq> None"
    using v hd(4) field_vars_reads [OF v(1)] by (auto simp: genhasfld_hh_def convert_def)
qed

section \<open>Whole headers\<close>

lemma collect_each:
  assumes "collect rd xs = Some vs" and "x \<in> set xs"
  shows "\<exists>v \<in> set vs. rd x = Some v"
  using assms by (induction xs arbitrary: vs) (auto split: bind_splits)

text \<open>What the parts of a header rely on, taken from a schema that was read.\<close>

lemma enum_read:
  assumes "read_schema w sch = Some v" and "nbuf_Schema_enumTypes_size w sch = Some n" and "i < unat n"
  shows "\<exists>e s k name. nbuf_Schema_enumTypes w sch (of_nat i) = Some e \<and> nbuf_EnumType_name w e = Some (s, k) \<and>
    fmt_s s = Some name \<and> (\<exists>x. read_enum w e = Some x)"
proof -
  have "collect (\<lambda>i. do { e \<leftarrow> nbuf_Schema_enumTypes w sch (of_nat i); read_enum w e }) [0..<unat n] = Some (sv_enums v)"
    using assms(1,2) by (elim read_schemaE) simp
  from collect_each [OF this, of i] assms(3) obtain e x where
    "nbuf_Schema_enumTypes w sch (of_nat i) = Some e" "read_enum w e = Some x" by (auto split: bind_splits)
  then show ?thesis using read_names(1) by blast
qed

lemma msg_read:
  assumes "read_schema w sch = Some v" and "nbuf_Schema_msgTypes_size w sch = Some n" and "i < unat n"
  shows "\<exists>m s k name x. nbuf_Schema_msgTypes w sch (of_nat i) = Some m \<and> nbuf_MsgType_name w m = Some (s, k) \<and>
    fmt_s s = Some name \<and> read_msg w m = Some x \<and> x \<in> set (sv_msgs v)"
proof -
  have "collect (\<lambda>i. do { m \<leftarrow> nbuf_Schema_msgTypes w sch (of_nat i); read_msg w m }) [0..<unat n] = Some (sv_msgs v)"
    using assms(1,2) by (elim read_schemaE) simp
  from collect_each [OF this, of i] assms(3) obtain m x where
    "nbuf_Schema_msgTypes w sch (of_nat i) = Some m" "read_msg w m = Some x" "x \<in> set (sv_msgs v)"
    by (auto split: bind_splits)
  then show ?thesis using read_names(2) by blast
qed

lemma value_read:
  assumes "read_enum w e = Some x" and "nbuf_EnumType_values_size w e = Some n" and "j < unat n"
  shows "\<exists>d s k name v. nbuf_EnumType_values w e (of_nat j) = Some d \<and> nbuf_EnumDesc_name w d = Some (s, k) \<and>
    fmt_s s = Some name \<and> nbuf_EnumDesc_value w d = Some v"
proof -
  have "collect (\<lambda>i. do { d \<leftarrow> nbuf_EnumType_values w e (of_nat i); name \<leftarrow> text_of (nbuf_EnumDesc_name w d);
       v \<leftarrow> nbuf_EnumDesc_value w d; Some \<lparr>ed_name = name, ed_val = v\<rparr> }) [0..<unat n] = Some (et_vals x)"
    using assms(1,2) by (auto simp: read_enum_def split: bind_splits)
  from collect_each [OF this, of j] assms(3) show ?thesis by (auto simp: text_of_Some split: bind_splits)
qed

lemma field_read:
  assumes "read_msg w m = Some x" and "nbuf_MsgType_fields_size w m = Some n" and "j < unat n"
  shows "\<exists>fld f. nbuf_MsgType_fields w m (of_nat j) = Some fld \<and> read_field w fld = Some f \<and> f \<in> set (mout_fields x)"
proof -
  have "collect (\<lambda>i. do { fld \<leftarrow> nbuf_MsgType_fields w m (of_nat i); read_field w fld }) [0..<unat n] = Some (mout_fields x)"
    using assms(1,2) by (auto simp: read_msg_def split: bind_splits)
  from collect_each [OF this, of j] assms(3) show ?thesis by (auto split: bind_splits)
qed

lemma msg_sizes:
  assumes "read_msg w m = Some x"
  shows "\<exists>n. nbuf_MsgType_fields_size w m = Some n" "\<exists>a. nbuf_MsgType_ssize w m = Some a" "\<exists>a. nbuf_MsgType_psize w m = Some a"
  using assms by (auto simp: read_msg_def split: bind_splits)

lemma enum_sizes: "read_enum w e = Some x \<Longrightarrow> \<exists>n. nbuf_EnumType_values_size w e = Some n"
  by (auto simp: read_enum_def split: bind_splits)

lemma enums_ok:
  assumes v: "read_schema w (h_schema ctx) = Some v" and c: "ctx_ok ctx"
  shows "genenums_h w ctx \<noteq> None" "genenums_hh w ctx \<noteq> None"
proof -
  obtain n where n: "nbuf_Schema_enumTypes_size w (h_schema ctx) = Some n" using v by (elim read_schemaE) blast
  obtain p where p: "fmt_s (h_prefix ctx) = Some p" using c by (auto simp: ctx_ok_def)
  have e: "\<exists>e. nbuf_Schema_enumTypes w (h_schema ctx) (of_nat i) = Some e \<and> genenum_h w ctx e \<noteq> None \<and>
      genenum_hh w e \<noteq> None" if i: "i < unat n" for i
  proof -
    obtain e s k name x where e: "nbuf_Schema_enumTypes w (h_schema ctx) (of_nat i) = Some e"
      "nbuf_EnumType_name w e = Some (s, k)" "fmt_s s = Some name" "read_enum w e = Some x"
      using enum_read [OF v n i] by blast
    obtain m where m: "nbuf_EnumType_values_size w e = Some m" using enum_sizes [OF e(4)] by blast
    have "out_each (genvalue_h w ctx e s) [0..<unat m] \<noteq> None" "out_each (genvalue_hh w e) [0..<unat m] \<noteq> None"
      unfolding out_each_None using value_read [OF e(4) m] p e(3)
      by (fastforce simp: convert_def genvalue_h_def genvalue_hh_def)+
    then show ?thesis using e p m by (auto simp: convert_def genenum_h_def genenum_hh_def)
  qed
  have "out_each (\<lambda>i. do { e \<leftarrow> nbuf_Schema_enumTypes w (h_schema ctx) (of_nat i); genenum_h w ctx e }) [0..<unat n] \<noteq> None"
    "out_each (\<lambda>i. do { e \<leftarrow> nbuf_Schema_enumTypes w (h_schema ctx) (of_nat i); genenum_hh w e }) [0..<unat n] \<noteq> None"
    unfolding out_each_None using e by fastforce+
  then show "genenums_h w ctx \<noteq> None" "genenums_hh w ctx \<noteq> None"
    by (simp_all add: genenums_h_def genenums_hh_def n)
qed

lemma accessors_ok:
  assumes v: "read_schema w (h_schema ctx) = Some v" "known_fields v" and c: "ctx_ok ctx"
    and m: "read_msg w msg = Some x" "x \<in> set (sv_msgs v)" and s: "nbuf_MsgType_name w msg = Some (s, k)" "fmt_s s = Some name"
  shows "genaccessors_h w ctx msg \<noteq> None" "genmethods_hh w ctx msg s defn \<noteq> None"
proof -
  obtain n where n: "nbuf_MsgType_fields_size w msg = Some n" using msg_sizes(1) [OF m(1)] by blast
  have f: "\<exists>fld. nbuf_MsgType_fields w msg (of_nat j) = Some fld \<and>
      (\<exists>t. outs [gengetter_h w ctx fld s, gensetter_h w ctx fld s, geniniter_h w ctx fld s, genhasfld_h w ctx fld s] = Some t) \<and>
      (\<exists>t. outs [gengetter_hh w ctx fld s defn, gensetter_hh w ctx fld s defn, geniniter_hh w ctx fld s defn,
        genhasfld_hh w ctx fld s defn] = Some t)" if "j < unat n" for j
  proof -
    obtain fld f where fld: "nbuf_MsgType_fields w msg (of_nat j) = Some fld" "read_field w fld = Some f"
      "f \<in> set (mout_fields x)" using field_read [OF m(1) n \<open>j < unat n\<close>] by blast
    have k: "known_field v f" using fld(3) m(2) v(2) by (auto simp: known_fields_def)
    obtain p t where p: "prints_field w ctx fld f p t" using known_prints [OF v(1) k fld(2) c] by blast
    have "outs [gengetter_h w ctx fld s, gensetter_h w ctx fld s, geniniter_h w ctx fld s, genhasfld_h w ctx fld s] \<noteq> None"
      unfolding outs_None using gen_h_ok [OF p s(2) known_size [OF v(1) k]] by simp
    moreover have "outs [gengetter_hh w ctx fld s defn, gensetter_hh w ctx fld s defn, geniniter_hh w ctx fld s defn,
        genhasfld_hh w ctx fld s defn] \<noteq> None"
      unfolding outs_None using gen_hh_ok [OF p s(2) known_size [OF v(1) k]] by simp
    ultimately show ?thesis using fld(1) by (simp del: outs_simps)
  qed
  show "genaccessors_h w ctx msg \<noteq> None"
    using n s(1) f by (fastforce simp: genaccessors_h_def returns simp del: outs_simps)
  show "genmethods_hh w ctx msg s defn \<noteq> None"
    using n f by (fastforce simp: genmethods_hh_def returns simp del: outs_simps)
qed

lemma msgs_ok:
  assumes v: "read_schema w (h_schema ctx) = Some v" "known_fields v" and c: "ctx_ok ctx"
  shows "genmsgs_h w ctx \<noteq> None" "genmsgs_hh w ctx \<noteq> None"
proof -
  obtain n where n: "nbuf_Schema_msgTypes_size w (h_schema ctx) = Some n" using v(1) by (elim read_schemaE) blast
  obtain p where p: "fmt_s (h_prefix ctx) = Some p" using c by (auto simp: ctx_ok_def)
  have m: "\<exists>m s k name. nbuf_Schema_msgTypes w (h_schema ctx) (of_nat i) = Some m \<and> nbuf_MsgType_name w m = Some (s, k) \<and>
      fmt_s s = Some name \<and> gentype_h w ctx m \<noteq> None \<and> genaccessors_h w ctx m \<noteq> None \<and> genclass_hh w ctx m \<noteq> None \<and>
      genmethods_hh w ctx m s True \<noteq> None" if "i < unat n" for i
  proof -
    obtain m s k name x where r: "nbuf_Schema_msgTypes w (h_schema ctx) (of_nat i) = Some m"
      "nbuf_MsgType_name w m = Some (s, k)" "fmt_s s = Some name" "read_msg w m = Some x" "x \<in> set (sv_msgs v)"
      using msg_read [OF v(1) n \<open>i < unat n\<close>] by blast
    obtain ss ps where z: "nbuf_MsgType_ssize w m = Some ss" "nbuf_MsgType_psize w m = Some ps"
      using msg_sizes [OF r(4)] by blast
    note acc = accessors_ok [OF v c r(4,5,2,3)]
    obtain t where t: "genmethods_hh w ctx m s False = Some t" using acc(2) by blast
    have "gentype_h w ctx m \<noteq> None" using r z p by (simp add: gentype_h_def convert_def)
    moreover have "genclass_hh w ctx m \<noteq> None" using r z t by (simp add: genclass_hh_def convert_def)
    ultimately show ?thesis using r acc by blast
  qed
  show "genmsgs_h w ctx \<noteq> None"
    using m n by (fastforce simp: genmsgs_h_def returns simp del: outs_simps)
  show "genmsgs_hh w ctx \<noteq> None"
    using m n by (fastforce simp: genmsgs_hh_def returns convert_def simp del: outs_simps)
qed

lemma frame_ok:
  assumes v: "read_schema w (h_schema ctx) = Some v" and c: "ctx_ok ctx" and s: "fmt_s srcname = Some src"
  shows "outhdr_h ctx srcname \<noteq> None" "outftr_h w ctx \<noteq> None" "outhdr_hh ctx srcname \<noteq> None" "outftr_hh w ctx \<noteq> None"
proof -
  obtain ne nm where n: "nbuf_Schema_enumTypes_size w (h_schema ctx) = Some ne"
    "nbuf_Schema_msgTypes_size w (h_schema ctx) = Some nm" using v by (elim read_schemaE) blast
  obtain p g where p: "fmt_s (h_prefix ctx) = Some p" "fmt_s (h_guard ctx) = Some g" using c by (auto simp: ctx_ok_def)
  obtain b where b: "has_prefix ctx = Some b" using c by (cases "h_prefix ctx") (auto simp: ctx_ok_def has_prefix_def)
  show "outhdr_h ctx srcname \<noteq> None" using p s by (simp add: outhdr_h_def convert_def)
  show "outhdr_hh ctx srcname \<noteq> None" using p s b by (simp add: outhdr_hh_def convert_def)
  show "outftr_h w ctx \<noteq> None"
    using p n enum_read [OF v n(1)] msg_read [OF v n(2)]
    by (fastforce simp: outftr_h_def returns convert_def simp del: outs_simps)
  show "outftr_hh w ctx \<noteq> None"
    using p b n enum_read [OF v n(1)] msg_read [OF v n(2)]
    by (fastforce simp: outftr_hh_def returns convert_def simp del: outs_simps)
qed


text \<open>
  Claim C13.  The header generators return exactly for schemas without a package: every schema that can be
  read, with known field types and no package name, gives a C and a C++ header; with a package name both
  store the end of the include guard outside its block.
\<close>

theorem headers_need_no_package:
  assumes "nbuf_get_Schema w a = Some sch" and "read_schema w sch = Some v" and "known_fields v"
    and "all_granted al" and "fmt_s srcname = Some src"
  shows "(nbuf_b2h al w a srcname \<noteq> None \<longleftrightarrow> sv_pkgName v = []) \<and>
    (nbuf_b2hh al w a srcname \<noteq> None \<longleftrightarrow> sv_pkgName v = [])"
proof -
  obtain p n where p: "nbuf_Schema_pkgName w sch = Some (p, n)" "unat n = length (sv_pkgName v)"
    using assms(2) by (elim read_schemaE) blast
  show ?thesis
  proof (cases "sv_pkgName v = []")
    case True
    then have "n = 0" using p(2) by (simp add: unat_eq_0)
    then have pkg: "nbuf_Schema_pkgName w sch = Some (p, 0)" using p(1) by simp
    let ?ctx = "\<lambda>gs. \<lparr>h_schema = sch, h_prefix = cstr '''', h_guard = map (\<lambda>ch. toupper (ident_byte ch)) src @ cstr gs\<rparr>"
    have z: "fmt_s (x @ cstr gs) \<noteq> None" for x gs by (simp add: fmt_s_def c_strlen_def cstr_def)
    have c: "ctx_ok (?ctx gs)" for gs
      using z [of "[]" "''''"] z [of _ gs] by (simp add: ctx_ok_def cstr_def)
    have v: "read_schema w (h_schema (?ctx gs)) = Some v" for gs using assms(2) by simp
    note ok = enums_ok [OF v c] msgs_ok [OF v assms(3) c] frame_ok [OF v c assms(5)]
    have "nbuf_b2h al w a srcname \<noteq> None"
      using ok [of "''_H''"] assms(1) guard_fits [OF pkg assms(4,5), of "''_''" "''_H''"]
      by (simp add: nbuf_b2h_def returns del: outs_simps)
    moreover have "nbuf_b2hh al w a srcname \<noteq> None"
      using ok [of "''_HPP''"] assms(1) guard_fits [OF pkg assms(4,5), of "''''" "''_HPP''"]
      by (simp add: nbuf_b2hh_def returns del: outs_simps)
    ultimately show ?thesis using True by simp
  next
    case False
    then have "n \<noteq> 0" using p(2) by auto
    then show ?thesis using False assms(1) guard_overflows [OF p(1)]
      by (simp add: nbuf_b2h_def nbuf_b2hh_def)
  qed
qed

theorem headers_need_no_package_witness:
  "nbuf_b2h roomy demo_schema_world 2 (cstr ''m.nbs'') \<noteq> None \<and>
   nbuf_b2hh roomy demo_schema_world 2 (cstr ''m.nbs'') \<noteq> None"
proof -
  have g: "nbuf_get_Schema demo_schema_world 2 = Some demo_schema" by (simp add: nbuf_get_Schema_def demo_eval)
  have k: "known_fields demo_view" by (simp add: demo_view_def known_fields_def known_field_def)
  have src: "fmt_s (cstr ''m.nbs'') = Some (lit ''m.nbs'')" by (rule fmt_s_cstr) simp
  from headers_need_no_package [OF g demo_read k roomy_all src] show ?thesis by (simp add: demo_view_def)
qed

section \<open>What the headers get wrong\<close>

text \<open>
  The getter of an enumeration returns the 16 bits sign extended: a constant of at least 32768, which the
  header declares as such, is returned as another number.
\<close>

lemma enum_getter_sign_extends:
  assumes "out_kind f = Kind_ENUM" and "\<not> out_list f" and "w_writable ob w"
    and "cell_fits (unat (ssize ob)) (Int_cell (ucast (out_tag0 f)) 2)" and "32768 \<le> unat (x :: uint16)"
    and "ct_enum ct = id \<or> ct_enum ct = take_bit 32"
  shows "\<exists>w'. obj_put_int w ob (ucast (out_tag0 f)) 2 (ucast x) = Some w' \<and>
    run_getter ct w' ty ty 0 ob (getter_code f) = Some (V_int (ct_enum ct (scast x))) \<and>
    ct_enum ct (scast x) \<noteq> ucast x"
proof -
  obtain w' where w': "obj_put_int w ob (ucast (out_tag0 f)) 2 (ucast x) = Some w'"
    "obj_get_int w' ob (ucast (out_tag0 f)) 2 = Some (int_conv 2 (ucast x))"
    using obj_int_read_back [OF assms(3,4)] by blast
  have u: "(ucast (ucast x :: 64 word) :: uint16) = x"
    by (rule bit_word_eqI) (auto simp: bit_simps dest: bit_imp_le_length)
  have "int_conv 2 (ucast x) = scast x" by (simp add: int_conv_def u)
  moreover have "ct_enum ct (scast x) \<noteq> (ucast x :: int64)"
  proof
    assume "ct_enum ct (scast x) = (ucast x :: int64)"
    then have "bit (ct_enum ct (scast x) :: int64) 20 = bit (ucast x :: int64) 20" by simp
    then have "\<not> bit x 15" using bit_imp_le_length [of x 20] assms(6) by (auto simp: bit_simps)
    moreover have "bit x 15 \<longleftrightarrow> odd (unat x div 32768)"
      by (simp add: bit_iff_odd flip: unat_drop_bit_eq drop_bit_eq_div even_of_nat_iff) (simp add: unat_div word_arith_nat_div)
    moreover have "unat x div 32768 = 1" using assms(5) unat_u16_lt [of x] by auto
    ultimately show False by simp
  qed
  ultimately show ?thesis using w' assms(1,2)
    by (intro exI [of _ w']) (simp add: getter_code_def loads_def return_stmt_def)
qed

text \<open>
  Without a package the C++ header declares \<^verbatim>\<open>_refl_schema\<close>, while the C data defines
  \<^verbatim>\<open>refl_schema\<close>.
\<close>

lemma outs_holds: "outs xs = Some t \<Longrightarrow> Some s \<in> set xs \<Longrightarrow> \<exists>a b. t = a @ s @ b"
proof (induction xs arbitrary: t)
  case (Cons x xs)
  obtain y u where y: "x = Some y" "outs xs = Some u" "t = y @ u" using Cons.prems(1) by (auto split: bind_splits)
  show ?case
  proof (cases "x = Some s")
    case True
    then show ?thesis using y by (intro exI [of _ "[]"] exI [of _ u]) auto
  next
    case False
    then obtain a b where "u = a @ s @ b" using Cons.IH [OF y(2)] Cons.prems(2) by auto
    then show ?thesis using y(3) by (intro exI [of _ "y @ a"] exI [of _ b]) auto
  qed
qed simp

lemma cpp_names_differ:
  assumes "h_prefix ctx = cstr ''''" and "c_prefix c = cstr ''''"
    and "outftr_hh w ctx = Some t" and "outftr_c c = Some u"
  shows "\<exists>a b. t = a @ lit ''\<newline>extern nbuf_Schema _refl_schema;\<newline>'' @ b"
    and "\<exists>b. u = lit ''\<newline>nbuf_Schema refl_schema = '' @ b"
proof -
  have e: "fmt_s (cstr '''') = Some []" using fmt_s_cstr [of "''''"] by simp
  have l: "printf ''\<newline>extern nbuf_Schema %s_refl_schema;\<newline>'' [Str (h_prefix ctx)]
      = Some (lit ''\<newline>extern nbuf_Schema _refl_schema;\<newline>'')"
    using e assms(1) by (simp add: convert_def)
  obtain xs where "outs xs = Some t"
      "printf ''\<newline>extern nbuf_Schema %s_refl_schema;\<newline>'' [Str (h_prefix ctx)] \<in> set xs"
    using assms(3) unfolding outftr_hh_def by (auto simp del: printf.simps outs_simps split: bind_splits)
  from outs_holds [OF this [unfolded l]]
  show "\<exists>a b. t = a @ lit ''\<newline>extern nbuf_Schema _refl_schema;\<newline>'' @ b" by blast
  show "\<exists>b. u = lit ''\<newline>nbuf_Schema refl_schema = '' @ b"
    using assms(2,4) e by (auto simp: outftr_c_def convert_def Let_def)
qed


end
