(* ===== verification/Regions.thy ===== *)
theory Regions
  imports Printf
begin

text \<open>
  Writing a message step by step into one buffer without \<^verbatim>\<open>ops\<close>, with what each step writes and what
  can be read afterwards.  \<open>writes_to a b W R k P f\<close>: on buffer \<open>b\<close> at address \<open>a\<close>, \<open>f\<close> changes the bytes
  in \<open>W\<close> at most, appends \<open>k\<close> bytes, and leaves a buffer in which \<open>P\<close> holds as long as the bytes in \<open>R\<close>
  stay.  Steps that write elsewhere keep \<open>P\<close>; so steps compose, and a loop over the elements of a
  vector fills all of them.
\<close>

section \<open>Agreement on a region\<close>

definition agrees :: "nat set \<Rightarrow> nbuf_buffer \<Rightarrow> nbuf_buffer \<Rightarrow> bool" where
  "agrees R b b' \<longleftrightarrow> buf_wwf b' \<and> buf_ops b' = NULL_ops \<and> unat (buf_len b) \<le> unat (buf_len b') \<and>
    (\<forall>p \<in> R. p < unat (buf_len b) \<longrightarrow> buf_base b' ! p = buf_base b ! p)"

definition holds :: "nat \<Rightarrow> nat set \<Rightarrow> nbuf_buffer \<Rightarrow> (world \<Rightarrow> bool) \<Rightarrow> bool" where
  "holds a R b P \<longleftrightarrow> (\<forall>w b'. bufs w a = Some b' \<longrightarrow> agrees R b b' \<longrightarrow> P w)"

lemma agrees_refl: "buf_wwf b \<Longrightarrow> buf_ops b = NULL_ops \<Longrightarrow> agrees R b b"
  by (simp add: agrees_def)

lemma agrees_trans: "agrees R b c \<Longrightarrow> agrees R c d \<Longrightarrow> agrees R b d"
  by (auto simp: agrees_def)

lemma agrees_weaken: "agrees R b b' \<Longrightarrow> (\<And>p. p \<in> R' \<Longrightarrow> p < unat (buf_len b) \<Longrightarrow> p \<in> R) \<Longrightarrow> agrees R' b b'"
  by (auto simp: agrees_def)

lemma agrees_len: "agrees R b b' \<Longrightarrow> unat (buf_len b) \<le> unat (buf_len b')"
  by (simp add: agrees_def)

lemma agrees_ok: "agrees R b b' \<Longrightarrow> buf_wwf b' \<and> buf_wf b' \<and> buf_ops b' = NULL_ops"
  by (simp add: agrees_def buf_wwf_wf)

lemma agrees_seg:
  assumes "agrees R b b'" and "buf_wf b" and "{p..<p + n} \<subseteq> R" and "p + n \<le> unat (buf_len b)"
  shows "seg p n (buf_base b') = seg p n (buf_base b)"
proof -
  have l: "p + n \<le> length (buf_base b)" using assms(2,4) by (simp add: buf_wf_def)
  have l': "p + n \<le> length (buf_base b')"
    using assms(1,4) agrees_ok [OF assms(1)] by (simp add: agrees_def buf_wf_def)
  show ?thesis
    using assms l l' by (intro nth_equalityI) (auto simp: nth_slice agrees_def subset_iff)
qed

lemma agrees_extends: "extends b b' \<Longrightarrow> buf_wf b \<Longrightarrow> buf_ops b = NULL_ops \<Longrightarrow> agrees R b b'"
proof -
  assume e: "extends b b'" "buf_wf b" "buf_ops b = NULL_ops"
  have "buf_base b' ! p = buf_base b ! p" if "p < unat (buf_len b)" for p
    using e that by (intro nth_eq_if_take_eq [of "unat (buf_len b)"]) (simp_all add: extends_def)
  then show ?thesis using e by (simp add: agrees_def extends_def word_le_nat_alt)
qed

lemma agrees_splice:
  assumes "buf_wwf b" and "buf_ops b = NULL_ops" and "p + length ys \<le> unat (buf_len b)"
  shows "agrees (- {p..<p + length ys}) b (b\<lparr>buf_base := splice_at p ys (buf_base b)\<rparr>)"
proof -
  have l: "unat (buf_len b) \<le> length (buf_base b)" using buf_wwf_wf [OF assms(1)] by (simp add: buf_wf_def)
  have "splice_at p ys (buf_base b) ! q = buf_base b ! q" if "q \<notin> {p..<p + length ys}" "q < unat (buf_len b)" for q
    using that assms(3) l by (subst nth_splice_at) auto
  then show ?thesis using assms l by (auto simp: agrees_def buf_wwf_def)
qed

lemma holds_keep: "holds a R b P \<Longrightarrow> agrees S b b' \<Longrightarrow> (\<And>p. p \<in> R \<Longrightarrow> p < unat (buf_len b) \<Longrightarrow> p \<in> S) \<Longrightarrow> holds a R b' P"
  unfolding holds_def by (meson agrees_trans agrees_weaken)

lemma holds_mono: "holds a R b P \<Longrightarrow> R \<subseteq> R' \<Longrightarrow> (\<And>w. P w \<Longrightarrow> Q w) \<Longrightarrow> holds a R' b Q"
  unfolding holds_def by (meson agrees_weaken subsetD)

lemma holds_conj: "holds a R b P \<Longrightarrow> holds a S b Q \<Longrightarrow> holds a (R \<union> S) b (\<lambda>w. P w \<and> Q w)"
  unfolding holds_def by (meson UnCI agrees_weaken)

lemma holds_now: "holds a R b P \<Longrightarrow> bufs w a = Some b \<Longrightarrow> buf_wwf b \<Longrightarrow> buf_ops b = NULL_ops \<Longrightarrow> P w"
  unfolding holds_def by (blast intro: agrees_refl)

section \<open>Steps\<close>

definition writes_to ::
    "nat \<Rightarrow> nbuf_buffer \<Rightarrow> nat set \<Rightarrow> nat set \<Rightarrow> nat \<Rightarrow> (world \<Rightarrow> bool) \<Rightarrow> (world \<Rightarrow> world option) \<Rightarrow> bool" where
  "writes_to a b W R k P f \<longleftrightarrow>
    (\<forall>w. bufs w a = Some b \<longrightarrow> (\<exists>b'. f w = Some (put_buf w a b') \<and> agrees (- W) b b' \<and>
      unat (buf_len b') = unat (buf_len b) + k \<and> holds a R b' P))"

lemma put_buf_simps [simp]: "bufs (put_buf w a b) a = Some b" "put_buf (put_buf w a b) a b' = put_buf w a b'"
  by (simp_all add: put_buf_def)

lemma writes_weaken:
  assumes "writes_to a b W R k P f" and "\<And>p. p \<in> W \<Longrightarrow> p < unat (buf_len b) \<Longrightarrow> p \<in> W'" and "R \<subseteq> R'"
    and "\<And>w. P w \<Longrightarrow> Q w"
  shows "writes_to a b W' R' k Q f"
  unfolding writes_to_def
proof (intro allI impI)
  fix w :: world assume "bufs w a = Some b"
  then obtain b' where "f w = Some (put_buf w a b')" "agrees (- W) b b'"
    "unat (buf_len b') = unat (buf_len b) + k" "holds a R b' P"
    using assms(1) unfolding writes_to_def by blast
  moreover from this have "agrees (- W') b b'" using assms(2) by (blast intro: agrees_weaken)
  moreover have "holds a R' b' Q" using \<open>holds a R b' P\<close> assms(3,4) by (rule holds_mono)
  ultimately show "\<exists>b'. f w = Some (put_buf w a b') \<and> agrees (- W') b b' \<and>
      unat (buf_len b') = unat (buf_len b) + k \<and> holds a R' b' Q" by blast
qed

lemma writes_then:
  assumes "writes_to a b W R k P f"
    and "\<And>b'. agrees (- W) b b' \<Longrightarrow> unat (buf_len b') = unat (buf_len b) + k \<Longrightarrow> holds a R b' P \<Longrightarrow>
      writes_to a b' W' R' k' Q g"
    and "W' \<inter> R = {}"
  shows "writes_to a b (W \<union> W') (R \<union> R') (k + k') (\<lambda>w. P w \<and> Q w) (\<lambda>w. f w \<bind> g)"
  unfolding writes_to_def
proof (intro allI impI)
  fix w :: world assume "bufs w a = Some b"
  then obtain b' where b': "f w = Some (put_buf w a b')" "agrees (- W) b b'"
    "unat (buf_len b') = unat (buf_len b) + k" "holds a R b' P"
    using assms(1) unfolding writes_to_def by blast
  then obtain b'' where b'': "g (put_buf w a b') = Some (put_buf w a b'')" "agrees (- W') b' b''"
    "unat (buf_len b'') = unat (buf_len b') + k'" "holds a R' b'' Q"
    using assms(2) [OF b'(2-4)] unfolding writes_to_def by (metis put_buf_simps)
  have "agrees (- (W \<union> W')) b b''"
    by (rule agrees_trans [of _ _ b']) (use b'(2) b''(2) in \<open>auto elim: agrees_weaken\<close>)
  moreover have "holds a R b'' P" using b'(4) b''(2) assms(3) by (auto intro: holds_keep)
  ultimately show "\<exists>b'. f w \<bind> g = Some (put_buf w a b') \<and> agrees (- (W \<union> W')) b b' \<and>
      unat (buf_len b') = unat (buf_len b) + (k + k') \<and> holds a (R \<union> R') b' (\<lambda>w. P w \<and> Q w)"
    using b'(1,3) b''(1,3,4) holds_conj by (intro exI [of _ b'']) auto
qed

text \<open>A step that first reads.\<close>

lemma writes_read:
  assumes "\<And>w. bufs w a = Some b \<Longrightarrow> get w = Some x" and "writes_to a b W R k P (g x)"
  shows "writes_to a b W R k P (\<lambda>w. get w \<bind> (\<lambda>x. g x w))"
  using assms unfolding writes_to_def by simp

lemma put_buf_known: "bufs w a = Some b \<Longrightarrow> put_buf w a b = w"
  by (simp add: put_buf_def fun_upd_idem)

lemma writes_nothing:
  assumes "holds a R b P" and "buf_wwf b" and "buf_ops b = NULL_ops"
  shows "writes_to a b {} R 0 P Some"
  using assms unfolding writes_to_def
  by (intro allI impI exI [of _ b]) (simp add: put_buf_known agrees_refl)

section \<open>Loops\<close>

text \<open>\<open>f\<close> on the elements of a list and their indices, from \<open>i\<close> on.\<close>

fun each_from :: "(nat \<Rightarrow> 'x \<Rightarrow> world \<Rightarrow> world option) \<Rightarrow> nat \<Rightarrow> 'x list \<Rightarrow> world \<Rightarrow> world option" where
  "each_from f i [] w = Some w"
| "each_from f i (x # xs) w = f i x w \<bind> each_from f (Suc i) xs"

text \<open>
  A buffer in the middle of the work, with at least \<open>N\<close> bytes; \<open>ready\<close>: what is read through the bytes
  in \<open>R\<close> is known.
\<close>

definition growing :: "nat \<Rightarrow> nbuf_buffer \<Rightarrow> bool" where
  "growing N b \<longleftrightarrow> buf_wwf b \<and> buf_ops b = NULL_ops \<and> N \<le> unat (buf_len b) \<and> 8 dvd unat (buf_len b)"

definition ready :: "nat \<Rightarrow> nat \<Rightarrow> nat set \<Rightarrow> (world \<Rightarrow> bool) \<Rightarrow> nbuf_buffer \<Rightarrow> bool" where
  "ready a N R P b \<longleftrightarrow> growing N b \<and> holds a R b P"

lemma growing_later:
  assumes "growing N b" and "agrees S b b'" and "unat (buf_len b') = unat (buf_len b) + k" and "8 dvd k"
    and "M \<le> unat (buf_len b) + k"
  shows "growing M b'"
  using assms agrees_ok [OF assms(2)] by (auto simp: growing_def)

lemma ready_later:
  assumes "ready a N R P b" and "agrees S b b'" and "unat (buf_len b') = unat (buf_len b) + k" and "8 dvd k"
    and "R \<subseteq> S"
  shows "ready a N R P b'"
  using assms agrees_ok [OF assms(2)] by (auto simp: ready_def growing_def intro: holds_keep)

lemma writes_each:
  assumes step: "\<And>i x b. ready a N R P b \<Longrightarrow> i < n \<Longrightarrow> x \<in> X \<Longrightarrow> unat (buf_len b) + k x \<le> L \<Longrightarrow>
      writes_to a b (S i) (S i \<union> {unat (buf_len b)..<unat (buf_len b) + k x}) (k x) (Q i x) (f i x)"
    and eight: "\<And>x. x \<in> X \<Longrightarrow> 8 dvd k x"
    and apart: "\<And>i j. i < n \<Longrightarrow> j < n \<Longrightarrow> i \<noteq> j \<Longrightarrow> S i \<inter> S j = {}" "\<And>i. i < n \<Longrightarrow> S i \<inter> R = {}"
    and inside: "\<And>i. i < n \<Longrightarrow> S i \<subseteq> {..<N}"
  shows "ready a N R P b \<Longrightarrow> set xs \<subseteq> X \<Longrightarrow> i + length xs \<le> n \<Longrightarrow>
    unat (buf_len b) + sum_list (map k xs) \<le> L \<Longrightarrow>
    writes_to a b (\<Union>j \<in> {i..<i + length xs}. S j)
      ((\<Union>j \<in> {i..<i + length xs}. S j) \<union> {unat (buf_len b)..<unat (buf_len b) + sum_list (map k xs)})
      (sum_list (map k xs)) (\<lambda>w. \<forall>j < length xs. Q (i + j) (xs ! j) w) (each_from f i xs)"
proof (induction xs arbitrary: i b)
  case Nil
  then show ?case
    by (simp add: writes_to_def put_buf_known agrees_refl ready_def growing_def holds_def exI [of _ b])
next
  case (Cons x xs)
  let ?l = "unat (buf_len b)" and ?U = "\<Union>j \<in> {Suc i..<Suc i + length xs}. S j"
  have 1: "writes_to a b (S i) (S i \<union> {?l..<?l + k x}) (k x) (Q i x) (f i x)"
    using Cons.prems by (intro step) auto
  have 2: "writes_to a b' ?U (?U \<union> {?l + k x..<?l + k x + sum_list (map k xs)}) (sum_list (map k xs))
      (\<lambda>w. \<forall>j < length xs. Q (Suc i + j) (xs ! j) w) (each_from f (Suc i) xs)"
    if "agrees (- S i) b b'" "unat (buf_len b') = ?l + k x" for b'
  proof -
    have "8 dvd k x" "R \<subseteq> - S i" using eight [of x] apart(2) [of i] Cons.prems by auto
    from ready_later [OF Cons.prems(1) that this] show ?thesis
      using Cons.IH [of b' "Suc i"] Cons.prems that(2) by simp
  qed
  have "p \<notin> S i \<union> {?l..<?l + k x}" if "p \<in> S j" "j \<in> {Suc i..<Suc i + length xs}" for p j
  proof -
    have j: "j < n" "i < n" "j \<noteq> i" using that(2) Cons.prems(3) by auto
    have "p \<notin> S i" using apart(1) [OF j] that(1) by blast
    moreover have "p < ?l" using inside [OF j(1)] that(1) Cons.prems(1) by (auto simp: ready_def growing_def)
    ultimately show ?thesis by simp
  qed
  then have "?U \<inter> (S i \<union> {?l..<?l + k x}) = {}" by blast
  from writes_then [OF 1 2 this]
  have "writes_to a b (S i \<union> ?U) (S i \<union> {?l..<?l + k x} \<union> (?U \<union> {?l + k x..<?l + k x + sum_list (map k xs)}))
      (k x + sum_list (map k xs)) (\<lambda>w. Q i x w \<and> (\<forall>j < length xs. Q (Suc i + j) (xs ! j) w))
      (\<lambda>w. f i x w \<bind> each_from f (Suc i) xs)" .
  moreover have range: "{i..<i + length (x # xs)} = insert i {Suc i..<Suc i + length xs}" by auto
  have "(\<Union>j \<in> {i..<i + length (x # xs)}. S j) = S i \<union> ?U"
    using range by (metis UN_insert)
  ultimately have "writes_to a b (\<Union>j \<in> {i..<i + length (x # xs)}. S j)
      ((\<Union>j \<in> {i..<i + length (x # xs)}. S j) \<union> {?l..<?l + sum_list (map k (x # xs))})
      (sum_list (map k (x # xs))) (\<lambda>w. \<forall>j < length (x # xs). Q (i + j) ((x # xs) ! j) w)
      (\<lambda>w. f i x w \<bind> each_from f (Suc i) xs)"
    by (auto elim!: writes_weaken simp: less_Suc_eq_0_disj)
  then show ?case by simp
qed

section \<open>Elements, fields and pointers\<close>

text \<open>The bytes of element \<open>i\<close> of a vector.\<close>

definition slots :: "nbuf_obj \<Rightarrow> nat \<Rightarrow> nat set" where
  "slots v i = {unat (obj_base v) + i * esize v..<unat (obj_base v) + Suc i * esize v}"

lemma slots_apart:
  assumes "i \<noteq> j"
  shows "slots v i \<inter> slots v j = {}"
proof -
  have "Suc i * esize v \<le> j * esize v \<or> Suc j * esize v \<le> i * esize v"
    using assms by (metis Suc_leI linorder_neqE_nat mult_le_mono1)
  then show ?thesis by (auto simp: slots_def)
qed

lemma slots_inside: "i < n \<Longrightarrow> slots v i \<subseteq> {..<unat (obj_base v) + n * esize v}"
proof -
  assume "i < n"
  then have "Suc i * esize v \<le> n * esize v" by (intro mult_le_mono1) simp
  then show ?thesis unfolding slots_def by (intro subsetI) (simp only: atLeastLessThan_iff lessThan_iff; linarith)
qed

lemma elem_facts:
  assumes "buf_wf b" and "in_bounds b v" and "i < unat (nelem v)" and "esize v \<noteq> 0"
  defines "e \<equiv> nbuf_get_elem v (of_nat i)"
  shows "obj_buf e = obj_buf v" and "unat (obj_base e) = unat (obj_base v) + i * esize v"
    and "ssize e = ssize v" and "psize e = psize v" and "obj_safe b e"
    and "{unat (obj_base e)..<unat (obj_base e) + esize e} = slots v i"
proof -
  have i: "unat (of_nat i :: size_t) = i"
    using assms(3) unat_u32_lt [of "nelem v"] by (intro unat_of_nat_64) simp
  note o = unat_elem_offs [OF assms(4), of "of_nat i", unfolded i, OF assms(3)]
  have b: "unat (obj_base v) + obj_bytes v \<le> unat (buf_len b)" using assms(2) by (simp add: in_bounds_def)
  show f: "obj_buf e = obj_buf v" "ssize e = ssize v" "psize e = psize v"
    using assms(3,4) i by (simp_all add: e_def get_elem_unfold)
  show u: "unat (obj_base e) = unat (obj_base v) + i * esize v"
    using assms(3,4) i o unat_base_add [OF assms(1) b, of "of_nat i * nbuf_elemsz v"]
    by (simp add: e_def get_elem_unfold)
  show "obj_safe b e"
    unfolding e_def using assms(1,2) by (intro get_elem_safe) (simp_all add: obj_ok_def)
  have "esize e = esize v" using f by (simp add: esize_def)
  then show "{unat (obj_base e)..<unat (obj_base e) + esize e} = slots v i" using u by (simp add: slots_def algebra_simps)
qed

definition cell_bytes :: "nbuf_obj \<Rightarrow> cell \<Rightarrow> nat set" where
  "cell_bytes e c = {cell_pos e c..<cell_pos e c + cell_len c}"

lemma obj_safe_later: "obj_safe b r \<Longrightarrow> agrees R b b' \<Longrightarrow> obj_safe b' r"
  by (auto simp: agrees_def obj_safe_def in_bounds_def)

lemma writes_cell:
  assumes "buf_wwf b" and "buf_ops b = NULL_ops" and "obj_buf e = a" and "obj_safe b e"
    and "cell_fits (unat (ssize e)) c"
  shows "writes_to a b (cell_bytes e c) (cell_bytes e c) 0 (\<lambda>w. w_get_cell e w c = Some (cell_norm c v))
    (\<lambda>w. w_put_cell e w c v)"
proof -
  have w: "writable_obj e b" using assms(1,4) by (simp add: writable_obj_def)
  define ys where "ys = cell_write c (seg (cell_pos e c) (cell_len c) (buf_base b)) v"
  define b' where "b' = b\<lparr>buf_base := splice_at (cell_pos e c) ys (buf_base b)\<rparr>"
  have put: "put_cell e b c v = Some b'" using put_cell_eq [OF w assms(5)] by (simp add: b'_def ys_def)
  note k = put_cell_keeps [OF w assms(5) put]
  have ag: "agrees (- cell_bytes e c) b b'"
    unfolding b'_def cell_bytes_def
    using agrees_splice [OF assms(1,2), of "cell_pos e c" ys] cell_in_bounds(1) [OF w assms(5)]
    by (simp add: ys_def)
  have get: "get_cell e b' c = Some (cell_norm c v)"
    using msg.get_same [OF w assms(5) put] .
  have "holds a (cell_bytes e c) b' (\<lambda>w. w_get_cell e w c = Some (cell_norm c v))"
    unfolding holds_def
  proof (intro allI impI)
    fix w :: world and b''
    assume b'': "bufs w a = Some b''" "agrees (cell_bytes e c) b' b''"
    have w': "writable_obj e b''"
      using agrees_ok [OF b''(2)] obj_safe_later [OF _ b''(2)] k(1) by (simp add: writable_obj_def)
    have "seg (cell_pos e c) (cell_len c) (buf_base b'') = seg (cell_pos e c) (cell_len c) (buf_base b')"
      using agrees_seg [OF b''(2)] agrees_ok [OF ag] cell_in_bounds(1) [OF k(1) assms(5)]
      by (simp add: cell_bytes_def)
    then have "get_cell e b'' c = get_cell e b' c"
      by (simp add: get_cell_eq [OF w' assms(5)] get_cell_eq [OF k(1) assms(5)])
    then show "w_get_cell e w c = Some (cell_norm c v)" using b''(1) assms(3) get by (simp add: w_get_cell_def)
  qed
  then show ?thesis
    using put ag k(2) assms(3) by (auto simp: writes_to_def w_put_cell_def)
qed

definition slot :: "nbuf_obj \<Rightarrow> size_t \<Rightarrow> nat set" where
  "slot r i = {ptr_pos r i..<ptr_pos r i + 4}"

definition header :: "nbuf_obj \<Rightarrow> nat set" where
  "header v = {unat (obj_base v) - 8..<unat (obj_base v)}"

lemma stored_later:
  assumes "stored b v" and "agrees (header v) b b'" and "buf_wf b"
  shows "stored b' v"
proof -
  let ?h = "unat (obj_base v) - 8"
  have h: "8 \<le> unat (obj_base v)" "unat (obj_base v) \<le> unat (buf_len b)" using assms(1) by (simp_all add: stored_def)
  have "seg p n (buf_base b') = seg p n (buf_base b)" if "?h \<le> p" "p + n \<le> ?h + 8" for p n
    using that h by (intro agrees_seg [OF assms(2,3)]) (auto simp: header_def)
  then have "wire_header (buf_base b') ?h = wire_header (buf_base b) ?h" by (simp add: wire_header_def)
  then show ?thesis using assms(1) agrees_len [OF assms(2)] by (auto simp: stored_def in_bounds_def)
qed

lemma holds_ptr:
  assumes "buf_wwf b" and "obj_safe b r" and "obj_buf r = a" and "pointable r i v" and "stored b v"
    and s: "seg (ptr_pos r i) 4 (buf_base b) = le_enc 4 ((unat (obj_base v) - 8 - ptr_pos r i) div 4)"
  shows "holds a (slot r i \<union> header v) b (\<lambda>w. nbuf_get_ptr w r i = Some v)"
  unfolding holds_def
proof (intro allI impI)
  fix w :: world and b'
  assume b': "bufs w a = Some b'" and ag: "agrees (slot r i \<union> header v) b b'"
  have wf: "buf_wf b" "buf_wf b'" using buf_wwf_wf [OF assms(1)] agrees_ok [OF ag] by simp_all
  define h where "h = unat (obj_base v) - 8"
  define d where "d = h - ptr_pos r i"
  have d: "ptr_pos r i < h" "d mod 4 = 0" "d < 2 ^ 33" "unat i < unat (psize r)" "obj_buf r = obj_buf v"
    "h = ptr_pos r i + d" "0 < d"
    using assms(4) by (auto simp: pointable_def d_def h_def)
  have safe: "obj_safe b' r" by (rule obj_safe_later [OF assms(2) ag])
  have st: "stored b' v" by (rule stored_later [OF assms(5) _ wf(1)]) (use ag in \<open>auto elim: agrees_weaken\<close>)
  have i: "i < ucast (psize r)" using d(4) by (simp add: word_less_nat_alt)
  have "seg (ptr_pos r i) 4 (buf_base b') = seg (ptr_pos r i) 4 (buf_base b)"
    using ptr_position(2) [OF wf(1) assms(2) i] by (intro agrees_seg [OF ag wf(1)]) (auto simp: slot_def ptr_pos_def)
  then have v: "d div 4 = le_val (seg (ptr_pos r i) 4 (buf_base b'))"
    using d(3) unfolding s h_def [symmetric] d_def [symmetric] by (simp add: le_val_enc del: le_enc.simps)
  have "4 \<le> d" "4 * (d div 4) = d" using d(2,7) by presburger+
  then have e: "ptr_pos r i + 4 * (d div 4) = h" "d div 4 \<noteq> 0" using d(6) by simp_all
  have b: "8 \<le> unat (obj_base v)" "unat (obj_base v) \<le> unat (buf_len b')" using st by (simp_all add: stored_def)
  then have "of_nat h = obj_base v - 8" unfolding h_def by (simp add: word_unat_eq_iff unat_of_nat)
  moreover have "h < unat (buf_len b')" using b by (simp add: h_def)
  moreover have "d div 4 < 2 ^ 31" using d(3) by simp
  ultimately have "nbuf_get_ptr_plain b' r i = Some v"
    using get_ptr_eq [OF wf(2) safe, of "d div 4" i, folded ptr_pos_def, OF v] d(4,5) e
      stored_opens [OF wf(2) st] by (simp add: Let_def del: of_nat_add of_nat_mult)
  then show "nbuf_get_ptr w r i = Some v"
    using b' assms(3) agrees_ok [OF ag] by (simp add: nbuf_get_ptr_def)
qed

text \<open>A pointer that is still zero.\<close>

lemma holds_null:
  assumes "buf_wwf b" and "obj_safe b r" and "obj_buf r = a" and "unat i < unat (psize r)"
    and s: "\<And>p. p \<in> slot r i \<Longrightarrow> buf_base b ! p = 0"
  shows "holds a (slot r i) b (\<lambda>w. nbuf_get_ptr w r i = Some (null_obj a))"
  unfolding holds_def
proof (intro allI impI)
  fix w :: world and b'
  assume b': "bufs w a = Some b'" and ag: "agrees (slot r i) b b'"
  have wf: "buf_wf b" "buf_wf b'" using buf_wwf_wf [OF assms(1)] agrees_ok [OF ag] by simp_all
  have i: "i < ucast (psize r)" using assms(4) by (simp add: word_less_nat_alt)
  note le = ptr_position(2) [OF wf(1) assms(2) i, folded ptr_pos_def]
  have "seg (ptr_pos r i) 4 (buf_base b') = seg (ptr_pos r i) 4 (buf_base b)"
    using le by (intro agrees_seg [OF ag wf(1)]) (auto simp: slot_def ptr_pos_def)
  also have "\<dots> = replicate 4 0"
    using le wf(1) s by (intro nth_equalityI) (auto simp: nth_slice slot_def ptr_pos_def buf_wf_def)
  finally have "0 = le_val (seg (ptr_pos r i) 4 (buf_base b'))" by (simp add: eval_nat_numeral)
  from get_ptr_eq [OF wf(2) obj_safe_later [OF assms(2) ag], folded ptr_pos_def, OF this]
  show "nbuf_get_ptr w r i = Some (null_obj a)"
    using b' assms(3) agrees_ok [OF ag] by (simp add: nbuf_get_ptr_def Let_def)
qed

text \<open>Where the first object of a buffer is, is where it opens.\<close>

lemma holds_opens:
  assumes "buf_wwf b" and "stored b v" and "obj_buf v = a"
  shows "holds a (header v) b (\<lambda>w. \<exists>b'. bufs w a = Some b' \<and> nbuf_obj_init b' (null_obj a) (obj_base v - 8) = Some v)"
  unfolding holds_def
proof (intro allI impI)
  fix w :: world and b'
  assume b': "bufs w a = Some b'" and ag: "agrees (header v) b b'"
  have "stored b' v" using stored_later [OF assms(2) ag] buf_wwf_wf [OF assms(1)] by simp
  then have "nbuf_obj_init b' (null_obj a) (obj_base v - 8) = Some v"
    using stored_opens [of b' v] agrees_ok [OF ag] assms(3) by simp
  then show "\<exists>b'. bufs w a = Some b' \<and> nbuf_obj_init b' (null_obj a) (obj_base v - 8) = Some v"
    using b' by blast
qed

section \<open>Appending objects\<close>

text \<open>The bytes that an object with \<open>n\<close> bytes of elements takes.\<close>

definition room :: "nat \<Rightarrow> nat" where
  "room n = (8 + n + 7) div 8 * 8"

lemma room_facts: "8 dvd room n" "8 + n \<le> room n"
  by (simp_all add: room_def)

declare room_facts(1) [simp]

lemma room_after: "8 dvd l \<Longrightarrow> (l + 8 + n + 7) div 8 * 8 = l + room n"
proof -
  assume "8 dvd l"
  then obtain k where "l = 8 * k" by blast
  moreover have "(8 * k + 8 + n + 7) div 8 = k + (8 + n + 7) div 8" by linarith
  ultimately show ?thesis by (simp add: room_def)
qed

lemma writes_link:
  assumes "buf_wwf b" and "buf_ops b = NULL_ops" and "obj_buf r = a" and "obj_safe b r" and "pointable r i v"
    and "stored b v"
  shows "writes_to a b (slot r i) (slot r i \<union> header v) 0 (\<lambda>w. nbuf_get_ptr w r i = Some v)
    (\<lambda>w. nbuf_put_ptr w r i v)"
proof -
  have v: "8 \<le> unat (obj_base v)" "unat (obj_base v) \<le> unat (buf_len b)" using assms(6) by (simp_all add: stored_def)
  let ?ys = "le_enc 4 ((unat (obj_base v) - 8 - ptr_pos r i) div 4)"
  define b' where "b' = b\<lparr>buf_base := splice_at (ptr_pos r i) ?ys (buf_base b)\<rparr>"
  have put: "nbuf_put_ptr_plain b r i v = Some b'"
    unfolding b'_def by (rule put_ptr_eq [OF assms(1,4,5) v])
  have "i < ucast (psize r)" using assms(5) by (simp add: pointable_def word_less_nat_alt)
  note le = ptr_position(2) [OF buf_wwf_wf [OF assms(1)] assms(4) this, folded ptr_pos_def]
  have ag: "agrees (- slot r i) b b'"
    unfolding b'_def slot_def using agrees_splice [OF assms(1,2), of "ptr_pos r i" ?ys] le
    by (simp del: le_enc.simps)
  have k: "buf_wwf b'" "stored b' v" "obj_safe b' r" "buf_len b' = buf_len b"
    using put_get_ptr [OF assms(1,4,5,6)] put by auto
  have "seg (ptr_pos r i) 4 (buf_base b') = ?ys"
    unfolding b'_def using le buf_wwf_wf [OF assms(1)] by (simp add: slice_splice_same buf_wf_def del: le_enc.simps)
  then have "holds a (slot r i \<union> header v) b' (\<lambda>w. nbuf_get_ptr w r i = Some v)"
    by (rule holds_ptr [OF k(1,3) assms(3,5) k(2)])
  then show ?thesis
    using put ag k(4) assms(2,3) unfolding writes_to_def nbuf_put_ptr_def by auto
qed

lemma create_granted:
  assumes "creatable b n s p" and "all_granted al"
  obtains b1 where "nbuf_create_plain al a b n s p = Some (fresh_obj a b n s p, b1)"
    and "created b (fresh_obj a b n s p) b1"
  using create_cases [OF assms(1), of al a] assms(2) by (auto simp: all_granted_def)

lemma created_stored:
  assumes "creatable b n s p" and "created b (fresh_obj a b n s p) b1"
  shows "stored b1 (fresh_obj a b n s p)"
  using created_in_bounds [OF assms] assms(2) by (simp add: stored_def created_def in_bounds_def)

lemma pointable_fresh:
  assumes "buf_wf b" and "obj_safe b r" and "unat i < unat (psize r)" and "ptr_pos r i mod 4 = 0"
    and "8 dvd unat (buf_len b)" and "unat (buf_len b) < 2 ^ 33" and "unat (obj_base v) = unat (buf_len b) + 8"
    and "obj_buf v = obj_buf r"
  shows "pointable r i v"
proof -
  have "i < ucast (psize r)" using assms(3) by (simp add: word_less_nat_alt)
  note le = ptr_position(2) [OF assms(1,2) this, folded ptr_pos_def]
  have "(4 :: nat) dvd unat (buf_len b)" using assms(5) by (rule dvd_trans [rotated]) simp
  moreover have "4 dvd ptr_pos r i" using assms(4) by auto
  ultimately have "4 dvd unat (buf_len b) - ptr_pos r i" by (rule dvd_diff_nat)
  then show ?thesis using assms le by (auto simp: pointable_def)
qed

lemma writes_vec:
  assumes b: "buf_wwf b" "buf_ops b = NULL_ops" "8 dvd unat (buf_len b)" and al: "all_granted al"
    and r: "obj_buf r = a" "obj_safe b r" "unat i < unat (psize r)" "ptr_pos r i mod 4 = 0"
    and n: "n < 2 ^ 32" "unat s mod 4 = 0" "s \<noteq> 0 \<or> p \<noteq> 0"
    and L: "unat (buf_len b) + room (n * (unat s + 4 * unat p)) \<le> 2 ^ 32"
  defines "v \<equiv> fresh_obj a b (of_nat n) s p"
  shows "writes_to a b (slot r i) (slot r i \<union> {unat (buf_len b)..<unat (buf_len b) + 8})
    (room (n * (unat s + 4 * unat p))) (\<lambda>w. nbuf_get_ptr w r i = Some v)
    (\<lambda>w. do { (rr, w1) \<leftarrow> nbuf_create al w (obj_buf r) (of_nat n) s p; nbuf_put_ptr w1 r i rr })"
proof -
  let ?l = "unat (buf_len b)"
  have un: "unat (of_nat n :: uint32) = n" using n(1) by (simp add: unat_of_nat take_bit_nat_eq_self)
  have by0: "obj_bytes (fresh_obj x b (of_nat n) s p) = n * (unat s + 4 * unat p)" for x
    using n(3) un by (auto simp: obj_bytes_def esize_def unat_eq_0)
  have c: "creatable b (of_nat n) s p"
    using b n L un room_facts(2) [of "n * (unat s + 4 * unat p)"]
    by (auto simp: creatable_def by0)
  obtain b1 where b1: "nbuf_create_plain al a b (of_nat n) s p = Some (v, b1)" "created b v b1"
    using create_granted [OF c al] unfolding v_def by blast
  have l1: "unat (buf_len b1) = ?l + room (n * (unat s + 4 * unat p))" and base: "unat (obj_base v) = ?l + 8"
    using b1(2) room_after [OF b(3)] by (simp_all add: created_def v_def by0)
  have ag: "agrees R b b1" for R
    using b1(2) b buf_wwf_wf by (auto simp: created_def intro: agrees_extends)
  have "?l < 2 ^ 33" using L by simp
  then have pt: "pointable r i v"
    using pointable_fresh [OF buf_wwf_wf [OF b(1)] r(2-4) b(3) _ base] r(1) by (simp add: v_def)
  have "stored b1 v" using created_stored [OF c] b1(2) by (simp add: v_def)
  from writes_link [OF _ _ r(1) obj_safe_later [OF r(2) ag] pt this] agrees_ok [OF ag]
  have link: "writes_to a b1 (slot r i) (slot r i \<union> header v) 0 (\<lambda>w. nbuf_get_ptr w r i = Some v) (\<lambda>w. nbuf_put_ptr w r i v)"
    by blast
  have h: "header v = {?l..<?l + 8}" using base by (simp add: header_def)
  show ?thesis
    unfolding writes_to_def
  proof (intro allI impI)
    fix w :: world assume w: "bufs w a = Some b"
    obtain b2 where b2: "nbuf_put_ptr (put_buf w a b1) r i v = Some (put_buf w a b2)" "agrees (- slot r i) b1 b2"
      "unat (buf_len b2) = unat (buf_len b1)" "holds a (slot r i \<union> header v) b2 (\<lambda>w. nbuf_get_ptr w r i = Some v)"
      using link unfolding writes_to_def by (metis put_buf_simps add_0_right)
    have "agrees (- slot r i) b b2" by (rule agrees_trans [OF ag b2(2)])
    then show "\<exists>b'. do { (rr, w1) \<leftarrow> nbuf_create al w (obj_buf r) (of_nat n) s p; nbuf_put_ptr w1 r i rr }
        = Some (put_buf w a b') \<and> agrees (- slot r i) b b' \<and>
      unat (buf_len b') = ?l + room (n * (unat s + 4 * unat p)) \<and>
      holds a (slot r i \<union> {?l..<?l + 8}) b' (\<lambda>w. nbuf_get_ptr w r i = Some v)"
      using b2 b1(1) w b(2) r(1) l1 h by (intro exI [of _ b2]) (simp add: nbuf_create_def)
  qed
qed

text \<open>A string.\<close>

definition reads_name :: "nbuf_obj \<Rightarrow> size_t \<Rightarrow> string \<Rightarrow> world \<Rightarrow> bool" where
  "reads_name r i name w \<longleftrightarrow>
    (\<exists>t. nbuf_get_str w r i = Some (t, of_nat (length name)) \<and> fmt_s t = Some (lit name))"

lemma holds_name:
  assumes b: "buf_wwf b" and r: "obj_buf r = a" and v: "obj_buf v = a" "unat (nelem v) = length name + 1"
    and p: "holds a R b (\<lambda>w. nbuf_get_ptr w r i = Some v)"
    and s: "seg (unat (obj_base v)) (length name + 1) (buf_base b) = lit name @ [0]"
    and z: "0 \<notin> set (lit name)" "unat (obj_base v) + (length name + 1) \<le> unat (buf_len b)"
    and R: "{unat (obj_base v)..<unat (obj_base v) + (length name + 1)} \<subseteq> R"
  shows "holds a R b (reads_name r i name)"
  unfolding holds_def
proof (intro allI impI)
  fix w :: world and b'
  assume b': "bufs w a = Some b'" and ag: "agrees R b b'"
  have get: "nbuf_get_ptr w r i = Some v" using p b' ag unfolding holds_def by blast
  then have plain: "nbuf_get_ptr_plain b' r i = Some v"
    using b' r agrees_ok [OF ag] by (simp add: nbuf_get_ptr_def)
  let ?t = "drop (unat (obj_base v)) (buf_base b')"
  have "nbuf_get_str_plain b' r i = Some (?t, of_nat (length name))"
    using string_read [OF _ plain v(2)] unat_u32_lt [of "nelem v"] v(2) z(2) agrees_ok [OF ag] agrees_len [OF ag]
    by simp
  then have "nbuf_get_str w r i = Some (?t, of_nat (length name))"
    using get plain b' r v(1) by (simp add: nbuf_get_str_def nbuf_get_str_plain_def)
  moreover have "seg (unat (obj_base v)) (length name + 1) (buf_base b') = lit name @ [0]"
    using agrees_seg [OF ag buf_wwf_wf [OF b] R z(2)] s by simp
  then have "?t = lit name @ 0 # drop (length name + 1) ?t"
    unfolding seg_def by (metis append_Cons append_Nil append_assoc append_take_drop_id)
  then have "fmt_s ?t = Some (lit name)" using fmt_s_append [OF z(1)] by metis
  ultimately show "reads_name r i name w" unfolding reads_name_def by blast
qed

lemma c_strlen_cstr: "0 \<notin> set (lit s) \<Longrightarrow> c_strlen (cstr s) = Some (length s)"
proof -
  assume "0 \<notin> set (lit s)"
  then have "takeWhile (\<lambda>b. b \<noteq> 0) (lit s @ [0]) = lit s" by (induction s) auto
  then show ?thesis by (simp add: c_strlen_def cstr_def)
qed

lemma copy_str_len: "copy_str b r s n = Some b' \<Longrightarrow> buf_len b' = buf_len b"
  by (auto simp: copy_str_def split: bind_splits)

lemma writes_str:
  assumes b: "buf_wwf b" "buf_ops b = NULL_ops" "8 dvd unat (buf_len b)" and al: "all_granted al"
    and r: "obj_buf r = a" "obj_safe b r" "unat i < unat (psize r)" "ptr_pos r i mod 4 = 0"
    and z: "0 \<notin> set (lit name)" and L: "unat (buf_len b) + room (length name + 1) \<le> 2 ^ 32"
  shows "writes_to a b (slot r i) (slot r i \<union> {unat (buf_len b)..<unat (buf_len b) + room (length name + 1)})
    (room (length name + 1)) (reads_name r i name) (\<lambda>w. nbuf_put_str al w r i (cstr name) (- 1))"
proof -
  let ?l = "unat (buf_len b)" and ?n = "length name"
  define v where "v = fresh_obj a b (of_nat (?n + 1)) 1 0"
  have n: "?n + 1 < 2 ^ 32" using L room_facts(2) [of "?n + 1"] by simp
  have un: "unat (of_nat (?n + 1) :: uint32) = ?n + 1"
    using n by (simp add: unat_of_nat take_bit_nat_eq_self del: of_nat_Suc of_nat_add)
  have by0: "obj_bytes (fresh_obj x b (of_nat (?n + 1)) 1 0) = ?n + 1" for x
    using un by (simp add: obj_bytes_def esize_def del: of_nat_Suc of_nat_add)
  have c: "creatable b (of_nat (?n + 1)) 1 0"
    using b n L un room_facts(2) [of "?n + 1"] unfolding creatable_def by0 by simp
  obtain b1 where b1: "nbuf_create_plain al a b (of_nat (?n + 1)) 1 0 = Some (v, b1)" "created b v b1"
    using create_granted [OF c al] unfolding v_def by blast
  have l1: "unat (buf_len b1) = ?l + room (?n + 1)" and base: "unat (obj_base v) = ?l + 8"
    using b1(2) room_after [OF b(3), of "?n + 1"] unfolding created_def v_def by0 by simp_all
  obtain b2 where b2: "copy_str b1 v (cstr name) (of_nat ?n) = Some b2" "extends b b2" "stored b2 v"
    "?l + 8 + ?n + 1 \<le> unat (buf_len b2)" "seg (?l + 8) (?n + 1) (buf_base b2) = lit name @ [0]"
    using string_object [OF c n, of "cstr name" a b1] b1(2) unfolding v_def seg_def by (auto simp: cstr_def)
  have ag: "agrees R b b2" for R by (rule agrees_extends [OF b2(2) buf_wwf_wf [OF b(1)] b(2)])
  have "?l < 2 ^ 33" using L by simp
  then have pt: "pointable r i v"
    using pointable_fresh [OF buf_wwf_wf [OF b(1)] r(2-4) b(3) _ base] r(1) by (simp add: v_def)
  from writes_link [OF _ _ r(1) obj_safe_later [OF r(2) ag] pt b2(3)] agrees_ok [OF ag]
  have link: "writes_to a b2 (slot r i) (slot r i \<union> header v) 0 (\<lambda>w. nbuf_get_ptr w r i = Some v) (\<lambda>w. nbuf_put_ptr w r i v)"
    by blast
  have i: "i < ucast (psize r)" using r(3) by (simp add: word_less_nat_alt)
  note le = ptr_position(2) [OF buf_wwf_wf [OF b(1)] r(2) i, folded ptr_pos_def]
  have nz: "nelem v \<noteq> 0" using un by (metis fresh_obj_sel(3) v_def Suc_eq_plus1 nat.distinct(1) unat_0)
  have nm: "obj_buf v = a" "unat (nelem v) = ?n + 1" using un by (simp_all add: v_def del: of_nat_Suc of_nat_add)
  let ?R = "slot r i \<union> {?l..<?l + room (?n + 1)}"
  have sub: "slot r i \<union> header v \<subseteq> ?R" "{unat (obj_base v)..<unat (obj_base v) + (?n + 1)} \<subseteq> ?R"
    using base room_facts(2) [of "?n + 1"] by (auto simp: header_def)
  show ?thesis
    unfolding writes_to_def
  proof (intro allI impI)
    fix w :: world assume w: "bufs w a = Some b"
    obtain b3 where b3: "nbuf_put_ptr (put_buf w a b2) r i v = Some (put_buf w a b3)" "agrees (- slot r i) b2 b3"
      "unat (buf_len b3) = unat (buf_len b2)" "holds a (slot r i \<union> header v) b3 (\<lambda>w. nbuf_get_ptr w r i = Some v)"
      using link unfolding writes_to_def by (metis put_buf_simps add_0_right)
    have "{?l + 8..<?l + 8 + (?n + 1)} \<subseteq> - slot r i" using le by (auto simp: slot_def)
    then have s: "seg (unat (obj_base v)) (?n + 1) (buf_base b3) = lit name @ [0]"
      using agrees_seg [OF b3(2)] agrees_ok [OF ag] b2(4,5) base by simp
    have "holds a ?R b3 (\<lambda>w. nbuf_get_ptr w r i = Some v)" using b3(4) sub(1) by (rule holds_mono)
    from holds_name [OF _ r(1) nm this s z _ sub(2)] agrees_ok [OF b3(2)] b2(4) b3(3) base
    have h: "holds a ?R b3 (reads_name r i name)" by simp
    have "agrees (- slot r i) b b3" by (rule agrees_trans [OF ag b3(2)])
    moreover have "nbuf_put_str al w r i (cstr name) (- 1) = Some (put_buf w a b3)"
    proof -
      have "ucast (of_nat (?n + 1) :: size_t) = (of_nat (?n + 1) :: uint32)" by (rule ucast_of_nat) simp
      then have "ucast (of_nat ?n + 1 :: size_t) = (of_nat (?n + 1) :: uint32)" by (simp only: of_nat_add of_nat_1)
      then show ?thesis
        using str_length_eq [of "- 1" ?n "cstr name"] c_strlen_cstr [OF z] b1(1) b2(1) b3(1) w b(2) r(1) nz nm(1)
        by (simp add: nbuf_put_str_def nbuf_create_def del: of_nat_Suc of_nat_add)
    qed
    ultimately show "\<exists>b'. nbuf_put_str al w r i (cstr name) (- 1) = Some (put_buf w a b') \<and>
      agrees (- slot r i) b b' \<and> unat (buf_len b') = ?l + room (?n + 1) \<and> holds a ?R b' (reads_name r i name)"
      using h b3(3) l1 copy_str_len [OF b2(1)] by (intro exI [of _ b3]) simp
  qed
qed

section \<open>Filling in one object\<close>

text \<open>A single element with the first \<open>N\<close> bytes of the buffer around it.\<close>

definition elem_in :: "nat \<Rightarrow> nat \<Rightarrow> nbuf_obj \<Rightarrow> bool" where
  "elem_in a N e \<longleftrightarrow> obj_buf e = a \<and> nelem e = 1 \<and> unat (obj_base e) mod 4 = 0 \<and> unat (ssize e) mod 4 = 0 \<and>
    esize e \<noteq> 0 \<and> unat (obj_base e) + esize e \<le> N"

definition part :: "nbuf_obj \<Rightarrow> nat \<Rightarrow> nat \<Rightarrow> nat set" where
  "part e lo n = {unat (obj_base e) + lo..<unat (obj_base e) + lo + n}"

lemma part_apart: "lo + n \<le> lo' \<or> lo' + n' \<le> lo \<Longrightarrow> part e lo n \<inter> part e lo' n' = {}"
  by (auto simp: part_def)

lemma part_below: "elem_in a N e \<Longrightarrow> lo + n \<le> esize e \<Longrightarrow> N \<le> l \<Longrightarrow> part e lo n \<inter> {l..<m} = {}"
  by (auto simp: part_def elem_in_def)

lemma slot_part: "slot e i = part e (unat (ssize e) + 4 * unat i) 4"
  by (simp add: slot_def part_def ptr_pos_def add.assoc)

lemma elem_in_safe: "elem_in a N e \<Longrightarrow> growing N b \<Longrightarrow> obj_safe b e"
  by (auto simp: elem_in_def growing_def obj_safe_def in_bounds_def obj_bytes_def)

lemma elem_in_mono: "elem_in a N e \<Longrightarrow> N \<le> M \<Longrightarrow> elem_in a M e"
  by (simp add: elem_in_def)

lemma step_str:
  assumes "growing N b" and "elem_in a N e" and "all_granted al" and "unat i < unat (psize e)"
    and "0 \<notin> set (lit name)" and "unat (buf_len b) + room (length name + 1) \<le> 2 ^ 32"
  shows "writes_to a b (slot e i) (slot e i \<union> {unat (buf_len b)..<unat (buf_len b) + room (length name + 1)})
    (room (length name + 1)) (reads_name e i name) (\<lambda>w. nbuf_put_str al w e i (cstr name) (- 1))"
proof -
  have "ptr_pos e i mod 4 = 0" using assms(2) by (simp add: elem_in_def ptr_pos_def mod_eq_0_iff_dvd)
  then show ?thesis
    using writes_str [OF _ _ _ assms(3) _ elem_in_safe [OF assms(2,1)] assms(4) _ assms(5,6), of a] assms(1,2)
    by (simp add: growing_def elem_in_def)
qed

lemma step_vec:
  assumes "growing N b" and "elem_in a N e" and "all_granted al" and "unat i < unat (psize e)"
    and "n < 2 ^ 32" and "unat s mod 4 = 0" and "s \<noteq> 0 \<or> p \<noteq> 0"
    and "unat (buf_len b) + room (n * (unat s + 4 * unat p)) \<le> 2 ^ 32"
  shows "writes_to a b (slot e i) (slot e i \<union> {unat (buf_len b)..<unat (buf_len b) + 8})
    (room (n * (unat s + 4 * unat p))) (\<lambda>w. nbuf_get_ptr w e i = Some (fresh_obj a b (of_nat n) s p))
    (\<lambda>w. do { (rr, w1) \<leftarrow> nbuf_create al w (obj_buf e) (of_nat n) s p; nbuf_put_ptr w1 e i rr })"
proof -
  have "ptr_pos e i mod 4 = 0" using assms(2) by (simp add: elem_in_def ptr_pos_def mod_eq_0_iff_dvd)
  then show ?thesis
    using writes_vec [OF _ _ _ assms(3) _ elem_in_safe [OF assms(2,1)] assms(4) _ assms(5-8), of a] assms(1,2)
    by (simp add: growing_def elem_in_def)
qed

lemma step_int:
  assumes "growing N b" and "elem_in a N e" and "cell_fits (unat (ssize e)) (Int_cell off sz)"
  shows "writes_to a b (part e (unat off) (unat sz)) (part e (unat off) (unat sz)) 0
    (\<lambda>w. obj_get_int w e off sz = Some (int_conv sz v)) (\<lambda>w. obj_put_int w e off sz v)"
  using writes_cell [OF _ _ _ elem_in_safe [OF assms(2,1)] assms(3), of a v] assms(1,2)
  by (simp add: growing_def elem_in_def obj_int_cell cell_bytes_def part_def)

lemma step_bit:
  assumes "growing N b" and "elem_in a N e" and "cell_fits (unat (ssize e)) (Bit_cell k)"
  shows "writes_to a b (part e (unat k div 8) 1) (part e (unat k div 8) 1) 0
    (\<lambda>w. w_get_cell e w (Bit_cell k) = Some (of_bool (v \<noteq> 0))) (\<lambda>w. w_put_cell e w (Bit_cell k) v)"
  using writes_cell [OF _ _ _ elem_in_safe [OF assms(2,1)] assms(3), of a v] assms(1,2)
  by (simp add: growing_def elem_in_def cell_bytes_def part_def)

text \<open>A vector that lies in the first \<open>N\<close> bytes, and its elements.\<close>

definition vec_in :: "nat \<Rightarrow> nat \<Rightarrow> nat \<Rightarrow> uint16 \<Rightarrow> uint16 \<Rightarrow> nbuf_obj \<Rightarrow> bool" where
  "vec_in a N n s p v \<longleftrightarrow> obj_buf v = a \<and> unat (nelem v) = n \<and> ssize v = s \<and> psize v = p \<and>
    unat (obj_base v) mod 4 = 0 \<and> unat s mod 4 = 0 \<and> esize v \<noteq> 0 \<and> unat (obj_base v) + n * esize v \<le> N"

lemma vec_elem:
  assumes "vec_in a N n s p v" and "growing N b" and "i < n"
  defines "e \<equiv> nbuf_get_elem v (of_nat i)"
  shows "elem_in a N e" and "ssize e = s" and "psize e = p" and "part e 0 (unat s + 4 * unat p) = slots v i"
proof -
  have v: "obj_buf v = a" "unat (nelem v) = n" "ssize v = s" "psize v = p" "esize v \<noteq> 0"
    "unat (obj_base v) mod 4 = 0" "unat s mod 4 = 0" "unat (obj_base v) + n * esize v \<le> N"
    using assms(1) by (simp_all add: vec_in_def)
  have "in_bounds b v" using v assms(2) by (simp add: in_bounds_def obj_bytes_def growing_def mult.commute)
  moreover have "i < unat (nelem v)" using v(2) assms(3) by simp
  moreover have "buf_wf b" using assms(2) by (simp add: growing_def buf_wwf_wf)
  ultimately have e: "obj_buf e = a" "unat (obj_base e) = unat (obj_base v) + i * esize v" "ssize e = s" "psize e = p"
      "{unat (obj_base e)..<unat (obj_base e) + esize e} = slots v i"
    unfolding e_def using elem_facts v by metis+
  have i: "unat (of_nat i :: size_t) < unat (nelem v)"
    using assms(3) v(2) unat_u32_lt [of "nelem v"] by (subst unat_of_nat_64) simp_all
  have ne: "nelem e = 1" using i by (simp add: e_def get_elem_unfold)
  have es: "esize e = esize v" using e v by (simp add: esize_def)
  have "4 dvd i * esize v" using v by (intro dvd_mult) (auto simp: esize_def)
  then have "unat (obj_base e) mod 4 = 0" using e(2) v(6) by (auto simp: mod_eq_0_iff_dvd)
  moreover have "Suc i * esize v \<le> n * esize v" using assms(3) by (intro mult_le_mono1) simp
  then have "unat (obj_base e) + esize e \<le> N" using e(2) es v(8) by simp
  ultimately show "elem_in a N e" using e ne v es by (simp add: elem_in_def)
  show "ssize e = s" "psize e = p" using e by simp_all
  show "part e 0 (unat s + 4 * unat p) = slots v i" using e by (simp add: part_def esize_def)
qed

lemma vec_in_mono: "vec_in a N n s p v \<Longrightarrow> N \<le> M \<Longrightarrow> vec_in a M n s p v"
  by (simp add: vec_in_def)

lemma fresh_vec_in:
  assumes "growing N b" and "n < 2 ^ 32" and "unat s mod 4 = 0" and "s \<noteq> 0 \<or> p \<noteq> 0"
    and "unat (buf_len b) + room (n * (unat s + 4 * unat p)) \<le> 2 ^ 32"
  shows "vec_in a (unat (buf_len b) + 8 + n * (unat s + 4 * unat p)) n s p (fresh_obj a b (of_nat n) s p)"
proof -
  have "unat (buf_len b) < 2 ^ 33" using assms(5) by simp
  then have "unat (buf_len b + 8) = unat (buf_len b) + 8" by (subst unat_add_nowrap) simp_all
  moreover have "4 dvd unat (buf_len b)"
    using assms(1) dvd_trans [of 4 8 "unat (buf_len b)"] by (simp add: growing_def)
  then have "(unat (buf_len b) + 8) mod 4 = 0" by (simp add: mod_eq_0_iff_dvd)
  moreover have "unat (of_nat n :: uint32) = n" using assms(2) by (simp add: unat_of_nat take_bit_nat_eq_self)
  moreover have "unat s + 4 * unat p \<noteq> 0" using assms(4) by (auto simp: unat_eq_0)
  ultimately show ?thesis using assms(3) by (simp add: vec_in_def esize_def)
qed

end
