(* ===== verification/T2b.thy ===== *)
theory T2b
  imports B2t Regions
begin

text \<open>
  The writing half of the schema compiler, \<^verbatim>\<open>nbufc/t2b.c\<close>: the description of a schema, as the parser
  leaves it, is stored as a message through the accessors of \<^verbatim>\<open>include/nbuf.nb.h\<close>, while \<^verbatim>\<open>outmsgs\<close>
  computes the layout of each message.  The lemmas show that the message reads back as the description
  with that layout.
\<close>

section \<open>The schema message\<close>

text \<open>The numbers of enumerations and messages are \<^verbatim>\<open>enumnames\<close> and \<^verbatim>\<open>msgnames\<close>.\<close>

definition makeschema :: "allocator \<Rightarrow> world \<Rightarrow> nat \<Rightarrow> schemaDesc \<Rightarrow> (nbuf_obj \<times> world) option" where
  "makeschema al w buffer schema =
    do { (sch, w1) \<leftarrow> nbuf_new_Schema al w buffer;
         w2 \<leftarrow> (case sd_pkgName schema of
                 None \<Rightarrow> Some w1
               | Some name \<Rightarrow> nbuf_Schema_set_pkgName al w1 sch (cstr name) (- 1));
         w3 \<leftarrow> (if length (sd_enums schema) > 0
               then nbuf_Schema_init_enumTypes al w2 sch (of_nat (length (sd_enums schema))) else Some w2);
         w4 \<leftarrow> (if length (sd_msgs schema) > 0
               then nbuf_Schema_init_msgTypes al w3 sch (of_nat (length (sd_msgs schema))) else Some w3);
         Some (sch, w4) }"

section \<open>Enumerations\<close>

definition outvalue :: "allocator \<Rightarrow> nbuf_obj \<Rightarrow> nat \<Rightarrow> enumDesc \<Rightarrow> world \<Rightarrow> world option" where
  "outvalue al en n d w =
    do { de \<leftarrow> nbuf_EnumType_values w en (of_nat n);
         w1 \<leftarrow> nbuf_EnumDesc_set_name al w de (cstr (ed_name d)) (- 1);
         nbuf_EnumDesc_set_value w1 de (ed_val d) }"

definition outenum :: "allocator \<Rightarrow> nbuf_obj \<Rightarrow> nat \<Rightarrow> enumType \<Rightarrow> world \<Rightarrow> world option" where
  "outenum al sch oid e w =
    do { en \<leftarrow> nbuf_Schema_enumTypes w sch (of_nat oid);
         w1 \<leftarrow> nbuf_EnumType_set_name al w en (cstr (et_name e)) (- 1);
         w2 \<leftarrow> nbuf_EnumType_init_values al w1 en (of_nat (length (et_vals e)));
         each_from (outvalue al en) 0 (et_vals e) w2 }"

definition outenums :: "allocator \<Rightarrow> nbuf_obj \<Rightarrow> schemaDesc \<Rightarrow> world \<Rightarrow> world option" where
  "outenums al sch schema w = each_from (outenum al sch) 0 (sd_enums schema) w"

section \<open>Messages\<close>

text \<open>
  The body of the loop over fields: the type is looked up, the field placed and its descriptor filled
  in.  \<open>Inl\<close> is \<^verbatim>\<open>die\<close>; the state of the layout is carried along.
\<close>

definition outfield ::
    "allocator \<Rightarrow> types \<Rightarrow> nbuf_obj \<Rightarrow> nat \<Rightarrow> fldDesc \<Rightarrow> msg_state \<Rightarrow> world \<Rightarrow> (die + msg_state \<times> world) option" where
  "outfield al types ms n d st w =
    do { de \<leftarrow> nbuf_MsgType_fields w ms (of_nat n);
         (case lookup types (fld_tname d) of
            None \<Rightarrow> Some (Inl (No_type (fld_tname d)))
          | Some ent \<Rightarrow>
              do { w1 \<leftarrow> nbuf_FieldDesc_set_name al w de (cstr (fld_name d)) (- 1);
                   w2 \<leftarrow> nbuf_FieldDesc_set_list w1 de (fld_list d);
                   w3 \<leftarrow> nbuf_FieldDesc_set_kind w2 de (ent_kind ent);
                   let (offset, st1) = place_field st ent (fld_list d);
                   w4 \<leftarrow> nbuf_FieldDesc_set_tag0 w3 de (of_nat offset);
                   w5 \<leftarrow> nbuf_FieldDesc_set_tag1 w4 de (field_tag1 ent);
                   Some (Inr (st1, w5)) }) }"

fun outfields ::
    "allocator \<Rightarrow> types \<Rightarrow> nbuf_obj \<Rightarrow> nat \<Rightarrow> fldDesc list \<Rightarrow> msg_state \<Rightarrow> world \<Rightarrow> (die + msg_state \<times> world) option"
  where
  "outfields al types ms n [] st w = Some (Inr (st, w))"
| "outfields al types ms n (d # ds) st w =
    do { r \<leftarrow> outfield al types ms n d st w;
         (case r of Inl e \<Rightarrow> Some (Inl e) | Inr (st1, w1) \<Rightarrow> outfields al types ms (Suc n) ds st1 w1) }"

definition outmsg ::
    "allocator \<Rightarrow> types \<Rightarrow> nbuf_obj \<Rightarrow> nat \<Rightarrow> msgType \<Rightarrow> nat \<Rightarrow> world \<Rightarrow> (die + nat \<times> world) option" where
  "outmsg al types sch oid m alignment w =
    do { ms \<leftarrow> nbuf_Schema_msgTypes w sch (of_nat oid);
         w1 \<leftarrow> nbuf_MsgType_set_name al w ms (cstr (msg_name m)) (- 1);
         w2 \<leftarrow> nbuf_MsgType_init_fields al w1 ms (of_nat (length (msg_flds m)));
         r \<leftarrow> outfields al types ms 0 (msg_flds m)
               \<lparr>ms_ssize = 0, ms_psize = 0, ms_align = alignment, ms_pads = clear_padding_spaces\<rparr> w2;
         (case r of
            Inl e \<Rightarrow> Some (Inl e)
          | Inr (st, w3) \<Rightarrow>
              do { w4 \<leftarrow> nbuf_MsgType_set_ssize w3 ms (final_ssize st);
                   w5 \<leftarrow> nbuf_MsgType_set_psize w4 ms (ms_psize st);
                   Some (Inr (ms_align st, w5)) }) }"

fun outmsgs_into ::
    "allocator \<Rightarrow> types \<Rightarrow> nbuf_obj \<Rightarrow> nat \<Rightarrow> msgType list \<Rightarrow> nat \<Rightarrow> world \<Rightarrow> (die + world) option" where
  "outmsgs_into al types sch oid [] alignment w = Some (Inr w)"
| "outmsgs_into al types sch oid (m # msgs) alignment w =
    do { r \<leftarrow> outmsg al types sch oid m alignment w;
         (case r of
            Inl e \<Rightarrow> Some (Inl e)
          | Inr (alignment1, w1) \<Rightarrow> outmsgs_into al types sch (Suc oid) msgs alignment1 w1) }"

text \<open>\<^verbatim>\<open>cleanup\<close> frees the description, which is not used again.\<close>

definition nbuf_t2b :: "allocator \<Rightarrow> world \<Rightarrow> nat \<Rightarrow> schemaDesc \<Rightarrow> (die + world) option" where
  "nbuf_t2b al w buf schema =
    (case makelookup schema of
       Inl e \<Rightarrow> Some (Inl e)
     | Inr types \<Rightarrow>
         do { (sch, w1) \<leftarrow> makeschema al w buf schema;
              w2 \<leftarrow> outenums al sch schema w1;
              outmsgs_into al types sch 0 (sd_msgs schema) 0 w2 })"

section \<open>Layout first, writing second\<close>

text \<open>
  When all types are known, \<^verbatim>\<open>outmsgs\<close> writes what the layout of \<open>Layout.outmsgs\<close> says, so the two can
  be looked at apart.
\<close>

definition put_field :: "allocator \<Rightarrow> nbuf_obj \<Rightarrow> nat \<Rightarrow> field_out \<Rightarrow> world \<Rightarrow> world option" where
  "put_field al ms n f w =
    do { de \<leftarrow> nbuf_MsgType_fields w ms (of_nat n);
         w1 \<leftarrow> nbuf_FieldDesc_set_name al w de (cstr (out_name f)) (- 1);
         w2 \<leftarrow> nbuf_FieldDesc_set_list w1 de (out_list f);
         w3 \<leftarrow> nbuf_FieldDesc_set_kind w2 de (out_kind f);
         w4 \<leftarrow> nbuf_FieldDesc_set_tag0 w3 de (out_tag0 f);
         nbuf_FieldDesc_set_tag1 w4 de (out_tag1 f) }"

definition put_msg :: "allocator \<Rightarrow> nbuf_obj \<Rightarrow> nat \<Rightarrow> msg_out \<Rightarrow> world \<Rightarrow> world option" where
  "put_msg al sch oid m w =
    do { ms \<leftarrow> nbuf_Schema_msgTypes w sch (of_nat oid);
         w1 \<leftarrow> nbuf_MsgType_set_name al w ms (cstr (mout_name m)) (- 1);
         w2 \<leftarrow> nbuf_MsgType_init_fields al w1 ms (of_nat (length (mout_fields m)));
         w3 \<leftarrow> each_from (put_field al ms) 0 (mout_fields m) w2;
         w4 \<leftarrow> nbuf_MsgType_set_ssize w3 ms (mout_ssize m);
         nbuf_MsgType_set_psize w4 ms (mout_psize m) }"

lemma outfield_places:
  assumes "lookup types (fld_tname d) = Some ent" and "place_field st ent (fld_list d) = (t0, st1)"
  shows "outfield al types ms n d st w = map_option (\<lambda>w1. Inr (st1, w1)) (put_field al ms n
    \<lparr>out_name = fld_name d, out_kind = ent_kind ent, out_list = fld_list d, out_tag0 = of_nat t0,
     out_tag1 = field_tag1 ent\<rparr> w)"
  using assms by (simp add: outfield_def put_field_def map_option_bind map_conv_bind_option o_def)

lemma outfields_places:
  assumes "place_fields (lookup types) st ds = Some (fs, st1)"
  shows "outfields al types ms n ds st w = map_option (\<lambda>w1. Inr (st1, w1)) (each_from (put_field al ms) n fs w)"
  using assms
proof (induction ds arbitrary: n st fs w)
  case (Cons d ds)
  then obtain ent t0 st2 gs where d: "lookup types (fld_tname d) = Some ent"
    "place_field st ent (fld_list d) = (t0, st2)" "place_fields (lookup types) st2 ds = Some (gs, st1)"
    "fs = \<lparr>out_name = fld_name d, out_kind = ent_kind ent, out_list = fld_list d, out_tag0 = of_nat t0,
     out_tag1 = field_tag1 ent\<rparr> # gs"
    by (auto split: bind_splits prod.splits)
  show ?case
    by (simp add: outfield_places [OF d(1,2)] Cons.IH [OF d(3)] d(4) map_option_bind bind_map_option o_def)
qed simp

lemma outmsg_places:
  assumes "place_fields (lookup types) \<lparr>ms_ssize = 0, ms_psize = 0, ms_align = al0, ms_pads = clear_padding_spaces\<rparr>
      (msg_flds m) = Some (fs, st)" and "length fs = length (msg_flds m)"
  shows "outmsg al types sch oid m al0 w = map_option (\<lambda>w1. Inr (ms_align st, w1)) (put_msg al sch oid
    \<lparr>mout_name = msg_name m, mout_fields = fs, mout_ssize = final_ssize st, mout_psize = ms_psize st\<rparr> w)"
  by (simp add: outmsg_def put_msg_def outfields_places [OF assms(1)] assms(2) map_option_bind bind_map_option o_def
      map_conv_bind_option)

section \<open>What is written can be read\<close>

lemma writes_seq:
  assumes "writes_to a b W R k P f" and "growing N b" and "8 dvd k"
    and "\<And>b'. growing N b' \<Longrightarrow> agrees (- W) b b' \<Longrightarrow> unat (buf_len b') = unat (buf_len b) + k \<Longrightarrow>
      holds a R b' P \<Longrightarrow> writes_to a b' W' R' k' Q g"
    and "W' \<inter> R = {}"
  shows "writes_to a b (W \<union> W') (R \<union> R') (k + k') (\<lambda>w. P w \<and> Q w) (\<lambda>w. f w \<bind> g)"
proof (rule writes_then [OF assms(1) _ assms(5)])
  fix b' assume b': "agrees (- W) b b'" "unat (buf_len b') = unat (buf_len b) + k" "holds a R b' P"
  have "N \<le> unat (buf_len b) + k" using assms(2) by (simp add: growing_def)
  from growing_later [OF assms(2) b'(1,2) assms(3) this] show "writes_to a b' W' R' k' Q g" using b' by (rule assms(4))
qed

lemma ready_get: "ready a N R (\<lambda>w. P w) b \<Longrightarrow> bufs w a = Some b \<Longrightarrow> P w"
  using holds_now by (auto simp: ready_def growing_def)

text \<open>The constants of an enumeration.\<close>

definition value_at :: "nbuf_obj \<Rightarrow> nat \<Rightarrow> enumDesc \<Rightarrow> world \<Rightarrow> bool" where
  "value_at v n d w \<longleftrightarrow>
    (let e = nbuf_get_elem v (of_nat n)
     in reads_name e 0 (ed_name d) w \<and> nbuf_EnumDesc_value w e = Some (ed_val d))"

definition value_room :: "enumDesc \<Rightarrow> nat" where
  "value_room d = room (length (ed_name d) + 1)"

lemma value_room_8 [simp]: "8 dvd value_room d"
  by (simp add: value_room_def)

lemma writes_value:
  assumes r: "ready a N R (\<lambda>w. nbuf_get_ptr w en 1 = Some v) b" and v: "vec_in a N m 4 1 v" "n < m"
    and al: "all_granted al" and z: "0 \<notin> set (lit (ed_name d))" and L: "unat (buf_len b) + value_room d \<le> 2 ^ 32"
  shows "writes_to a b (slots v n) (slots v n \<union> {unat (buf_len b)..<unat (buf_len b) + value_room d}) (value_room d)
    (value_at v n d) (outvalue al en n d)"
proof -
  let ?e = "nbuf_get_elem v (of_nat n)" and ?l = "unat (buf_len b)"
  have g: "growing N b" using r by (simp add: ready_def)
  note e = vec_elem [OF v(1) g v(2)]
  have es: "esize ?e = 8" using e by (simp add: esize_def)
  have 1: "writes_to a b (part ?e 4 4) (part ?e 4 4 \<union> {?l..<?l + value_room d}) (value_room d)
      (reads_name ?e 0 (ed_name d)) (\<lambda>w. nbuf_EnumDesc_set_name al w ?e (cstr (ed_name d)) (- 1))"
    using step_str [OF g e(1) al, of 0 "ed_name d"] e z L
    by (simp add: slot_part value_room_def nbuf_EnumDesc_set_name_def)
  have 2: "writes_to a b' (part ?e 0 2) (part ?e 0 2) 0 (\<lambda>w. nbuf_EnumDesc_value w ?e = Some (ed_val d))
      (\<lambda>w. nbuf_EnumDesc_set_value w ?e (ed_val d))" if "growing N b'" for b'
    using step_int [OF that e(1), of 0 2 "ucast (ed_val d)"] e
    by (auto simp: nbuf_EnumDesc_set_value_def nbuf_EnumDesc_value_def ucast_int_conv elim!: writes_weaken)
  have "part ?e 0 2 \<inter> (part ?e 4 4 \<union> {?l..<?l + value_room d}) = {}"
    using part_apart [of 0 2 4 4 ?e] part_below [OF e(1), of 0 2 ?l] es g by (simp add: Int_Un_distrib growing_def)
  note s = writes_seq [OF 1 g value_room_8 2 this]
  have sub: "part ?e 4 4 \<union> part ?e 0 2 \<subseteq> slots v n" unfolding e(4) [symmetric] by (auto simp: part_def)
  have "writes_to a b (slots v n) (slots v n \<union> {?l..<?l + value_room d}) (value_room d + 0) (value_at v n d)
      (\<lambda>w. nbuf_EnumDesc_set_name al w ?e (cstr (ed_name d)) (- 1) \<bind> (\<lambda>w1. nbuf_EnumDesc_set_value w1 ?e (ed_val d)))"
    by (rule writes_weaken [OF s]) (use sub in \<open>auto simp: value_at_def\<close>)
  then show ?thesis
    unfolding outvalue_def
    by (intro writes_read [where x = ?e]) (simp_all add: nbuf_EnumType_values_def ready_get [OF r])
qed


text \<open>A vector that is created and filled element by element.\<close>

lemma writes_filled:
  fixes e :: nbuf_obj and k :: "'x \<Rightarrow> nat" and Q :: "nbuf_obj \<Rightarrow> nat \<Rightarrow> 'x \<Rightarrow> world \<Rightarrow> bool"
  assumes g: "growing N b" and e: "elem_in a N e" and al: "all_granted al" and i: "unat i < unat (psize e)"
    and n: "length xs < 2 ^ 32" and sz: "unat s mod 4 = 0" "s \<noteq> 0 \<or> p \<noteq> 0"
    and step: "\<And>v M R b' j x. vec_in a M (length xs) s p v \<Longrightarrow> ready a M R (\<lambda>w. nbuf_get_ptr w e i = Some v) b' \<Longrightarrow>
      j < length xs \<Longrightarrow> x \<in> set xs \<Longrightarrow> unat (buf_len b') + k x \<le> 2 ^ 32 \<Longrightarrow>
      writes_to a b' (slots v j) (slots v j \<union> {unat (buf_len b')..<unat (buf_len b') + k x}) (k x) (Q v j x) (f j x)"
    and eight: "\<And>x. 8 dvd k x"
    and L: "unat (buf_len b) + room (length xs * (unat s + 4 * unat p)) + sum_list (map k xs) \<le> 2 ^ 32"
  defines "K \<equiv> room (length xs * (unat s + 4 * unat p)) + sum_list (map k xs)"
  shows "writes_to a b (slot e i) (slot e i \<union> {unat (buf_len b)..<unat (buf_len b) + K}) K
    (\<lambda>w. \<exists>v. nbuf_get_ptr w e i = Some v \<and> unat (nelem v) = length xs \<and> (\<forall>j < length xs. Q v j (xs ! j) w))
    (\<lambda>w. do { (rr, w1) \<leftarrow> nbuf_create al w (obj_buf e) (of_nat (length xs)) s p; nbuf_put_ptr w1 e i rr }
      \<bind> each_from f 0 xs)"
proof -
  let ?l = "unat (buf_len b)" and ?n = "length xs" and ?B = "length xs * (unat s + 4 * unat p)"
  define v where "v = fresh_obj a b (of_nat ?n) s p"
  define M where "M = ?l + 8 + ?B"
  have L1: "?l + room ?B \<le> 2 ^ 32" using L by simp
  note 1 = step_vec [OF g e al i n sz L1, folded v_def]
  have v: "vec_in a M ?n s p v" unfolding v_def M_def by (rule fresh_vec_in [OF g n sz L1])
  have base: "unat (obj_base v) = ?l + 8"
  proof -
    have "?l < 2 ^ 33" using L1 by simp
    then show ?thesis by (simp add: v_def unat_add_nowrap)
  qed
  have M: "unat (obj_base v) + ?n * esize v = M" using base v by (simp add: M_def vec_in_def esize_def)
  have S: "slots v j \<subseteq> {?l + 8..<M}" if "j < ?n" for j
  proof
    fix q assume q: "q \<in> slots v j"
    then have "q < M" using slots_inside [OF that, of v] M by auto
    moreover have "?l + 8 \<le> q" using q base by (simp add: slots_def)
    ultimately show "q \<in> {?l + 8..<M}" by simp
  qed
  have "slot e i \<subseteq> {..<?l}"
    using e i g by (auto simp: slot_part part_def elem_in_def esize_def growing_def)
  then have R: "slots v j \<inter> (slot e i \<union> {?l..<?l + 8}) = {}" if "j < ?n" for j using S [OF that] by fastforce
  have 2: "writes_to a b' (\<Union>j \<in> {0..<0 + ?n}. slots v j)
      ((\<Union>j \<in> {0..<0 + ?n}. slots v j) \<union> {?l + room ?B..<?l + room ?B + sum_list (map k xs)}) (sum_list (map k xs))
      (\<lambda>w. \<forall>j < ?n. Q v (0 + j) (xs ! j) w) (each_from f 0 xs)"
    if b': "agrees (- slot e i) b b'" "unat (buf_len b') = ?l + room ?B"
      "holds a (slot e i \<union> {?l..<?l + 8}) b' (\<lambda>w. nbuf_get_ptr w e i = Some v)" for b'
  proof -
    have "M \<le> ?l + room ?B" using room_facts(2) [of ?B] by (simp add: M_def)
    from growing_later [OF g b'(1,2) _ this] b'(3)
    have rd: "ready a M (slot e i \<union> {?l..<?l + 8}) (\<lambda>w. nbuf_get_ptr w e i = Some v) b'" by (simp add: ready_def)
    have st: "writes_to a b'' (slots v j) (slots v j \<union> {unat (buf_len b'')..<unat (buf_len b'') + k x}) (k x)
        (Q v j x) (f j x)"
      if "ready a M (slot e i \<union> {?l..<?l + 8}) (\<lambda>w. nbuf_get_ptr w e i = Some v) b''" "j < ?n" "x \<in> set xs"
        "unat (buf_len b'') + k x \<le> 2 ^ 32" for b'' j x
      by (rule step [OF v that])
    have in_M: "slots v j \<subseteq> {..<M}" if "j < ?n" for j using S [OF that] by auto
    have "unat (buf_len b') + sum_list (map k xs) \<le> 2 ^ 32" using L b'(2) by simp
    from writes_each [where Q = "Q v" and n = ?n and i = 0, OF st eight slots_apart R in_M rd subset_refl _ this]
    show ?thesis unfolding b'(2) by simp
  qed
  have W: "(\<Union>j \<in> {0..<0 + ?n}. slots v j) \<inter> (slot e i \<union> {?l..<?l + 8}) = {}" using R by fastforce
  note s = writes_then [OF 1 2 W]
  show ?thesis
    unfolding K_def
  proof (rule writes_weaken [OF s])
    have "(\<Union>j \<in> {0..<0 + ?n}. slots v j) \<subseteq> {?l..<?l + room ?B}"
    proof
      fix q assume "q \<in> (\<Union>j \<in> {0..<0 + ?n}. slots v j)"
      then obtain j where "j < ?n" "q \<in> slots v j" by auto
      then have "?l + 8 \<le> q" "q < M" using S [of j] by auto
      then show "q \<in> {?l..<?l + room ?B}" using room_facts(2) [of ?B] by (simp add: M_def)
    qed
    then show "slot e i \<union> {?l..<?l + 8} \<union> ((\<Union>j \<in> {0..<0 + ?n}. slots v j) \<union>
        {?l + room ?B..<?l + room ?B + sum_list (map k xs)})
      \<subseteq> slot e i \<union> {?l..<?l + (room ?B + sum_list (map k xs))}"
      using room_facts(2) [of ?B] by (auto simp: subset_iff)
    show "q \<in> slot e i" if "q \<in> slot e i \<union> (\<Union>j \<in> {0..<0 + ?n}. slots v j)" "q < ?l" for q
      using that S by fastforce
    have "unat (nelem v) = ?n" using v by (simp add: vec_in_def)
    then show "\<exists>v. nbuf_get_ptr w e i = Some v \<and> unat (nelem v) = ?n \<and> (\<forall>j < ?n. Q v j (xs ! j) w)"
      if "nbuf_get_ptr w e i = Some v \<and> (\<forall>j < ?n. Q v (0 + j) (xs ! j) w)" for w
      using that by auto
  qed
qed


text \<open>An enumeration.\<close>

definition enum_at :: "nbuf_obj \<Rightarrow> nat \<Rightarrow> enumType \<Rightarrow> world \<Rightarrow> bool" where
  "enum_at ev n x w \<longleftrightarrow>
    (let e = nbuf_get_elem ev (of_nat n)
     in reads_name e 0 (et_name x) w \<and>
        (\<exists>v. nbuf_get_ptr w e 1 = Some v \<and> unat (nelem v) = length (et_vals x) \<and>
          (\<forall>j < length (et_vals x). value_at v j (et_vals x ! j) w)))"

definition enum_room :: "enumType \<Rightarrow> nat" where
  "enum_room x = room (length (et_name x) + 1) + (room (length (et_vals x) * 8) + sum_list (map value_room (et_vals x)))"

definition enum_names :: "enumType \<Rightarrow> bool" where
  "enum_names x \<longleftrightarrow> 0 \<notin> set (lit (et_name x)) \<and> (\<forall>d \<in> set (et_vals x). 0 \<notin> set (lit (ed_name d)))"

lemma ucast_count [simp]: "ucast (of_nat n :: size_t) = (of_nat n :: uint32)"
  by (rule ucast_of_nat) simp

lemma dvd_sum_rooms: "(\<And>x. 8 dvd k x) \<Longrightarrow> 8 dvd sum_list (map k xs)" for k :: "'x \<Rightarrow> nat"
  by (induction xs) simp_all

lemma enum_room_8 [simp]: "8 dvd enum_room x"
  by (simp add: enum_room_def dvd_sum_rooms)

lemma few_elements: "room (n * m) \<le> 2 ^ 32 \<Longrightarrow> 0 < m \<Longrightarrow> n < 2 ^ 32"
proof -
  assume a: "room (n * m) \<le> 2 ^ 32" "0 < m"
  then have "n \<le> n * m" by simp
  with a(1) room_facts(2) [of "n * m"] show ?thesis by linarith
qed

lemma writes_enum:
  assumes r: "ready a N R (\<lambda>w. nbuf_get_ptr w sch 1 = Some ev) b" and v: "vec_in a N m 0 2 ev" "n < m"
    and al: "all_granted al" and z: "enum_names x" and L: "unat (buf_len b) + enum_room x \<le> 2 ^ 32"
  shows "writes_to a b (slots ev n) (slots ev n \<union> {unat (buf_len b)..<unat (buf_len b) + enum_room x}) (enum_room x)
    (enum_at ev n x) (outenum al sch n x)"
proof -
  let ?e = "nbuf_get_elem ev (of_nat n)" and ?l = "unat (buf_len b)" and ?k1 = "room (length (et_name x) + 1)"
  let ?K = "room (length (et_vals x) * 8) + sum_list (map value_room (et_vals x))"
  have g: "growing N b" using r by (simp add: ready_def)
  note e = vec_elem [OF v(1) g v(2)]
  have es: "esize ?e = 8" using e by (simp add: esize_def)
  have L': "?l + ?k1 + ?K \<le> 2 ^ 32" using L by (simp add: enum_room_def)
  have 1: "writes_to a b (part ?e 0 4) (part ?e 0 4 \<union> {?l..<?l + ?k1}) ?k1
      (reads_name ?e 0 (et_name x)) (\<lambda>w. nbuf_EnumType_set_name al w ?e (cstr (et_name x)) (- 1))"
    using step_str [OF g e(1) al, of 0 "et_name x"] e z L'
    by (simp add: slot_part nbuf_EnumType_set_name_def enum_names_def)
  have cnt: "length (et_vals x) < 2 ^ 32" using L' by (intro few_elements [of _ 8]) simp_all
  have 2: "writes_to a b' (part ?e 4 4) (part ?e 4 4 \<union> {?l + ?k1..<?l + ?k1 + ?K}) ?K
      (\<lambda>w. \<exists>v. nbuf_get_ptr w ?e 1 = Some v \<and> unat (nelem v) = length (et_vals x) \<and>
        (\<forall>j < length (et_vals x). value_at v j (et_vals x ! j) w))
      (\<lambda>w. nbuf_EnumType_init_values al w ?e (of_nat (length (et_vals x))) \<bind> each_from (outvalue al ?e) 0 (et_vals x))"
    if b': "growing N b'" "unat (buf_len b') = ?l + ?k1" for b'
    using writes_filled [where xs = "et_vals x" and s = 4 and p = 1 and k = value_room and Q = value_at and i = 1,
        OF b'(1) e(1) al _ cnt _ _ writes_value value_room_8] e z al L' b'(2)
    by (simp add: slot_part nbuf_EnumType_init_values_def enum_names_def)
  have "part ?e 4 4 \<inter> (part ?e 0 4 \<union> {?l..<?l + ?k1}) = {}"
    using part_apart [of 0 4 4 4 ?e] part_below [OF e(1), of 4 4 ?l] es g by (auto simp: Int_Un_distrib growing_def)
  note s = writes_seq [OF 1 g room_facts(1) 2 this]
  have sub: "part ?e 0 4 \<union> part ?e 4 4 \<subseteq> slots ev n" unfolding e(4) [symmetric] by (auto simp: part_def)
  have "writes_to a b (slots ev n) (slots ev n \<union> {?l..<?l + enum_room x}) (?k1 + ?K) (enum_at ev n x)
      (\<lambda>w. nbuf_EnumType_set_name al w ?e (cstr (et_name x)) (- 1) \<bind>
        (\<lambda>w1. nbuf_EnumType_init_values al w1 ?e (of_nat (length (et_vals x))) \<bind> each_from (outvalue al ?e) 0 (et_vals x)))"
    by (rule writes_weaken [OF s]) (use sub in \<open>auto simp: enum_at_def enum_room_def Let_def\<close>)
  then show ?thesis
    unfolding outenum_def enum_room_def
    by (intro writes_read [where x = ?e]) (simp_all add: nbuf_Schema_enumTypes_def ready_get [OF r])
qed


text \<open>The descriptor of a field.\<close>

definition field_at :: "nbuf_obj \<Rightarrow> nat \<Rightarrow> field_out \<Rightarrow> world \<Rightarrow> bool" where
  "field_at v n f w \<longleftrightarrow>
    (let e = nbuf_get_elem v (of_nat n)
     in reads_name e 0 (out_name f) w \<and> nbuf_FieldDesc_list w e = Some (out_list f) \<and>
        nbuf_FieldDesc_kind w e = Some (out_kind f) \<and> nbuf_FieldDesc_tag0 w e = Some (out_tag0 f) \<and>
        nbuf_FieldDesc_tag1 w e = Some (out_tag1 f))"

definition field_room :: "field_out \<Rightarrow> nat" where
  "field_room f = room (length (out_name f) + 1)"

definition clean_field :: "field_out \<Rightarrow> bool" where
  "clean_field f \<longleftrightarrow> 0 \<notin> set (lit (out_name f)) \<and> (\<forall>v. out_kind f \<noteq> Kind_other v)"

lemma field_room_8 [simp]: "8 dvd field_room f"
  by (simp add: field_room_def)

text \<open>The four scalars of a descriptor, in the order they are set.\<close>

lemma writes_tags:
  assumes g: "growing N b" and e: "elem_in a N e" "ssize e = 12" and k: "\<forall>v. k \<noteq> Kind_other v"
  shows "writes_to a b (part e 0 12) (part e 0 12) 0
    (\<lambda>w. nbuf_FieldDesc_list w e = Some l \<and> nbuf_FieldDesc_kind w e = Some k \<and>
      nbuf_FieldDesc_tag0 w e = Some t0 \<and> nbuf_FieldDesc_tag1 w e = Some t1)
    (\<lambda>w. nbuf_FieldDesc_set_list w e l \<bind> (\<lambda>w. nbuf_FieldDesc_set_kind w e k \<bind>
      (\<lambda>w. nbuf_FieldDesc_set_tag0 w e t0 \<bind> (\<lambda>w. nbuf_FieldDesc_set_tag1 w e t1))))"
proof -
  have 1: "writes_to a b (part e 2 1) (part e 2 1) 0 (\<lambda>w. nbuf_FieldDesc_list w e = Some l)
      (\<lambda>w. nbuf_FieldDesc_set_list w e l)" if "growing N b" for b
    using step_bit [OF that e(1), of 16 "of_bool l"] e(2) by (auto simp: list_bit_cell elim!: writes_weaken)
  have 2: "writes_to a b (part e 0 2) (part e 0 2) 0 (\<lambda>w. nbuf_FieldDesc_kind w e = Some k)
      (\<lambda>w. nbuf_FieldDesc_set_kind w e k)" if "growing N b" for b
    using step_int [OF that e(1), of 0 2 "ucast (ucast (int_of_kind k) :: uint16)"] e(2) small_kind [of k]
      kind_of_int_of_kind [of k] k
    by (auto simp: nbuf_FieldDesc_kind_def nbuf_FieldDesc_set_kind_def elim!: writes_weaken)
  have 3: "writes_to a b (part e 4 4) (part e 4 4) 0 (\<lambda>w. nbuf_FieldDesc_tag0 w e = Some t0)
      (\<lambda>w. nbuf_FieldDesc_set_tag0 w e t0)" if "growing N b" for b
    using step_int [OF that e(1), of 4 4 "ucast t0"] e(2)
    by (auto simp: nbuf_FieldDesc_tag0_def nbuf_FieldDesc_set_tag0_def ucast_int_conv elim!: writes_weaken)
  have 4: "writes_to a b (part e 8 4) (part e 8 4) 0 (\<lambda>w. nbuf_FieldDesc_tag1 w e = Some t1)
      (\<lambda>w. nbuf_FieldDesc_set_tag1 w e t1)" if "growing N b" for b
    using step_int [OF that e(1), of 8 4 "ucast t1"] e(2)
    by (auto simp: nbuf_FieldDesc_tag1_def nbuf_FieldDesc_set_tag1_def ucast_int_conv elim!: writes_weaken)
  have 34: "writes_to a b (part e 4 4 \<union> part e 8 4) (part e 4 4 \<union> part e 8 4) (0 + 0)
      (\<lambda>w. nbuf_FieldDesc_tag0 w e = Some t0 \<and> nbuf_FieldDesc_tag1 w e = Some t1)
      (\<lambda>w. nbuf_FieldDesc_set_tag0 w e t0 \<bind> (\<lambda>w. nbuf_FieldDesc_set_tag1 w e t1))" if g: "growing N b" for b
    by (rule writes_seq [OF 3 [OF g] g _ 4]) (auto simp: part_def)
  have 234: "writes_to a b (part e 0 2 \<union> (part e 4 4 \<union> part e 8 4)) (part e 0 2 \<union> (part e 4 4 \<union> part e 8 4)) (0 + (0 + 0))
      (\<lambda>w. nbuf_FieldDesc_kind w e = Some k \<and> nbuf_FieldDesc_tag0 w e = Some t0 \<and> nbuf_FieldDesc_tag1 w e = Some t1)
      (\<lambda>w. nbuf_FieldDesc_set_kind w e k \<bind>
        (\<lambda>w. nbuf_FieldDesc_set_tag0 w e t0 \<bind> (\<lambda>w. nbuf_FieldDesc_set_tag1 w e t1)))" if g: "growing N b" for b
    by (rule writes_seq [OF 2 [OF g] g _ 34]) (auto simp: part_def)
  have "part e 2 1 \<union> (part e 0 2 \<union> (part e 4 4 \<union> part e 8 4)) \<subseteq> part e 0 12" by (auto simp: part_def)
  moreover have "writes_to a b (part e 2 1 \<union> (part e 0 2 \<union> (part e 4 4 \<union> part e 8 4)))
      (part e 2 1 \<union> (part e 0 2 \<union> (part e 4 4 \<union> part e 8 4))) (0 + (0 + (0 + 0)))
      (\<lambda>w. nbuf_FieldDesc_list w e = Some l \<and> nbuf_FieldDesc_kind w e = Some k \<and>
        nbuf_FieldDesc_tag0 w e = Some t0 \<and> nbuf_FieldDesc_tag1 w e = Some t1)
      (\<lambda>w. nbuf_FieldDesc_set_list w e l \<bind> (\<lambda>w. nbuf_FieldDesc_set_kind w e k \<bind>
        (\<lambda>w. nbuf_FieldDesc_set_tag0 w e t0 \<bind> (\<lambda>w. nbuf_FieldDesc_set_tag1 w e t1))))"
    by (rule writes_seq [OF 1 [OF g] g _ 234]) (auto simp: part_def)
  ultimately show ?thesis by (auto elim!: writes_weaken)
qed

lemma writes_field:
  assumes r: "ready a N R (\<lambda>w. nbuf_get_ptr w ms 1 = Some v) b" and v: "vec_in a N m 12 1 v" "n < m"
    and al: "all_granted al" and z: "clean_field f" and L: "unat (buf_len b) + field_room f \<le> 2 ^ 32"
  shows "writes_to a b (slots v n) (slots v n \<union> {unat (buf_len b)..<unat (buf_len b) + field_room f}) (field_room f)
    (field_at v n f) (put_field al ms n f)"
proof -
  let ?e = "nbuf_get_elem v (of_nat n)" and ?l = "unat (buf_len b)"
  have g: "growing N b" using r by (simp add: ready_def)
  note e = vec_elem [OF v(1) g v(2)]
  have es: "esize ?e = 16" using e by (simp add: esize_def)
  have 1: "writes_to a b (part ?e 12 4) (part ?e 12 4 \<union> {?l..<?l + field_room f}) (field_room f)
      (reads_name ?e 0 (out_name f)) (\<lambda>w. nbuf_FieldDesc_set_name al w ?e (cstr (out_name f)) (- 1))"
    using step_str [OF g e(1) al, of 0 "out_name f"] e z L
    by (simp add: slot_part field_room_def nbuf_FieldDesc_set_name_def clean_field_def)
  have "part ?e 0 12 \<inter> (part ?e 12 4 \<union> {?l..<?l + field_room f}) = {}"
    using part_apart [of 0 12 12 4 ?e] part_below [OF e(1), of 0 12 ?l] es g by (auto simp: Int_Un_distrib growing_def)
  note s = writes_seq [OF 1 g field_room_8 writes_tags [OF _ e(1,2)] this]
  have sub: "part ?e 12 4 \<union> part ?e 0 12 \<subseteq> slots v n" unfolding e(4) [symmetric] by (auto simp: part_def)
  have "writes_to a b (slots v n) (slots v n \<union> {?l..<?l + field_room f}) (field_room f + 0) (field_at v n f)
      (\<lambda>w. nbuf_FieldDesc_set_name al w ?e (cstr (out_name f)) (- 1) \<bind>
        (\<lambda>w. nbuf_FieldDesc_set_list w ?e (out_list f) \<bind> (\<lambda>w. nbuf_FieldDesc_set_kind w ?e (out_kind f) \<bind>
          (\<lambda>w. nbuf_FieldDesc_set_tag0 w ?e (out_tag0 f) \<bind> (\<lambda>w. nbuf_FieldDesc_set_tag1 w ?e (out_tag1 f))))))"
    by (rule writes_weaken [OF s]) (use sub z in \<open>auto simp: field_at_def clean_field_def\<close>)
  then show ?thesis
    unfolding put_field_def
    by (intro writes_read [where x = ?e]) (simp_all add: nbuf_MsgType_fields_def ready_get [OF r])
qed


text \<open>A message type.\<close>

definition msg_at :: "nbuf_obj \<Rightarrow> nat \<Rightarrow> msg_out \<Rightarrow> world \<Rightarrow> bool" where
  "msg_at mv n x w \<longleftrightarrow>
    (let e = nbuf_get_elem mv (of_nat n)
     in reads_name e 0 (mout_name x) w \<and>
        (\<exists>v. nbuf_get_ptr w e 1 = Some v \<and> unat (nelem v) = length (mout_fields x) \<and>
          (\<forall>j < length (mout_fields x). field_at v j (mout_fields x ! j) w)) \<and>
        nbuf_MsgType_ssize w e = Some (mout_ssize x) \<and> nbuf_MsgType_psize w e = Some (mout_psize x))"

definition msg_room :: "msg_out \<Rightarrow> nat" where
  "msg_room x = room (length (mout_name x) + 1) +
    (room (length (mout_fields x) * 16) + sum_list (map field_room (mout_fields x)))"

definition clean_msg :: "msg_out \<Rightarrow> bool" where
  "clean_msg x \<longleftrightarrow> 0 \<notin> set (lit (mout_name x)) \<and> (\<forall>f \<in> set (mout_fields x). clean_field f)"

lemma msg_room_8 [simp]: "8 dvd msg_room x"
  by (simp add: msg_room_def dvd_sum_rooms)

lemma writes_sizes:
  assumes g: "growing N b" and e: "elem_in a N e" "ssize e = 4"
  shows "writes_to a b (part e 0 2 \<union> part e 2 2) (part e 0 2 \<union> part e 2 2) (0 + 0)
    (\<lambda>w. nbuf_MsgType_ssize w e = Some s \<and> nbuf_MsgType_psize w e = Some p)
    (\<lambda>w. nbuf_MsgType_set_ssize w e s \<bind> (\<lambda>w. nbuf_MsgType_set_psize w e p))"
proof -
  have 1: "writes_to a b (part e 0 2) (part e 0 2) 0 (\<lambda>w. nbuf_MsgType_ssize w e = Some s)
      (\<lambda>w. nbuf_MsgType_set_ssize w e s)"
    using step_int [OF g e(1), of 0 2 "ucast s"] e(2)
    by (auto simp: nbuf_MsgType_ssize_def nbuf_MsgType_set_ssize_def ucast_int_conv elim!: writes_weaken)
  have 2: "writes_to a b (part e 2 2) (part e 2 2) 0 (\<lambda>w. nbuf_MsgType_psize w e = Some p)
      (\<lambda>w. nbuf_MsgType_set_psize w e p)" if "growing N b" for b
    using step_int [OF that e(1), of 2 2 "ucast p"] e(2)
    by (auto simp: nbuf_MsgType_psize_def nbuf_MsgType_set_psize_def ucast_int_conv elim!: writes_weaken)
  show ?thesis by (rule writes_seq [OF 1 g _ 2]) (auto simp: part_def)
qed

lemma writes_msg:
  assumes r: "ready a N R (\<lambda>w. nbuf_get_ptr w sch 0 = Some mv) b" and v: "vec_in a N m 4 2 mv" "n < m"
    and al: "all_granted al" and z: "clean_msg x" and L: "unat (buf_len b) + msg_room x \<le> 2 ^ 32"
  shows "writes_to a b (slots mv n) (slots mv n \<union> {unat (buf_len b)..<unat (buf_len b) + msg_room x}) (msg_room x)
    (msg_at mv n x) (put_msg al sch n x)"
proof -
  let ?e = "nbuf_get_elem mv (of_nat n)" and ?l = "unat (buf_len b)" and ?k1 = "room (length (mout_name x) + 1)"
  let ?fs = "mout_fields x"
  let ?K = "room (length ?fs * 16) + sum_list (map field_room ?fs)"
  let ?F = "\<lambda>w. \<exists>v. nbuf_get_ptr w ?e 1 = Some v \<and> unat (nelem v) = length ?fs \<and>
        (\<forall>j < length ?fs. field_at v j (?fs ! j) w)"
  let ?S = "\<lambda>w. nbuf_MsgType_set_ssize w ?e (mout_ssize x) \<bind> (\<lambda>w. nbuf_MsgType_set_psize w ?e (mout_psize x))"
  let ?I = "\<lambda>w. nbuf_MsgType_init_fields al w ?e (of_nat (length ?fs)) \<bind> each_from (put_field al ?e) 0 ?fs"
  have g: "growing N b" using r by (simp add: ready_def)
  note e = vec_elem [OF v(1) g v(2)]
  have es: "esize ?e = 12" using e by (simp add: esize_def)
  have L': "?l + ?k1 + ?K \<le> 2 ^ 32" using L by (simp add: msg_room_def)
  have 1: "writes_to a b (part ?e 4 4) (part ?e 4 4 \<union> {?l..<?l + ?k1}) ?k1
      (reads_name ?e 0 (mout_name x)) (\<lambda>w. nbuf_MsgType_set_name al w ?e (cstr (mout_name x)) (- 1))"
    using step_str [OF g e(1) al, of 0 "mout_name x"] e z L'
    by (simp add: slot_part nbuf_MsgType_set_name_def clean_msg_def)
  have cnt: "length ?fs < 2 ^ 32" using L' by (intro few_elements [of _ 16]) simp_all
  have 2: "writes_to a b' (part ?e 8 4) (part ?e 8 4 \<union> {?l + ?k1..<?l + ?k1 + ?K}) ?K ?F ?I"
    if b': "growing N b'" "unat (buf_len b') = ?l + ?k1" for b'
    using writes_filled [where xs = ?fs and s = 12 and p = 1 and k = field_room and Q = field_at and i = 1,
        OF b'(1) e(1) al _ cnt _ _ writes_field field_room_8] e z al L' b'(2)
    by (simp add: slot_part nbuf_MsgType_init_fields_def clean_msg_def)
  have sizes: "part ?e 0 2 \<union> part ?e 2 2 = part ?e 0 4" by (auto simp: part_def)
  have 23: "writes_to a b' (part ?e 8 4 \<union> (part ?e 0 2 \<union> part ?e 2 2))
      (part ?e 8 4 \<union> {?l + ?k1..<?l + ?k1 + ?K} \<union> (part ?e 0 2 \<union> part ?e 2 2)) (?K + (0 + 0))
      (\<lambda>w. ?F w \<and> nbuf_MsgType_ssize w ?e = Some (mout_ssize x) \<and> nbuf_MsgType_psize w ?e = Some (mout_psize x))
      (\<lambda>w. ?I w \<bind> ?S)"
    if b': "growing N b'" "unat (buf_len b') = ?l + ?k1" for b'
  proof (rule writes_seq [OF 2 [OF b'] b'(1)])
    show "8 dvd ?K" by (simp add: dvd_sum_rooms)
    have "N \<le> ?l + ?k1" using b' by (simp add: growing_def)
    then show "(part ?e 0 2 \<union> part ?e 2 2) \<inter> (part ?e 8 4 \<union> {?l + ?k1..<?l + ?k1 + ?K}) = {}"
      unfolding sizes using part_apart [of 0 4 8 4 ?e] part_below [OF e(1), of 0 4 "?l + ?k1"] es
      by (simp add: Int_Un_distrib)
  qed (use writes_sizes e in blast)
  have N: "N \<le> ?l" using g by (simp add: growing_def)
  have "(part ?e 8 4 \<union> (part ?e 0 2 \<union> part ?e 2 2)) \<inter> (part ?e 4 4 \<union> {?l..<?l + ?k1}) = {}"
    unfolding sizes using part_apart [of 8 4 4 4 ?e] part_apart [of 0 4 4 4 ?e] part_below [OF e(1) _ N, of 8 4]
      part_below [OF e(1) _ N, of 0 4] es
    by (simp add: Int_Un_distrib Int_Un_distrib2)
  note s = writes_seq [OF 1 g room_facts(1) 23 this]
  have sub: "part ?e 4 4 \<union> (part ?e 8 4 \<union> (part ?e 0 2 \<union> part ?e 2 2)) \<subseteq> slots mv n"
    unfolding e(4) [symmetric] by (auto simp: part_def)
  have "writes_to a b (slots mv n) (slots mv n \<union> {?l..<?l + msg_room x}) (?k1 + (?K + (0 + 0))) (msg_at mv n x)
      (\<lambda>w. nbuf_MsgType_set_name al w ?e (cstr (mout_name x)) (- 1) \<bind> (\<lambda>w. ?I w \<bind> ?S))"
    by (rule writes_weaken [OF s]) (use sub in \<open>auto simp: msg_at_def msg_room_def Let_def\<close>)
  then show ?thesis
    unfolding put_msg_def msg_room_def
    by (intro writes_read [where x = ?e]) (simp_all add: nbuf_Schema_msgTypes_def ready_get [OF r])
qed


section \<open>Reading back\<close>

lemma collect_all_nth: "(\<And>j. j < length xs \<Longrightarrow> g j = Some (xs ! j)) \<Longrightarrow> collect g [0..<length xs] = Some xs"
proof -
  have "map g is = map Some ys \<Longrightarrow> collect g is = Some ys" for "is" ys
    by (induction "is" arbitrary: ys) auto
  moreover assume "\<And>j. j < length xs \<Longrightarrow> g j = Some (xs ! j)"
  then have "map g [0..<length xs] = map Some xs" by (intro nth_equalityI) simp_all
  ultimately show ?thesis by blast
qed

lemma reads_text: "reads_name e i s w \<Longrightarrow> text_of (nbuf_get_str w e i) = Some s"
  by (auto simp: reads_name_def text_of_Some)

lemma enum_at_read:
  assumes "enum_at ev n x w"
  shows "read_enum w (nbuf_get_elem ev (of_nat n)) = Some x"
proof -
  let ?e = "nbuf_get_elem ev (of_nat n)"
  obtain v where v: "reads_name ?e 0 (et_name x) w" "nbuf_get_ptr w ?e 1 = Some v"
    "unat (nelem v) = length (et_vals x)" "\<And>j. j < length (et_vals x) \<Longrightarrow> value_at v j (et_vals x ! j) w"
    using assms by (auto simp: enum_at_def Let_def)
  have "collect (\<lambda>i. do { d \<leftarrow> nbuf_EnumType_values w ?e (of_nat i); name \<leftarrow> text_of (nbuf_EnumDesc_name w d);
      u \<leftarrow> nbuf_EnumDesc_value w d; Some \<lparr>ed_name = name, ed_val = u\<rparr> }) [0..<length (et_vals x)] = Some (et_vals x)"
    using v(2) v(4) by (intro collect_all_nth)
      (auto simp: nbuf_EnumType_values_def nbuf_EnumDesc_name_def value_at_def Let_def dest!: v(4) reads_text)
  then show ?thesis
    using v(1-3) by (simp add: read_enum_def nbuf_EnumType_name_def nbuf_EnumType_values_size_def reads_text)
qed

lemma msg_at_read:
  assumes "msg_at mv n x w"
  shows "read_msg w (nbuf_get_elem mv (of_nat n)) = Some x"
proof -
  let ?e = "nbuf_get_elem mv (of_nat n)"
  obtain v where v: "reads_name ?e 0 (mout_name x) w" "nbuf_get_ptr w ?e 1 = Some v"
    "unat (nelem v) = length (mout_fields x)" "\<And>j. j < length (mout_fields x) \<Longrightarrow> field_at v j (mout_fields x ! j) w"
    and s: "nbuf_MsgType_ssize w ?e = Some (mout_ssize x)" "nbuf_MsgType_psize w ?e = Some (mout_psize x)"
    using assms by (auto simp: msg_at_def Let_def)
  have "collect (\<lambda>i. do { fld \<leftarrow> nbuf_MsgType_fields w ?e (of_nat i); read_field w fld }) [0..<length (mout_fields x)]
      = Some (mout_fields x)"
    using v(2) by (intro collect_all_nth)
      (auto simp: nbuf_MsgType_fields_def nbuf_FieldDesc_name_def field_at_def read_field_def Let_def
        dest!: v(4) reads_text)
  then show ?thesis
    using v(1-3) s by (simp add: read_msg_def nbuf_MsgType_name_def nbuf_MsgType_fields_size_def reads_text)
qed

section \<open>The tables of a schema\<close>

text \<open>A table that is created only when it has entries, at position \<open>l\<close>.\<close>

definition table_obj :: "nat \<Rightarrow> nat \<Rightarrow> nat \<Rightarrow> uint16 \<Rightarrow> uint16 \<Rightarrow> nbuf_obj" where
  "table_obj a l n s p =
    (if n = 0 then null_obj a
     else \<lparr>obj_buf = a, obj_base = of_nat l + 8, nelem = of_nat n, ssize = s, psize = p\<rparr>)"

definition table_room :: "nat \<Rightarrow> nat \<Rightarrow> nat" where
  "table_room n sz = (if n = 0 then 0 else room (n * sz))"

lemma table_room_8 [simp]: "8 dvd table_room n sz"
  by (simp add: table_room_def)

lemma fresh_table: "n \<noteq> 0 \<Longrightarrow> fresh_obj a b (of_nat n) s p = table_obj a (unat (buf_len b)) n s p"
  by (simp add: fresh_obj_def table_obj_def)

lemma writes_table:
  assumes g: "growing N b" and e: "elem_in a N e" and al: "all_granted al" and i: "unat i < unat (psize e)"
    and null: "holds a (slot e i) b (\<lambda>w. nbuf_get_ptr w e i = Some (null_obj a))"
    and sz: "unat s mod 4 = 0" "s \<noteq> 0 \<or> p \<noteq> 0" "sz = unat s + 4 * unat p"
    and L: "unat (buf_len b) + table_room n sz \<le> 2 ^ 32"
  shows "writes_to a b (slot e i) (slot e i \<union> {unat (buf_len b)..<unat (buf_len b) + (if n = 0 then 0 else 8)})
    (table_room n sz) (\<lambda>w. nbuf_get_ptr w e i = Some (table_obj a (unat (buf_len b)) n s p))
    (\<lambda>w. if n > 0 then do { (rr, w1) \<leftarrow> nbuf_create al w (obj_buf e) (of_nat n) s p; nbuf_put_ptr w1 e i rr }
         else Some w)"
proof (cases "n = 0")
  case True
  have "writes_to a b {} (slot e i) 0 (\<lambda>w. nbuf_get_ptr w e i = Some (null_obj a)) Some"
    using g by (intro writes_nothing [OF null]) (simp_all add: growing_def)
  from writes_weaken [OF this, of "slot e i" "slot e i" "\<lambda>w. nbuf_get_ptr w e i = Some (null_obj a)"]
  show ?thesis using True by (simp add: table_obj_def table_room_def)
next
  case False
  have z: "0 < sz" using sz(2,3) by (auto simp: unat_gt_0)
  have "n < 2 ^ 32" using L False by (intro few_elements [OF _ z]) (simp add: table_room_def)
  from step_vec [OF g e al i this sz(1,2)] show ?thesis
    using False L sz(3) by (simp add: table_room_def fresh_table)
qed

lemma table_vec:
  assumes "8 dvd l" and "0 < n" and "l + room (n * (unat s + 4 * unat p)) \<le> 2 ^ 32" and "unat s mod 4 = 0"
    and "s \<noteq> 0 \<or> p \<noteq> 0" and "l + 8 + n * (unat s + 4 * unat p) \<le> N"
  shows "vec_in a N n s p (table_obj a l n s p)" and "unat (obj_base (table_obj a l n s p)) = l + 8"
proof -
  have l: "l < 2 ^ 33" using assms(3) by simp
  then have u: "unat (of_nat l + 8 :: size_t) = l + 8"
    by (subst unat_add_nowrap) (simp_all add: unat_of_nat_64)
  then show b: "unat (obj_base (table_obj a l n s p)) = l + 8" using assms(2) by (simp add: table_obj_def)
  have "0 < unat s + 4 * unat p" using assms(5) by (auto simp: unat_gt_0)
  from few_elements [OF _ this] assms(3) have "n < 2 ^ 32" by simp
  then have "unat (of_nat n :: uint32) = n" by (simp add: unat_of_nat take_bit_nat_eq_self)
  moreover have "4 dvd l" using assms(1) dvd_trans [of 4 8 l] by simp
  then have "(l + 8) mod 4 = 0" by (simp add: mod_eq_0_iff_dvd)
  ultimately show "vec_in a N n s p (table_obj a l n s p)"
    using assms(2,4,6) u \<open>0 < unat s + 4 * unat p\<close> by (simp add: vec_in_def table_obj_def esize_def)
qed

text \<open>Filling in a table.\<close>

lemma writes_table_filled:
  fixes xs :: "'x list" and k :: "'x \<Rightarrow> nat" and Q :: "nat \<Rightarrow> 'x \<Rightarrow> world \<Rightarrow> bool"
  defines "n \<equiv> length xs"
  assumes rd: "ready a N R (\<lambda>w. nbuf_get_ptr w e i = Some (table_obj a l n s p)) b"
    and l: "8 dvd l" "0 < n \<Longrightarrow> l + 8 + n * sz \<le> N" "l + table_room n sz \<le> 2 ^ 32"
    and sz: "unat s mod 4 = 0" "s \<noteq> 0 \<or> p \<noteq> 0" "sz = unat s + 4 * unat p"
    and step: "\<And>b j x. ready a N R (\<lambda>w. nbuf_get_ptr w e i = Some (table_obj a l n s p)) b \<Longrightarrow>
      vec_in a N n s p (table_obj a l n s p) \<Longrightarrow> j < n \<Longrightarrow> x \<in> set xs \<Longrightarrow> unat (buf_len b) + k x \<le> 2 ^ 32 \<Longrightarrow>
      writes_to a b (slots (table_obj a l n s p) j) (slots (table_obj a l n s p) j \<union>
        {unat (buf_len b)..<unat (buf_len b) + k x}) (k x) (Q j x) (f j x)"
    and eight: "\<And>x. 8 dvd k x" and R: "R \<inter> {l + 8..<l + 8 + n * sz} = {}"
    and L: "unat (buf_len b) + sum_list (map k xs) \<le> 2 ^ 32"
  shows "writes_to a b {l + 8..<l + 8 + n * sz}
    ({l + 8..<l + 8 + n * sz} \<union> {unat (buf_len b)..<unat (buf_len b) + sum_list (map k xs)})
    (sum_list (map k xs)) (\<lambda>w. \<forall>j < n. Q j (xs ! j) w) (each_from f 0 xs)"
proof -
  let ?v = "table_obj a l n s p"
  have v: "vec_in a N n s p ?v" "unat (obj_base ?v) = l + 8" "slots ?v j \<subseteq> {l + 8..<l + 8 + n * sz}" if "j < n" for j
  proof -
    have "0 < n" using that by simp
    then show v: "vec_in a N n s p ?v" "unat (obj_base ?v) = l + 8"
      using table_vec [of l n s p N a] l sz by (simp_all add: table_room_def)
    then have es: "esize ?v = sz" using sz(3) by (simp add: vec_in_def esize_def)
    show "slots ?v j \<subseteq> {l + 8..<l + 8 + n * sz}"
    proof
      fix q assume "q \<in> slots ?v j"
      moreover from this have "q < unat (obj_base ?v) + n * esize ?v" using slots_inside [OF that, of ?v] by blast
      ultimately show "q \<in> {l + 8..<l + 8 + n * sz}" using es v(2) by (simp add: slots_def)
    qed
  qed
  have st: "writes_to a b' (slots ?v j) (slots ?v j \<union> {unat (buf_len b')..<unat (buf_len b') + k x}) (k x) (Q j x) (f j x)"
    if "ready a N R (\<lambda>w. nbuf_get_ptr w e i = Some ?v) b'" "j < n" "x \<in> set xs" "unat (buf_len b') + k x \<le> 2 ^ 32"
    for b' j x
    by (rule step [OF that(1) v(1) [OF that(2)] that(2-4)])
  have apart: "slots ?v j \<inter> R = {}" "slots ?v j \<subseteq> {..<N}" if "j < n" for j
    using v(3) [OF that] R l(2) that by auto
  have "0 + length xs \<le> n" by (simp add: n_def)
  from writes_each [where Q = Q and n = n and i = 0, OF st eight slots_apart apart rd subset_refl this L]
  show ?thesis
  proof (rule writes_weaken)
    have "(\<Union>j \<in> {0..<0 + length xs}. slots ?v j) \<subseteq> {l + 8..<l + 8 + n * sz}"
      using v(3) by (intro UN_least) (simp add: n_def)
    then show "q \<in> {l + 8..<l + 8 + n * sz}" if "q \<in> (\<Union>j \<in> {0..<0 + length xs}. slots ?v j)" for q
      using that by blast
    show "(\<Union>j \<in> {0..<0 + length xs}. slots ?v j) \<union> {unat (buf_len b)..<unat (buf_len b) + sum_list (map k xs)}
      \<subseteq> {l + 8..<l + 8 + n * sz} \<union> {unat (buf_len b)..<unat (buf_len b) + sum_list (map k xs)}"
      using \<open>(\<Union>j \<in> {0..<0 + length xs}. slots ?v j) \<subseteq> _\<close> by blast
  qed (auto simp: n_def)
qed


end
