(* ===== verification/Compiled.thy ===== *)
theory Compiled
  imports T2b
begin

text \<open>
  The schema compiler as a whole: the message that \<^verbatim>\<open>nbuf_t2b\<close> writes reads back as the description it
  was given, with the layout of \<open>Layout\<close>; and the text that \<^verbatim>\<open>nbuf_b2t\<close> prints for that message parses to
  the description again.
\<close>

section \<open>Writing the schema message\<close>

definition pkg_text :: "schemaDesc \<Rightarrow> string" where
  "pkg_text d = (case sd_pkgName d of None \<Rightarrow> [] | Some p \<Rightarrow> p)"

definition pkg_room :: "schemaDesc \<Rightarrow> nat" where
  "pkg_room d = (case sd_pkgName d of None \<Rightarrow> 0 | Some p \<Rightarrow> room (length p + 1))"

lemma pkg_room_8 [simp]: "8 dvd pkg_room d"
  by (simp add: pkg_room_def split: option.split)

lemma holds_no_str:
  assumes "holds a R b (\<lambda>w. nbuf_get_ptr w e i = Some (null_obj a))" and "obj_buf e = a"
  shows "holds a R b (reads_name e i [])"
  using assms by (auto simp: holds_def reads_name_def nbuf_get_str_def nbuf_str_of_def null_obj_def
      fmt_s_def c_strlen_def c_string_def)

lemma writes_pkg:
  assumes g: "growing N b" and e: "elem_in a N e" "2 < unat (psize e)" and al: "all_granted al"
    and null: "holds a (slot e 2) b (\<lambda>w. nbuf_get_ptr w e 2 = Some (null_obj a))"
    and z: "0 \<notin> set (lit (pkg_text d))" and L: "unat (buf_len b) + pkg_room d \<le> 2 ^ 32"
  shows "writes_to a b (slot e 2) (slot e 2 \<union> {unat (buf_len b)..<unat (buf_len b) + pkg_room d}) (pkg_room d)
    (reads_name e 2 (pkg_text d))
    (\<lambda>w. case sd_pkgName d of None \<Rightarrow> Some w | Some p \<Rightarrow> nbuf_Schema_set_pkgName al w e (cstr p) (- 1))"
proof (cases "sd_pkgName d")
  case None
  have "holds a (slot e 2) b (reads_name e 2 [])" using null e(1) by (intro holds_no_str) (simp_all add: elem_in_def)
  then have "writes_to a b {} (slot e 2) 0 (reads_name e 2 []) Some"
    using g by (intro writes_nothing) (simp_all add: growing_def)
  from writes_weaken [OF this, of "slot e 2" "slot e 2" "reads_name e 2 []"] show ?thesis
    using None by (simp add: pkg_text_def pkg_room_def)
next
  case (Some p)
  with step_str [OF g e(1) al, of 2 p] e z L show ?thesis
    by (simp add: pkg_text_def pkg_room_def nbuf_Schema_set_pkgName_def)
qed

text \<open>The object of the schema, at the start of its buffer.\<close>

definition schema_obj :: "nat \<Rightarrow> nbuf_obj" where
  "schema_obj a = \<lparr>obj_buf = a, obj_base = 8, nelem = 1, ssize = 0, psize = 3\<rparr>"

lemma schema_obj_in: "elem_in a 20 (schema_obj a)"
  by (simp add: elem_in_def schema_obj_def esize_def)

lemma schema_slots [simp]:
  "slot (schema_obj a) 0 = {8..<12}" "slot (schema_obj a) 1 = {12..<16}" "slot (schema_obj a) 2 = {16..<20}"
  by (simp_all add: slot_def ptr_pos_def schema_obj_def)

definition init_tables :: "allocator \<Rightarrow> nat \<Rightarrow> schemaDesc \<Rightarrow> world \<Rightarrow> world option" where
  "init_tables al a d w =
    do { w2 \<leftarrow> (case sd_pkgName d of
                 None \<Rightarrow> Some w
               | Some name \<Rightarrow> nbuf_Schema_set_pkgName al w (schema_obj a) (cstr name) (- 1));
         w3 \<leftarrow> (if length (sd_enums d) > 0
               then nbuf_Schema_init_enumTypes al w2 (schema_obj a) (of_nat (length (sd_enums d))) else Some w2);
         (if length (sd_msgs d) > 0
          then nbuf_Schema_init_msgTypes al w3 (schema_obj a) (of_nat (length (sd_msgs d))) else Some w3) }"

text \<open>Where the tables begin, and the whole size.\<close>

definition enums_pos :: "schemaDesc \<Rightarrow> nat" where
  "enums_pos d = 24 + pkg_room d"

definition msgs_pos :: "schemaDesc \<Rightarrow> nat" where
  "msgs_pos d = enums_pos d + table_room (length (sd_enums d)) 8"

definition tables_end :: "schemaDesc \<Rightarrow> nat" where
  "tables_end d = msgs_pos d + table_room (length (sd_msgs d)) 12"

definition schema_size :: "schemaDesc \<Rightarrow> msg_out list \<Rightarrow> nat" where
  "schema_size d ms = tables_end d + sum_list (map enum_room (sd_enums d)) + sum_list (map msg_room ms)"

definition enums_obj :: "nat \<Rightarrow> schemaDesc \<Rightarrow> nbuf_obj" where
  "enums_obj a d = table_obj a (enums_pos d) (length (sd_enums d)) 0 2"

definition msgs_obj :: "nat \<Rightarrow> schemaDesc \<Rightarrow> nbuf_obj" where
  "msgs_obj a d = table_obj a (msgs_pos d) (length (sd_msgs d)) 4 2"

definition tables_at :: "nat \<Rightarrow> schemaDesc \<Rightarrow> world \<Rightarrow> bool" where
  "tables_at a d w \<longleftrightarrow> reads_name (schema_obj a) 2 (pkg_text d) w \<and>
    nbuf_get_ptr w (schema_obj a) 1 = Some (enums_obj a d) \<and> nbuf_get_ptr w (schema_obj a) 0 = Some (msgs_obj a d)"

text \<open>The bytes that the two tables are found through.\<close>

definition tables_region :: "schemaDesc \<Rightarrow> nat set" where
  "tables_region d = {8..<enums_pos d} \<union>
    {enums_pos d..<enums_pos d + (if sd_enums d = [] then 0 else 8)} \<union>
    {msgs_pos d..<msgs_pos d + (if sd_msgs d = [] then 0 else 8)}"

lemma writes_tables:
  assumes g: "growing 20 b" and l: "unat (buf_len b) = 24" and al: "all_granted al"
    and null: "\<And>i. unat i < 3 \<Longrightarrow> holds a (slot (schema_obj a) i) b (\<lambda>w. nbuf_get_ptr w (schema_obj a) i = Some (null_obj a))"
    and z: "0 \<notin> set (lit (pkg_text d))" and L: "tables_end d \<le> 2 ^ 32"
  shows "writes_to a b {8..<20} (tables_region d) (tables_end d - 24) (tables_at a d) (init_tables al a d)"
proof -
  let ?s = "schema_obj a" and ?ne = "length (sd_enums d)" and ?nm = "length (sd_msgs d)"
  let ?ke = "table_room ?ne 8" and ?km = "table_room ?nm 12"
  note e = schema_obj_in [of a]
  have ps: "unat (psize ?s) = 3" by (simp add: schema_obj_def)
  have pos: "enums_pos d = 24 + pkg_room d" "msgs_pos d = 24 + pkg_room d + ?ke"
    "tables_end d = 24 + pkg_room d + ?ke + ?km"
    by (simp_all add: enums_pos_def msgs_pos_def tables_end_def)
  have A: "writes_to a b {16..<20} ({16..<20} \<union> {24..<24 + pkg_room d}) (pkg_room d) (reads_name ?s 2 (pkg_text d))
      (\<lambda>w. case sd_pkgName d of None \<Rightarrow> Some w | Some p \<Rightarrow> nbuf_Schema_set_pkgName al w ?s (cstr p) (- 1))"
    using writes_pkg [OF g e _ al null z] l L ps by (simp add: pos)
  have B: "writes_to a b' {12..<16} ({12..<16} \<union> {24 + pkg_room d..<24 + pkg_room d + (if ?ne = 0 then 0 else 8)}) ?ke
      (\<lambda>w. nbuf_get_ptr w ?s 1 = Some (enums_obj a d))
      (\<lambda>w. if ?ne > 0 then nbuf_Schema_init_enumTypes al w ?s (of_nat ?ne) else Some w)"
    if b': "growing 20 b'" "agrees (- {16..<20}) b b'" "unat (buf_len b') = unat (buf_len b) + pkg_room d" for b'
  proof -
    have len: "unat (buf_len b') = 24 + pkg_room d" using b'(3) l by simp
    have h: "holds a (slot ?s 1) b' (\<lambda>w. nbuf_get_ptr w ?s 1 = Some (null_obj a))"
      by (rule holds_keep [OF null b'(2)]) auto
    have i: "unat (1 :: size_t) < unat (psize ?s)" using ps by simp
    have u: "unat (0 :: uint16) mod 4 = 0" "(0 :: uint16) \<noteq> 0 \<or> (2 :: uint16) \<noteq> 0"
      "8 = unat (0 :: uint16) + 4 * unat (2 :: uint16)" by simp_all
    have L1: "unat (buf_len b') + ?ke \<le> 2 ^ 32" using L len by (simp add: pos)
    from writes_table [OF b'(1) e al i h u L1] show ?thesis
      unfolding enums_obj_def nbuf_Schema_init_enumTypes_def ucast_count schema_slots len pos(1) .
  qed
  have C: "writes_to a b' {8..<12} ({8..<12} \<union> {24 + pkg_room d + ?ke..<24 + pkg_room d + ?ke + (if ?nm = 0 then 0 else 8)}) ?km
      (\<lambda>w. nbuf_get_ptr w ?s 0 = Some (msgs_obj a d))
      (\<lambda>w. if ?nm > 0 then nbuf_Schema_init_msgTypes al w ?s (of_nat ?nm) else Some w)"
    if b': "growing 20 b'" "agrees (- ({16..<20} \<union> {12..<16})) b b'"
      "unat (buf_len b') = unat (buf_len b) + (pkg_room d + ?ke)" for b'
  proof -
    have len: "unat (buf_len b') = 24 + pkg_room d + ?ke" using b'(3) l by simp
    have h: "holds a (slot ?s 0) b' (\<lambda>w. nbuf_get_ptr w ?s 0 = Some (null_obj a))"
      by (rule holds_keep [OF null b'(2)]) auto
    have i: "unat (0 :: size_t) < unat (psize ?s)" using ps by simp
    have u: "unat (4 :: uint16) mod 4 = 0" "(4 :: uint16) \<noteq> 0 \<or> (2 :: uint16) \<noteq> 0"
      "12 = unat (4 :: uint16) + 4 * unat (2 :: uint16)" by simp_all
    have L1: "unat (buf_len b') + ?km \<le> 2 ^ 32" using L len by (simp add: pos)
    from writes_table [OF b'(1) e al i h u L1] show ?thesis
      unfolding msgs_obj_def nbuf_Schema_init_msgTypes_def ucast_count schema_slots len pos(2) .
  qed
  have dA: "{12..<16} \<inter> ({16..<20} \<union> {24..<24 + pkg_room d}) = {}" by auto
  note AB = writes_seq [OF A g pkg_room_8 B dA]
  have k: "8 dvd pkg_room d + ?ke" by simp
  have dB: "{8..<12} \<inter> ({16..<20} \<union> {24..<x} \<union> ({12..<16} \<union> {24 + y..<z})) = {}" for x y z :: nat
    by auto
  note ABC = writes_seq [OF AB g k C dB]
  have "{8..<12} \<union> {12..<16} \<union> {16..<20} \<union> {24..<24 + x} \<subseteq> {8..<24 + x}" for x :: nat by auto
  then have R: "{16..<20} \<union> {24..<24 + pkg_room d} \<union>
      ({12..<16} \<union> {24 + pkg_room d..<24 + pkg_room d + (if ?ne = 0 then 0 else 8)}) \<union>
      ({8..<12} \<union> {24 + pkg_room d + ?ke..<24 + pkg_room d + ?ke + (if ?nm = 0 then 0 else 8)}) \<subseteq> tables_region d"
    unfolding tables_region_def pos length_0_conv by blast
  have f: "init_tables al a d = (\<lambda>w. ((case sd_pkgName d of None \<Rightarrow> Some w
        | Some p \<Rightarrow> nbuf_Schema_set_pkgName al w ?s (cstr p) (- 1)) \<bind>
      (\<lambda>w. if ?ne > 0 then nbuf_Schema_init_enumTypes al w ?s (of_nat ?ne) else Some w)) \<bind>
      (\<lambda>w. if ?nm > 0 then nbuf_Schema_init_msgTypes al w ?s (of_nat ?nm) else Some w))"
    by (rule ext) (simp only: init_tables_def Option.bind_assoc)
  have K: "tables_end d - 24 = pkg_room d + ?ke + ?km" by (simp add: pos)
  show ?thesis
    unfolding f K by (rule writes_weaken [OF ABC _ R]) (auto simp: tables_at_def)
qed

text \<open>All of it: the tables, the enumerations, the messages.\<close>

definition schema_at :: "nat \<Rightarrow> schemaDesc \<Rightarrow> msg_out list \<Rightarrow> world \<Rightarrow> bool" where
  "schema_at a d ms w \<longleftrightarrow> tables_at a d w \<and>
    (\<forall>j < length (sd_enums d). enum_at (enums_obj a d) j (sd_enums d ! j) w) \<and>
    (\<forall>j < length ms. msg_at (msgs_obj a d) j (ms ! j) w)"

definition clean_desc :: "schemaDesc \<Rightarrow> msg_out list \<Rightarrow> bool" where
  "clean_desc d ms \<longleftrightarrow> 0 \<notin> set (lit (pkg_text d)) \<and> (\<forall>x \<in> set (sd_enums d). enum_names x) \<and>
    (\<forall>x \<in> set ms. clean_msg x)"

lemma table_room_fits: "0 < n \<Longrightarrow> 8 + n * sz \<le> table_room n sz"
  using room_facts(2) by (simp add: table_room_def)

lemma tables_apart:
  "tables_region d \<inter> {enums_pos d + 8..<enums_pos d + 8 + length (sd_enums d) * 8} = {}"
  "tables_region d \<inter> {msgs_pos d + 8..<msgs_pos d + 8 + length (sd_msgs d) * 12} = {}"
proof -
  have "{8..<x} \<inter> {x + 8..<y} = {}" "{x..<x + (if c then 0 else 8)} \<inter> {x + 8..<y} = {}" for x y :: nat and c by auto
  moreover have "{x..<y} \<inter> {z..<u} = {}" if "u \<le> x" for x y z u :: nat using that by auto
  moreover have "{x..<y} \<inter> {z..<u} = {}" if "y \<le> z" for x y z u :: nat using that by auto
  moreover have m: "enums_pos d + 8 + length (sd_enums d) * 8 \<le> msgs_pos d" if "sd_enums d \<noteq> []"
    using table_room_fits [of "length (sd_enums d)" 8] that by (simp add: msgs_pos_def)
  moreover have "enums_pos d \<le> msgs_pos d" by (simp add: msgs_pos_def)
  ultimately show "tables_region d \<inter> {enums_pos d + 8..<enums_pos d + 8 + length (sd_enums d) * 8} = {}"
    "tables_region d \<inter> {msgs_pos d + 8..<msgs_pos d + 8 + length (sd_msgs d) * 12} = {}"
    by (cases "sd_enums d = []"; simp add: tables_region_def Int_Un_distrib2)+
qed

lemma writes_enums:
  assumes rd: "growing (tables_end d) b" "holds a (tables_region d) b (tables_at a d)" and al: "all_granted al"
    and z: "\<forall>x \<in> set (sd_enums d). enum_names x"
    and L: "unat (buf_len b) + sum_list (map enum_room (sd_enums d)) \<le> 2 ^ 32" "tables_end d \<le> 2 ^ 32"
  defines "D \<equiv> {enums_pos d + 8..<enums_pos d + 8 + length (sd_enums d) * 8}"
  shows "writes_to a b D (D \<union> {unat (buf_len b)..<unat (buf_len b) + sum_list (map enum_room (sd_enums d))})
    (sum_list (map enum_room (sd_enums d))) (\<lambda>w. \<forall>j < length (sd_enums d). enum_at (enums_obj a d) j (sd_enums d ! j) w)
    (outenums al (schema_obj a) d)"
proof -
  let ?n = "length (sd_enums d)"
  let ?P = "\<lambda>w. nbuf_get_ptr w (schema_obj a) 1 = Some (table_obj a (enums_pos d) (length (sd_enums d)) 0 2)"
  have "holds a (tables_region d) b ?P"
    by (rule holds_mono [OF rd(2) subset_refl]) (simp add: tables_at_def enums_obj_def)
  then have r: "ready a (tables_end d) (tables_region d) ?P b" using rd(1) by (simp add: ready_def)
  have l: "8 dvd enums_pos d" "0 < ?n \<Longrightarrow> enums_pos d + 8 + ?n * 8 \<le> tables_end d" "enums_pos d + table_room ?n 8 \<le> 2 ^ 32"
    using table_room_fits [of ?n 8] L(2) by (simp_all add: enums_pos_def tables_end_def msgs_pos_def)
  have u: "unat (0 :: uint16) mod 4 = 0" "(0 :: uint16) \<noteq> 0 \<or> (2 :: uint16) \<noteq> 0"
    "8 = unat (0 :: uint16) + 4 * unat (2 :: uint16)" by simp_all
  have step: "writes_to a b' (slots (table_obj a (enums_pos d) ?n 0 2) j)
      (slots (table_obj a (enums_pos d) ?n 0 2) j \<union> {unat (buf_len b')..<unat (buf_len b') + enum_room x}) (enum_room x)
      (enum_at (enums_obj a d) j x) (outenum al (schema_obj a) j x)"
    if "ready a (tables_end d) (tables_region d) ?P b'" "vec_in a (tables_end d) ?n 0 2 (table_obj a (enums_pos d) ?n 0 2)"
      "j < ?n" "x \<in> set (sd_enums d)" "unat (buf_len b') + enum_room x \<le> 2 ^ 32" for b' j x
    using writes_enum [OF that(1-3) al _ that(5)] z that(4) unfolding enums_obj_def by blast
  have "outenums al (schema_obj a) d = each_from (outenum al (schema_obj a)) 0 (sd_enums d)"
    by (rule ext) (simp add: outenums_def)
  then show ?thesis
    using writes_table_filled [OF r l u step enum_room_8 tables_apart(1) L(1)] unfolding D_def by simp
qed

lemma writes_msgs:
  assumes rd: "growing (tables_end d) b" "holds a R b (tables_at a d)"
    and R: "R \<inter> {msgs_pos d + 8..<msgs_pos d + 8 + length (sd_msgs d) * 12} = {}" and al: "all_granted al"
    and z: "\<forall>x \<in> set ms. clean_msg x" and n: "length ms = length (sd_msgs d)"
    and L: "unat (buf_len b) + sum_list (map msg_room ms) \<le> 2 ^ 32" "tables_end d \<le> 2 ^ 32"
  defines "D \<equiv> {msgs_pos d + 8..<msgs_pos d + 8 + length (sd_msgs d) * 12}"
  shows "writes_to a b D (D \<union> {unat (buf_len b)..<unat (buf_len b) + sum_list (map msg_room ms)})
    (sum_list (map msg_room ms)) (\<lambda>w. \<forall>j < length ms. msg_at (msgs_obj a d) j (ms ! j) w)
    (each_from (put_msg al (schema_obj a)) 0 ms)"
proof -
  let ?n = "length ms"
  let ?P = "\<lambda>w. nbuf_get_ptr w (schema_obj a) 0 = Some (table_obj a (msgs_pos d) (length ms) 4 2)"
  have "holds a R b ?P"
    by (rule holds_mono [OF rd(2) subset_refl]) (simp add: tables_at_def msgs_obj_def n)
  then have r: "ready a (tables_end d) R ?P b" using rd(1) by (simp add: ready_def)
  have l: "8 dvd msgs_pos d" "0 < ?n \<Longrightarrow> msgs_pos d + 8 + ?n * 12 \<le> tables_end d" "msgs_pos d + table_room ?n 12 \<le> 2 ^ 32"
    using table_room_fits [of ?n 12] L(2) n by (simp_all add: enums_pos_def tables_end_def msgs_pos_def)
  have u: "unat (4 :: uint16) mod 4 = 0" "(4 :: uint16) \<noteq> 0 \<or> (2 :: uint16) \<noteq> 0"
    "12 = unat (4 :: uint16) + 4 * unat (2 :: uint16)" by simp_all
  have step: "writes_to a b' (slots (table_obj a (msgs_pos d) ?n 4 2) j)
      (slots (table_obj a (msgs_pos d) ?n 4 2) j \<union> {unat (buf_len b')..<unat (buf_len b') + msg_room x}) (msg_room x)
      (msg_at (msgs_obj a d) j x) (put_msg al (schema_obj a) j x)"
    if "ready a (tables_end d) R ?P b'" "vec_in a (tables_end d) ?n 4 2 (table_obj a (msgs_pos d) ?n 4 2)"
      "j < ?n" "x \<in> set ms" "unat (buf_len b') + msg_room x \<le> 2 ^ 32" for b' j x
    using writes_msg [OF that(1-3) al _ that(5)] z that(4) unfolding msgs_obj_def n [symmetric] by blast
  show ?thesis
    using writes_table_filled [OF r l u step msg_room_8 R [folded n] L(1)] unfolding D_def n by simp
qed


lemma msgs_apart:
  assumes "tables_end d \<le> l"
  shows "(tables_region d \<union> ({enums_pos d + 8..<enums_pos d + 8 + length (sd_enums d) * 8} \<union> {l..<u})) \<inter>
    {msgs_pos d + 8..<msgs_pos d + 8 + length (sd_msgs d) * 12} = {}"
proof -
  have "length (sd_enums d) = 0 \<or> enums_pos d + 8 + length (sd_enums d) * 8 \<le> msgs_pos d"
    using table_room_fits [of "length (sd_enums d)" 8] by (cases "sd_enums d = []") (simp_all add: msgs_pos_def)
  then have "{enums_pos d + 8..<enums_pos d + 8 + length (sd_enums d) * 8} \<inter>
      {msgs_pos d + 8..<msgs_pos d + 8 + length (sd_msgs d) * 12} = {}" by auto
  moreover have "length (sd_msgs d) = 0 \<or> msgs_pos d + 8 + length (sd_msgs d) * 12 \<le> l"
    using table_room_fits [of "length (sd_msgs d)" 12] assms by (cases "sd_msgs d = []") (simp_all add: tables_end_def)
  then have "{l..<u} \<inter> {msgs_pos d + 8..<msgs_pos d + 8 + length (sd_msgs d) * 12} = {}" by auto
  ultimately show ?thesis using tables_apart(2) by (simp add: Int_Un_distrib2)
qed

lemma tables_end_24: "24 \<le> tables_end d" "8 dvd tables_end d - 24" "enums_pos d \<ge> 24" "msgs_pos d \<ge> 24"
  by (simp_all add: tables_end_def msgs_pos_def enums_pos_def)

lemma writes_schema:
  assumes g: "growing 20 b" and l: "unat (buf_len b) = 24" and al: "all_granted al"
    and null: "\<And>i. unat i < 3 \<Longrightarrow> holds a (slot (schema_obj a) i) b (\<lambda>w. nbuf_get_ptr w (schema_obj a) i = Some (null_obj a))"
    and z: "clean_desc d ms" and n: "length ms = length (sd_msgs d)" and L: "schema_size d ms \<le> 2 ^ 32"
  shows "writes_to a b {8..} UNIV (schema_size d ms - 24) (schema_at a d ms)
    (\<lambda>w. (init_tables al a d w \<bind> outenums al (schema_obj a) d) \<bind> each_from (put_msg al (schema_obj a)) 0 ms)"
proof -
  let ?ke = "sum_list (map enum_room (sd_enums d))" and ?km = "sum_list (map msg_room ms)" and ?t = "tables_end d"
  let ?De = "{enums_pos d + 8..<enums_pos d + 8 + length (sd_enums d) * 8}"
  let ?Dm = "{msgs_pos d + 8..<msgs_pos d + 8 + length (sd_msgs d) * 12}"
  note t = tables_end_24 [of d]
  have L': "?t + ?ke + ?km \<le> 2 ^ 32" using L by (simp add: schema_size_def)
  have T: "writes_to a b {8..<20} (tables_region d) (?t - 24) (tables_at a d) (init_tables al a d)"
    using z L' by (intro writes_tables [OF g l al null]) (simp_all add: clean_desc_def)
  have E: "writes_to a b' ?De (?De \<union> {?t..<?t + ?ke}) ?ke
      (\<lambda>w. \<forall>j < length (sd_enums d). enum_at (enums_obj a d) j (sd_enums d ! j) w) (outenums al (schema_obj a) d)"
    if b': "growing 20 b'" "unat (buf_len b') = unat (buf_len b) + (?t - 24)" "holds a (tables_region d) b' (tables_at a d)"
    for b'
  proof -
    have len: "unat (buf_len b') = ?t" using b'(2) l t(1) by simp
    then have "growing ?t b'" using b'(1) by (simp add: growing_def)
    from writes_enums [OF this b'(3) al] show ?thesis using z L' len by (simp add: clean_desc_def)
  qed
  have dE: "?De \<inter> tables_region d = {}" using tables_apart(1) by blast
  note TE = writes_seq [OF T g t(2) E dE]
  have M: "writes_to a b' ?Dm (?Dm \<union> {?t + ?ke..<?t + ?ke + ?km}) ?km
      (\<lambda>w. \<forall>j < length ms. msg_at (msgs_obj a d) j (ms ! j) w) (each_from (put_msg al (schema_obj a)) 0 ms)"
    if b': "growing 20 b'" "unat (buf_len b') = unat (buf_len b) + (?t - 24 + ?ke)"
      "holds a (tables_region d \<union> (?De \<union> {?t..<?t + ?ke})) b' (\<lambda>w. tables_at a d w \<and>
        (\<forall>j < length (sd_enums d). enum_at (enums_obj a d) j (sd_enums d ! j) w))" for b'
  proof -
    have len: "unat (buf_len b') = ?t + ?ke" using b'(2) l t(1) by simp
    then have "growing ?t b'" using b'(1) by (simp add: growing_def)
    moreover from b'(3) have "holds a (tables_region d \<union> (?De \<union> {?t..<?t + ?ke})) b' (tables_at a d)"
      by (rule holds_mono) simp_all
    ultimately show ?thesis
      using writes_msgs [OF _ _ msgs_apart al, of d b' a ?t "?t + ?ke" ms] z L' len n by (simp add: clean_desc_def)
  qed
  have k: "8 dvd ?t - 24 + ?ke" using t(2) by (simp add: dvd_sum_rooms)
  have dM: "?Dm \<inter> (tables_region d \<union> (?De \<union> {?t..<?t + ?ke})) = {}" using msgs_apart [of d ?t] by blast
  note TEM = writes_seq [OF TE g k M dM]
  have size: "schema_size d ms - 24 = ?t - 24 + ?ke + ?km" using t(1) by (simp add: schema_size_def)
  show ?thesis
    unfolding size by (rule writes_weaken [OF TEM]) (use t in \<open>auto simp: schema_at_def\<close>)
qed


section \<open>A new buffer\<close>

text \<open>The schema is the first object, so it is what \<^verbatim>\<open>nbuf_get_Schema\<close> gives, and its pointers are zero.\<close>

lemma schema_created:
  assumes b: "buf_wwf b" "buf_ops b = NULL_ops" "buf_len b = 0" and al: "all_granted al" and w: "bufs w a = Some b"
  obtains b1 where "nbuf_new_Schema al w a = Some (schema_obj a, put_buf w a b1)" and "growing 20 b1"
    and "unat (buf_len b1) = 24"
    and "\<And>i. unat i < 3 \<Longrightarrow> holds a (slot (schema_obj a) i) b1 (\<lambda>w. nbuf_get_ptr w (schema_obj a) i = Some (null_obj a))"
    and "holds a {0..<8} b1 (\<lambda>w. nbuf_get_Schema w a = Some (schema_obj a))"
proof -
  let ?s = "schema_obj a"
  have f: "fresh_obj a b 1 0 3 = ?s" using b(3) by (simp add: fresh_obj_def schema_obj_def)
  have by0: "obj_bytes (fresh_obj x b 1 0 3) = 12" for x by (simp add: obj_bytes_def esize_def)
  have c: "creatable b 1 0 3" using b by (simp add: creatable_def by0)
  from create_granted [OF c al, of a] obtain b1 where
    b1: "nbuf_create_plain al a b 1 0 3 = Some (?s, b1)" "created b ?s b1"
    unfolding f by blast
  have st: "stored b1 ?s" using created_stored [OF c, of a b1] b1(2) by (simp add: f)
  have l1: "unat (buf_len b1) = 24" using b1(2) b(3) by0 [of a] unfolding created_def f by simp
  have g: "growing 20 b1"
    using b1(2) b l1 by (simp add: growing_def created_def extends_def)
  have safe: "obj_safe b1 ?s" by (rule elem_in_safe [OF schema_obj_in g])
  have wf: "buf_wwf b1" using g by (simp add: growing_def)
  show thesis
  proof (rule that [OF _ g l1])
    show "nbuf_new_Schema al w a = Some (?s, put_buf w a b1)"
      using w b(2) b1(1) by (simp add: nbuf_new_Schema_def nbuf_create_def)
    show "holds a (slot ?s i) b1 (\<lambda>w. nbuf_get_ptr w ?s i = Some (null_obj a))" if i: "unat i < 3" for i
    proof (rule holds_null [OF wf safe])
      show "buf_base b1 ! p = 0" if "p \<in> slot ?s i" for p
        using that i b1(2) b(3) l1 unfolding created_def by (auto simp: slot_def ptr_pos_def schema_obj_def)
    qed (use i in \<open>simp_all add: schema_obj_def\<close>)
    have h: "header ?s = {0..<8}" "obj_base ?s - 8 = 0" "obj_buf ?s = a" by (simp_all add: header_def schema_obj_def)
    show "holds a {0..<8} b1 (\<lambda>w. nbuf_get_Schema w a = Some ?s)"
      by (rule holds_mono [OF holds_opens [OF wf st h(3), unfolded h] subset_refl])
        (auto simp: nbuf_get_Schema_def)
  qed
qed

section \<open>The description in the message\<close>

text \<open>What a reader of the compiled schema sees: the description, with the layouts of its messages.\<close>

definition compiled_view :: "schemaDesc \<Rightarrow> msg_out list \<Rightarrow> schema_view" where
  "compiled_view d ms = \<lparr>sv_pkgName = pkg_text d, sv_enums = sd_enums d, sv_msgs = ms\<rparr>"

lemma table_count:
  assumes "l + table_room n sz \<le> 2 ^ 32" and "0 < sz"
  shows "unat (nelem (table_obj a l' n s p)) = n"
proof -
  have "n < 2 ^ 32"
  proof (cases "n = 0")
    case False
    then show ?thesis using assms by (intro few_elements [of _ sz]) (simp_all add: table_room_def)
  qed simp
  then show ?thesis by (simp add: table_obj_def null_obj_def unat_of_nat take_bit_nat_eq_self)
qed

lemma schema_at_read:
  assumes s: "schema_at a d ms w" and n: "length ms = length (sd_msgs d)" and L: "schema_size d ms \<le> 2 ^ 32"
  shows "read_schema w (schema_obj a) = Some (compiled_view d ms)"
proof -
  let ?s = "schema_obj a"
  have t: "reads_name ?s 2 (pkg_text d) w" "nbuf_get_ptr w ?s 1 = Some (enums_obj a d)"
    "nbuf_get_ptr w ?s 0 = Some (msgs_obj a d)"
    "\<And>j. j < length (sd_enums d) \<Longrightarrow> enum_at (enums_obj a d) j (sd_enums d ! j) w"
    "\<And>j. j < length ms \<Longrightarrow> msg_at (msgs_obj a d) j (ms ! j) w"
    using s by (simp_all add: schema_at_def tables_at_def)
  have "enums_pos d + table_room (length (sd_enums d)) 8 \<le> 2 ^ 32" "msgs_pos d + table_room (length (sd_msgs d)) 12 \<le> 2 ^ 32"
    using L by (simp_all add: schema_size_def tables_end_def msgs_pos_def)
  then have c: "unat (nelem (enums_obj a d)) = length (sd_enums d)" "unat (nelem (msgs_obj a d)) = length ms"
    using n by (simp_all add: enums_obj_def msgs_obj_def table_count)
  have "collect (\<lambda>i. do { e \<leftarrow> nbuf_Schema_enumTypes w ?s (of_nat i); read_enum w e }) [0..<length (sd_enums d)]
      = Some (sd_enums d)"
    using t(2) enum_at_read [OF t(4)] by (intro collect_all_nth) (simp add: nbuf_Schema_enumTypes_def)
  moreover have "collect (\<lambda>i. do { m \<leftarrow> nbuf_Schema_msgTypes w ?s (of_nat i); read_msg w m }) [0..<length ms] = Some ms"
    using t(3) msg_at_read [OF t(5)] by (intro collect_all_nth) (simp add: nbuf_Schema_msgTypes_def)
  moreover obtain u where u: "nbuf_get_str w ?s 2 = Some (u, of_nat (length (pkg_text d)))"
    "fmt_s u = Some (lit (pkg_text d))"
    using t(1) unfolding reads_name_def by blast
  moreover have "text_of (Some (u, of_nat (length (pkg_text d)))) = Some (pkg_text d)"
    using u(2) by (simp add: text_of_Some)
  moreover have "length (pkg_text d) < 2 ^ 64"
  proof (cases "sd_pkgName d")
    case (Some p)
    have "pkg_room d \<le> 2 ^ 32" using L by (simp add: schema_size_def tables_end_def msgs_pos_def enums_pos_def)
    then show ?thesis using Some room_facts(2) [of "length p + 1"] by (simp add: pkg_room_def pkg_text_def)
  qed (simp add: pkg_text_def)
  then have "unat (of_nat (length (pkg_text d)) :: size_t) = length (pkg_text d)" by (rule unat_of_nat_64)
  ultimately show ?thesis
    using t(2,3) c
    by (simp add: read_schema_def compiled_view_def nbuf_Schema_pkgName_def
      nbuf_Schema_enumTypes_size_def nbuf_Schema_msgTypes_size_def)
qed


section \<open>The compiler\<close>

lemma place_fields_length: "place_fields look st ds = Some (fs, st1) \<Longrightarrow> length fs = length ds"
  by (induction ds arbitrary: st fs) (auto split: bind_splits prod.splits)

lemma outmsgs_places:
  assumes "outmsgs_from (lookup types) al0 msgs = Some ms"
  shows "outmsgs_into al types sch n msgs al0 w = map_option Inr (each_from (put_msg al sch) n ms w)"
    and "length ms = length msgs"
proof -
  have "outmsgs_into al types sch n msgs al0 w = map_option Inr (each_from (put_msg al sch) n ms w) \<and>
      length ms = length msgs"
    using assms
  proof (induction msgs arbitrary: n al0 ms w)
    case (Cons m msgs)
    then obtain fs st rest where m: "place_fields (lookup types)
        \<lparr>ms_ssize = 0, ms_psize = 0, ms_align = al0, ms_pads = clear_padding_spaces\<rparr> (msg_flds m) = Some (fs, st)"
      "outmsgs_from (lookup types) (ms_align st) msgs = Some rest"
      "ms = \<lparr>mout_name = msg_name m, mout_fields = fs, mout_ssize = final_ssize st, mout_psize = ms_psize st\<rparr> # rest"
      by (auto split: bind_splits)
    show ?case
      using Cons.IH [OF m(2)]
      by (simp add: outmsg_places [OF m(1) place_fields_length [OF m(1)]] m(3) map_option_bind bind_map_option o_def)
  qed simp
  then show "outmsgs_into al types sch n msgs al0 w = map_option Inr (each_from (put_msg al sch) n ms w)"
    "length ms = length msgs" by simp_all
qed

text \<open>No name in the source has a NUL in it, as is so of what the lexer makes.\<close>

definition clean_name :: "string \<Rightarrow> bool" where
  "clean_name s \<longleftrightarrow> 0 \<notin> set (lit s)"

definition clean_names :: "schemaDesc \<Rightarrow> bool" where
  "clean_names d \<longleftrightarrow> clean_name (pkg_text d) \<and>
    (\<forall>e \<in> set (sd_enums d). clean_name (et_name e) \<and> (\<forall>v \<in> set (et_vals e). clean_name (ed_name v))) \<and>
    (\<forall>m \<in> set (sd_msgs d). clean_name (msg_name m) \<and> (\<forall>f \<in> set (msg_flds m). clean_name (fld_name f)))"

lemma placed_clean:
  assumes look: "\<And>t e. look t = Some e \<Longrightarrow> ent_ok e"
  shows "place_fields look st ds = Some (fs, st1) \<Longrightarrow> \<forall>f \<in> set ds. clean_name (fld_name f) \<Longrightarrow>
    \<forall>f \<in> set fs. clean_field f"
proof (induction ds arbitrary: st fs)
  case (Cons d ds)
  then obtain ent t0 st2 gs where d: "look (fld_tname d) = Some ent" "place_fields look st2 ds = Some (gs, st1)"
    "fs = \<lparr>out_name = fld_name d, out_kind = ent_kind ent, out_list = fld_list d, out_tag0 = of_nat t0,
     out_tag1 = field_tag1 ent\<rparr> # gs"
    by (auto split: bind_splits prod.splits)
  have "\<forall>v. ent_kind ent \<noteq> Kind_other v" using look [OF d(1)] by auto
  then show ?case using Cons.IH [OF d(2)] Cons.prems(2) d(3) by (simp add: clean_field_def clean_name_def)
qed simp

lemma outmsgs_clean:
  assumes look: "\<And>t e. look t = Some e \<Longrightarrow> ent_ok e"
  shows "outmsgs_from look al0 msgs = Some ms \<Longrightarrow>
    \<forall>m \<in> set msgs. clean_name (msg_name m) \<and> (\<forall>f \<in> set (msg_flds m). clean_name (fld_name f)) \<Longrightarrow>
    \<forall>x \<in> set ms. clean_msg x"
proof (induction msgs arbitrary: al0 ms)
  case (Cons m msgs)
  then obtain fs st rest where m: "place_fields look
      \<lparr>ms_ssize = 0, ms_psize = 0, ms_align = al0, ms_pads = clear_padding_spaces\<rparr> (msg_flds m) = Some (fs, st)"
    "outmsgs_from look (ms_align st) msgs = Some rest"
    "ms = \<lparr>mout_name = msg_name m, mout_fields = fs, mout_ssize = final_ssize st, mout_psize = ms_psize st\<rparr> # rest"
    by (auto split: bind_splits)
  show ?case
    using Cons.IH [OF m(2)] placed_clean [OF look m(1)] Cons.prems(2) m(3) by (simp add: clean_msg_def clean_name_def)
qed simp

lemma clean_names_desc:
  assumes "makelookup d = Inr types" and "outmsgs (lookup types) (sd_msgs d) = Some ms" and "clean_names d"
  shows "clean_desc d ms"
  using outmsgs_clean [OF table_entry_ok [OF assms(1)]] assms(2,3)
  by (auto simp: outmsgs_def clean_names_def clean_desc_def enum_names_def clean_name_def)

lemma t2b_steps:
  assumes "makelookup d = Inr types" and "outmsgs (lookup types) (sd_msgs d) = Some ms"
    and "nbuf_new_Schema al w a = Some (schema_obj a, w1)"
  shows "nbuf_t2b al w a d = map_option Inr
    ((init_tables al a d w1 \<bind> outenums al (schema_obj a) d) \<bind> each_from (put_msg al (schema_obj a)) 0 ms)"
proof -
  have "outmsgs_into al types (schema_obj a) 0 (sd_msgs d) 0
      = (\<lambda>w. map_option Inr (each_from (put_msg al (schema_obj a)) 0 ms w))"
    using outmsgs_places(1) assms(2) unfolding outmsgs_def by blast
  then show ?thesis
    using assms(1,3) by (simp add: nbuf_t2b_def makeschema_def init_tables_def map_option_bind o_def)
qed

lemma compiled:
  assumes t: "makelookup d = Inr types" and m: "outmsgs (lookup types) (sd_msgs d) = Some ms" and z: "clean_names d"
    and L: "schema_size d ms \<le> 2 ^ 32" and al: "all_granted al"
    and b: "bufs w a = Some b" "buf_wwf b" "buf_ops b = NULL_ops" "buf_len b = 0"
  obtains b' where "nbuf_t2b al w a d = Some (Inr (put_buf w a b'))" and "buf_wwf b'" and "buf_ops b' = NULL_ops"
    and "unat (buf_len b') = schema_size d ms" and "holds a UNIV b' (\<lambda>w. nbuf_get_Schema w a = Some (schema_obj a) \<and>
      read_schema w (schema_obj a) = Some (compiled_view d ms))"
proof -
  obtain b1 where b1: "nbuf_new_Schema al w a = Some (schema_obj a, put_buf w a b1)" "growing 20 b1"
    "unat (buf_len b1) = 24"
    "\<And>i. unat i < 3 \<Longrightarrow> holds a (slot (schema_obj a) i) b1 (\<lambda>w. nbuf_get_ptr w (schema_obj a) i = Some (null_obj a))"
    "holds a {0..<8} b1 (\<lambda>w. nbuf_get_Schema w a = Some (schema_obj a))"
    using schema_created [OF b(2-4) al b(1)] by blast
  have n: "length ms = length (sd_msgs d)" using outmsgs_places(2) m unfolding outmsgs_def .
  obtain b' where b': "(init_tables al a d (put_buf w a b1) \<bind> outenums al (schema_obj a) d) \<bind>
      each_from (put_msg al (schema_obj a)) 0 ms = Some (put_buf w a b')" "agrees (- {8..}) b1 b'"
    "unat (buf_len b') = 24 + (schema_size d ms - 24)" "holds a UNIV b' (schema_at a d ms)"
    using writes_schema [OF b1(2,3) al b1(4) clean_names_desc [OF t m z] n L] b1(3)
    unfolding writes_to_def by (metis put_buf_simps)
  have r: "holds a UNIV b' (\<lambda>w. read_schema w (schema_obj a) = Some (compiled_view d ms))"
    by (rule holds_mono [OF b'(4) subset_refl]) (rule schema_at_read [OF _ n L])
  have "holds a {0..<8} b' (\<lambda>w. nbuf_get_Schema w a = Some (schema_obj a))"
    by (rule holds_keep [OF b1(5) b'(2)]) simp
  from holds_conj [OF this r] have r: "holds a UNIV b' (\<lambda>w. nbuf_get_Schema w a = Some (schema_obj a) \<and>
      read_schema w (schema_obj a) = Some (compiled_view d ms))" by simp
  have "24 \<le> schema_size d ms" using tables_end_24 [of d] by (simp add: schema_size_def)
  then show thesis
    using that t2b_steps [OF t m b1(1)] b' r agrees_ok [OF b'(2)] by simp
qed


text \<open>
  Claim C3.  The schema compiler is right: when all types of a description are known and no name holds a
  NUL, \<^verbatim>\<open>nbuf_t2b\<close> on an empty buffer succeeds, and the buffer it leaves, of exactly the computed size, is a
  message whose root reads back as the description: the package, every enumeration with its constants
  and their values, and every message with the name, kind, list mark and tags of each field and the sizes
  that the layout gives.
\<close>

theorem compiled_schema_reads_back:
  assumes "makelookup d = Inr types" and "outmsgs (lookup types) (sd_msgs d) = Some ms" and "clean_names d"
    and "schema_size d ms \<le> 2 ^ 32" and "all_granted al"
    and "bufs w a = Some b" and "buf_wwf b" and "buf_ops b = NULL_ops" and "buf_len b = 0"
  shows "\<exists>b' sch. nbuf_t2b al w a d = Some (Inr (put_buf w a b')) \<and> buf_wwf b' \<and>
    unat (buf_len b') = schema_size d ms \<and> nbuf_get_Schema (put_buf w a b') a = Some sch \<and>
    read_schema (put_buf w a b') sch = Some (compiled_view d ms)"
proof -
  obtain b' where b': "nbuf_t2b al w a d = Some (Inr (put_buf w a b'))" "buf_wwf b'" "buf_ops b' = NULL_ops"
    "unat (buf_len b') = schema_size d ms" "holds a UNIV b' (\<lambda>w. nbuf_get_Schema w a = Some (schema_obj a) \<and>
      read_schema w (schema_obj a) = Some (compiled_view d ms))"
    by (rule compiled [OF assms])
  with holds_now [OF b'(5), of "put_buf w a b'"] show ?thesis by auto
qed

text \<open>One enumeration, and a message with a number and a list of that enumeration.\<close>

definition demo_source :: schemaDesc where
  "demo_source =
    \<lparr>sd_pkgName = Some ''p'', sd_enums = [\<lparr>et_name = ''E'', et_vals = [\<lparr>ed_name = ''b'', ed_val = 7\<rparr>]\<rparr>],
     sd_msgs = [\<lparr>msg_name = ''m'', msg_flds = [\<lparr>fld_name = ''a'', fld_tname = ''uint32'', fld_list = False\<rparr>,
       \<lparr>fld_name = ''s'', fld_tname = ''E'', fld_list = True\<rparr>]\<rparr>]\<rparr>"

definition demo_layout :: "msg_out list" where
  "demo_layout = [\<lparr>mout_name = ''m'', mout_fields =
    [\<lparr>out_name = ''a'', out_kind = Kind_UINT, out_list = False, out_tag0 = 0, out_tag1 = 4\<rparr>,
     \<lparr>out_name = ''s'', out_kind = Kind_ENUM, out_list = True, out_tag0 = 0, out_tag1 = 0\<rparr>],
    mout_ssize = 4, mout_psize = 1\<rparr>]"

definition blank_buffer :: nbuf_buffer where
  "blank_buffer = \<lparr>buf_base = [], buf_len = 0, buf_cap = 0, buf_ops = NULL_ops\<rparr>"

lemma demo_types:
  obtains ts where "makelookup demo_source = Inr ts" and "outmsgs (lookup ts) (sd_msgs demo_source) = Some demo_layout"
proof -
  have a: "all_types demo_source = builtin_types @ [(''E'', \<lparr>ent_kind = Kind_ENUM, ent_size = 2, ent_id = 0\<rparr>),
      (''m'', \<lparr>ent_kind = Kind_PTR, ent_size = 4, ent_id = 0\<rparr>)]"
    by (simp add: all_types_def demo_source_def type_entries_def)
  have "distinct (names (all_types demo_source))"
    by (simp add: a builtin_types_def type_entry_def)
  then have "check_redefined (qsort (all_types demo_source)) = Inr (qsort (all_types demo_source))"
    by (intro check_redefined_ok weakly_sorted_qsort) (simp add: distinct_names_qsort)
  then have m: "makelookup demo_source = Inr (qsort (all_types demo_source))"
    by (simp add: makelookup_eq a MAX_TYPES_def)
  have l: "lookup (qsort (all_types demo_source)) ''uint32'' = Some \<lparr>ent_kind = Kind_UINT, ent_size = 4, ent_id = 0\<rparr>"
    "lookup (qsort (all_types demo_source)) ''E'' = Some \<lparr>ent_kind = Kind_ENUM, ent_size = 2, ent_id = 0\<rparr>"
    unfolding makelookup_Inr(3) [OF m] by (simp_all add: a builtin_types_def type_entry_def)
  have "sd_msgs demo_source = [\<lparr>msg_name = ''m'',
      msg_flds = [\<lparr>fld_name = ''a'', fld_tname = ''uint32'', fld_list = False\<rparr>,
       \<lparr>fld_name = ''s'', fld_tname = ''E'', fld_list = True\<rparr>]\<rparr>]" by (simp add: demo_source_def)
  then have "outmsgs (lookup (qsort (all_types demo_source))) (sd_msgs demo_source) = Some demo_layout"
    by (simp add: demo_layout_def layout_eval l)
  with m show thesis by (rule that)
qed

lemmas size_eval = schema_size_def tables_end_def msgs_pos_def enums_pos_def pkg_room_def table_room_def room_def
  enum_room_def value_room_def msg_room_def field_room_def

lemma demo_facts:
  "clean_names demo_source" "schema_size demo_source demo_layout = 216" "buf_wwf blank_buffer"
  by (simp_all add: clean_names_def clean_name_def pkg_text_def demo_source_def demo_layout_def size_eval
      blank_buffer_def buf_wwf_def)

theorem compiled_schema_reads_back_witness:
  "\<exists>b'. nbuf_t2b roomy (\<lparr>bufs = [1 \<mapsto> blank_buffer], next_addr = 2\<rparr>) 1 demo_source
      = Some (Inr (put_buf (\<lparr>bufs = [1 \<mapsto> blank_buffer], next_addr = 2\<rparr>) 1 b')) \<and> unat (buf_len b') = 216"
proof -
  obtain ts where ts: "makelookup demo_source = Inr ts" "outmsgs (lookup ts) (sd_msgs demo_source) = Some demo_layout"
    by (rule demo_types)
  show ?thesis
    using compiled_schema_reads_back [OF ts demo_facts(1) _ roomy_all _ demo_facts(3),
        of "\<lparr>bufs = [1 \<mapsto> blank_buffer], next_addr = 2\<rparr>" 1] demo_facts(2)
    by (auto simp: blank_buffer_def)
qed


section \<open>From the source to the message and back\<close>

text \<open>What a field says of its type: the name the source gave.\<close>

lemma entry_cases:
  assumes "(t, ent) \<in> set (all_types d)"
  obtains "(t, ent) \<in> set builtin_types"
  | i where "i < length (sd_enums d)" "t = et_name (sd_enums d ! i)" "ent = \<lparr>ent_kind = Kind_ENUM, ent_size = 2, ent_id = i\<rparr>"
  | i where "i < length (sd_msgs d)" "t = msg_name (sd_msgs d ! i)" "ent = \<lparr>ent_kind = Kind_PTR, ent_size = 4, ent_id = i\<rparr>"
  using assms that by (auto simp: all_types_def type_entries_def in_set_enumerate_eq)

lemma bits_of_size:
  "chars (fmt_d (scast (of_nat 1 * 8 :: uint32))) = ''8''" "chars (fmt_d (scast (of_nat 2 * 8 :: uint32))) = ''16''"
  "chars (fmt_d (scast (of_nat 4 * 8 :: uint32))) = ''32''" "chars (fmt_d (scast (of_nat 8 * 8 :: uint32))) = ''64''"
  by (simp_all add: fmt_d_def decimal.simps chars_def char_of_def bit_Suc_0_iff)

lemma type_named:
  assumes t: "makelookup d = Inr types" "lookup types t = Some ent"
    and n: "map mout_name ms = map msg_name (sd_msgs d)"
    and f: "out_kind f = ent_kind ent" "out_tag1 f = field_tag1 ent"
  shows "type_name (compiled_view d ms) f = t \<and> known_field (compiled_view d ms) f"
proof -
  have "(t, ent) \<in> set (all_types d)"
    using t(2) map_of_SomeD unfolding makelookup_Inr(3) [OF t(1)] by fast
  then show ?thesis
  proof (cases rule: entry_cases)
    case 1
    then show ?thesis
      using f bits_of_size
      by (auto simp: builtin_types_def type_entry_def type_name_def known_field_def field_tag1_def)
  next
    case (2 i)
    have "i < 8192" using 2(1) makelookup_Inr(2) [OF t(1)] by (simp add: all_types_def type_entries_def MAX_TYPES_def)
    then have "unat (of_nat i :: uint32) = i" by (simp add: unat_of_nat take_bit_nat_eq_self)
    then show ?thesis using 2 f by (simp add: type_name_def known_field_def field_tag1_def compiled_view_def)
  next
    case (3 i)
    have "i < 8192" using 3(1) makelookup_Inr(2) [OF t(1)] by (simp add: all_types_def type_entries_def MAX_TYPES_def)
    then have "unat (of_nat i :: uint32) = i" by (simp add: unat_of_nat take_bit_nat_eq_self)
    moreover have "length ms = length (sd_msgs d)" "mout_name (ms ! i) = msg_name (sd_msgs d ! i)"
      using n 3(1) by (metis length_map, metis length_map nth_map)
    ultimately show ?thesis using 3 f by (simp add: type_name_def known_field_def field_tag1_def compiled_view_def)
  qed
qed

lemma outmsgs_names: "outmsgs_from look al0 msgs = Some ms \<Longrightarrow> map mout_name ms = map msg_name msgs"
  by (induction msgs arbitrary: al0 ms) (auto split: bind_splits)

definition field_source :: "schema_view \<Rightarrow> field_out \<Rightarrow> fldDesc" where
  "field_source v f = \<lparr>fld_name = out_name f, fld_tname = type_name v f, fld_list = out_list f\<rparr>"

lemma placed_source:
  assumes "\<And>t ent f. look t = Some ent \<Longrightarrow> out_kind f = ent_kind ent \<Longrightarrow> out_tag1 f = field_tag1 ent \<Longrightarrow>
      type_name v f = t \<and> known_field v f"
  shows "place_fields look st ds = Some (fs, st1) \<Longrightarrow>
    map (field_source v) fs = ds \<and> (\<forall>f \<in> set fs. known_field v f)"
proof (induction ds arbitrary: st fs)
  case (Cons d ds)
  then obtain ent t0 st2 gs where d: "look (fld_tname d) = Some ent" "place_fields look st2 ds = Some (gs, st1)"
    "fs = \<lparr>out_name = fld_name d, out_kind = ent_kind ent, out_list = fld_list d, out_tag0 = of_nat t0,
     out_tag1 = field_tag1 ent\<rparr> # gs"
    by (auto split: bind_splits prod.splits)
  show ?case using Cons.IH [OF d(2)] assms [OF d(1)] d(3) by (simp add: field_source_def)
qed simp

definition msg_source :: "schema_view \<Rightarrow> msg_out \<Rightarrow> msgType" where
  "msg_source v m = \<lparr>msg_name = mout_name m, msg_flds = map (field_source v) (mout_fields m)\<rparr>"

lemma outmsgs_source:
  assumes look: "\<And>t ent f. look t = Some ent \<Longrightarrow> out_kind f = ent_kind ent \<Longrightarrow> out_tag1 f = field_tag1 ent \<Longrightarrow>
      type_name v f = t \<and> known_field v f"
  shows "outmsgs_from look al0 msgs = Some ms \<Longrightarrow>
    map (msg_source v) ms = msgs \<and> (\<forall>m \<in> set ms. \<forall>f \<in> set (mout_fields m). known_field v f)"
proof (induction msgs arbitrary: al0 ms)
  case (Cons m msgs)
  then obtain fs st rest where m: "place_fields look
      \<lparr>ms_ssize = 0, ms_psize = 0, ms_align = al0, ms_pads = clear_padding_spaces\<rparr> (msg_flds m) = Some (fs, st)"
    "outmsgs_from look (ms_align st) msgs = Some rest"
    "ms = \<lparr>mout_name = msg_name m, mout_fields = fs, mout_ssize = final_ssize st, mout_psize = ms_psize st\<rparr> # rest"
    by (auto split: bind_splits)
  show ?case using Cons.IH [OF m(2)] placed_source [OF look m(1)] m(3) by (simp add: msg_source_def)
qed simp

lemma source_of_compiled:
  assumes t: "makelookup d = Inr types" and m: "outmsgs (lookup types) (sd_msgs d) = Some ms" and n: "names_ok d"
  shows "source_of (compiled_view d ms) = d" and "known_fields (compiled_view d ms)"
proof -
  have "map mout_name ms = map msg_name (sd_msgs d)" using outmsgs_names m unfolding outmsgs_def .
  from outmsgs_source [OF type_named [OF t _ this], where look = "lookup types"] m
  have s: "map (msg_source (compiled_view d ms)) ms = sd_msgs d"
    "\<forall>x \<in> set ms. \<forall>f \<in> set (mout_fields x). known_field (compiled_view d ms) f"
    by (auto simp: outmsgs_def)
  have "(if pkg_text d = [] then None else Some (pkg_text d)) = sd_pkgName d"
    using n by (cases "sd_pkgName d") (auto simp: pkg_text_def names_ok_def name_ok_def ident_name_def)
  moreover have "source_of (compiled_view d ms) = \<lparr>sd_pkgName = (if pkg_text d = [] then None else Some (pkg_text d)),
      sd_enums = sd_enums d, sd_msgs = map (msg_source (compiled_view d ms)) ms\<rparr>"
    by (simp add: source_of_def msg_source_def [abs_def] field_source_def [abs_def], simp add: compiled_view_def)
  ultimately show "source_of (compiled_view d ms) = d" using s(1) by simp
  show "known_fields (compiled_view d ms)" using s(2) by (simp add: known_fields_def compiled_view_def)
qed


lemma ident_clean: "name_ok s \<Longrightarrow> clean_name s"
proof -
  assume "name_ok s"
  then have "\<forall>c \<in> set (lit s). isident c"
    by (auto simp: name_ok_def ident_name_def isident_def isalnum_def split: list.splits)
  moreover have "\<not> isident 0" by (simp add: isident_def isalnum_def isalpha_def isdigit_def char_defs)
  ultimately show "clean_name s" unfolding clean_name_def by metis
qed

lemma names_ok_clean: "names_ok d \<Longrightarrow> clean_names d"
  by (auto simp: names_ok_def clean_names_def pkg_text_def ident_clean clean_name_def [of "[]"] split: option.splits)

text \<open>What is printed for such a message parses to the description.\<close>

lemma source_prints:
  assumes "makelookup d = Inr types" and "outmsgs (lookup types) (sd_msgs d) = Some ms" and "names_ok d"
    and "nbuf_get_Schema w a = Some sch" and "read_schema w sch = Some (compiled_view d ms)"
  shows "nbuf_b2t w a = Some (schema_text (compiled_view d ms))"
  using assms(4) print_schema_text [OF assms(5) source_of_compiled(2) [OF assms(1-3)]] by (simp add: nbuf_b2t_def)

lemma source_parses:
  assumes "makelookup d = Inr types" and "outmsgs (lookup types) (sd_msgs d) = Some ms" and "names_ok d"
    and "length (schema_text (compiled_view d ms)) < 2 ^ 60" and "all_granted al"
  shows "yyparse al (yytokens al strtod (nbuf_lex_init (schema_text (compiled_view d ms)))) = Inr d"
proof -
  let ?v = "compiled_view d ms"
  note s = source_of_compiled [OF assms(1-3)]
  have "(nbuf_lex_init (schema_text ?v))\<lparr>fin := schema_text ?v\<rparr> = nbuf_lex_init (schema_text ?v)"
    by (simp add: nbuf_lex_init_def)
  then have "yytokens al strtod (nbuf_lex_init (schema_text ?v)) = source_tokens d"
    using toks_schema [of ?v] assms(3-5) unfolding toks_def s(1) by metis
  then show ?thesis by (simp add: yyparse_tokens [OF assms(5)])
qed

lemma demo_source_text: "names_ok demo_source" "length (schema_text (compiled_view demo_source demo_layout)) < 2 ^ 60"
proof -
  show "names_ok demo_source"
    by (simp add: demo_source_def names_ok_def name_ok_def ident_name_def char_defs word_le_nat_alt)
  show "length (schema_text (compiled_view demo_source demo_layout)) < 2 ^ 60"
    by (simp add: schema_text_def compiled_view_def demo_source_def demo_layout_def pkg_text_def enum_text_def
        value_text_def msg_text_def field_text_def type_name_def fmt_d_def fmt_u_def decimal.simps chars_def
        size_comment_def place_comment_def)
qed

end
