(* ===== verification/Source.thy ===== *)
theory Source
  imports Grammar
begin

text \<open>
  What the front end of the schema compiler guarantees about any text it accepts: every name in the
  description is an identifier and none of the keywords.
\<close>

section \<open>Names in tokens\<close>

lemma num_not_ident: "lex_num strtod l c \<noteq> (L_id t, l2)"
  by (auto simp: lex_num_def Let_def split: prod.splits list.splits if_splits lex_value.splits)

lemma spec_ident: "lex_spec strtod l = (L_id t, l2) \<Longrightarrow> ident_name (chars t)"
proof (induction strtod l rule: lex_spec.induct)
  case (1 strtod l)
  obtain ch l1 where sk: "spaces_spec l = (ch, l1)" by (cases "spaces_spec l")
  show ?case
    using "1.prems" "1.IH" sk set_takeWhileD
    by (fastforce simp: lex_spec.simps [of strtod l] Let_def num_not_ident ident_name_def
      split: option.splits if_splits prod.splits list.splits)
qed

lemma ident_no_nul: "ident_name s \<Longrightarrow> 0 \<notin> set (lit s)"
  by (auto simp: ident_name_def isalpha_def isident_def isalnum_def isdigit_def split: list.splits)

lemma token_name:
  assumes "lexeme_token x = Some (ID s)" and "\<And>t. x = L_id t \<Longrightarrow> ident_name (chars t)"
  shows "name_ok s"
  using assms by (cases x) (auto simp: id_token_def char_token_def name_ok_def split: if_splits)

definition named :: "yytoken list \<Rightarrow> bool" where
  "named ts \<longleftrightarrow> (\<forall>s. ID s \<in> set ts \<longrightarrow> name_ok s)"

lemma yytokens_named:
  assumes "all_granted al"
  shows "length (fin l) < 2 ^ 60 \<Longrightarrow> named (yytokens al strtod l)"
proof (induction "length (fin l)" arbitrary: l rule: less_induct)
  case less
  obtain x l2 where x: "lex_spec strtod (l\<lparr>fin := fin l\<rparr>) = (x, l2)" by (cases "lex_spec strtod l") simp
  have i: "ident_name (chars t)" if "x = L_id t" for t using spec_ident x that by simp
  have "0 \<notin> set t" if "x = L_id t" for t using ident_no_nul [OF i [OF that]] by simp
  from yylex_reads [OF assms less.prems x this] obtain l1 where y: "yylex al strtod l = Some (lexeme_token x, l1)"
    by auto
  show ?case
  proof (cases "lexeme_token x")
    case None
    then show ?thesis using y by (simp add: yytokens.simps [of al strtod l] named_def)
  next
    case (Some t)
    have "length (fin l1) < length (fin l)" using y Some yylex_consumes by simp
    then have "named (yytokens al strtod l1)" using less by simp
    moreover have "name_ok s" if "t = ID s" for s using token_name [OF _ i] Some that by blast
    ultimately show ?thesis using y Some by (auto simp: yytokens.simps [of al strtod l] named_def)
  qed
qed

section \<open>Names in the description\<close>

text \<open>No rule of the grammar makes a name or a token: all come from the tokens it is given.\<close>

lemma named_Cons [simp]: "named (t # ts) \<longleftrightarrow> (\<forall>s. t = ID s \<longrightarrow> name_ok s) \<and> named ts"
  by (auto simp: named_def)

lemma expect_named:
  "expect_tok t ts = Inr us \<Longrightarrow> named ts \<Longrightarrow> named us"
  "expect_ID ts = Inr (s, us) \<Longrightarrow> named ts \<Longrightarrow> name_ok s \<and> named us"
  "expect_INT ts = Inr (i, us) \<Longrightarrow> named ts \<Longrightarrow> named us"
  "eq_int_opt n ts = Inr (x, m, us) \<Longrightarrow> named ts \<Longrightarrow> named us"
  "list_spec ts = Inr (lst, us) \<Longrightarrow> named ts \<Longrightarrow> named us"
  by (auto simp: expect_tok_def expect_ID_def expect_INT_def eq_int_opt_def list_spec_def and_parse_Inr
      split: list.splits yytoken.splits if_splits)

lemma enum_fields_named:
  "enum_field_list al n ts = Inr (ds, us) \<Longrightarrow> named ts \<Longrightarrow> (\<forall>d \<in> set ds. name_ok (ed_name d)) \<and> named us"
proof (induction al n ts arbitrary: ds us rule: enum_field_list.induct)
  case (1 al n ts)
  show ?case
  proof (cases "\<exists>name us. ts = ID name # us")
    case True
    then obtain name ts1 where ts: "ts = ID name # ts1" by blast
    obtain v m ts2 es where r: "eq_int_opt n ts1 = Inr (v, m, ts2)" "enum_field_list al m ts2 = Inr (es, us)"
      "ds = \<lparr>ed_name = name, ed_val = ucast v\<rparr> # es" "\<not> \<not> grants al sizeof_enumDesc"
      using "1.prems" ts by (auto simp: and_parse_Inr split: if_splits)
    then show ?thesis
      using "1.IH" [OF ts refl r(1) refl refl r(4,2)] r(3) expect_named(4) [OF r(1)] "1.prems"(2) ts by simp
  qed (use "1.prems" in simp)
qed

lemma msg_fields_named:
  "msg_field_list al ts = Inr (ds, us) \<Longrightarrow> named ts \<Longrightarrow>
    (\<forall>d \<in> set ds. name_ok (fld_name d) \<and> name_ok (fld_tname d)) \<and> named us"
proof (induction al ts arbitrary: ds us rule: msg_field_list.induct)
  case (1 al ts)
  show ?case
  proof (cases "\<exists>name us. ts = ID name # us")
    case True
    then obtain name ts1 where ts: "ts = ID name # ts1" by blast
    obtain ts2 lst ts3 t ts4 es where r: "expect_tok COLON ts1 = Inr ts2" "list_spec ts2 = Inr (lst, ts3)"
      "expect_ID ts3 = Inr (t, ts4)" "msg_field_list al ts4 = Inr (es, us)"
      "ds = \<lparr>fld_name = name, fld_tname = t, fld_list = lst\<rparr> # es" "\<not> \<not> grants al sizeof_fldDesc"
      using "1.prems" ts by (auto simp: and_parse_Inr split: if_splits)
    have "name_ok t \<and> named ts4"
      using expect_named(1) [OF r(1)] expect_named(5) [OF r(2)] expect_named(2) [OF r(3)] "1.prems"(2) ts by simp
    then show ?thesis
      using "1.IH" [OF ts refl r(1,2) refl r(3) refl r(6,4)] r(5) "1.prems"(2) ts by simp
  qed (use "1.prems" in simp)
qed

definition decls_named :: "enumType list \<Rightarrow> msgType list \<Rightarrow> bool" where
  "decls_named es ms \<longleftrightarrow>
    (\<forall>e \<in> set es. name_ok (et_name e) \<and> (\<forall>x \<in> set (et_vals e). name_ok (ed_name x))) \<and>
    (\<forall>m \<in> set ms. name_ok (msg_name m) \<and> (\<forall>f \<in> set (msg_flds m). name_ok (fld_name f) \<and> name_ok (fld_tname f)))"

lemma dcl_list_named:
  "dcl_list al ts = Inr (es, ms, us) \<Longrightarrow> named ts \<Longrightarrow> decls_named es ms"
proof (induction al ts arbitrary: es ms us rule: dcl_list.induct)
  case (1 al ts)
  consider (enum) ts1 where "ts = ENUM # ts1" | (msg) ts1 where "ts = MESSAGE # ts1"
    | (none) "\<nexists>ts1. ts = ENUM # ts1" "\<nexists>ts1. ts = MESSAGE # ts1" by blast
  then show ?case
  proof cases
    case enum
    obtain name ts2 ts3 vals ts4 ts5 es1 where r: "expect_ID ts1 = Inr (name, ts2)" "expect_tok LBRACE ts2 = Inr ts3"
      "enum_field_list al 0 ts3 = Inr (vals, ts4)" "expect_tok RBRACE ts4 = Inr ts5" "dcl_list al ts5 = Inr (es1, ms, us)"
      "es = \<lparr>et_name = name, et_vals = vals\<rparr> # es1" "\<not> \<not> grants al sizeof_enumType"
      using "1.prems"(1) enum by (auto simp: dcl_list.simps [of al "ENUM # ts1"] and_parse_Inr split: if_splits)
    note n2 = expect_named(2) [OF r(1)] and n3 = expect_named(1) [OF r(2)] and n4 = enum_fields_named [OF r(3)]
      and n5 = expect_named(1) [OF r(4)]
    have "decls_named es1 ms"
      using "1.IH"(1) [OF enum refl r(1) refl r(7,2,3) refl r(4,5)] n2 n3 n4 n5 "1.prems"(2) enum by simp
    then show ?thesis using n2 n3 n4 r(6) "1.prems"(2) enum by (simp add: decls_named_def)
  next
    case msg
    obtain name ts2 ts3 flds ts4 ts5 ms1 where r: "expect_ID ts1 = Inr (name, ts2)" "expect_tok LBRACE ts2 = Inr ts3"
      "msg_field_list al ts3 = Inr (flds, ts4)" "expect_tok RBRACE ts4 = Inr ts5" "dcl_list al ts5 = Inr (es, ms1, us)"
      "ms = \<lparr>msg_name = name, msg_flds = flds\<rparr> # ms1" "\<not> \<not> grants al sizeof_msgType"
      using "1.prems"(1) msg by (auto simp: dcl_list.simps [of al "MESSAGE # ts1"] and_parse_Inr split: if_splits)
    note n2 = expect_named(2) [OF r(1)] and n3 = expect_named(1) [OF r(2)] and n4 = msg_fields_named [OF r(3)]
      and n5 = expect_named(1) [OF r(4)]
    have "decls_named es ms1"
      using "1.IH"(2) [OF msg refl r(1) refl r(7,2,3) refl r(4,5)] n2 n3 n4 n5 "1.prems"(2) msg by simp
    then show ?thesis using n2 n3 n4 r(6) "1.prems"(2) msg by (simp add: decls_named_def)
  next
    case none
    then have "es = [] \<and> ms = []"
      using "1.prems"(1) by (auto simp: dcl_list.simps [of al ts] split: list.splits yytoken.splits)
    then show ?thesis by (simp add: decls_named_def)
  qed
qed

lemma yyparse_named:
  assumes "yyparse al ts = Inr d" and "named ts"
  shows "names_ok d"
proof -
  obtain pkg ts1 es ms where r: "package_opt ts = Inr (pkg, ts1)" "dcl_list al ts1 = Inr (es, ms, [])"
    "d = \<lparr>sd_pkgName = pkg, sd_enums = es, sd_msgs = ms\<rparr>"
    using assms(1) by (auto simp: yyparse_def and_parse_Inr split: if_splits)
  have "named ts1 \<and> (case pkg of None \<Rightarrow> True | Some p \<Rightarrow> name_ok p)"
    using r(1) assms(2) expect_named(2)
    by (auto simp: package_opt_def and_parse_Inr split: list.splits yytoken.splits)
  then show ?thesis
    using dcl_list_named [OF r(2)] r(3) by (auto simp: names_ok_def decls_named_def)
qed

lemma source_names_ok:
  assumes "yyparse al (yytokens al strtod (nbuf_lex_init src)) = Inr d" and "all_granted al" and "length src < 2 ^ 60"
  shows "names_ok d"
  using yyparse_named [OF assms(1)] yytokens_named [OF assms(2), of "nbuf_lex_init src"] assms(3)
  by (simp add: nbuf_lex_init_def)

end
