(* ===== verification/Nbufc.thy ===== *)
theory Nbufc
  imports Compiled Source B2c B2hh Parse
begin

text \<open>
  The command \<^verbatim>\<open>nbufc\<close>, \<^verbatim>\<open>nbufc/nbufc.c\<close>: a schema is loaded, as text or as a message, and printed,
  stored, turned into code or used to decode or encode a message.  The lemmas follow a schema through
  several runs of the command.
\<close>

section \<open>The command\<close>

text \<open>
  What is outside: the files \<^verbatim>\<open>fopen\<close> can open, with their bytes and whether reading ends in an error,
  and the standard input.  A run ends with a status and the bytes written to the standard output;
  messages to \<^verbatim>\<open>stderr\<close> are left out.
\<close>

record host =
  files :: "string \<Rightarrow> (byte list \<times> bool) option"
  stdin_bytes :: "byte list"
  stdin_err :: bool

datatype exit = Exit nat "byte list"

definition usage :: "string \<Rightarrow> byte list option" where
  "usage progname =
    do { head \<leftarrow> printf ''usage: %s cmd ...\<newline>\<newline>'' [Str (cstr progname)];
         Some (head @ lit (concat
           [''copyright 2019 zr\<newline>'',
            ''nbuf compiler.\<newline>\<newline>'',
            ''command        input                output\<newline>'',
            ''  a <s>        binary schema        text schema\<newline>'',
            ''  b <s>        text schema          binary schema\<newline>'',
            ''  c <s>        binary schema        c definitions\<newline>'',
            ''  d <s> [m]    binary message       text message\<newline>'',
            ''  e <s> [m]    text message         binary message\<newline>'',
            ''  h <s>        binary schema        c declarations\<newline>'',
            ''  H <s>        binary schema        c++ declarations\<newline>'',
            ''\<newline>arguments\<newline>'',
            ''  <s>          schema file\<newline>'',
            ''  [m]          message type of input, default to the first\<newline>'',
            ''               message type in the schema.\<newline>'',
            ''\<newline>messages will be read from stdin; '',
            ''all output is written to stdout.\<newline>''])) }"

text \<open>\<open>Inl\<close> is \<^verbatim>\<open>exit(1)\<close>, from \<^verbatim>\<open>die\<close> here or in \<^verbatim>\<open>t2b.c\<close>, or from \<^verbatim>\<open>yyerror\<close>; \<open>None\<close> an abort.\<close>

definition load_schema :: "env \<Rightarrow> host \<Rightarrow> world \<Rightarrow> nat \<Rightarrow> string \<Rightarrow> byte \<Rightarrow> (unit + world) option" where
  "load_schema env host w buf path mode =
    (case files host path of
       None \<Rightarrow> Some (Inl ())
     | Some (bytes, err) \<Rightarrow>
         if mode = of_char CHR ''b''
         then (case yyparse (env_al env) (yytokens (env_al env) (fl_strtod (env_fl env)) (nbuf_lex_init bytes)) of
                 Inl Syntax_error \<Rightarrow> Some (Inl ())
               | Inl _ \<Rightarrow> None
               | Inr schema \<Rightarrow>
                   do { r \<leftarrow> nbuf_t2b (env_al env) w buf schema;
                        Some (case r of Inl _ \<Rightarrow> Inl () | Inr w1 \<Rightarrow> Inr w1) })
         else do { b \<leftarrow> bufs w buf;
                   (_, b1) \<leftarrow> nbuf_load_file (env_al env) b bytes err;
                   Some (Inr (put_buf w buf b1)) })"

definition outbin :: "world \<Rightarrow> nat \<Rightarrow> byte list option" where
  "outbin w buf = do { b \<leftarrow> bufs w buf; load (buf_base b) 0 (unat (buf_len b)) }"

text \<open>The type of the message: by name, or the first.  The inner \<open>None\<close> is \<^verbatim>\<open>die\<close>.\<close>

definition root_type :: "world \<Rightarrow> nbuf_obj \<Rightarrow> string option \<Rightarrow> nbuf_obj option option" where
  "root_type w schema rootTypeName =
    (case rootTypeName of
       Some name \<Rightarrow>
         do { (found, rootType) \<leftarrow> nbuf_find_msg w (null_obj 0) schema (cstr name);
              Some (if found then Some rootType else None) }
     | None \<Rightarrow>
         do { n \<leftarrow> nbuf_Schema_msgTypes_size w schema;
              if n > 0 then do { m \<leftarrow> nbuf_Schema_msgTypes w schema 0; Some (Some m) } else Some None })"

text \<open>\<open>msg_buf\<close> is the address of the local \<^verbatim>\<open>obj_buf\<close>; the result of \<^verbatim>\<open>nbuf_parse\<close> is not looked at.\<close>

definition enc_dec ::
    "nat \<Rightarrow> env \<Rightarrow> host \<Rightarrow> world \<Rightarrow> nat \<Rightarrow> nat \<Rightarrow> byte \<Rightarrow> string option \<Rightarrow> exit run" where
  "enc_dec fuel env host w schema_buf msg_buf mode rootTypeName =
    bind_run (of_opt (nbuf_get_Schema w schema_buf)) (\<lambda>schema.
    bind_run (of_opt (root_type w schema rootTypeName)) (\<lambda>root.
    case root of
      None \<Rightarrow> Run (Exit 1 [])
    | Some rootType \<Rightarrow>
        if mode = of_char CHR ''d''
        then bind_run (of_opt (do {
               (_, b) \<leftarrow> nbuf_load_file (env_al env) (nbuf_init_read [] 0) (stdin_bytes host) (stdin_err host);
               ob \<leftarrow> nbuf_obj_init b (null_obj msg_buf) 0;
               Some (ob, put_buf w msg_buf b) })) (\<lambda>(ob, w1).
             bind_run (nbuf_print fuel (env_fl env) w1 ob 2 schema rootType) (\<lambda>out. Run (Exit 0 out)))
        else (let w1 = put_buf w msg_buf (snd (nbuf_init_write (env_al env) None 0))
              in bind_run (nbuf_parse fuel env w1 msg_buf (nbuf_lex_init (stdin_bytes host)) schema rootType) (\<lambda>(_, _, w2).
                 bind_run (of_opt (outbin w2 msg_buf)) (\<lambda>out. Run (Exit 0 out))))))"

text \<open>
  \<^verbatim>\<open>main\<close>, with the program name first in \<open>argv\<close>; \<^verbatim>\<open>argv[argc]\<close> is \<^verbatim>\<open>NULL\<close>.  The static buffer is at
  address 1, \<^verbatim>\<open>obj_buf\<close> at 2.
\<close>

definition start_world :: "allocator \<Rightarrow> world" where
  "start_world al = \<lparr>bufs = [1 \<mapsto> snd (nbuf_init_write al None 0)], next_addr = 3\<rparr>"

definition command_char :: "string \<Rightarrow> byte" where
  "command_char s = (case s of [] \<Rightarrow> 0 | c # _ \<Rightarrow> of_char c)"

definition nbufc :: "nat \<Rightarrow> env \<Rightarrow> host \<Rightarrow> string list \<Rightarrow> exit run" where
  "nbufc fuel env host argv =
    (if length argv < 3 then bind_run (of_opt (usage (argv ! 0))) (\<lambda>out. Run (Exit 1 out))
     else let mode = command_char (argv ! 1); path = argv ! 2
       in bind_run (of_opt (load_schema env host (start_world (env_al env)) 1 path mode)) (\<lambda>r.
          case r of
            Inl _ \<Rightarrow> Run (Exit 1 [])
          | Inr w \<Rightarrow>
              if mode = of_char CHR ''d'' \<or> mode = of_char CHR ''e''
              then enc_dec fuel env host w 1 2 mode (if length argv > 3 then Some (argv ! 3) else None)
              else bind_run (of_opt
                (if mode = of_char CHR ''a'' then nbuf_b2t w 1
                 else if mode = of_char CHR ''b'' then outbin w 1
                 else if mode = of_char CHR ''c'' then nbuf_b2c (env_al env) w 1 (cstr path)
                 else if mode = of_char CHR ''h'' then nbuf_b2h (env_al env) w 1 (cstr path)
                 else if mode = of_char CHR ''H'' then nbuf_b2hh (env_al env) w 1 (cstr path)
                 else Some [])) (\<lambda>out. Run (Exit 0 out))))"

section \<open>A schema through the command\<close>

text \<open>A buffer with the same bytes, however it came about, reads the same.\<close>

lemma agrees_same_data:
  assumes "buf_wwf b" and "buf_wwf b'" and "buf_ops b' = NULL_ops" and "buf_data b' = buf_data b"
  shows "agrees R b b'"
proof -
  have l: "unat (buf_len b) \<le> length (buf_base b)" "unat (buf_len b') \<le> length (buf_base b')"
    using assms(1,2) by (simp_all add: buf_wwf_def word_le_nat_alt)
  then have n: "unat (buf_len b') = unat (buf_len b)"
    using arg_cong [OF assms(4), of length] by (simp add: buf_data_def)
  have "buf_base b' ! p = buf_base b ! p" if "p < unat (buf_len b)" for p
    using arg_cong [OF assms(4), of "\<lambda>xs. xs ! p"] that n by (simp add: buf_data_def)
  then show ?thesis using assms n by (simp add: agrees_def)
qed

lemma load_file_ops: "nbuf_load_file al b bs err = Some (ok, b') \<Longrightarrow> buf_ops b' = buf_ops b"
proof (induction bs arbitrary: b)
  case (Cons c bs)
  then obtain ok1 b1 blk where "nbuf_reserve al b 1 = Some (ok1, b1)"
    "nbuf_load_file al (b1\<lparr>buf_base := blk, buf_len := buf_len b1 + 1\<rparr>) bs err = Some (ok, b')"
    by (auto split: bind_splits)
  then show ?case
    using Cons.IH by (auto simp: nbuf_reserve_def Let_def split: bind_splits option.splits if_splits)
qed simp

lemma start_buffer: "bufs (start_world al) 1 = Some blank_buffer"
  by (simp add: start_world_def nbuf_init_write_def blank_buffer_def)

lemma outbin_data: "buf_wwf b \<Longrightarrow> outbin (put_buf w a b) a = Some (buf_data b)"
  by (simp add: outbin_def buf_data_def load_def seg_def buf_wwf_def word_le_nat_alt)

definition with_file :: "string \<Rightarrow> byte list \<Rightarrow> host \<Rightarrow> host" where
  "with_file path bs host = host\<lparr>files := (files host)(path \<mapsto> (bs, False))\<rparr>"

lemma files_with_file [simp]: "files (with_file path bs host) path = Some (bs, False)"
  by (simp add: with_file_def)

lemma command_chars [simp]: "command_char ''a'' = 97" "command_char ''b'' = 98" "command_char ''e'' = 101"
  by (simp_all add: command_char_def)

text \<open>Compiling a source stores the message of \<^verbatim>\<open>nbuf_t2b\<close>; printing it loads a buffer with the same data.\<close>

lemma nbufc_compiles:
  assumes "files host t = Some (src, e)"
    and "yyparse (env_al env) (yytokens (env_al env) (fl_strtod (env_fl env)) (nbuf_lex_init src)) = Inr d"
    and "nbuf_t2b (env_al env) (start_world (env_al env)) 1 d = Some (Inr (put_buf (start_world (env_al env)) 1 b))"
    and "buf_wwf b"
  shows "nbufc fuel env host [p, ''b'', t] = Run (Exit 0 (buf_data b))"
  using assms by (simp add: nbufc_def load_schema_def outbin_data)

lemma nbufc_prints:
  assumes "files host s = Some (buf_data b, e)" and "buf_wwf b" and "unat (buf_len b) < 2 ^ 62"
    and "all_granted (env_al env)"
    and "\<And>w b'. bufs w 1 = Some b' \<Longrightarrow> agrees UNIV b b' \<Longrightarrow> nbuf_b2t w 1 = Some txt"
  shows "nbufc fuel env host [p, ''a'', s] = Run (Exit 0 txt)"
proof -
  have "length (buf_data b) < 2 ^ 62" using assms(3) by (simp add: buf_data_def)
  with load_file_appends [of blank_buffer "buf_data b" "env_al env" e] assms(4) demo_facts(3)
  obtain b' where b': "nbuf_load_file (env_al env) blank_buffer (buf_data b) e = Some (\<not> e, b')" "buf_wwf b'"
    "buf_data b' = buf_data b"
    by (auto simp: blank_buffer_def all_granted_def buf_data_def)
  have "buf_ops b' = NULL_ops" using load_file_ops [OF b'(1)] by (simp add: blank_buffer_def)
  from agrees_same_data [OF assms(2) b'(2) this b'(3)]
  have "nbuf_b2t (put_buf (start_world (env_al env)) 1 b') 1 = Some txt" by (intro assms(5)) simp
  then show ?thesis using assms(1) b'(1) by (simp add: nbufc_def load_schema_def start_buffer [unfolded One_nat_def])
qed

text \<open>
  Claim C2.  The command loses nothing of a schema: a source file that parses, with known types, is
  compiled by \<^verbatim>\<open>nbufc b\<close> with status 0; \<^verbatim>\<open>nbufc a\<close> turns the file it wrote into a text; and \<^verbatim>\<open>nbufc b\<close> on that text writes the very bytes of the first run.
\<close>

theorem schema_survives_command:
  assumes "files host t = Some (src, e)"
    and "yyparse (env_al env) (yytokens (env_al env) (fl_strtod (env_fl env)) (nbuf_lex_init src)) = Inr d"
    and "makelookup d = Inr types" and "outmsgs (lookup types) (sd_msgs d) = Some ms" and "length src < 2 ^ 60"
    and "schema_size d ms \<le> 2 ^ 32" and "length (schema_text (compiled_view d ms)) < 2 ^ 60"
    and "all_granted (env_al env)"
  shows "\<exists>bin txt. nbufc fuel env host [p, ''b'', t] = Run (Exit 0 bin) \<and> length bin = schema_size d ms \<and>
    nbufc fuel env (with_file s bin host) [p, ''a'', s] = Run (Exit 0 txt) \<and>
    nbufc fuel env (with_file u txt host) [p, ''b'', u] = Run (Exit 0 bin)"
proof -
  let ?al = "env_al env" and ?txt = "schema_text (compiled_view d ms)"
  note names = source_names_ok [OF assms(2,8,5)]
  obtain b where b: "nbuf_t2b ?al (start_world ?al) 1 d = Some (Inr (put_buf (start_world ?al) 1 b))" "buf_wwf b"
    "buf_ops b = NULL_ops" "unat (buf_len b) = schema_size d ms"
    "holds 1 UNIV b (\<lambda>w. nbuf_get_Schema w 1 = Some (schema_obj 1) \<and>
      read_schema w (schema_obj 1) = Some (compiled_view d ms))"
    by (rule compiled [OF assms(3,4) names_ok_clean [OF names] assms(6,8) start_buffer])
      (simp_all add: blank_buffer_def buf_wwf_def)
  have prints: "nbuf_b2t w 1 = Some ?txt" if "bufs w 1 = Some b'" "agrees UNIV b b'" for w b'
    using b(5) that source_prints [OF assms(3,4) names] unfolding holds_def by blast
  have "length (buf_data b) = schema_size d ms"
    using b(2,4) by (simp add: buf_data_def buf_wwf_def word_le_nat_alt)
  moreover have "nbufc fuel env host [p, ''b'', t] = Run (Exit 0 (buf_data b))"
    by (rule nbufc_compiles [OF assms(1,2) b(1,2)])
  moreover have "nbufc fuel env (with_file s (buf_data b) host) [p, ''a'', s] = Run (Exit 0 ?txt)"
    using assms(6) b(4) by (intro nbufc_prints [OF files_with_file b(2) _ assms(8) prints]) simp_all
  moreover note source_parses [OF assms(3,4) names assms(7,8)]
  from this have "nbufc fuel env (with_file u ?txt host) [p, ''b'', u] = Run (Exit 0 (buf_data b))"
    by (rule nbufc_compiles [OF files_with_file _ b(1,2)])
  ultimately show ?thesis by blast
qed


text \<open>A file that holds the text of \<open>demo_source\<close>.\<close>

definition demo_env :: env where
  "demo_env = \<lparr>env_al = roomy, env_fl = \<lparr>fl_widen = \<lambda>_. 0, fl_narrow = \<lambda>_. 0, fl_of_int = id, fl_strtod = \<lambda>_. 0,
    fl_fmt_g = \<lambda>_ _. []\<rparr>\<rparr>"

definition demo_host :: host where
  "demo_host = with_file ''s.nbuf'' (schema_text (compiled_view demo_source demo_layout))
    \<lparr>files = Map.empty, stdin_bytes = [], stdin_err = False\<rparr>"

theorem schema_survives_command_witness:
  "\<exists>bin txt. nbufc 0 demo_env demo_host [''nbufc'', ''b'', ''s.nbuf''] = Run (Exit 0 bin) \<and> length bin = 216 \<and>
    nbufc 0 demo_env (with_file ''s.bin'' bin demo_host) [''nbufc'', ''a'', ''s.bin''] = Run (Exit 0 txt) \<and>
    nbufc 0 demo_env (with_file ''t.nbuf'' txt demo_host) [''nbufc'', ''b'', ''t.nbuf''] = Run (Exit 0 bin)"
proof -
  obtain ts where ts: "makelookup demo_source = Inr ts" "outmsgs (lookup ts) (sd_msgs demo_source) = Some demo_layout"
    by (rule demo_types)
  have al: "env_al demo_env = roomy" by (simp add: demo_env_def)
  note y = source_parses [OF ts demo_source_text roomy_all]
  have f: "files demo_host ''s.nbuf'' = Some (schema_text (compiled_view demo_source demo_layout), False)"
    by (simp add: demo_host_def)
  show ?thesis
    using schema_survives_command [OF f _ ts demo_source_text(2) _ demo_source_text(2), of demo_env] y al demo_facts(2)
    by simp
qed

section \<open>A message that does not parse\<close>

text \<open>
  \<^verbatim>\<open>enc_dec\<close> does not look at the result of \<^verbatim>\<open>nbuf_parse\<close>: the command ends with status 0 and writes the
  message as far as it was built, also when the parser has reported errors.
\<close>

lemma encode_ignores_errors:
  assumes "nbuf_get_Schema w 1 = Some schema" and "root_type w schema name = Some (Some rootType)"
    and "nbuf_parse fuel env (put_buf w 2 (snd (nbuf_init_write (env_al env) None 0))) 2
      (nbuf_lex_init (stdin_bytes host)) schema rootType = Run (False, p, w2)"
    and "outbin w2 2 = Some out"
  shows "enc_dec fuel env host w 1 2 (of_char CHR ''e'') name = Run (Exit 0 out)"
  using assms by (simp add: enc_dec_def)

end
