(* ===== verification/Rpc.thy ===== *)
theory Rpc
  imports Obj Lexer
begin

text \<open>
  Framing of messages on a stream, \<^verbatim>\<open>rpc/nrpc.c\<close>.  The sender replaces the element count at the start
  of a message, always 1, by the length of the message; the receiver collects what libuv delivers
  until it has that many bytes and puts the 1 back.  What libuv returns (the results of
  \<^verbatim>\<open>uv_read_start\<close>, \<^verbatim>\<open>uv_read_stop\<close> and \<^verbatim>\<open>uv_write\<close>, and the bytes it reads) is given to the
  definitions as arguments.  The reading side is a state machine; its step relation, an
  invariant of the states it reaches and the delivery of a whole message are below.
\<close>

section \<open>Reading\<close>

text \<open>\<^verbatim>\<open>struct rpc_rd_ctx\<close>; the callback and \<^verbatim>\<open>buffer_base\<close> are left out.\<close>

record rpc_rd_ctx =
  rd_buf :: nbuf_buffer
  rd_data :: nat
  rd_buffer_len :: nat

text \<open>What a call of \<^verbatim>\<open>on_read\<close> ends with: it waits for more, or hands over to the callback.\<close>

datatype read_result = More rpc_rd_ctx | Read_done int nbuf_buffer nat

definition deliver :: "rpc_rd_ctx \<Rightarrow> int \<Rightarrow> nbuf_buffer \<Rightarrow> read_result" where
  "deliver ctx nread buf = Read_done nread buf (rd_data ctx)"

text \<open>
  The announced length, from the first word; \<^verbatim>\<open>nbuf_read_int_safe\<close> extends its sign.
\<close>

definition msg_len_of :: "nbuf_buffer \<Rightarrow> size_t option" where
  "msg_len_of buf =
    (if buf_len buf \<ge> NBUF_WORD_SZ then nbuf_read_int_safe buf 0 NBUF_WORD_SZ else Some 0)"

text \<open>The part of \<^verbatim>\<open>on_read\<close> after the bytes have been added.  \<open>stop\<close> is what \<^verbatim>\<open>uv_read_stop\<close> would return.\<close>

definition check_frame :: "int \<Rightarrow> rpc_rd_ctx \<Rightarrow> int \<Rightarrow> nbuf_buffer \<Rightarrow> read_result option" where
  "check_frame stop ctx nread buf =
    do { msg_len \<leftarrow> msg_len_of buf;
         if nread > 0 \<and> (msg_len = 0 \<or> buf_len buf < msg_len) then Some (More (ctx\<lparr>rd_buf := buf\<rparr>))
         else if msg_len = 0 \<or> buf_len buf \<noteq> msg_len \<or> stop \<noteq> 0 then Some (deliver ctx (- 1) buf)
         else do {
           buf1 \<leftarrow> nbuf_write_int_safe buf 0 NBUF_WORD_SZ 1;
           Some (deliver ctx (sint msg_len) buf1) } }"

text \<open>
  \<open>None\<close> is undefined behaviour: on an error \<^verbatim>\<open>nread < 0\<close> the code jumps to \<^verbatim>\<open>done\<close> before \<^verbatim>\<open>ctx\<close> and
  \<^verbatim>\<open>buf\<close> are set.
\<close>

definition on_read ::
    "allocator \<Rightarrow> int \<Rightarrow> rpc_rd_ctx \<Rightarrow> int \<Rightarrow> byte list \<Rightarrow> read_result option" where
  "on_read al stop ctx nread uvbuf =
    (if nread < 0 then None
     else do {
       (_, buf) \<leftarrow> nbuf_reserve al (rd_buf ctx) (of_int nread);
       bs \<leftarrow> load uvbuf 0 (nat nread);
       blk \<leftarrow> store (buf_base buf) (unat (buf_len buf)) bs;
       check_frame stop ctx nread (buf\<lparr>buf_base := blk, buf_len := buf_len buf + of_int nread\<rparr>) })"

definition alloc_cb :: "rpc_rd_ctx \<Rightarrow> nat" where
  "alloc_cb ctx = rd_buffer_len ctx"

text \<open>\<open>start\<close> is what \<^verbatim>\<open>uv_read_start\<close> returns, \<open>dat\<close> the \<^verbatim>\<open>data\<close> of the stream.\<close>

definition nrpc_read :: "allocator \<Rightarrow> int \<Rightarrow> nat \<Rightarrow> nbuf_buffer \<Rightarrow> int \<times> rpc_rd_ctx option" where
  "nrpc_read al start dat buf =
    (if \<not> grants al (56 + 65536) then (- 1, None)
     else (start, Some \<lparr>rd_buf = buf, rd_data = dat, rd_buffer_len = 65536\<rparr>))"

section \<open>Writing\<close>

record rpc_wr_ctx =
  wr_base :: "byte list"
  wr_len :: size_t
  wr_data :: nat

text \<open>\<open>write\<close> is what \<^verbatim>\<open>uv_write\<close> returns; it sends the first \<open>wr_len\<close> bytes of \<open>wr_base\<close>.\<close>

definition nrpc_write ::
    "allocator \<Rightarrow> int \<Rightarrow> nat \<Rightarrow> nbuf_buffer \<Rightarrow> (int \<times> rpc_wr_ctx option) option" where
  "nrpc_write al write dat buf =
    (if \<not> grants al 32 then Some (- 1, None)
     else do {
       buf1 \<leftarrow> nbuf_write_int_safe buf 0 NBUF_WORD_SZ (buf_len buf);
       Some (write, Some \<lparr>wr_base = buf_base buf1, wr_len = buf_len buf, wr_data = dat\<rparr>) })"

definition wire_bytes :: "rpc_wr_ctx \<Rightarrow> byte list" where
  "wire_bytes ctx = take (unat (wr_len ctx)) (wr_base ctx)"

text \<open>The arguments of the callback and the restored \<^verbatim>\<open>data\<close>: the buffer comes back empty, for reuse.\<close>

definition on_write_end :: "allocator \<Rightarrow> rpc_wr_ctx \<Rightarrow> int \<Rightarrow> int \<times> nbuf_buffer \<times> nat" where
  "on_write_end al ctx status =
    (status, snd (nbuf_init_write al (Some (wr_base ctx)) (wr_len ctx)), wr_data ctx)"

section \<open>The state machine of a reader\<close>

datatype conn = Idle | Reading rpc_rd_ctx | Delivered int nbuf_buffer

datatype event = Start nat nbuf_buffer | Recv "byte list"

text \<open>The events: \<^verbatim>\<open>nrpc_read\<close>, and a delivery of bytes by libuv, whose calls all succeed.\<close>

inductive rpc_step :: "allocator \<Rightarrow> conn \<Rightarrow> event \<Rightarrow> conn \<Rightarrow> bool" for al where
  start: "nrpc_read al 0 dat buf = (0, Some ctx) \<Longrightarrow> rpc_step al Idle (Start dat buf) (Reading ctx)"
| more: "on_read al 0 ctx (int (length bs)) bs = Some (More ctx') \<Longrightarrow>
    rpc_step al (Reading ctx) (Recv bs) (Reading ctx')"
| finish: "on_read al 0 ctx (int (length bs)) bs = Some (Read_done n buf dat) \<Longrightarrow>
    rpc_step al (Reading ctx) (Recv bs) (Delivered n buf)"

inductive_cases step_Idle: "rpc_step al Idle e c"
inductive_cases step_Reading: "rpc_step al (Reading ctx) e c"
inductive_cases step_Delivered: "rpc_step al (Delivered n buf) e c"

inductive rpc_run :: "allocator \<Rightarrow> conn \<Rightarrow> event list \<Rightarrow> conn \<Rightarrow> bool" for al where
  no_more: "rpc_run al c [] c"
| step: "rpc_step al c e c1 \<Longrightarrow> rpc_run al c1 es c2 \<Longrightarrow> rpc_run al c (e # es) c2"

inductive_simps run_Nil: "rpc_run al c [] c2"
inductive_simps run_Cons: "rpc_run al c (e # es) c2"

lemma rpc_step_deterministic: "rpc_step al c e c1 \<Longrightarrow> rpc_step al c e c2 \<Longrightarrow> c1 = c2"
  by (induction rule: rpc_step.induct) (auto elim!: step_Idle step_Reading)

lemma rpc_run_deterministic: "rpc_run al c es c1 \<Longrightarrow> rpc_run al c es c2 \<Longrightarrow> c1 = c2"
  by (induction rule: rpc_run.induct) (auto simp: run_Nil run_Cons dest: rpc_step_deterministic)

section \<open>Collecting bytes\<close>

text \<open>The length announced by the first four bytes, 0 as long as they are not there.\<close>

definition announced :: "byte list \<Rightarrow> nat" where
  "announced s = (if 4 \<le> length s then le_val (take 4 s) else 0)"

lemma append_ok:
  assumes al: "all_granted al" and w: "buf_wwf b" and len: "unat (buf_len b) + length bs < 2 ^ 62"
  obtains b1 blk where "nbuf_reserve al b (of_nat (length bs)) = Some (True, b1)"
    and "store (buf_base b1) (unat (buf_len b1)) bs = Some blk"
    and "grown b bs (b1\<lparr>buf_base := blk, buf_len := buf_len b1 + of_nat (length bs)\<rparr>)"
proof -
  let ?n = "unat (buf_len b)" and ?k = "length bs"
  have k: "unat (of_nat ?k :: size_t) = ?k" using len by (intro unat_of_nat_64) simp
  have "?n + unat (of_nat ?k :: size_t) < 2 ^ 62" using len k by simp
  then obtain b1 where b1: "nbuf_reserve al b (of_nat ?k) = Some (True, b1)" "reserved b (unat (of_nat ?k :: size_t)) b1"
    by (rule reserve_cases [OF w, of _ al]) (use al in \<open>auto simp: all_granted_def\<close>)
  have r: "buf_len b1 = buf_len b" "?n + ?k \<le> length (buf_base b1)"
    "take (length (buf_base b)) (buf_base b1) = buf_base b" "buf_wwf b1"
    using b1(2) k by (simp_all add: reserved_def)
  have n: "?n \<le> length (buf_base b)" using w by (simp add: buf_wwf_def word_le_nat_alt)
  have l: "unat (buf_len b + of_nat ?k) = ?n + ?k" using len k by (subst unat_add_nowrap) simp_all
  have st: "store (buf_base b1) ?n bs = Some (splice_at ?n bs (buf_base b1))" using r(2) by (simp add: store_def)
  have "take ?n (buf_base b1) = take ?n (buf_base b)" using r(3) n by (metis min.absorb1 take_take)
  then have "take (?n + ?k) (splice_at ?n bs (buf_base b1)) = take ?n (buf_base b) @ bs"
    using r(2) n by (simp add: splice_at_def min.absorb2)
  then show thesis
    using that [OF b1(1)] st l r by (simp add: grown_def buf_data_def buf_wwf_def word_le_nat_alt)
qed

text \<open>The states of a reader that has collected \<open>s\<close>.\<close>

definition collected :: "rpc_rd_ctx \<Rightarrow> byte list \<Rightarrow> bool" where
  "collected ctx s \<longleftrightarrow> buf_wwf (rd_buf ctx) \<and> buf_data (rd_buf ctx) = s \<and> unat (buf_len (rd_buf ctx)) = length s"

lemma msg_len_eq:
  assumes "buf_wwf b" and "buf_data b = s" and "unat (buf_len b) = length s" and "announced s < 2 ^ 31"
  shows "msg_len_of b = Some (of_nat (announced s))"
proof (cases "4 \<le> length s")
  case False
  then show ?thesis using assms(3) by (simp add: msg_len_of_def announced_def word_le_nat_alt NBUF_WORD_SZ_def)
next
  case True
  have "seg 0 4 (buf_base b) = take 4 s"
  proof -
    have t: "take (length s) (buf_base b) = s" using assms(2,3) by (simp add: buf_data_def)
    have "take 4 (take (length s) (buf_base b)) = take 4 (buf_base b)" using True by (simp add: min_def)
    then show ?thesis unfolding t by (simp add: seg_def)
  qed
  moreover have "int_conv 4 (of_nat (announced s)) = of_nat (announced s)" using int_conv4_small assms(4) .
  ultimately show ?thesis
    using True assms buf_wwf_wf [OF assms(1)]
    by (simp add: msg_len_of_def announced_def word_le_nat_alt NBUF_WORD_SZ_def read_safe_eq)
qed

definition completed :: "byte list \<Rightarrow> byte list" where
  "completed s = le_enc 4 1 @ drop 4 s"

lemma on_read_ok:
  assumes al: "all_granted al" and c: "collected ctx s" and len: "length (s @ bs) < 2 ^ 60"
    and ne: "bs \<noteq> []" and a: "announced (s @ bs) < 2 ^ 31"
  shows "if announced (s @ bs) = 0 \<or> length (s @ bs) < announced (s @ bs)
     then \<exists>ctx'. on_read al 0 ctx (int (length bs)) bs = Some (More ctx') \<and> collected ctx' (s @ bs)
     else if length (s @ bs) = announced (s @ bs)
     then \<exists>b. on_read al 0 ctx (int (length bs)) bs
            = Some (Read_done (int (announced (s @ bs))) b (rd_data ctx)) \<and> buf_wwf b \<and>
          buf_data b = completed (s @ bs)
     else \<exists>b. on_read al 0 ctx (int (length bs)) bs = Some (Read_done (- 1) b (rd_data ctx))"
proof -
  let ?b = "rd_buf ctx" and ?t = "s @ bs"
  have w: "buf_wwf ?b" "buf_data ?b = s" "unat (buf_len ?b) = length s" using c by (simp_all add: collected_def)
  have "unat (buf_len ?b) + length bs < 2 ^ 62" using w(3) len by simp
  then obtain b1 blk where b1: "nbuf_reserve al ?b (of_nat (length bs)) = Some (True, b1)"
    "store (buf_base b1) (unat (buf_len b1)) bs = Some blk"
    "grown ?b bs (b1\<lparr>buf_base := blk, buf_len := buf_len b1 + of_nat (length bs)\<rparr>)"
    by (rule append_ok [OF al w(1)])
  define b2 where "b2 = b1\<lparr>buf_base := blk, buf_len := buf_len b1 + of_nat (length bs)\<rparr>"
  have g: "buf_wwf b2" "buf_data b2 = ?t" "unat (buf_len b2) = length ?t"
    using b1(3) w by (simp_all add: grown_def b2_def)
  have ml: "msg_len_of b2 = Some (of_nat (announced ?t))" by (rule msg_len_eq [OF g a])
  have ua: "unat (of_nat (announced ?t) :: size_t) = announced ?t" using a by (intro unat_of_nat_64) simp
  have z: "(of_nat (announced ?t) :: size_t) = 0 \<longleftrightarrow> announced ?t = 0" using ua by (metis unat_0 unat_0_iff)
  have lt: "buf_len b2 < of_nat (announced ?t) \<longleftrightarrow> length ?t < announced ?t"
    using ua g(3) by (simp add: word_less_nat_alt)
  have eq: "buf_len b2 = of_nat (announced ?t) \<longleftrightarrow> length ?t = announced ?t"
    using ua g(3) by (metis word_unat_eq_iff)
  have s1: "sint (of_nat (announced ?t) :: size_t) = int (announced ?t)"
    using a by (simp add: sint_uint signed_take_bit_int_eq_self uint_nat unat_of_nat_64)
  have wr: "nbuf_write_int_safe b2 0 NBUF_WORD_SZ 1
      = Some (b2\<lparr>buf_base := splice_at 0 (le_enc 4 1) (buf_base b2)\<rparr>)" if "announced ?t \<noteq> 0"
    using that g(3) buf_wwf_wf [OF g(1)]
    by (simp add: write_safe_eq NBUF_WORD_SZ_def announced_def split: if_splits del: le_enc.simps)
  have step: "on_read al 0 ctx (int (length bs)) bs =
      (if announced ?t = 0 \<or> length ?t < announced ?t then Some (More (ctx\<lparr>rd_buf := b2\<rparr>))
       else if length ?t \<noteq> announced ?t then Some (Read_done (- 1) b2 (rd_data ctx))
       else Some (Read_done (int (announced ?t)) (b2\<lparr>buf_base := splice_at 0 (le_enc 4 1) (buf_base b2)\<rparr>) (rd_data ctx)))"
  proof -
    have "on_read al 0 ctx (int (length bs)) bs = check_frame 0 ctx (int (length bs)) b2"
      using b1(1,2) by (simp add: on_read_def load_def flip: b2_def)
    then show ?thesis using ne ml wr z lt eq s1 by (simp add: check_frame_def deliver_def)
  qed
  have cp: "buf_data (b2\<lparr>buf_base := splice_at 0 (le_enc 4 1) (buf_base b2)\<rparr>) = completed ?t"
    "buf_wwf (b2\<lparr>buf_base := splice_at 0 (le_enc 4 1) (buf_base b2)\<rparr>)" if "4 \<le> length ?t"
  proof -
    have d: "take (length ?t - 4) (drop 4 (buf_base b2)) = drop 4 ?t"
      using drop_take [of 4 "length ?t" "buf_base b2"] g(2,3) by (simp add: buf_data_def)
    have "length ?t \<le> length (buf_base b2)" using g by (simp add: buf_wwf_def word_le_nat_alt)
    then show "buf_data (b2\<lparr>buf_base := splice_at 0 (le_enc 4 1) (buf_base b2)\<rparr>) = completed ?t"
      "buf_wwf (b2\<lparr>buf_base := splice_at 0 (le_enc 4 1) (buf_base b2)\<rparr>)"
      using that g d by (auto simp: buf_data_def completed_def splice_at_def buf_wwf_def simp del: le_enc.simps)
  qed
  have "announced ?t \<noteq> 0 \<Longrightarrow> 4 \<le> length ?t" by (simp add: announced_def split: if_splits)
  then show ?thesis using step cp g by (auto simp: collected_def)
qed

lemma announced_append: "4 \<le> length s \<Longrightarrow> announced (s @ t) = announced s"
  by (simp add: announced_def)

lemma announced_prefix: "announced (s @ t) < n \<Longrightarrow> 0 < n \<Longrightarrow> announced s < n"
  by (cases "4 \<le> length s") (simp_all add: announced_append, simp add: announced_def)

lemma run_to_reading:
  assumes al: "all_granted al"
  shows "rpc_run al (Reading ctx) (map Recv chunks) (Reading ctx') \<Longrightarrow> collected ctx s \<Longrightarrow>
    [] \<notin> set chunks \<Longrightarrow> length (s @ concat chunks) < 2 ^ 60 \<Longrightarrow> announced (s @ concat chunks) < 2 ^ 31 \<Longrightarrow>
    collected ctx' (s @ concat chunks) \<and>
    (chunks \<noteq> [] \<longrightarrow> announced (s @ concat chunks) = 0 \<or>
      length (s @ concat chunks) < announced (s @ concat chunks))"
proof (induction chunks arbitrary: ctx s)
  case Nil
  then show ?case by (simp add: run_Nil)
next
  case (Cons c chunks)
  let ?t = "s @ c"
  have tl: "s @ concat (c # chunks) = ?t @ concat chunks" by simp
  obtain c1 where st: "rpc_step al (Reading ctx) (Recv c) c1" "rpc_run al c1 (map Recv chunks) (Reading ctx')"
    using Cons.prems(1) by (auto simp: run_Cons)
  have len: "length ?t < 2 ^ 60" using Cons.prems(4) by simp
  have ne: "c \<noteq> []" using Cons.prems(3) by auto
  have an: "announced ?t < 2 ^ 31" using Cons.prems(5) unfolding tl by (rule announced_prefix) simp
  note ok = on_read_ok [OF al Cons.prems(2) len ne an]
  have nd: "\<not> rpc_run al (Delivered n b) (map Recv chunks) (Reading ctx')" for n b
    by (cases chunks) (auto simp: run_Nil run_Cons elim: step_Delivered)
  then obtain ctx1 where c1: "c1 = Reading ctx1" "on_read al 0 ctx (int (length c)) c = Some (More ctx1)"
    using st by (auto elim: step_Reading)
  then have w: "announced ?t = 0 \<or> length ?t < announced ?t" "collected ctx1 ?t"
    using ok by (auto split: if_splits)
  show ?case
  proof (cases "chunks = []")
    case True
    then show ?thesis using st(2) c1(1) w by (simp add: run_Nil)
  next
    case False
    then show ?thesis
      using Cons.IH [OF st(2) [unfolded c1(1)] w(2)] Cons.prems(3-5) unfolding tl by simp
  qed
qed

text \<open>
  Claim C23.  A reader that is still waiting has lost nothing and has not overrun: with memory granted, in
  every state reached by deliveries of at least one byte each, its buffer holds exactly the bytes
  delivered so far, and these are fewer than announced, or not yet enough to tell.
\<close>

theorem reader_keeps_all_bytes:
  assumes "all_granted al" and "rpc_run al Idle (Start dat buf # map Recv chunks) (Reading ctx)"
    and "buf_wwf buf" and "buf_len buf = 0" and "[] \<notin> set chunks" and "length (concat chunks) < 2 ^ 60"
    and "announced (concat chunks) < 2 ^ 31"
  shows "buf_data (rd_buf ctx) = concat chunks \<and>
    (announced (concat chunks) = 0 \<or> length (concat chunks) < announced (concat chunks))"
proof -
  obtain ctx0 where c0: "nrpc_read al 0 dat buf = (0, Some ctx0)"
    "rpc_run al (Reading ctx0) (map Recv chunks) (Reading ctx)"
    using assms(2) by (auto simp: run_Cons elim: step_Idle)
  then have "collected ctx0 []"
    using assms(3,4) by (auto simp: nrpc_read_def collected_def buf_data_def split: if_splits)
  from run_to_reading [OF assms(1) c0(2) this assms(5)] assms(6,7) show ?thesis
    by (cases chunks) (auto simp: collected_def announced_def)
qed

lemma run_delivers:
  assumes al: "all_granted al"
  shows "collected ctx s \<Longrightarrow> [] \<notin> set chunks \<Longrightarrow> chunks \<noteq> [] \<Longrightarrow> s @ concat chunks = msg \<Longrightarrow>
    announced msg = length msg \<Longrightarrow> length msg < 2 ^ 31 \<Longrightarrow> 4 \<le> length msg \<Longrightarrow>
    \<exists>b. rpc_run al (Reading ctx) (map Recv chunks) (Delivered (int (length msg)) b) \<and>
      buf_data b = completed msg"
proof (induction chunks arbitrary: ctx s)
  case Nil
  then show ?case by simp
next
  case (Cons c chunks)
  let ?t = "s @ c"
  have msg: "msg = ?t @ concat chunks" using Cons.prems(4) by simp
  have ne: "c \<noteq> []" using Cons.prems(2) by auto
  have len: "length ?t < 2 ^ 60" using Cons.prems(6) msg by simp
  have an: "announced ?t < 2 ^ 31"
    by (rule announced_prefix [of _ "concat chunks"]) (use Cons.prems(5,6) msg in simp_all)
  note ok = on_read_ok [OF al Cons.prems(1) len ne an]
  show ?case
  proof (cases "chunks = []")
    case True
    then have m: "msg = ?t" using msg by simp
    then obtain b where b: "on_read al 0 ctx (int (length c)) c
        = Some (Read_done (int (length msg)) b (rd_data ctx))" "buf_data b = completed msg"
      using ok Cons.prems(5,7) by (auto split: if_splits)
    then have "rpc_step al (Reading ctx) (Recv c) (Delivered (int (length msg)) b)" by (intro finish)
    then show ?thesis using b(2) True by (auto simp: run_Cons run_Nil)
  next
    case False
    then obtain d ds where ch: "chunks = d # ds" "d \<noteq> []" using Cons.prems(2) by (cases chunks) auto
    then have lt: "length ?t < length msg" using msg by simp
    have "announced ?t = 0 \<or> length ?t < announced ?t"
      using lt Cons.prems(5) announced_append [of ?t "concat chunks"] msg
      by (cases "4 \<le> length ?t") (simp_all add: announced_def)
    then obtain ctx1 where c1: "on_read al 0 ctx (int (length c)) c = Some (More ctx1)" "collected ctx1 ?t"
      using ok by auto
    then have st: "rpc_step al (Reading ctx) (Recv c) (Reading ctx1)" by (intro more)
    obtain b where "rpc_run al (Reading ctx1) (map Recv chunks) (Delivered (int (length msg)) b)"
      "buf_data b = completed msg"
      using Cons.IH [OF c1(2) _ False _ Cons.prems(5-7)] Cons.prems(2) msg by auto
    then show ?thesis using st by (auto simp: run_Cons)
  qed
qed

lemma le_enc_4: "le_enc 4 v = [of_nat (v mod 256), of_nat (v div 256 mod 256),
    of_nat (v div 65536 mod 256), of_nat (v div 16777216 mod 256)]"
proof -
  have four: "(4 :: nat) = Suc (Suc (Suc (Suc 0)))" by simp
  show ?thesis unfolding four by (simp flip: div_mult2_eq)
qed

text \<open>
  Claim C5.  A message that is sent arrives: with memory granted, however the stream splits the bytes that
  \<^verbatim>\<open>nrpc_write\<close> sends into deliveries of at least one byte, the reader hands over, with the last of
  them and not before, the message with its length; its bytes are those of the sender's buffer.
\<close>

theorem message_is_delivered:
  assumes "all_granted al" and "buf_wwf buf" and "8 \<le> unat (buf_len buf)" and "unat (buf_len buf) < 2 ^ 31"
    and "take 4 (buf_data buf) = [1, 0, 0, 0]"
    and "nrpc_write al 0 wdat buf = Some (0, Some wctx)"
    and "concat chunks = wire_bytes wctx" and "[] \<notin> set chunks"
    and "buf_wwf rbuf" and "buf_len rbuf = 0"
  shows "\<exists>b. rpc_run al Idle (Start dat rbuf # map Recv chunks) (Delivered (int (unat (buf_len buf))) b) \<and>
    buf_data b = buf_data buf"
proof -
  let ?n = "unat (buf_len buf)" and ?ctx = "\<lparr>rd_buf = rbuf, rd_data = dat, rd_buffer_len = 65536\<rparr>"
  let ?base = "splice_at 0 (le_enc 4 ?n) (buf_base buf)"
  have n: "?n \<le> length (buf_base buf)" using assms(2) by (simp add: buf_wwf_def word_le_nat_alt)
  have "wctx = \<lparr>wr_base = ?base, wr_len = buf_len buf, wr_data = wdat\<rparr>"
    using assms(1-3,6) buf_wwf_wf [OF assms(2)]
    by (auto simp: nrpc_write_def all_granted_def write_safe_eq NBUF_WORD_SZ_def split: bind_splits if_splits
        simp del: le_enc.simps)
  then have w: "wire_bytes wctx = le_enc 4 ?n @ drop 4 (buf_data buf)" (is "_ = ?msg")
    using n assms(3) by (simp add: wire_bytes_def splice_at_def buf_data_def drop_take del: le_enc.simps)
  have l: "length ?msg = ?n" using n assms(3) by (simp add: buf_data_def)
  have "le_val (le_enc 4 ?n) = ?n" using assms(4) by (simp add: le_val_enc)
  then have a: "announced ?msg = length ?msg" using l assms(3) by (simp add: announced_def del: le_enc.simps)
  have "completed ?msg = [1, 0, 0, 0] @ drop 4 (buf_data buf)" 
    unfolding completed_def le_enc_4 [of 1] by (simp del: le_enc.simps)
  also have "\<dots> = buf_data buf" using assms(5) by (metis append_take_drop_id)
  finally have c: "completed ?msg = buf_data buf" .
  have ne: "chunks \<noteq> []" using assms(3,7) w l by auto
  have col: "collected ?ctx []" using assms(9,10) by (simp add: collected_def buf_data_def)
  have e: "[] @ concat chunks = ?msg" using assms(7) w by simp
  have lt: "length ?msg < 2 ^ 31" "4 \<le> length ?msg" using l assms(3,4) by linarith+
  from run_delivers [OF assms(1) col assms(8) ne e a lt] obtain b where
    b: "rpc_run al (Reading ?ctx) (map Recv chunks) (Delivered (int ?n) b)" "buf_data b = buf_data buf"
    unfolding l c by blast
  have "rpc_step al Idle (Start dat rbuf) (Reading ?ctx)"
    using assms(1) by (intro start) (simp add: nrpc_read_def all_granted_def)
  then show ?thesis using b by (auto simp: run_Cons)
qed

definition demo_message :: nbuf_buffer where
  "demo_message = \<lparr>buf_base = [1, 0, 0, 0, 1, 0, 0, 0, 7, 0, 0, 0, 0, 0, 0, 0], buf_len = 16, buf_cap = 16,
     buf_ops = NULL_ops\<rparr>"

definition empty_buffer :: nbuf_buffer where
  "empty_buffer = \<lparr>buf_base = [], buf_len = 0, buf_cap = 0, buf_ops = NULL_ops\<rparr>"

lemma demo_rpc_wf: "buf_wwf demo_message" "buf_wwf empty_buffer" "buf_len empty_buffer = 0"
  by (simp_all add: buf_wwf_def demo_message_def empty_buffer_def)

theorem message_is_delivered_witness:
  "\<exists>b. rpc_run roomy Idle
      [Start 0 empty_buffer, Recv [16, 0], Recv [0, 0, 1, 0, 0, 0], Recv [7, 0, 0, 0, 0, 0, 0, 0]]
      (Delivered 16 b) \<and> buf_data b = [1, 0, 0, 0, 1, 0, 0, 0, 7, 0, 0, 0, 0, 0, 0, 0]"
proof -
  let ?w = "\<lparr>wr_base = [16, 0, 0, 0, 1, 0, 0, 0, 7, 0, 0, 0, 0, 0, 0, 0], wr_len = 16, wr_data = 0\<rparr>"
  have w: "nrpc_write roomy 0 0 demo_message = Some (0, Some ?w)"
    by (simp add: nrpc_write_def roomy_def nbuf_write_int_safe_def nbuf_write_int_unsafe_def store_def
        splice_at_def nbuf_bounds_check_def demo_message_def NBUF_WORD_SZ_def le_enc_4 del: le_enc.simps)
  show ?thesis
    using message_is_delivered [of roomy demo_message 0 ?w
        "[[16, 0], [0, 0, 1, 0, 0, 0], [7, 0, 0, 0, 0, 0, 0, 0]]" empty_buffer 0] w demo_rpc_wf
    by (simp add: demo_message_def buf_data_def wire_bytes_def)
qed

theorem reader_keeps_all_bytes_witness:
  "\<exists>ctx. rpc_run roomy Idle [Start 0 empty_buffer, Recv [16, 0, 0, 0, 1]] (Reading ctx) \<and>
    buf_data (rd_buf ctx) = [16, 0, 0, 0, 1]"
proof -
  let ?ctx = "\<lparr>rd_buf = empty_buffer, rd_data = 0, rd_buffer_len = 65536\<rparr>" and ?bs = "[16, 0, 0, 0, 1] :: byte list"
  have c: "collected ?ctx []" using demo_rpc_wf by (simp add: collected_def buf_data_def)
  have a: "announced ?bs = 16" by (simp add: announced_def)
  obtain ctx where "on_read roomy 0 ?ctx (int (length ?bs)) ?bs = Some (More ctx)"
    using on_read_ok [OF roomy_all c, of ?bs] by (auto simp: a)
  then have "rpc_step roomy (Reading ?ctx) (Recv ?bs) (Reading ctx)" by (intro more)
  moreover have "rpc_step roomy Idle (Start 0 empty_buffer) (Reading ?ctx)"
    by (intro start) (simp add: nrpc_read_def roomy_def)
  ultimately have r: "rpc_run roomy Idle (Start 0 empty_buffer # map Recv [?bs]) (Reading ctx)"
    by (auto simp: run_Cons run_Nil)
  have "buf_data (rd_buf ctx) = ?bs"
    using reader_keeps_all_bytes [OF roomy_all r demo_rpc_wf(2,3)] by (simp add: a)
  then show ?thesis using r by auto
qed

section \<open>Where the reader fails\<close>

text \<open>A read error or the end of the stream: the callback is taken from an uninitialised pointer.\<close>

lemma read_error_crashes: "nread < 0 \<Longrightarrow> on_read al stop ctx nread uvbuf = None"
  by (simp add: on_read_def)

text \<open>
  libuv may deliver 0 bytes, which is no error; the reader gives up the message in the middle.
\<close>

lemma zero_bytes_end_message:
  assumes "all_granted al" and "collected ctx s" and "length s < announced s" and "announced s < 2 ^ 31"
  shows "\<exists>b. on_read al 0 ctx 0 [] = Some (Read_done (- 1) b (rd_data ctx))"
proof -
  let ?b = "rd_buf ctx"
  have w: "buf_wwf ?b" "buf_data ?b = s" "unat (buf_len ?b) = length s" using assms(2) by (simp_all add: collected_def)
  have "unat (buf_len ?b) + length ([] :: byte list) < 2 ^ 62" using w(3) assms(3,4) by simp
  then obtain b1 blk where b1: "nbuf_reserve al ?b (of_nat (length ([] :: byte list))) = Some (True, b1)"
    "store (buf_base b1) (unat (buf_len b1)) [] = Some blk"
    "grown ?b [] (b1\<lparr>buf_base := blk, buf_len := buf_len b1 + of_nat (length ([] :: byte list))\<rparr>)"
    by (rule append_ok [OF assms(1) w(1)])
  define b2 where "b2 = b1\<lparr>buf_base := blk, buf_len := buf_len b1\<rparr>"
  have g: "buf_wwf b2" "buf_data b2 = s" "unat (buf_len b2) = length s"
    using b1(3) w by (simp_all add: grown_def b2_def)
  have ml: "msg_len_of b2 = Some (of_nat (announced s))" by (rule msg_len_eq [OF g assms(4)])
  have "unat (of_nat (announced s) :: size_t) = announced s" using assms(4) by (intro unat_of_nat_64) simp
  then have "buf_len b2 \<noteq> of_nat (announced s)" using g(3) assms(3) by (metis less_irrefl)
  then show ?thesis using b1(1,2) ml
    by (simp add: on_read_def load_def seg_def check_frame_def deliver_def b2_def)
qed

end
