(* ===== verification/Client.thy ===== *)
theory Client
  imports Nbufc Rpc
begin

text \<open>
  The client \<^verbatim>\<open>rpc/nrpc_cli.c\<close>: it loads a schema, reads a request as text, sends it, collects the
  response and prints it.  The callbacks are modelled one by one, with what libuv passes to them and what
  its functions return as arguments; setting up the connection and the event loop are left out.
\<close>

section \<open>The callbacks\<close>

text \<open>\<open>Inl\<close> is \<^verbatim>\<open>die\<close>, also through \<^verbatim>\<open>CHECK\<close> and \<^verbatim>\<open>CHECK_OK\<close>; \<open>a\<close> is the address of the local or static buffer.\<close>

record client =
  cl_schema :: nbuf_obj
  cl_reqtype :: nbuf_obj
  cl_resptype :: nbuf_obj

definition find_type :: "world \<Rightarrow> nbuf_obj \<Rightarrow> string \<Rightarrow> (unit + nbuf_obj) option" where
  "find_type w schema name =
    do { (found, m) \<leftarrow> nbuf_find_msg w (null_obj 0) schema (cstr name);
         Some (if found then Inr m else Inl ()) }"

definition cli_load_schema ::
    "allocator \<Rightarrow> host \<Rightarrow> world \<Rightarrow> nat \<Rightarrow> string \<Rightarrow> string \<Rightarrow> string \<Rightarrow> (unit + client \<times> world) option" where
  "cli_load_schema al host w a path req_type resp_type =
    (case files host path of
       None \<Rightarrow> Some (Inl ())
     | Some (bytes, err) \<Rightarrow>
         do { (ok, b) \<leftarrow> nbuf_load_file al (snd (nbuf_init_write al None 0)) bytes err;
              if \<not> ok then Some (Inl ())
              else do {
                let w1 = put_buf w a b;
                schema \<leftarrow> nbuf_get_Schema w1 a;
                req \<leftarrow> find_type w1 schema req_type;
                (case req of Inl _ \<Rightarrow> Some (Inl ())
                 | Inr reqtype \<Rightarrow>
                     do { resp \<leftarrow> find_type w1 schema resp_type;
                          Some (case resp of Inl _ \<Rightarrow> Inl ()
                            | Inr resptype \<Rightarrow> Inr (\<lparr>cl_schema = schema, cl_reqtype = reqtype,
                                cl_resptype = resptype\<rparr>, w1)) }) } })"

text \<open>\<open>write\<close> is what \<^verbatim>\<open>uv_write\<close> returns; on success the message is on its way.\<close>

definition cli_on_connect ::
    "nat \<Rightarrow> env \<Rightarrow> int \<Rightarrow> nat \<Rightarrow> host \<Rightarrow> client \<Rightarrow> world \<Rightarrow> nat \<Rightarrow> int \<Rightarrow> (unit + rpc_wr_ctx) run" where
  "cli_on_connect fuel env write dat host cl w a status =
    (if status \<noteq> 0 then Run (Inl ())
     else (let w1 = put_buf w a (snd (nbuf_init_write (env_al env) None 0))
       in bind_run (nbuf_parse fuel env w1 a (nbuf_lex_init (stdin_bytes host)) (cl_schema cl) (cl_reqtype cl))
            (\<lambda>(ok, _, w2).
          if \<not> ok then Run (Inl ())
          else bind_run (of_opt (do { buf \<leftarrow> bufs w2 a; nrpc_write (env_al env) write dat buf })) (\<lambda>(r, ctx).
            case ctx of Some c \<Rightarrow> Run (if r \<noteq> 0 then Inl () else Inr c) | None \<Rightarrow> Run (Inl ())))))"

text \<open>The buffer of the request is used for the response.\<close>

definition cli_on_write_end ::
    "allocator \<Rightarrow> int \<Rightarrow> nat \<Rightarrow> int \<Rightarrow> nbuf_buffer \<Rightarrow> unit + rpc_rd_ctx" where
  "cli_on_write_end al start dat status buf =
    (if status \<noteq> 0 then Inl ()
     else case nrpc_read al start dat (nbuf_clear buf) of
       (r, Some ctx) \<Rightarrow> if r \<noteq> 0 then Inl () else Inr ctx
     | (_, None) \<Rightarrow> Inl ())"

text \<open>\<open>o0\<close> is what the local \<^verbatim>\<open>o\<close> happens to hold: only its \<^verbatim>\<open>buf\<close> is set before \<^verbatim>\<open>nbuf_obj_init\<close>.\<close>

definition cli_on_read ::
    "nat \<Rightarrow> float_lib \<Rightarrow> nbuf_obj \<Rightarrow> client \<Rightarrow> world \<Rightarrow> nat \<Rightarrow> int \<Rightarrow> nbuf_buffer \<Rightarrow> (unit + byte list) run" where
  "cli_on_read fuel fl o0 cl w a nread buf =
    (if nread < 0 then Run (Inl ())
     else bind_run (of_opt (nbuf_obj_init buf (o0\<lparr>obj_buf := a\<rparr>) 0)) (\<lambda>ob.
       bind_run (nbuf_print fuel fl (put_buf w a buf) ob 2 (cl_schema cl) (cl_resptype cl)) (\<lambda>out.
       Run (Inr out))))"

section \<open>A request and its response\<close>

text \<open>What the client sends is what the writer of \<open>Rpc\<close> sends for the message it built.\<close>

lemma client_sends:
  assumes "nbuf_parse fuel env (put_buf w a (snd (nbuf_init_write (env_al env) None 0))) a
      (nbuf_lex_init (stdin_bytes host)) (cl_schema cl) (cl_reqtype cl) = Run (True, p, w2)"
    and "bufs w2 a = Some buf" and "nrpc_write (env_al env) 0 dat buf = Some (0, Some ctx)"
  shows "cli_on_connect fuel env 0 dat host cl w a 0 = Run (Inr ctx)"
  using assms by (simp add: cli_on_connect_def)

text \<open>A request that does not parse is not sent.\<close>

lemma client_rejects:
  assumes "nbuf_parse fuel env (put_buf w a (snd (nbuf_init_write (env_al env) None 0))) a
      (nbuf_lex_init (stdin_bytes host)) (cl_schema cl) (cl_reqtype cl) = Run (False, p, w2)"
  shows "cli_on_connect fuel env write dat host cl w a 0 = Run (Inl ())"
  using assms by (simp add: cli_on_connect_def)

text \<open>The reader that waits for the response starts without bytes, in the block of the request.\<close>

lemma client_waits:
  assumes "all_granted al"
  shows "cli_on_write_end al 0 dat 0 buf = Inr \<lparr>rd_buf = buf\<lparr>buf_len := 0\<rparr>, rd_data = dat, rd_buffer_len = 65536\<rparr>"
  using assms by (simp add: cli_on_write_end_def nrpc_read_def nbuf_clear_def all_granted_def)

text \<open>
  With fewer than 8 bytes in the response, \<^verbatim>\<open>nbuf_obj_init\<close> leaves the object alone and its result is
  not looked at, so what is printed depends on what the local variable held.
\<close>

lemma short_response_prints_garbage:
  assumes "unat (buf_len buf) < 8" and "0 \<le> nread"
  shows "cli_on_read fuel fl o0 cl w a nread buf =
    bind_run (nbuf_print fuel fl (put_buf w a buf) (o0\<lparr>obj_buf := a\<rparr>) 2 (cl_schema cl) (cl_resptype cl))
      (\<lambda>out. Run (Inr out))"
  using assms by (simp add: cli_on_read_def nbuf_obj_init_def nbuf_bounds_check_def word_le_nat_alt)

end
