(* ===== verification/Echo.thy ===== *)
theory Echo
  imports Client
begin

text \<open>
  The callbacks of the server \<^verbatim>\<open>rpc/echoserver.c\<close>, which answers a name with a greeting.  The accessors
  of its messages are generated when it is built, so they are parameters; so are the results of libuv and
  whether its own small allocations succeed.
\<close>

section \<open>The callbacks\<close>

text \<open>\<open>req_name\<close>: the returned pointer, or \<^verbatim>\<open>NULL\<close>, and the length.  \<open>respond\<close>: the three calls that build the response.\<close>

record accessors =
  req_name :: "world \<Rightarrow> nat \<Rightarrow> (byte list option \<times> size_t) option"
  respond :: "allocator \<Rightarrow> world \<Rightarrow> nat \<Rightarrow> int64 \<Rightarrow> byte list \<Rightarrow> size_t \<Rightarrow> world option"

text \<open>\<open>Inl\<close> is \<^verbatim>\<open>die\<close>.  The message: the memory \<^verbatim>\<open>msg\<close> points to, and \<^verbatim>\<open>msglen\<close>.\<close>

definition greeting :: "allocator \<Rightarrow> byte list \<Rightarrow> size_t \<Rightarrow> (unit + byte list \<times> size_t) option" where
  "greeting al name namelen =
    (if namelen \<noteq> 0
     then (let msglen = namelen + 8
       in case malloc_block al (unat (msglen + 1)) of
            None \<Rightarrow> Some (Inl ())
          | Some msg \<Rightarrow>
              do { txt \<leftarrow> printf ''hello, %s!'' [Str name];
                   msg1 \<leftarrow> store msg 0 (txt @ [0]);
                   Some (Inr (msg1, msglen)) })
     else Some (Inr (cstr ''hello!'', 6)))"

definition echo_on_read ::
    "allocator \<Rightarrow> accessors \<Rightarrow> bool \<Rightarrow> int64 \<Rightarrow> int \<Rightarrow> nat \<Rightarrow> world \<Rightarrow> nat \<Rightarrow> int \<Rightarrow> (unit + rpc_wr_ctx) option" where
  "echo_on_read al acc write_req time write dat w a nread =
    (if nread < 0 \<or> \<not> write_req then Some (Inl ())
     else do {
       (name, namelen) \<leftarrow> req_name acc w a;
       (case name of
          None \<Rightarrow> Some (Inl ())
        | Some s \<Rightarrow>
            do { g \<leftarrow> greeting al s namelen;
                 (case g of
                    Inl _ \<Rightarrow> Some (Inl ())
                  | Inr (msg, msglen) \<Rightarrow>
                      do { buf \<leftarrow> bufs w a;
                           w1 \<leftarrow> respond acc al (put_buf w a (nbuf_clear buf)) a time msg msglen;
                           buf1 \<leftarrow> bufs w1 a;
                           (r, ctx) \<leftarrow> nrpc_write al write dat buf1;
                           Some (case ctx of Some c \<Rightarrow> if r \<noteq> 0 then Inl () else Inr c | None \<Rightarrow> Inl ()) }) }) })"

definition echo_on_write_end :: "int \<Rightarrow> nbuf_buffer \<Rightarrow> unit + nbuf_buffer" where
  "echo_on_write_end status buf = (if status < 0 then Inl () else Inr (nbuf_free buf))"

text \<open>\<open>conn\<close>: the allocation of the connection; \<open>init\<close>, \<open>accept\<close>, \<open>start\<close>: the results of libuv.\<close>

definition echo_on_connect ::
    "allocator \<Rightarrow> bool \<Rightarrow> int \<Rightarrow> int \<Rightarrow> int \<Rightarrow> nat \<Rightarrow> int \<Rightarrow> unit + rpc_rd_ctx" where
  "echo_on_connect al conn init accept start dat status =
    (if status \<noteq> 0 \<or> \<not> conn \<or> init \<noteq> 0 \<or> accept \<noteq> 0 then Inl ()
     else case nrpc_read al start dat (snd (nbuf_init_write al None 0)) of
       (r, Some ctx) \<Rightarrow> if r \<noteq> 0 then Inl () else Inr ctx
     | (_, None) \<Rightarrow> Inl ())"

section \<open>The greeting\<close>

definition greeting_text :: "byte list \<Rightarrow> byte list" where
  "greeting_text t = lit ''hello, '' @ t @ lit ''!'' @ [0]"

lemma greeting_bytes:
  assumes "fmt_s name = Some t" and "length t \<le> unat namelen" and "namelen \<noteq> 0" and "unat namelen + 9 < 2 ^ 64"
    and "all_granted al"
  shows "greeting al name namelen = Some (Inr
    (greeting_text t @ drop (length t + 9) (map (junk al) [0..<unat namelen + 9]), namelen + 8))"
proof -
  have l: "unat (namelen + 8 + 1) = unat namelen + 9" using assms(4) by (subst add.assoc, subst unat_add_nowrap) simp_all
  have p: "printf ''hello, %s!'' [Str name] = Some (lit ''hello, '' @ t @ lit ''!'')"
    using assms(1) by (simp add: convert_def)
  have g: "(lit ''hello, '' @ t @ lit ''!'') @ [0] = greeting_text t" "length (greeting_text t) = length t + 9"
    by (simp_all add: greeting_text_def)
  have m: "malloc_block al (unat (namelen + 8 + 1)) = Some (map (junk al) [0..<unat namelen + 9])"
    using assms(5) unfolding l by (simp add: malloc_block_def all_granted_def)
  have st: "store (map (junk al) [0..<unat namelen + 9]) 0 (greeting_text t)
      = Some (greeting_text t @ drop (length t + 9) (map (junk al) [0..<unat namelen + 9]))"
    using assms(2) by (simp only: store_def splice_at_def g(2)) simp
  have "namelen \<noteq> 0 \<longleftrightarrow> True" using assms(3) by simp
  then show ?thesis
    by (simp only: greeting_def Let_def m p g(1) st if_True option.case bind.bind_lunit)
qed

text \<open>The block is large enough for a name of at most the announced length, and holds the greeting.\<close>

lemma greeting_fits:
  assumes "fmt_s name = Some t" and "length t \<le> unat namelen" and "namelen \<noteq> 0" and "unat namelen + 9 < 2 ^ 64"
    and "all_granted al"
  shows "\<exists>msg. greeting al name namelen = Some (Inr (msg, namelen + 8)) \<and> fmt_s msg = Some (lit ''hello, '' @ t @ lit ''!'')"
proof -
  have "0 \<notin> set t" using assms(1) set_takeWhileD by (fastforce simp: fmt_s_def c_string_def split: bind_splits)
  then have "fmt_s (greeting_text t @ r) = Some (lit ''hello, '' @ t @ lit ''!'')" for r
    using fmt_s_append [of "lit ''hello, '' @ t @ lit ''!''" r] by (simp add: greeting_text_def)
  with greeting_bytes [OF assms] show ?thesis by blast
qed

text \<open>
  \<^verbatim>\<open>msglen\<close> counts the bytes of the name, but \<^verbatim>\<open>%s\<close> stops at the first NUL in it: for the three bytes
  \<^verbatim>\<open>a NUL b\<close> the last byte that is sent is what the block held when it was allocated.
\<close>

lemma greeting_sends_old_memory:
  assumes "all_granted al"
  shows "\<exists>msg. greeting al [97, 0, 98, 0] 3 = Some (Inr (msg, 11)) \<and> msg ! 10 = junk al 10"
proof -
  have "fmt_s [97, 0, 98, 0] = Some [97]" by (simp add: fmt_s_def c_strlen_def c_string_def)
  from greeting_bytes [OF this, of 3, OF _ _ _ assms] show ?thesis
    by (simp add: nth_append greeting_text_def)
qed

end
