(* ===== verification/Spec2Isabelle.thy ===== *)
theory Spec2Isabelle
  imports Serialize Typed_Fields Headers Echo
begin

text \<open>
  This development verifies \<^verbatim>\<open>nbuf\<close>, a serialization format that is read and written in place, with
  its library, its schema compiler and its message transport.

  \<^bold>\<open>Parts of the program.\<close>  A message is a tree of objects in one \<^verbatim>\<open>struct nbuf_buffer\<close>: a header with the
  number of elements and the sizes of an element, then per element scalars and pointers (relative
  offsets in words).  \<^verbatim>\<open>include/nbuf.h\<close> reads and writes such objects through \<^verbatim>\<open>struct nbuf_obj\<close>;
  \<^verbatim>\<open>lib/pool.c\<close> replaces three of its operations for a builder, where each object has a buffer of its
  own, and lays the objects out in one buffer at the end.  A schema is itself such a message, accessed
  through the functions of \<^verbatim>\<open>include/nbuf.nb.h\<close>.  \<^verbatim>\<open>lib/refl.c\<close> and the field references of
  \<^verbatim>\<open>include/libnbuf.h\<close> access messages through a schema at run time; \<^verbatim>\<open>lib/print.c\<close> and
  \<^verbatim>\<open>lib/parse.c\<close> use them to print messages as text and to build messages from text, which
  \<^verbatim>\<open>lib/token.c\<close> splits into tokens.  The schema compiler in \<^verbatim>\<open>nbufc/\<close> reads a schema as text
  (\<^verbatim>\<open>lex.stub.c\<close>, \<^verbatim>\<open>nbuf.y\<close>), chooses where the fields of a message go (\<^verbatim>\<open>t2b.c\<close>), prints a schema
  back as text (\<^verbatim>\<open>b2t.c\<close>) and generates C data (\<^verbatim>\<open>b2c.c\<close>) and C and C++ accessors (\<^verbatim>\<open>b2h.c\<close>,
  \<^verbatim>\<open>b2hh.c\<close>) from it; \<^verbatim>\<open>nbufc.c\<close> is the command.  \<^verbatim>\<open>rpc/nrpc.c\<close> sends and receives messages on a
  stream, \<^verbatim>\<open>rpc/nrpc_cli.c\<close> and \<^verbatim>\<open>rpc/echoserver.c\<close> are a client and a server.

  \<^bold>\<open>The model.\<close>  Every C function is a function of the same name, with a prefix or suffix where two
  files use a name.  \<open>None\<close> is an abort: a failing
  \<^verbatim>\<open>assert\<close>, an access outside a block, or other undefined behaviour.  Integers keep their C width as
  words.  A block of memory is a byte list; a \<open>world\<close> maps the addresses of buffers to buffers, so
  that objects share them as in C.  Memory is granted by an \<open>allocator\<close>, a parameter that sees the
  request and may refuse any of them; a theorem that needs memory says which requests it needs granted.
  Floating-point numbers are their bit patterns; \<^verbatim>\<open>strtod\<close>, the conversions between \<^verbatim>\<open>float\<close> and
  \<^verbatim>\<open>double\<close> and the text of a \<^verbatim>\<open>double\<close> are parameters.  What a function prints to a file is a byte list.
  The byte order is little endian, as \<^verbatim>\<open>spec.txt\<close> and the code have it.

  \<^item> \<open>Nbuf_Prelude\<close>: words, byte lists, option chains.  \<open>Wire_Int\<close>: the reading and writing of integers
    in memory.  \<open>Cells\<close>: what a field is, and when two fields are disjoint.
  \<^item> \<open>Buffer\<close> (\<^verbatim>\<open>nbuf.h\<close>, \<^verbatim>\<open>lib/util.c\<close>): the growing buffer and the file helpers.  \<^verbatim>\<open>nbuf_reserve\<close>
    returns, with room made and contents kept, or unchanged.
  \<^item> \<open>Obj\<close> and \<open>Obj_Write\<close> (\<^verbatim>\<open>nbuf.h\<close>): objects.  For every object reached from an arbitrary
    buffer it is known exactly when a reader aborts: never on an object with elements, but for the string
    getter on a vector of bits, and on an object without elements when its header puts the field past the
    end of the buffer (\<open>reached_reads_are_safe\<close>).  What is set reads back and nothing else changes.
  \<^item> \<open>Builder\<close> and \<open>Serialize\<close> (\<^verbatim>\<open>lib/pool.c\<close> and the dispatch in \<^verbatim>\<open>nbuf.h\<close>): a builder stays well
    formed; serializing it refines it: every object, scalar and pointer reads the same afterwards
    (\<open>serialize_refines\<close>).
  \<^item> \<open>Schema\<close> (\<^verbatim>\<open>nbuf.nb.h\<close>): all accessors of the schema messages.
  \<^item> \<open>Layout\<close> and \<open>Types\<close> (\<^verbatim>\<open>nbufc/t2b.c\<close>, \<^verbatim>\<open>t2b.h\<close>): the table of types agrees with a map or the
    compiler stops for a reason, and the layouts it computes never overlap (\<open>layouts_are_safe\<close>).
  \<^item> \<open>Lexer\<close> (\<^verbatim>\<open>lib/token.c\<close>): the lexer refines one that splits its input with \<open>takeWhile\<close>, and every
    call makes progress.
  \<^item> \<open>Refl\<close> and \<open>Ref\<close> (\<^verbatim>\<open>lib/refl.c\<close>, \<^verbatim>\<open>libnbuf.h\<close>): searches are first-match searches (locale
    \<open>named_table\<close>, interpreted for the four tables of a schema), references read what they wrote and
    walk over lists.
  \<^item> \<open>Fuel\<close> and \<open>Print\<close> (\<^verbatim>\<open>lib/print.c\<close>): loops with fuel, and the two printers.  The printer without a
    schema aborts on no buffer, unless the root is an object without elements whose header declares
    members past the end; what is printed for a string or an integer is one token again.
  \<^item> \<open>Token_Progress\<close> and \<open>Parse\<close> (\<^verbatim>\<open>lib/parse.c\<close>): every token consumes input, so the parser returns for
    any text, and a printed integer field is parsed back into the message.
  \<^item> \<open>Typed_Fields\<close> composes \<open>Layout\<close>, \<open>Types\<close>, \<open>Obj\<close> and \<open>Ref\<close>: the fields of a compiled schema are read
    with values of their type in every object reached in any buffer, and it is known exactly on which of
    these objects a getter aborts.
  \<^item> \<open>Printf\<close>: the conversions of \<^verbatim>\<open>fprintf\<close> that the compiler uses, and \<open>read_schema\<close>, which reads a whole
    schema message into a value; it states what the programs below print.
  \<^item> \<open>Grammar\<close> (\<^verbatim>\<open>lex.stub.c\<close>, \<^verbatim>\<open>nbuf.y\<close>): the tokens and the grammar of schemas.  The rules of \<^verbatim>\<open>nbuf.y\<close> are
    those of a predictive parser, one function per nonterminal with the actions of its rules.
    \<open>Source\<close>: every name in a description that it accepts is an identifier and no keyword.
  \<^item> \<open>B2t\<close> (\<^verbatim>\<open>b2t.c\<close>): the text printed for a schema is parsed back to its description
    (\<open>decompiled_text_parses_back\<close>).  \<open>B2c\<close> (\<^verbatim>\<open>b2c.c\<close>): the numbers printed are the bytes of the schema.
  \<^item> \<open>B2h\<close> (\<^verbatim>\<open>b2h.c\<close>, \<^verbatim>\<open>b2h_common.h\<close>) and \<open>B2hh\<close> (\<^verbatim>\<open>b2hh.c\<close>): the header generators.  \<open>Accessors\<close> gives the
    printed statements and declared types a meaning, which is that of C and C++ and no code of the
    repository: a generated getter reads what a field reference reads, an enumeration in C as the
    compiler's cast converts it.  \<open>Headers\<close>: when
    a header is produced at all, and where the headers are wrong.
  \<^item> \<open>Regions\<close>: writing a message step by step.  A step says which bytes it changes and through which
    bytes what it wrote is read; steps on disjoint bytes compose, in sequences and in loops over vectors.
  \<^item> \<open>T2b\<close> (\<^verbatim>\<open>t2b.c\<close>): storing a description with its layout as a message.  \<open>Compiled\<close>: the message reads
    back as the description (\<open>compiled_schema_reads_back\<close>), and its printed text is the source again.
  \<^item> \<open>Nbufc\<close> (\<^verbatim>\<open>nbufc.c\<close>): the command over all of these.  A schema compiled, printed and compiled again
    gives the same bytes (\<open>schema_survives_command\<close>).
  \<^item> \<open>Rpc\<close> (\<^verbatim>\<open>rpc/nrpc.c\<close>): the connection as a step relation; a message is delivered unchanged however
    the stream is cut.  \<open>Client\<close> (\<^verbatim>\<open>rpc/nrpc_cli.c\<close>) and \<open>Echo\<close>
    (\<^verbatim>\<open>rpc/echoserver.c\<close>): the callbacks of the client and of a server.

  \<^bold>\<open>Bounds and fuel.\<close>  Loops over memory recurse over a counter or the input left, and the lexer's loops
  end because each round reads a character.  The two printers and the parser recurse with fuel, and
  running out is a result of its own, apart from an abort.  For the printer one unit per byte of the
  buffer and one more is enough when the pointers of the objects it meets lead forward
  (\<open>raw_print_is_safe\<close>); for the parser one
  unit per byte of text and one more is always enough (\<open>parser_returns\<close>).  Theorems about appending to
  buffers bound the length by \<open>2 ^ 60\<close>, below which \<^verbatim>\<open>nbuf_reserve\<close> never overflows; the transport
  bounds the announced length by \<open>2 ^ 31\<close>, since \<^verbatim>\<open>nrpc_write\<close> stores it in 4 bytes and
  \<^verbatim>\<open>on_read\<close> extends its sign.

  A compiled schema is at most \<open>2 ^ 32\<close> bytes (\<open>schema_size\<close>), so that all counts fit 32 bits and all
  pointers the 31 bits that are read of them.

  \<^bold>\<open>Not modelled.\<close>  The tables and the driver that bison makes from \<^verbatim>\<open>nbuf.y\<close> are not part of the
  repository.  \<^verbatim>\<open>cleanup\<close> of \<^verbatim>\<open>t2b.c\<close> frees what is not used again; the nodes
  of its list of holes, allocated in two places without a check, are taken to be granted, unlike those that
  the actions of \<^verbatim>\<open>nbuf.y\<close> allocate.  In \<^verbatim>\<open>rpc/nrpc_cli.c\<close> and
  \<^verbatim>\<open>rpc/echoserver.c\<close>, \<^verbatim>\<open>main\<close>, \<^verbatim>\<open>run_client\<close> and \<^verbatim>\<open>run_server\<close> set up a socket and run the loop of libuv;
  the accessors of the server's messages are generated when it is built and are parameters.
  \<^verbatim>\<open>example/\<close>, the benchmark and the Python binding are outside the library.
\<close>

end
